(* ===== verification/Prelude.thy ===== *)
theory Prelude
  imports Main "HOL-Library.Word" "HOL-Library.Monad_Syntax"
begin

text \<open>
  Shared vocabulary of the development.
  Machine integers are words of their C width; plain \<open>char\<close> is unsigned on the ARM target
  (the project file leaves "plain char is signed" off), so a C byte is a \<open>u8\<close>.
  A pointer into an object is the list of the bytes from the place it points to up to the end of
  the object: \<open>p + n\<close> is \<open>drop n p\<close>.
  The result \<open>None\<close> of a modelled C function means undefined behaviour (a read or a write
  outside the object, an unterminated string); a function that cannot go wrong has no option.
  The collection \<open>cmem\<close> holds the facts that resolve checked reads and writes.
\<close>

named_theorems cmem

unbundle bit_operations_syntax

type_synonym u8 = "8 word"
type_synonym u16 = "16 word"
type_synonym u32 = "32 word"

section \<open>Checked memory\<close>

definition rd :: "'a list \<Rightarrow> nat \<Rightarrow> 'a option" where
  "rd p i = (if i < length p then Some (p ! i) else None)"

definition wr :: "'a list \<Rightarrow> nat \<Rightarrow> 'a \<Rightarrow> 'a list option" where
  "wr p i b = (if i < length p then Some (p[i := b]) else None)"

fun wrs :: "'a list \<Rightarrow> nat \<Rightarrow> 'a list \<Rightarrow> 'a list option" where
  "wrs p i [] = Some p"
| "wrs p i (b # bs) = do { p \<leftarrow> wr p i b; wrs p (Suc i) bs }"

lemma rd_in [cmem]: "i < length p \<Longrightarrow> rd p i = Some (p ! i)"
  by (simp add: rd_def)

lemma rd_out [cmem]: "length p \<le> i \<Longrightarrow> rd p i = None"
  by (simp add: rd_def)

lemma rd_Some_iff: "rd p i = Some b \<longleftrightarrow> i < length p \<and> p ! i = b"
  by (auto simp: rd_def)

lemma rd_None_iff: "rd p i = None \<longleftrightarrow> length p \<le> i"
  by (auto simp: rd_def)

lemma wr_in [cmem]: "i < length p \<Longrightarrow> wr p i b = Some (p[i := b])"
  by (simp add: wr_def)

lemma wr_out [cmem]: "length p \<le> i \<Longrightarrow> wr p i b = None"
  by (simp add: wr_def)

lemma wr_Some_iff: "wr p i b = Some q \<longleftrightarrow> i < length p \<and> q = p[i := b]"
  by (auto simp: wr_def)

lemma wr_length: "wr p i b = Some q \<Longrightarrow> length q = length p"
  by (auto simp: wr_Some_iff)

lemma wr_append [simp]: "wr (xs @ y # ys) (length xs) v = Some (xs @ v # ys)"
  by (simp add: wr_def)

lemma wrs_append:
  "length zs \<le> length ys \<Longrightarrow>
     wrs (xs @ ys) (length xs) zs = Some (xs @ zs @ drop (length zs) ys)"
proof (induction zs arbitrary: xs ys)
  case Nil
  then show ?case by simp
next
  case (Cons z zs)
  then obtain y ys' where ys: "ys = y # ys'" by (cases ys) auto
  with Cons.prems have "length zs \<le> length ys'" by simp
  from Cons.IH [OF this, of "xs @ [z]"] show ?case by (simp add: ys)
qed

lemma wrs_at:
  "i + length zs \<le> length p \<Longrightarrow>
     wrs p i zs = Some (take i p @ zs @ drop (i + length zs) p)"
  using wrs_append [of zs "drop i p" "take i p"] by (simp add: add.commute min_absorb2)

lemma wrs_short: "length p < i + length zs \<Longrightarrow> zs \<noteq> [] \<Longrightarrow> wrs p i zs = None"
proof (induction zs arbitrary: p i)
  case Nil
  then show ?case by simp
next
  case (Cons z zs)
  show ?case
  proof (cases "i < length p")
    case True
    with Cons.prems have "length (p[i := z]) < Suc i + length zs" by simp
    moreover from this True have "zs \<noteq> []" by auto
    ultimately show ?thesis using True Cons.IH by (simp add: wr_in)
  next
    case False
    then show ?thesis by (simp add: wr_out)
  qed
qed

lemma wrs_length: "wrs p i zs = Some q \<Longrightarrow> length q = length p"
  by (induction p i zs rule: wrs.induct) (auto simp: wr_Some_iff split: bind_splits)

lemma length_ge3_ex: "3 \<le> length xs \<Longrightarrow> \<exists>a b c r. xs = a # b # c # r"
  by (cases xs; cases "tl xs"; cases "tl (tl xs)") auto

section \<open>The counting loop\<close>

text \<open>\<open>for_up i n f s\<close> is \<open>for (k = i; k < i + n; k++) s = f(k, s)\<close>, stopping at the
  first undefined step.\<close>

fun for_up :: "nat \<Rightarrow> nat \<Rightarrow> (nat \<Rightarrow> 's \<Rightarrow> 's option) \<Rightarrow> 's \<Rightarrow> 's option" where
  "for_up i 0 f s = Some s"
| "for_up i (Suc n) f s = do { s \<leftarrow> f i s; for_up (Suc i) n f s }"

lemma for_up_total:
  assumes "P i s"
    and "\<And>k t. i \<le> k \<Longrightarrow> k < i + n \<Longrightarrow> P k t \<Longrightarrow> \<exists>t'. f k t = Some t' \<and> P (Suc k) t'"
  shows "\<exists>t. for_up i n f s = Some t \<and> P (i + n) t"
  using assms
proof (induction n arbitrary: i s)
  case 0
  then show ?case by simp
next
  case (Suc n)
  from Suc.prems(1) Suc.prems(2) [of i s] obtain s1 where "f i s = Some s1" "P (Suc i) s1"
    by auto
  moreover have "\<exists>t. for_up (Suc i) n f s1 = Some t \<and> P (Suc i + n) t"
    by (rule Suc.IH) (use calculation Suc.prems(2) in auto)
  ultimately show ?case by simp
qed

lemma for_up_partial:
  assumes "for_up i n f s = Some t" and "P i s"
    and "\<And>k u v. i \<le> k \<Longrightarrow> k < i + n \<Longrightarrow> P k u \<Longrightarrow> f k u = Some v \<Longrightarrow> P (Suc k) v"
  shows "P (i + n) t"
  using assms
proof (induction n arbitrary: i s)
  case 0
  then show ?case by simp
next
  case (Suc n)
  from Suc.prems(1) obtain s1 where s1: "f i s = Some s1" "for_up (Suc i) n f s1 = Some t"
    by (auto split: bind_splits)
  have "P (Suc i + n) t"
    by (rule Suc.IH [OF s1(2)]) (use s1 Suc.prems in auto)
  then show ?case by simp
qed

lemma for_up_determ:
  assumes "\<And>k. i \<le> k \<Longrightarrow> k < i + n \<Longrightarrow> f k (g k) = Some (g (Suc k))"
  shows "for_up i n f (g i) = Some (g (i + n))"
  using assms
proof (induction n arbitrary: i)
  case 0
  then show ?case by simp
next
  case (Suc n)
  have "for_up (Suc i) n f (g (Suc i)) = Some (g (Suc i + n))"
    by (rule Suc.IH) (use Suc.prems in auto)
  moreover have "f i (g i) = Some (g (Suc i))" using Suc.prems by simp
  ultimately show ?case by simp
qed

lemma for_up_add:
  "for_up i (m + n) f s = do { t \<leftarrow> for_up i m f s; for_up (i + m) n f t }"
  by (induction m arbitrary: i s) (auto split: bind_splits)

lemma for_up_last: "for_up i (Suc n) f s = do { t \<leftarrow> for_up i n f s; f (i + n) t }"
proof -
  have "for_up (i + n) 1 f t = f (i + n) t" for t by (cases "f (i + n) t") simp_all
  then show ?thesis using for_up_add [of i n 1 f s] by (simp del: for_up.simps)
qed

lemma for_up_cong:
  "(\<And>k s. i \<le> k \<Longrightarrow> k < i + n \<Longrightarrow> f k s = g k s) \<Longrightarrow> for_up i n f s = for_up i n g s"
proof (induction n arbitrary: i s)
  case 0
  then show ?case by simp
next
  case (Suc n)
  have "for_up (Suc i) n f t = for_up (Suc i) n g t" for t
    by (rule Suc.IH) (use Suc.prems in auto)
  then have "for_up (Suc i) n f = for_up (Suc i) n g" by blast
  with Suc.prems [of i] show ?case by simp
qed

text \<open>A counted loop that a \<open>goto\<close> may leave with an exit value.\<close>

fun for_exit :: "nat \<Rightarrow> nat \<Rightarrow> (nat \<Rightarrow> 's \<Rightarrow> ('e option \<times> 's) option) \<Rightarrow> 's \<Rightarrow> ('e option \<times> 's) option" where
  "for_exit i 0 f s = Some (None, s)"
| "for_exit i (Suc n) f s = do {
     (e, s') \<leftarrow> f i s;
     (case e of None \<Rightarrow> for_exit (Suc i) n f s' | Some e \<Rightarrow> Some (Some e, s')) }"

lemma for_exit_total:
  assumes "P i s"
    and "\<And>k t. i \<le> k \<Longrightarrow> k < i + n \<Longrightarrow> P k t \<Longrightarrow> \<exists>t'. f k t = Some (None, t') \<and> P (Suc k) t'"
  shows "\<exists>t. for_exit i n f s = Some (None, t) \<and> P (i + n) t"
  using assms
proof (induction n arbitrary: i s)
  case 0
  then show ?case by simp
next
  case (Suc n)
  from Suc.prems(1) Suc.prems(2) [of i s] obtain s1 where s1: "f i s = Some (None, s1)" "P (Suc i) s1" by auto
  have "\<exists>t. for_exit (Suc i) n f s1 = Some (None, t) \<and> P (Suc i + n) t"
    by (rule Suc.IH [OF s1(2)]) (use Suc.prems(2) in auto)
  with s1 show ?case by simp
qed

lemma for_exit_partial:
  assumes "for_exit i n f s = Some (r, t)" and "P i s"
    and "\<And>k u v. i \<le> k \<Longrightarrow> k < i + n \<Longrightarrow> P k u \<Longrightarrow> f k u = Some (None, v) \<Longrightarrow> P (Suc k) v"
    and "\<And>k u e v. i \<le> k \<Longrightarrow> k < i + n \<Longrightarrow> P k u \<Longrightarrow> f k u = Some (Some e, v) \<Longrightarrow> Q e v"
  shows "case r of None \<Rightarrow> P (i + n) t | Some e \<Rightarrow> Q e t"
  using assms
proof (induction n arbitrary: i s)
  case 0
  then show ?case by simp
next
  case (Suc n)
  from Suc.prems(1) obtain e s1 where step: "f i s = Some (e, s1)"
    and rest: "(case e of None \<Rightarrow> for_exit (Suc i) n f s1 | Some e \<Rightarrow> Some (Some e, s1)) = Some (r, t)"
    by (auto split: bind_splits)
  show ?case
  proof (cases e)
    case None
    with step Suc.prems(2,3) have "P (Suc i) s1" by simp
    have "case r of None \<Rightarrow> P (Suc i + n) t | Some e \<Rightarrow> Q e t"
    proof (rule Suc.IH [OF _ \<open>P (Suc i) s1\<close>])
      show "for_exit (Suc i) n f s1 = Some (r, t)" using None rest by simp
      show "P (Suc k) v" if "Suc i \<le> k" "k < Suc i + n" "P k u" "f k u = Some (None, v)" for k u v
        using Suc.prems(3) [of k u v] that by simp
      show "Q e v" if "Suc i \<le> k" "k < Suc i + n" "P k u" "f k u = Some (Some e, v)" for k u e v
        using Suc.prems(4) [of k u e v] that by simp
    qed
    then show ?thesis by (cases r) simp_all
  next
    case (Some x)
    with step rest have "r = Some x" "t = s1" by auto
    moreover have "Q x s1" using Suc.prems(2) Suc.prems(4) [of i s x s1] step Some by simp
    ultimately show ?thesis by simp
  qed
qed

section \<open>C strings\<close>

text \<open>\<open>bytes ''abc''\<close> is a string literal without its terminating NUL; \<open>cstr p\<close> the string a
  pointer denotes, undefined when its object holds no NUL.\<close>

definition bytes :: "string \<Rightarrow> u8 list" where
  "bytes s = map of_char s"

fun cstr :: "u8 list \<Rightarrow> u8 list option" where
  "cstr [] = None"
| "cstr (c # cs) = (if c = 0 then Some [] else map_option (Cons c) (cstr cs))"

fun prefix_at :: "'a list \<Rightarrow> 'a list \<Rightarrow> bool" where
  "prefix_at [] hs = True"
| "prefix_at (n # ns) [] = False"
| "prefix_at (n # ns) (h # hs) = (n = h \<and> prefix_at ns hs)"

fun find_sub :: "'a list \<Rightarrow> 'a list \<Rightarrow> nat option" where
  "find_sub n [] = (if n = [] then Some 0 else None)"
| "find_sub n (h # hs) = (if prefix_at n (h # hs) then Some 0 else map_option Suc (find_sub n hs))"

definition strstr :: "u8 list \<Rightarrow> u8 list \<Rightarrow> nat option option" where
  "strstr hay needle = do { h \<leftarrow> cstr hay; Some (find_sub needle h) }"

lemma bytes_simps [simp]:
  "bytes [] = []" "bytes (c # cs) = of_char c # bytes cs" "length (bytes s) = length s"
  by (simp_all add: bytes_def)

lemma bytes_append [simp]: "bytes (s @ t) = bytes s @ bytes t"
  by (simp add: bytes_def)

lemma prefix_at_append [simp]: "prefix_at n (n @ hs)"
  by (induction n) auto

lemma prefix_at_iff: "prefix_at n h \<longleftrightarrow> (\<exists>r. h = n @ r)"
  by (induction n h rule: prefix_at.induct) auto

lemma find_sub_iff: "find_sub n h \<noteq> None \<longleftrightarrow> (\<exists>a b. h = a @ n @ b)"
proof (induction n h rule: find_sub.induct)
  case (1 n)
  then show ?case by auto
next
  case (2 n h hs)
  show ?case
  proof (cases "prefix_at n (h # hs)")
    case True
    then show ?thesis by (auto simp: prefix_at_iff intro: exI [of _ "[]"])
  next
    case False
    then have "(\<exists>a b. h # hs = a @ n @ b) = (\<exists>a b. hs = a @ n @ b)"
      by (auto simp: prefix_at_iff Cons_eq_append_conv)
    with 2 False show ?thesis by simp
  qed
qed

lemma find_sub_append: "find_sub n (a @ n @ b) \<noteq> None"
  by (auto simp: find_sub_iff simp del: not_None_eq)

lemma find_sub_SomeD: "find_sub n h = Some k \<Longrightarrow> \<exists>b. h = take k h @ n @ b \<and> k + length n \<le> length h"
proof (induction n h arbitrary: k rule: find_sub.induct)
  case (1 n)
  then show ?case by (auto split: if_splits)
next
  case (2 n h hs)
  show ?case
  proof (cases "prefix_at n (h # hs)")
    case True
    then obtain r where "h # hs = n @ r" by (auto simp: prefix_at_iff)
    moreover from this have "length n \<le> Suc (length hs)" by (metis length_Cons length_append le_add1)
    moreover from 2 True have "k = 0" by simp
    ultimately show ?thesis by auto
  next
    case False
    with 2 show ?thesis by fastforce
  qed
qed

lemma cstr_append_NUL: "0 \<notin> set s \<Longrightarrow> cstr (s @ 0 # r) = Some s"
  by (induction s) auto

lemma cstr_SomeD: "cstr p = Some s \<Longrightarrow> 0 \<notin> set s \<and> (\<exists>r. p = s @ 0 # r)"
  by (induction p arbitrary: s) (auto split: if_splits)

lemma cstr_NoneD: "cstr p = None \<longleftrightarrow> 0 \<notin> set p"
  by (induction p) (auto)

lemma cstr_length: "cstr p = Some s \<Longrightarrow> length s < length p"
  using cstr_SomeD by fastforce

lemma unat_of_nat_len: "n < 2 ^ LENGTH('a) \<Longrightarrow> unat (of_nat n :: 'a::len word) = n"
  by (simp add: unat_of_nat take_bit_nat_eq_self)

text \<open>Equality of bytes bit by bit.\<close>

lemma u8_eqI:
  fixes a b :: u8
  assumes "bit a 0 = bit b 0" "bit a 1 = bit b 1" "bit a 2 = bit b 2" "bit a 3 = bit b 3"
    "bit a 4 = bit b 4" "bit a 5 = bit b 5" "bit a 6 = bit b 6" "bit a 7 = bit b 7"
  shows "a = b"
proof (rule bit_word_eqI)
  fix n :: nat
  assume "n < LENGTH(8)"
  then have "n \<in> {0, 1, 2, 3, 4, 5, 6, 7}" by auto
  with assms show "bit a n = bit b n" by auto
qed

section \<open>Decimal text\<close>

function dec_nat :: "nat \<Rightarrow> u8 list" where
  "dec_nat n = (if n < 10 then [of_nat (48 + n)] else dec_nat (n div 10) @ [of_nat (48 + n mod 10)])"
  by pat_completeness auto
termination
  by (relation "measure id") auto

declare dec_nat.simps [simp del]

text \<open>\<open>%d\<close> of an \<open>int\<close>, and of a \<open>uint32_t\<close> passed where an \<open>int\<close> is expected.\<close>

definition dec_int :: "int \<Rightarrow> u8 list" where
  "dec_int i = (if i < 0 then 45 # dec_nat (nat (- i)) else dec_nat (nat i))"

definition fmt_d :: "u32 \<Rightarrow> u8 list" where
  "fmt_d w = dec_int (sint w)"

fun dec_digits :: "u8 list \<Rightarrow> nat \<Rightarrow> nat" where
  "dec_digits [] acc = acc"
| "dec_digits (c # cs) acc = (if 48 \<le> c \<and> c \<le> 57 then dec_digits cs (10 * acc + (unat c - 48)) else acc)"

lemma dec_nat_neq_Nil [simp]: "dec_nat n \<noteq> []"
  by (subst dec_nat.simps) simp

lemma digit_word: "d < 10 \<Longrightarrow> 48 \<le> (of_nat (48 + d) :: u8) \<and> (of_nat (48 + d) :: u8) \<le> 57 \<and> unat (of_nat (48 + d) :: u8) = 48 + d"
  by (simp add: word_le_nat_alt unat_of_nat_len del: of_nat_add)

lemma dec_nat_digits: "c \<in> set (dec_nat n) \<Longrightarrow> 48 \<le> c \<and> c \<le> 57"
proof (induction n rule: dec_nat.induct)
  case (1 n)
  show ?case
  proof (cases "n < 10")
    case True
    with "1.prems" digit_word [of n] show ?thesis by (simp add: dec_nat.simps [of n])
  next
    case False
    with 1 digit_word [of "n mod 10"] show ?thesis by (auto simp: dec_nat.simps [of n])
  qed
qed

lemma dec_nat_no_NUL: "0 \<notin> set (dec_nat n)"
  using dec_nat_digits [of 0 n] by auto

lemma length_dec_nat_le: "n < 10 ^ k \<Longrightarrow> 0 < k \<Longrightarrow> length (dec_nat n) \<le> k"
proof (induction n arbitrary: k rule: dec_nat.induct)
  case (1 n)
  show ?case
  proof (cases "n < 10")
    case True
    with "1.prems" show ?thesis by (simp add: dec_nat.simps [of n])
  next
    case False
    with "1.prems" obtain k' where k: "k = Suc k'" "0 < k'" by (cases k) (auto, case_tac nat, auto)
    with False "1.prems" have "length (dec_nat (n div 10)) \<le> k'"
      by (intro "1.IH") (auto simp: less_mult_imp_div_less mult.commute)
    with False k show ?thesis by (simp add: dec_nat.simps [of n])
  qed
qed

lemma dec_digits_append:
  "(\<And>c. c \<in> set xs \<Longrightarrow> 48 \<le> c \<and> c \<le> 57) \<Longrightarrow> dec_digits (xs @ ys) a = dec_digits ys (dec_digits xs a)"
  by (induction xs arbitrary: a) auto

lemma dec_digits_dec_nat: "dec_digits (dec_nat n) 0 = n"
proof (induction n rule: dec_nat.induct)
  case (1 n)
  show ?case
  proof (cases "n < 10")
    case True
    with digit_word [of n] show ?thesis by (simp add: dec_nat.simps [of n])
  next
    case False
    with 1 digit_word [of "n mod 10"] show ?thesis
      by (simp add: dec_nat.simps [of n] dec_digits_append [OF dec_nat_digits] del: of_nat_add)
  qed
qed

lemma dec_digits_parse:
  assumes "ys = [] \<or> \<not> (48 \<le> hd ys \<and> hd ys \<le> 57)"
  shows "dec_digits (dec_nat n @ ys) 0 = n"
proof -
  have "dec_digits (dec_nat n @ ys) 0 = dec_digits ys n"
    by (simp add: dec_digits_append [OF dec_nat_digits] dec_digits_dec_nat)
  also have "\<dots> = n" using assms by (cases ys) auto
  finally show ?thesis .
qed

end
