(* ===== verification/Crc16.thy ===== *)
theory Crc16
  imports Prelude
begin

text \<open>
  The table-driven CRC-16 of \<open>CRC16/lib_crc16.cpp\<close> (polynomial 0x8005, reflected 0xA001), its
  two entry points that differ in the initial value, and the bitwise division the table
  abbreviates.  Lemmas: the 256 entries are the eight-step remainders of their indices, the
  bitwise step is linear over exclusive or, hence the table-driven update is the bitwise one; a
  message followed by its own CRC, low byte first, leaves the remainder 0.
\<close>

unbundle bit_operations_syntax

section \<open>The code\<close>

definition crc_tab_8005_reflected :: "u16 list" where
  "crc_tab_8005_reflected =
  [0x0000, 0xC0C1, 0xC181, 0x0140, 0xC301, 0x03C0, 0x0280, 0xC241,
   0xC601, 0x06C0, 0x0780, 0xC741, 0x0500, 0xC5C1, 0xC481, 0x0440,
   0xCC01, 0x0CC0, 0x0D80, 0xCD41, 0x0F00, 0xCFC1, 0xCE81, 0x0E40,
   0x0A00, 0xCAC1, 0xCB81, 0x0B40, 0xC901, 0x09C0, 0x0880, 0xC841,
   0xD801, 0x18C0, 0x1980, 0xD941, 0x1B00, 0xDBC1, 0xDA81, 0x1A40,
   0x1E00, 0xDEC1, 0xDF81, 0x1F40, 0xDD01, 0x1DC0, 0x1C80, 0xDC41,
   0x1400, 0xD4C1, 0xD581, 0x1540, 0xD701, 0x17C0, 0x1680, 0xD641,
   0xD201, 0x12C0, 0x1380, 0xD341, 0x1100, 0xD1C1, 0xD081, 0x1040,
   0xF001, 0x30C0, 0x3180, 0xF141, 0x3300, 0xF3C1, 0xF281, 0x3240,
   0x3600, 0xF6C1, 0xF781, 0x3740, 0xF501, 0x35C0, 0x3480, 0xF441,
   0x3C00, 0xFCC1, 0xFD81, 0x3D40, 0xFF01, 0x3FC0, 0x3E80, 0xFE41,
   0xFA01, 0x3AC0, 0x3B80, 0xFB41, 0x3900, 0xF9C1, 0xF881, 0x3840,
   0x2800, 0xE8C1, 0xE981, 0x2940, 0xEB01, 0x2BC0, 0x2A80, 0xEA41,
   0xEE01, 0x2EC0, 0x2F80, 0xEF41, 0x2D00, 0xEDC1, 0xEC81, 0x2C40,
   0xE401, 0x24C0, 0x2580, 0xE541, 0x2700, 0xE7C1, 0xE681, 0x2640,
   0x2200, 0xE2C1, 0xE381, 0x2340, 0xE101, 0x21C0, 0x2080, 0xE041,
   0xA001, 0x60C0, 0x6180, 0xA141, 0x6300, 0xA3C1, 0xA281, 0x6240,
   0x6600, 0xA6C1, 0xA781, 0x6740, 0xA501, 0x65C0, 0x6480, 0xA441,
   0x6C00, 0xACC1, 0xAD81, 0x6D40, 0xAF01, 0x6FC0, 0x6E80, 0xAE41,
   0xAA01, 0x6AC0, 0x6B80, 0xAB41, 0x6900, 0xA9C1, 0xA881, 0x6840,
   0x7800, 0xB8C1, 0xB981, 0x7940, 0xBB01, 0x7BC0, 0x7A80, 0xBA41,
   0xBE01, 0x7EC0, 0x7F80, 0xBF41, 0x7D00, 0xBDC1, 0xBC81, 0x7C40,
   0xB401, 0x74C0, 0x7580, 0xB541, 0x7700, 0xB7C1, 0xB681, 0x7640,
   0x7200, 0xB2C1, 0xB381, 0x7340, 0xB101, 0x71C0, 0x7080, 0xB041,
   0x5000, 0x90C1, 0x9181, 0x5140, 0x9301, 0x53C0, 0x5280, 0x9241,
   0x9601, 0x56C0, 0x5780, 0x9741, 0x5500, 0x95C1, 0x9481, 0x5440,
   0x9C01, 0x5CC0, 0x5D80, 0x9D41, 0x5F00, 0x9FC1, 0x9E81, 0x5E40,
   0x5A00, 0x9AC1, 0x9B81, 0x5B40, 0x9901, 0x59C0, 0x5880, 0x9841,
   0x8801, 0x48C0, 0x4980, 0x8941, 0x4B00, 0x8BC1, 0x8A81, 0x4A40,
   0x4E00, 0x8EC1, 0x8F81, 0x4F40, 0x8D01, 0x4DC0, 0x4C80, 0x8C41,
   0x4400, 0x84C1, 0x8581, 0x4540, 0x8701, 0x47C0, 0x4680, 0x8641,
   0x8201, 0x42C0, 0x4380, 0x8341, 0x4100, 0x81C1, 0x8081, 0x4040]"

text \<open>\<open>char\<close> to \<open>uint16_t\<close> is an unsigned widening.  The index is masked to a byte, so the table
  read is in range.\<close>

definition update_crc16_reflected :: "u16 list \<Rightarrow> u16 \<Rightarrow> u8 \<Rightarrow> u16" where
  "update_crc16_reflected table crc c =
     (let short_c = 0x00ff AND (ucast c :: u16)
      in drop_bit 8 crc XOR table ! unat ((crc XOR short_c) AND 0xff))"

definition update_crc16_A001 :: "u16 \<Rightarrow> u8 \<Rightarrow> u16" where
  "update_crc16_A001 crc c = update_crc16_reflected crc_tab_8005_reflected crc c"

text \<open>The loop reads \<open>len\<close> bytes from the pointer.\<close>

fun crc16_loop :: "u16 \<Rightarrow> u8 list \<Rightarrow> nat \<Rightarrow> u16 option" where
  "crc16_loop crc p 0 = Some crc"
| "crc16_loop crc p (Suc n) = do { c \<leftarrow> rd p 0; crc16_loop (update_crc16_A001 crc c) (drop 1 p) n }"

definition calculate_crc16 :: "u8 list \<Rightarrow> u32 \<Rightarrow> u16 option" where
  "calculate_crc16 p len = crc16_loop 0 p (unat len)"

definition calculate_crc16_Modbus :: "u8 list \<Rightarrow> u32 \<Rightarrow> u16 option" where
  "calculate_crc16_Modbus p len = crc16_loop 0xFFFF p (unat len)"

section \<open>The reference: division bit by bit\<close>

definition crc_bit :: "u16 \<Rightarrow> u16" where
  "crc_bit x = (if bit x 0 then drop_bit 1 x XOR 0xA001 else drop_bit 1 x)"

definition crc_byte :: "u16 \<Rightarrow> u8 \<Rightarrow> u16" where
  "crc_byte crc c = (crc_bit ^^ 8) (crc XOR ucast c)"

definition crc_spec :: "u16 \<Rightarrow> u8 list \<Rightarrow> u16" where
  "crc_spec = foldl crc_byte"

section \<open>The table is the reference\<close>

lemma crc_tab_length [simp]: "length crc_tab_8005_reflected = 256"
  by (simp add: crc_tab_8005_reflected_def)

lemma crc_bit_simps:
  "crc_bit 0 = 0"
  "crc_bit 1 = 0xA001"
  "crc_bit (numeral (num.Bit0 n)) = drop_bit 1 (numeral (num.Bit0 n))"
  "crc_bit (numeral (num.Bit1 n)) = drop_bit 1 (numeral (num.Bit1 n)) XOR 0xA001"
  by (simp_all add: crc_bit_def)

lemma funpow_8: "(f ^^ 8) x = f (f (f (f (f (f (f (f x)))))))"
  by (simp add: numeral_eq_Suc)

lemma crc_tab_eq: "crc_tab_8005_reflected = map (\<lambda>i. (crc_bit ^^ 8) (of_nat i)) [0..<256]"
  by (simp add: crc_tab_8005_reflected_def upt_rec funpow_8 crc_bit_simps)

lemma bit_0xff: "bit (0xff :: 'a::ring_bit_operations) n \<longleftrightarrow> possible_bit TYPE('a) n \<and> n < 8"
proof -
  have "(0xff :: 'a) = mask 8" by (simp add: mask_eq_exp_minus_1)
  then show ?thesis by (simp only: bit_mask_iff)
qed

lemma crc_tab_nth: "i < 256 \<Longrightarrow> crc_tab_8005_reflected ! i = (crc_bit ^^ 8) (of_nat i)"
  by (simp add: crc_tab_eq)

lemma crc_bit_xor: "crc_bit (x XOR y) = crc_bit x XOR crc_bit y"
  by (rule bit_word_eqI) (auto simp: crc_bit_def bit_simps)

lemma crc_bits_xor: "(crc_bit ^^ n) (x XOR y) = (crc_bit ^^ n) x XOR (crc_bit ^^ n) y"
  by (induction n arbitrary: x y) (simp_all add: crc_bit_xor)

lemma crc_bits_shift: "(\<And>i. i < n \<Longrightarrow> \<not> bit x i) \<Longrightarrow> (crc_bit ^^ n) x = drop_bit n x"
proof (induction n)
  case 0
  then show ?case by simp
next
  case (Suc n)
  then have "(crc_bit ^^ n) x = drop_bit n x" and "\<not> bit (drop_bit n x) 0"
    by (auto simp: bit_simps bit_0xff)
  then show ?case by (simp add: crc_bit_def [of "drop_bit n x"])
qed

lemma update_crc16_A001_eq: "update_crc16_A001 crc c = crc_byte crc c"
proof -
  define x where "x = crc XOR ucast c"
  have c: "0x00ff AND (ucast c :: u16) = ucast c"
    by (rule bit_word_eqI) (auto simp: bit_simps bit_0xff dest: bit_imp_le_length)
  have "unat (x AND 0xff) < 256"
    using word_and_le1 [of x "0xff"] by (simp add: word_le_nat_alt)
  then have tab: "crc_tab_8005_reflected ! unat (x AND 0xff) = (crc_bit ^^ 8) (x AND 0xff)"
    by (simp add: crc_tab_nth)
  have "drop_bit 8 crc = drop_bit 8 (x AND NOT 0xff)"
    by (rule bit_word_eqI) (auto simp: x_def bit_simps bit_0xff dest: bit_imp_le_length)
  also have "\<dots> = (crc_bit ^^ 8) (x AND NOT 0xff)"
    by (rule crc_bits_shift [symmetric]) (auto simp: bit_simps bit_0xff)
  finally have "update_crc16_A001 crc c = (crc_bit ^^ 8) ((x AND NOT 0xff) XOR (x AND 0xff))"
    by (simp add: update_crc16_A001_def update_crc16_reflected_def Let_def c tab crc_bits_xor flip: x_def)
  also have "(x AND NOT 0xff) XOR (x AND 0xff) = x"
    by (rule bit_word_eqI) (auto simp: bit_simps bit_0xff)
  finally show ?thesis by (simp add: crc_byte_def x_def)
qed

lemma crc16_loop_eq: "n \<le> length p \<Longrightarrow> crc16_loop crc p n = Some (crc_spec crc (take n p))"
proof (induction n arbitrary: crc p)
  case 0
  then show ?case by (simp add: crc_spec_def)
next
  case (Suc n)
  then obtain c cs where p: "p = c # cs" by (cases p) auto
  with Suc show ?case by (simp add: rd_def crc_spec_def update_crc16_A001_eq)
qed

lemma crc_spec_append: "crc_spec crc (p @ q) = crc_spec (crc_spec crc p) q"
  by (simp add: crc_spec_def)

text \<open>Feeding the two bytes of the register back, low byte first, clears it.\<close>

lemma crc_byte_low: "crc_byte crc (ucast crc) = drop_bit 8 crc"
proof -
  have "crc XOR ucast (ucast crc :: u8) = crc AND NOT 0xff"
    by (rule bit_word_eqI) (auto simp: bit_simps bit_0xff)
  moreover have "(crc_bit ^^ 8) (crc AND NOT 0xff) = drop_bit 8 (crc AND NOT 0xff)"
    by (rule crc_bits_shift) (auto simp: bit_simps bit_0xff)
  moreover have "drop_bit 8 (crc AND NOT 0xff) = drop_bit 8 crc"
    by (rule bit_word_eqI) (auto simp: bit_simps bit_0xff dest: bit_imp_le_length)
  ultimately show ?thesis by (simp add: crc_byte_def)
qed

lemma crc_residue: "crc_spec crc [ucast crc, ucast (drop_bit 8 crc)] = 0"
proof -
  have "drop_bit 8 crc XOR ucast (ucast (drop_bit 8 crc) :: u8) = 0"
    by (rule bit_word_eqI) (auto simp: bit_simps dest: bit_imp_le_length)
  then have "crc_byte (drop_bit 8 crc) (ucast (drop_bit 8 crc)) = 0"
    by (simp add: crc_byte_def crc_bits_shift)
  then show ?thesis by (simp add: crc_spec_def crc_byte_low)
qed

section \<open>Properties\<close>

text \<open>C24: The table-driven CRC is the bit-by-bit division by the polynomial: for every buffer and
  every length inside it, both entry points return the remainder the reference computes from
  their initial value.\<close>

theorem calculate_crc16_spec:
  assumes "unat n \<le> length p"
  shows "calculate_crc16 p n = Some (crc_spec 0 (take (unat n) p)) \<and>
    calculate_crc16_Modbus p n = Some (crc_spec 0xFFFF (take (unat n) p))"
  using assms by (simp_all add: calculate_crc16_def calculate_crc16_Modbus_def crc16_loop_eq)

theorem calculate_crc16_spec_witness:
  "calculate_crc16 (bytes ''123456789'') 9 = Some (crc_spec 0 (bytes ''123456789'')) \<and>
   calculate_crc16_Modbus (bytes ''123456789'') 9 = Some (crc_spec 0xFFFF (bytes ''123456789''))"
  using calculate_crc16_spec [of 9 "bytes ''123456789''"] by simp

text \<open>A message followed by its own CRC, low byte first, has the CRC 0; that is how a receiver
  checks a frame.\<close>

theorem crc16_appended_is_zero:
  assumes "length p + 2 < 2 ^ 32"
    and "calculate_crc16 p (of_nat (length p)) = Some crc"
  shows "calculate_crc16 (p @ [ucast crc, ucast (drop_bit 8 crc)]) (of_nat (length p + 2)) = Some 0"
proof -
  from assms(1) have "unat (of_nat (length p) :: u32) = length p"
    and len: "unat (of_nat (length p + 2) :: u32) = length p + 2"
    by (auto intro!: unat_of_nat_len simp del: of_nat_add of_nat_Suc)
  with assms(2) have "crc = crc_spec 0 p"
    by (simp add: calculate_crc16_def crc16_loop_eq)
  moreover have "crc16_loop 0 (p @ [a, b]) (length p + 2) = Some (crc_spec 0 (p @ [a, b]))" for a b
    by (subst crc16_loop_eq) simp_all
  ultimately show ?thesis
    by (simp only: calculate_crc16_def len crc_spec_append crc_residue)
qed

theorem crc16_appended_is_zero_witness:
  "calculate_crc16 [1, 2, 3, ucast (crc_spec 0 [1, 2, 3]), ucast (drop_bit 8 (crc_spec 0 [1, 2, 3]))] 5 = Some 0"
  using crc16_appended_is_zero [of "[1, 2, 3]" "crc_spec 0 [1, 2, 3]"]
  by (simp add: calculate_crc16_def crc16_loop_eq)

end
