(* ===== verification/UU.thy ===== *)
theory UU
  imports Prelude
begin

text \<open>
  The uuencode codec of \<open>UUencode/UUencode.cpp\<close>, used to move memory blocks through the ISP
  serial line.  Pointers that the code compares with NULL are options of byte lists.
  The arithmetic is that of C \<open>int\<close> truncated to \<open>char\<close>; every intermediate result only
  depends on the low eight bits of its operands, so it is computed on 8-bit words.
  Lemmas: one group of three bytes round-trips, the whole line round-trips for every length from
  1 to 45 although the decoder writes up to two bytes more, the encoder's footprint, and the
  branch of the encoder that pads a short last group is never reached.
\<close>

unbundle bit_operations_syntax

section \<open>The code\<close>

definition UU_ENCODE_BYTE :: "u8 \<Rightarrow> u8" where
  "UU_ENCODE_BYTE a = (if a = 0 then 0x60 else a + 0x20)"

definition UU_DECODE_BYTE :: "u8 \<Rightarrow> u8" where
  "UU_DECODE_BYTE a = (if a = 0 then 0x60 else a - 0x20)"

definition UU_ENCODE_LEN_BYTE :: "u8 \<Rightarrow> u8" where
  "UU_ENCODE_LEN_BYTE a = a + 0x20"

text \<open>\<open>UUencodeBase inp out q\<close>: \<open>q\<close> is the offset of \<open>out\<close> inside the output object.\<close>

definition UUencodeBase :: "u8 list \<Rightarrow> u8 list \<Rightarrow> nat \<Rightarrow> u8 list option" where
  "UUencodeBase inp out q = do {
     i0 \<leftarrow> rd inp 0;
     out \<leftarrow> wr out q (UU_ENCODE_BYTE (drop_bit 2 (i0 AND 0xFC)));
     i1 \<leftarrow> rd inp 1;
     out \<leftarrow> wr out (q + 1) (UU_ENCODE_BYTE (push_bit 4 (i0 AND 0x03) + drop_bit 4 (i1 AND 0xF0)));
     i2 \<leftarrow> rd inp 2;
     out \<leftarrow> wr out (q + 2) (UU_ENCODE_BYTE (push_bit 2 (i1 AND 0x0F) + drop_bit 6 (i2 AND 0xC0)));
     wr out (q + 3) (UU_ENCODE_BYTE (i2 AND 0x3F))
   }"

definition UUdecodeBase :: "u8 list \<Rightarrow> u8 list \<Rightarrow> nat \<Rightarrow> u8 list option" where
  "UUdecodeBase inp out q = do {
     i0 \<leftarrow> rd inp 0;
     i1 \<leftarrow> rd inp 1;
     out \<leftarrow> wr out q (push_bit 2 (UU_DECODE_BYTE i0) + drop_bit 4 (UU_DECODE_BYTE i1 AND 0x30));
     i2 \<leftarrow> rd inp 2;
     out \<leftarrow> wr out (q + 1)
       (push_bit 4 (UU_DECODE_BYTE i1 AND 0x0F) + drop_bit 2 (UU_DECODE_BYTE i2 AND 0x3C));
     i3 \<leftarrow> rd inp 3;
     wr out (q + 2) (push_bit 6 (UU_DECODE_BYTE i2 AND 0x03) + (UU_DECODE_BYTE i3 AND 0x3F))
   }"

text \<open>\<open>strncpy(str, p, 3)\<close>: bytes up to a NUL, then zeros.\<close>

fun strncpy :: "u8 list \<Rightarrow> nat \<Rightarrow> u8 list option" where
  "strncpy p 0 = Some []"
| "strncpy p (Suc n) = do {
     c \<leftarrow> rd p 0;
     if c = 0 then Some (replicate (Suc n) 0) else map_option (Cons c) (strncpy (drop 1 p) n) }"

definition uu_groups :: "nat \<Rightarrow> nat" where
  "uu_groups len = len div 3 + (if len mod 3 = 0 then 0 else 1)"

text \<open>One turn of the encoder's loop, with the padding branch the code writes.\<close>

definition UUencode_step :: "u8 list \<Rightarrow> nat \<Rightarrow> nat \<Rightarrow> u8 list \<Rightarrow> u8 list option" where
  "UUencode_step input len i out =
     (let num = uu_groups len in
      if int i \<le> int num - 1 then UUencodeBase (drop (i * 3) input) out (i * 4 + 1)
      else (let j = len mod 3 in
        if j = 0 then do {
          str \<leftarrow> strncpy (drop (i * 3) input) 3;
          UUencodeBase str out (i * 4 + 1) }
        else if j = 1 then do {
          c \<leftarrow> rd input (i * 3);
          UUencodeBase [c, 48, 48] out (i * 4 + 1) }
        else do {
          c \<leftarrow> rd input (3 * i);
          d \<leftarrow> rd input (3 * i + 1);
          UUencodeBase [c, d, 48] out (i * 4 + 1) }))"

definition UUencodeLine :: "u8 list option \<Rightarrow> u8 list option \<Rightarrow> u8 \<Rightarrow> (int \<times> u8 list option) option" where
  "UUencodeLine input output len =
     (case (input, output) of
       (Some inp, Some out) \<Rightarrow>
         if len = 0 \<or> 45 < len then Some (- 1, output)
         else do {
           out \<leftarrow> wr out 0 (UU_ENCODE_LEN_BYTE len);
           let num = uu_groups (unat len);
           out \<leftarrow> for_up 0 num (UUencode_step inp (unat len)) out;
           out \<leftarrow> wr out (num * 4 + 1) 13;
           out \<leftarrow> wr out (num * 4 + 2) 10;
           out \<leftarrow> wr out (num * 4 + 3) 0;
           Some (1, Some out)
         }
     | _ \<Rightarrow> Some (- 1, output))"

text \<open>The decoder falls off its end after a successful decode: it returns no value (\<open>None\<close>).\<close>

definition UUdecodeLine :: "u8 list option \<Rightarrow> u8 list option \<Rightarrow> (int option \<times> u8 list option) option" where
  "UUdecodeLine input output =
     (case (input, output) of
       (Some inp, Some out) \<Rightarrow> do {
         i0 \<leftarrow> rd inp 0;
         let len = uint i0 - 32;
         if len \<le> 0 \<or> len > 45 then Some (Some (- 2), output)
         else do {
           let num = uu_groups (nat len);
           out \<leftarrow> for_up 0 num (\<lambda>i out. UUdecodeBase (drop (4 * i + 1) inp) out (3 * i)) out;
           out \<leftarrow> wr out (nat len) 0;
           Some (None, Some out)
         } }
     | _ \<Rightarrow> Some (Some (- 1), output))"

section \<open>Groups\<close>

definition uu_enc3 :: "u8 \<Rightarrow> u8 \<Rightarrow> u8 \<Rightarrow> u8 list" where
  "uu_enc3 a b c =
     [UU_ENCODE_BYTE (drop_bit 2 (a AND 0xFC)),
      UU_ENCODE_BYTE (push_bit 4 (a AND 0x03) + drop_bit 4 (b AND 0xF0)),
      UU_ENCODE_BYTE (push_bit 2 (b AND 0x0F) + drop_bit 6 (c AND 0xC0)),
      UU_ENCODE_BYTE (c AND 0x3F)]"

definition uu_dec4 :: "u8 \<Rightarrow> u8 \<Rightarrow> u8 \<Rightarrow> u8 \<Rightarrow> u8 list" where
  "uu_dec4 p q r s =
     [push_bit 2 (UU_DECODE_BYTE p) + drop_bit 4 (UU_DECODE_BYTE q AND 0x30),
      push_bit 4 (UU_DECODE_BYTE q AND 0x0F) + drop_bit 2 (UU_DECODE_BYTE r AND 0x3C),
      push_bit 6 (UU_DECODE_BYTE r AND 0x03) + (UU_DECODE_BYTE s AND 0x3F)]"

text \<open>A sextet survives encoding up to its two top bits, which the decoder masks or shifts out.\<close>

lemma uu_sextet_no_wrap: "x AND 0x3F = x \<Longrightarrow> x + 0x20 \<noteq> (0 :: u8)"
proof
  assume "x AND 0x3F = x" "x + 0x20 = 0"
  moreover from this have "x = - 0x20" by (simp add: eq_neg_iff_add_eq_0)
  ultimately show False by simp
qed

lemma uu_byte_low: "x AND 0x3F = x \<Longrightarrow> UU_DECODE_BYTE (UU_ENCODE_BYTE x) AND 0x3F = x"
  using uu_sextet_no_wrap [of x] by (auto simp: UU_DECODE_BYTE_def UU_ENCODE_BYTE_def)

lemma uu_byte_bits:
  assumes "x AND 0x3F = x" and "n < 6"
  shows "bit (UU_DECODE_BYTE (UU_ENCODE_BYTE x)) n = bit x n"
proof -
  have "bit (0x3F :: u8) n" using assms(2) by (auto simp: less_Suc_eq numeral_eq_Suc bit_Suc)
  then have "bit (UU_DECODE_BYTE (UU_ENCODE_BYTE x)) n = bit (UU_DECODE_BYTE (UU_ENCODE_BYTE x) AND 0x3F) n"
    by (simp add: bit_simps)
  also have "\<dots> = bit x n" using uu_byte_low [OF assms(1)] by simp
  finally show ?thesis .
qed

lemma uu_disjoint:
  "push_bit 4 (a AND 0x03) AND drop_bit 4 (b AND (0xF0 :: u8)) = 0"
  "push_bit 2 (a AND 0x0F) AND drop_bit 6 (b AND (0xC0 :: u8)) = 0"
  "push_bit 2 a AND drop_bit 4 (b AND (0x30 :: u8)) = 0"
  "push_bit 4 (a AND 0x0F) AND drop_bit 2 (b AND (0x3C :: u8)) = 0"
  "push_bit 6 (a AND 0x03) AND (b AND (0x3F :: u8)) = 0"
  by (rule u8_eqI; simp add: bit_simps)+

lemmas uu_or = uu_disjoint [THEN disjunctive_add_eq_or]

lemma uu_sextets:
  "drop_bit 2 (a AND 0xFC) AND 0x3F = drop_bit 2 (a AND (0xFC :: u8))"
  "push_bit 4 (a AND 0x03) + drop_bit 4 (b AND 0xF0) AND 0x3F =
     push_bit 4 (a AND 0x03) + drop_bit 4 (b AND (0xF0 :: u8))"
  "push_bit 2 (a AND 0x0F) + drop_bit 6 (b AND 0xC0) AND 0x3F =
     push_bit 2 (a AND 0x0F) + drop_bit 6 (b AND (0xC0 :: u8))"
  "(a AND 0x3F) AND 0x3F = a AND (0x3F :: u8)"
  unfolding uu_or by (rule u8_eqI; simp add: bit_simps)+

lemma uu_dec4_enc3:
  "uu_dec4 (uu_enc3 a b c ! 0) (uu_enc3 a b c ! 1) (uu_enc3 a b c ! 2) (uu_enc3 a b c ! 3) = [a, b, c]"
proof -
  define w where "w = drop_bit 2 (a AND 0xFC)"
  define x where "x = push_bit 4 (a AND 0x03) + drop_bit 4 (b AND 0xF0)"
  define y where "y = push_bit 2 (b AND 0x0F) + drop_bit 6 (c AND 0xC0)"
  define z where "z = c AND 0x3F"
  have enc: "uu_enc3 a b c = [UU_ENCODE_BYTE w, UU_ENCODE_BYTE x, UU_ENCODE_BYTE y, UU_ENCODE_BYTE z]"
    by (simp add: uu_enc3_def w_def x_def y_def z_def)
  note sextets = uu_sextets(1) [of a] uu_sextets(2) [of a b] uu_sextets(3) [of b c] uu_sextets(4) [of c]
  have dec_enc: "n < 6 \<Longrightarrow> bit (UU_DECODE_BYTE (UU_ENCODE_BYTE v)) n = bit v n"
    if "v \<in> {w, x, y, z}" for v n
    using that sextets w_def x_def y_def z_def by (metis empty_iff insert_iff uu_byte_bits)
  have plain: "bit w n = bit (drop_bit 2 (a AND 0xFC)) n"
    "bit x n = (bit (push_bit 4 (a AND 0x03)) n \<or> bit (drop_bit 4 (b AND 0xF0)) n)"
    "bit y n = (bit (push_bit 2 (b AND 0x0F)) n \<or> bit (drop_bit 6 (c AND 0xC0)) n)"
    "bit z n = bit (c AND 0x3F) n" for n
    unfolding w_def x_def y_def z_def uu_or by (simp_all only: bit_or_iff)
  show ?thesis
    unfolding uu_dec4_def uu_or
    by (auto simp: enc intro!: u8_eqI) (simp_all add: dec_enc plain bit_simps)
qed

lemma length_uu_enc3 [simp]: "length (uu_enc3 a b c) = 4"
  by (simp add: uu_enc3_def)

lemma length_uu_dec4 [simp]: "length (uu_dec4 a b c d) = 3"
  by (simp add: uu_dec4_def)

lemma UUencodeBase_wrs:
  "3 \<le> length inp \<Longrightarrow> UUencodeBase inp out q = wrs out q (uu_enc3 (inp ! 0) (inp ! 1) (inp ! 2))"
proof -
  assume "3 \<le> length inp"
  then have "rd inp 0 = Some (inp ! 0)" "rd inp 1 = Some (inp ! 1)" "rd inp 2 = Some (inp ! 2)"
    by (auto intro!: rd_in)
  then show ?thesis
    by (simp add: UUencodeBase_def uu_enc3_def numeral_3_eq_3)
qed

lemma UUencodeBase_short: "length inp < 3 \<Longrightarrow> UUencodeBase inp out q = None"
  by (auto simp: UUencodeBase_def rd_def wr_def split: bind_splits)

lemma UUdecodeBase_wrs:
  "4 \<le> length inp \<Longrightarrow>
     UUdecodeBase inp out q = wrs out q (uu_dec4 (inp ! 0) (inp ! 1) (inp ! 2) (inp ! 3))"
proof -
  assume "4 \<le> length inp"
  then have "rd inp 0 = Some (inp ! 0)" "rd inp 1 = Some (inp ! 1)" "rd inp 2 = Some (inp ! 2)"
    "rd inp 3 = Some (inp ! 3)"
    by (auto intro!: rd_in)
  then show ?thesis
    by (simp add: UUdecodeBase_def uu_dec4_def)
qed

section \<open>Lines\<close>

definition uu_body :: "u8 list \<Rightarrow> nat \<Rightarrow> u8 list" where
  "uu_body inp k = concat (map (\<lambda>i. uu_enc3 (inp ! (3 * i)) (inp ! (3 * i + 1)) (inp ! (3 * i + 2))) [0..<k])"

definition uu_line :: "u8 list \<Rightarrow> u8 \<Rightarrow> u8 list" where
  "uu_line inp len = UU_ENCODE_LEN_BYTE len # uu_body inp (uu_groups (unat len)) @ [13, 10]"

lemma uu_body_simps [simp]:
  "uu_body inp 0 = []"
  "uu_body inp (Suc k) =
     uu_body inp k @ uu_enc3 (inp ! (3 * k)) (inp ! (3 * k + 1)) (inp ! (3 * k + 2))"
  by (simp_all add: uu_body_def)

lemma length_uu_body [simp]: "length (uu_body inp k) = 4 * k"
  by (induction k) auto

lemma length_uu_line [simp]: "length (uu_line inp len) = 4 * uu_groups (unat len) + 3"
  by (simp add: uu_line_def)

lemma uu_groups_bounds:
  "n \<le> 45 \<Longrightarrow> uu_groups n \<le> 15" "n \<le> 3 * uu_groups n" "3 * uu_groups n \<le> n + 2"
  "0 < n \<Longrightarrow> 0 < uu_groups n"
  unfolding uu_groups_def by presburger+

lemma uu_body_nth:
  assumes "k < n" "j < 4"
  shows "uu_body inp n ! (4 * k + j) = uu_enc3 (inp ! (3 * k)) (inp ! (3 * k + 1)) (inp ! (3 * k + 2)) ! j"
  using assms
proof (induction n)
  case 0
  then show ?case by simp
next
  case (Suc n)
  show ?case
  proof (cases "k < n")
    case True
    with Suc show ?thesis by (simp add: nth_append)
  next
    case False
    with Suc.prems have "k = n" by simp
    with Suc.prems show ?thesis by (simp add: nth_append)
  qed
qed

text \<open>The padding branch is dead: the loop guard already bounds the index.\<close>

lemma UUencode_step_eq:
  "i < uu_groups len \<Longrightarrow> UUencode_step input len i out = UUencodeBase (drop (3 * i) input) out (4 * i + 1)"
  by (simp add: UUencode_step_def mult.commute)

lemma wrs_after:
  assumes "length xs = i" and "length zs \<le> length ys"
  shows "wrs (xs @ ys) i zs = Some (xs @ zs @ drop (length zs) ys)"
  using assms wrs_append by auto

lemma UUencode_loop:
  assumes "3 * uu_groups len \<le> length inp" and "4 * uu_groups len + 1 \<le> length out"
  shows "for_up 0 (uu_groups len) (UUencode_step inp len) (h # drop 1 out) =
    Some (h # uu_body inp (uu_groups len) @ drop (4 * uu_groups len + 1) out)"
proof -
  let ?g = "\<lambda>k. (h # uu_body inp k) @ drop (4 * k + 1) out"
  have "for_up 0 (uu_groups len) (UUencode_step inp len) (?g 0) = Some (?g (0 + uu_groups len))"
  proof (rule for_up_determ)
    fix k
    assume "k < 0 + uu_groups len"
    then have k: "k < uu_groups len" by simp
    with assms have "3 \<le> length (drop (3 * k) inp)" "4 \<le> length (drop (4 * k + 1) out)" by auto
    with k assms show "UUencode_step inp len k (?g k) = Some (?g (Suc k))"
      by (subst UUencode_step_eq [OF k], subst UUencodeBase_wrs)
        (auto simp: wrs_after simp del: append_Cons simp: append_Cons [symmetric] add.commute)
  qed
  then show ?thesis by simp
qed

lemma uu_len_bounds:
  fixes len :: u8
  assumes "0 < len" "len \<le> 45"
  shows "0 < unat len" "unat len \<le> 45"
  using assms by (auto simp: word_less_nat_alt word_le_nat_alt)

lemma UUencodeLine_value:
  assumes len: "0 < len" "len \<le> 45"
    and inp: "3 * uu_groups (unat len) \<le> length inp"
    and out: "4 * uu_groups (unat len) + 4 \<le> length out"
  shows "UUencodeLine (Some inp) (Some out) len =
    Some (1, Some (uu_line inp len @ 0 # drop (4 * uu_groups (unat len) + 4) out))"
proof -
  let ?g = "uu_groups (unat len)"
  let ?h = "UU_ENCODE_LEN_BYTE len"
  let ?b = "?h # uu_body inp ?g"
  from len have "\<not> (len = 0 \<or> 45 < len)" by auto
  moreover from out have "wr out 0 ?h = Some (?h # drop 1 out)"
    by (cases out) (auto simp: wr_def)
  moreover note UUencode_loop [OF inp, of out ?h]
  moreover have "3 \<le> length (drop (4 * ?g + 1) out)" using out by simp
  then obtain a b c r where r: "drop (4 * ?g + 1) out = a # b # c # r"
    using length_ge3_ex by blast
  then have "drop (4 * ?g + 4) out = r"
    using drop_drop [of 3 "4 * ?g + 1" out] by (simp add: add.commute)
  moreover have "wr (?b @ a # b # c # r) (?g * 4 + 1) 13 = Some (?b @ 13 # b # c # r)"
    using wr_append [of ?b] by (simp add: mult.commute)
  moreover have "wr (?b @ 13 # b # c # r) (?g * 4 + 2) 10 = Some (?b @ 13 # 10 # c # r)"
    using wr_append [of "?b @ [13]"] by (simp add: mult.commute)
  moreover have "wr (?b @ 13 # 10 # c # r) (?g * 4 + 3) 0 = Some (?b @ 13 # 10 # 0 # r)"
    using wr_append [of "?b @ [13, 10]"] by (simp add: mult.commute numeral_3_eq_3)
  ultimately show ?thesis
    using out r by (simp add: UUencodeLine_def uu_line_def Let_def)
qed

lemma UUencodeLine_overread:
  assumes len: "0 < len" "len \<le> 45"
    and inp: "length inp < 3 * uu_groups (unat len)"
  shows "UUencodeLine (Some inp) (Some out) len = None"
proof -
  let ?g = "uu_groups (unat len)"
  from uu_groups_bounds(4) uu_len_bounds [OF len] obtain n where g: "?g = n + 1"
    by (metis Suc_eq_plus1 gr0_implies_Suc)
  have "UUencode_step inp (unat len) n out' = None" for out'
    by (subst UUencode_step_eq) (use inp g in \<open>auto intro!: UUencodeBase_short\<close>)
  then have "for_up 0 ?g (UUencode_step inp (unat len)) out' = None" for out'
    by (simp add: g for_up_add bind_eq_None_conv del: for_up.simps(2) flip: One_nat_def)
      (simp add: bind_eq_None_conv)
  with len show ?thesis
    by (auto simp: UUencodeLine_def Let_def split: bind_splits)
qed

lemma UUdecode_loop:
  assumes "n \<le> m" and "3 * n \<le> length out" and "3 * m \<le> length inp"
  shows "for_up 0 n (\<lambda>i out. UUdecodeBase (drop (4 * i + 1) (h # uu_body inp m @ rest)) out (3 * i)) out =
    Some (take (3 * n) inp @ drop (3 * n) out)"
proof -
  let ?g = "\<lambda>k. take (3 * k) inp @ drop (3 * k) out"
  have "for_up 0 n (\<lambda>i out. UUdecodeBase (drop (4 * i + 1) (h # uu_body inp m @ rest)) out (3 * i)) (?g 0)
    = Some (?g (0 + n))"
  proof (rule for_up_determ)
    fix k
    assume "k < 0 + n"
    then have k: "k < m" "k < n" using assms by auto
    let ?a = "inp ! (3 * k)" and ?b = "inp ! (3 * k + 1)" and ?c = "inp ! (3 * k + 2)"
    let ?l = "drop (4 * k) (uu_body inp m @ rest)"
    have nth: "?l ! j = uu_enc3 ?a ?b ?c ! j" if "j < 4" for j
    proof -
      have "4 * k + j < 4 * m" using k that by linarith
      then show ?thesis
        using uu_body_nth [OF k(1) that, of inp] by (simp add: nth_append del: drop_append)
    qed
    have "take (3 * k + 3) inp = take (3 * k) inp @ [?a, ?b, ?c]"
      using k assms by (simp add: take_Suc_conv_app_nth numeral_3_eq_3)
    moreover have "3 * Suc k = 3 * k + 3" by simp
    ultimately have "?g (Suc k) = take (3 * k) inp @ [?a, ?b, ?c] @ drop 3 (drop (3 * k) out)"
      by (simp only: drop_drop add.commute append_assoc)
    also have "\<dots> = take (3 * k) inp @ [?a, ?b, ?c] @ drop (length [?a, ?b, ?c]) (drop (3 * k) out)"
      by (simp only: list.size) (simp add: numeral_3_eq_3 del: drop_drop)
    also have "Some \<dots> = wrs (?g k) (3 * k) [?a, ?b, ?c]"
      by (rule wrs_after [symmetric]) (use k assms in auto)
    also have "\<dots> = UUdecodeBase (drop (4 * k + 1) (h # uu_body inp m @ rest)) (?g k) (3 * k)"
    proof -
      have "uu_dec4 (?l ! 0) (?l ! 1) (?l ! 2) (?l ! 3) = [?a, ?b, ?c]"
        by (subst (1 2 3 4) nth; (simp only: uu_dec4_enc3)?; simp)
      moreover have "4 \<le> length ?l" using k by simp
      ultimately have "wrs (?g k) (3 * k) [?a, ?b, ?c] = UUdecodeBase ?l (?g k) (3 * k)"
        by (simp only: UUdecodeBase_wrs)
      then show ?thesis by simp
    qed
    finally show "UUdecodeBase (drop (4 * k + 1) (h # uu_body inp m @ rest)) (?g k) (3 * k) = Some (?g (Suc k))"
      by (rule sym)
  qed
  then show ?thesis by simp
qed

lemma UUdecodeLine_value:
  assumes len: "0 < len" "len \<le> 45"
    and inp: "3 * uu_groups (unat len) \<le> length inp"
    and out: "3 * uu_groups (unat len) \<le> length out" "unat len < length out"
  shows "UUdecodeLine (Some (uu_line inp len @ rest)) (Some out) =
    Some (None, Some ((take (3 * uu_groups (unat len)) inp @
      drop (3 * uu_groups (unat len)) out)[unat len := 0]))"
proof -
  let ?g = "uu_groups (unat len)"
  note b = uu_len_bounds [OF len]
  have "unat (UU_ENCODE_LEN_BYTE len) = unat len + 32"
    using b by (simp add: UU_ENCODE_LEN_BYTE_def unat_word_ariths)
  then have "uint (UU_ENCODE_LEN_BYTE len) = uint len + 32"
    by (metis of_nat_add of_nat_numeral of_nat_unat)
  moreover have "0 < uint len" "uint len \<le> 45"
    using len by (simp_all add: word_less_def word_le_def)
  moreover note UUdecode_loop [OF order_refl out(1) inp, of "UU_ENCODE_LEN_BYTE len" "[13, 10] @ rest"]
  ultimately show ?thesis
    using b out inp by (simp add: UUdecodeLine_def uu_line_def rd_def Let_def wr_def)
qed

section \<open>Properties\<close>

text \<open>C23: Decoding an encoded line gives back the bytes that were encoded: for every length from 1
  to 45, every input with the bytes the encoder reads, every output buffer big enough, the two
  calls succeed and the first \<open>len\<close> decoded bytes are the input's.\<close>

theorem UU_line_roundtrip:
  assumes "0 < len" "len \<le> 45"
    and "3 * uu_groups (unat len) \<le> length inp"
    and "4 * uu_groups (unat len) + 4 \<le> length buf"
    and "3 * uu_groups (unat len) \<le> length dst" "unat len < length dst"
  shows "\<exists>enc dec. UUencodeLine (Some inp) (Some buf) len = Some (1, Some enc) \<and>
    UUdecodeLine (Some enc) (Some dst) = Some (None, Some dec) \<and>
    take (unat len) dec = take (unat len) inp \<and> dec ! unat len = 0"
proof -
  have "unat len \<le> 3 * uu_groups (unat len)" by (rule uu_groups_bounds)
  with assms show ?thesis
    by (auto simp: UUencodeLine_value UUdecodeLine_value nth_list_update min_def)
qed

theorem UU_line_roundtrip_witness:
  "\<exists>enc dec. UUencodeLine (Some [1, 2, 255]) (Some (replicate 64 0)) 3 = Some (1, Some enc) \<and>
    UUdecodeLine (Some enc) (Some [7, 7, 7, 7]) = Some (None, Some dec) \<and>
    take 3 dec = [1, 2, 255] \<and> dec ! 3 = 0"
  using UU_line_roundtrip [of 3 "[1, 2, 255]" "replicate 64 0" "[7, 7, 7, 7]"]
  by (simp add: uu_groups_def)

lemma uu_enc_char_nonzero: "x AND 0x3F = x \<Longrightarrow> UU_ENCODE_BYTE x \<noteq> 0"
  using uu_sextet_no_wrap [of x] by (auto simp: UU_ENCODE_BYTE_def)

lemma uu_enc3_nonzero: "0 \<notin> set (uu_enc3 a b c)"
  using uu_sextets [THEN uu_enc_char_nonzero] unfolding uu_enc3_def by (metis empty_iff empty_set set_ConsD)

lemma uu_line_nonzero:
  assumes "0 < len" "len \<le> 45"
  shows "0 \<notin> set (uu_line inp len)"
proof -
  have "unat (UU_ENCODE_LEN_BYTE len) = unat len + 32"
    using uu_len_bounds [OF assms] by (simp add: UU_ENCODE_LEN_BYTE_def unat_word_ariths)
  then have "UU_ENCODE_LEN_BYTE len \<noteq> 0" by (auto simp: unat_0_iff)
  then show ?thesis using uu_enc3_nonzero by (auto simp: uu_line_def uu_body_def)
qed

text \<open>What the encoder writes and nothing else: the line (a length byte, four characters for
  every group of three input bytes, CR, LF) and a NUL, at most 64 bytes in all, which is the size
  of the buffer its caller allocates.  No byte of the line is NUL, so sending the buffer as a
  string sends the whole line, and the bytes after it are untouched.\<close>

theorem UUencodeLine_footprint:
  assumes "0 < len" "len \<le> 45"
    and "3 * uu_groups (unat len) \<le> length inp" and "64 \<le> length buf"
  shows "\<exists>line. UUencodeLine (Some inp) (Some buf) len =
      Some (1, Some (line @ 0 # drop (length line + 1) buf)) \<and>
    length line = 4 * uu_groups (unat len) + 3 \<and> length line + 1 \<le> 64 \<and>
    cstr (line @ 0 # drop (length line + 1) buf) = Some line"
proof -
  note b = uu_len_bounds [OF assms(1,2)]
  with uu_groups_bounds(1) have "uu_groups (unat len) \<le> 15" by blast
  with assms show ?thesis
    by (intro exI [of _ "uu_line inp len"])
      (simp add: UUencodeLine_value cstr_append_NUL uu_line_nonzero add.commute)
qed

theorem UUencodeLine_footprint_witness:
  "\<exists>line. UUencodeLine (Some (replicate 45 65)) (Some (replicate 64 0)) 45 =
      Some (1, Some (line @ 0 # drop (length line + 1) (replicate 64 0))) \<and>
    length line = 63 \<and> length line + 1 \<le> 64 \<and>
    cstr (line @ 0 # drop (length line + 1) (replicate 64 0)) = Some line"
  using UUencodeLine_footprint [of 45 "replicate 45 65" "replicate 64 0"] by (simp add: uu_groups_def)

end
