(* ===== verification/Isp.thy ===== *)
theory Isp
  imports UU "HOL-Library.Sublist"
begin

text \<open>
  The ISP driver of \<open>Program/program.cpp\<close>: every command the programmer sends to the boot loader
  of the target chip over the serial line.

  The target itself is not part of the repository.  It is the parameter \<open>react\<close>: for each byte it
  receives, its next state and what this adds to the line, one entry per one-microsecond poll of
  the receiver (\<open>Some b\<close>: a byte is there, \<open>None\<close>: nothing).  After the last entry the line is
  silent.  The record \<open>isp\<close> holds the target's state, the pending polls, all bytes sent, the global
  receive buffer \<open>ispRecvBuf\<close>, the outcomes of the coming \<open>malloc\<close> calls (an empty list: they all
  succeed) and the number of heap blocks in use.  A memory area handed to a command is the list of
  bytes from its start to the end of what may be touched.  Output to the debug console is left out.
\<close>

section \<open>Constants\<close>

abbreviation (input) SECTOR_NUM :: nat where "SECTOR_NUM \<equiv> 16"
abbreviation (input) SECTOR_SIZE :: nat where "SECTOR_SIZE \<equiv> 4096"

definition FLASH_SIZE :: u32 where "FLASH_SIZE = 16 * 4096"
definition FLASH_START_ADDRESS :: u32 where "FLASH_START_ADDRESS = 0"
definition FLASH_END_ADDRESS :: u32 where "FLASH_END_ADDRESS = FLASH_START_ADDRESS + FLASH_SIZE - 1"
definition RAM_START_ADDRESS :: u32 where "RAM_START_ADDRESS = 0x10000000"
definition RAM_SIZE :: u32 where "RAM_SIZE = 8192"
definition RAM_END_ADDRESS :: u32 where "RAM_END_ADDRESS = RAM_START_ADDRESS + RAM_SIZE - 1"

lemmas memory_map_defs = FLASH_SIZE_def FLASH_START_ADDRESS_def FLASH_END_ADDRESS_def
  RAM_START_ADDRESS_def RAM_SIZE_def RAM_END_ADDRESS_def

definition CHECK_RAM_ADDR :: "u32 \<Rightarrow> bool" where
  "CHECK_RAM_ADDR x \<longleftrightarrow> RAM_START_ADDRESS \<le> x \<and> x \<le> RAM_END_ADDRESS"

definition CHECK_FLASH_ADDR :: "u32 \<Rightarrow> bool" where
  "CHECK_FLASH_ADDR x \<longleftrightarrow> FLASH_START_ADDRESS \<le> x \<and> x \<le> FLASH_END_ADDRESS"

datatype RET_CODE = RET_CODE_SUCCESS | RET_CODE_ERROR | RET_CODE_RESP_TIMEOUT
  | RET_CODE_PARAM_ILLEGAL | RET_CODE_MEM_OVERFLOW | RET_CODE_WRITE_FAIL

fun ret_code :: "RET_CODE \<Rightarrow> int" where
  "ret_code RET_CODE_SUCCESS = 0"
| "ret_code RET_CODE_ERROR = - 1"
| "ret_code RET_CODE_RESP_TIMEOUT = - 2"
| "ret_code RET_CODE_PARAM_ILLEGAL = - 3"
| "ret_code RET_CODE_MEM_OVERFLOW = - 4"
| "ret_code RET_CODE_WRITE_FAIL = - 5"

datatype ISP_CMD = ISP_CMD_UNLOCK | ISP_CMD_SET_BAUDRATE | ISP_CMD_ECHO | ISP_CMD_WRITE_TO_RAM
  | ISP_CMD_READ_MEMORY | ISP_CMD_PREPARE_SECTORS | ISP_CMD_COPY_RAM_TO_FLASH | ISP_CMD_GO
  | ISP_CMD_ERASE_SECTORS | ISP_CMD_BLANK_CHECK_SECTORS | ISP_CMD_READ_PART_ID
  | ISP_CMD_READ_BOOT_CODE_VERSION | ISP_CMD_COMPARE | ISP_CMD_READ_UID

text \<open>\<open>isp_cmd_list\<close> indexed by the enumeration.\<close>

fun isp_cmd_list :: "ISP_CMD \<Rightarrow> u8" where
  "isp_cmd_list ISP_CMD_UNLOCK = of_char CHR ''U''"
| "isp_cmd_list ISP_CMD_SET_BAUDRATE = of_char CHR ''B''"
| "isp_cmd_list ISP_CMD_ECHO = of_char CHR ''A''"
| "isp_cmd_list ISP_CMD_WRITE_TO_RAM = of_char CHR ''W''"
| "isp_cmd_list ISP_CMD_READ_MEMORY = of_char CHR ''R''"
| "isp_cmd_list ISP_CMD_PREPARE_SECTORS = of_char CHR ''P''"
| "isp_cmd_list ISP_CMD_COPY_RAM_TO_FLASH = of_char CHR ''C''"
| "isp_cmd_list ISP_CMD_GO = of_char CHR ''G''"
| "isp_cmd_list ISP_CMD_ERASE_SECTORS = of_char CHR ''E''"
| "isp_cmd_list ISP_CMD_BLANK_CHECK_SECTORS = of_char CHR ''I''"
| "isp_cmd_list ISP_CMD_READ_PART_ID = of_char CHR ''J''"
| "isp_cmd_list ISP_CMD_READ_BOOT_CODE_VERSION = of_char CHR ''K''"
| "isp_cmd_list ISP_CMD_COMPARE = of_char CHR ''M''"
| "isp_cmd_list ISP_CMD_READ_UID = of_char CHR ''N''"

definition CRLF :: "u8 list" where "CRLF = [13, 10]"
definition OK_STR :: "u8 list" where "OK_STR = bytes ''OK''"
definition UNLOCK_CMD_STR :: "u8 list" where "UNLOCK_CMD_STR = bytes ''U 23130''"
definition DISABLE_ECHO_CMD_STR :: "u8 list" where "DISABLE_ECHO_CMD_STR = bytes ''A 0'' @ CRLF"
definition CMD_SUCCESS_RESP_STR :: "u8 list" where "CMD_SUCCESS_RESP_STR = bytes ''0'' @ CRLF"
definition BAUDRATE_SYNC_SEND_STR :: "u8 list" where "BAUDRATE_SYNC_SEND_STR = bytes ''?''"
definition BAUDRATE_SYNC_RECV_STR :: "u8 list" where "BAUDRATE_SYNC_RECV_STR = bytes ''Synchronized''"

definition ISP_WRITE_RAM_ADDR :: u32 where "ISP_WRITE_RAM_ADDR = RAM_START_ADDRESS + 0x300"
abbreviation (input) ISP_RECV_BUF_SIZE :: nat where "ISP_RECV_BUF_SIZE \<equiv> 1024"
abbreviation (input) ISP_UART_RECV_TIMEOUT_US :: u32 where "ISP_UART_RECV_TIMEOUT_US \<equiv> 500"
abbreviation (input) ISP_ERASE_WAIT_TIMEOUT_US :: u32 where "ISP_ERASE_WAIT_TIMEOUT_US \<equiv> 120000"

section \<open>The serial line\<close>

record 's isp =
  tgt :: 's
  rx :: "u8 option list"
  tx :: "u8 list"
  ispRecvBuf :: "u8 list"
  mallocs :: "bool list"
  live :: nat

type_synonym 's target = "'s \<Rightarrow> u8 \<Rightarrow> 's \<times> u8 option list"

definition isp_putc :: "'s target \<Rightarrow> u8 \<Rightarrow> 's isp \<Rightarrow> 's isp" where
  "isp_putc react b st = (let (t, out) = react (tgt st) b
     in st\<lparr>tgt := t, rx := rx st @ out, tx := tx st @ [b]\<rparr>)"

definition isp_puts :: "'s target \<Rightarrow> u8 list \<Rightarrow> 's isp \<Rightarrow> 's isp" where
  "isp_puts react s st = fold (isp_putc react) s st"

text \<open>\<open>memset(ispRecvBuf, 0, sizeof(ispRecvBuf))\<close>.\<close>

definition clear_recv :: "'s isp \<Rightarrow> 's isp" where
  "clear_recv st = st\<lparr>ispRecvBuf := replicate ISP_RECV_BUF_SIZE 0\<rparr>"

text \<open>The poll loop: \<open>pStr\<close> bytes are in the buffer, \<open>count\<close> polls in a row found nothing.\<close>

fun getResp_loop :: "u8 list \<Rightarrow> nat \<Rightarrow> nat \<Rightarrow> nat \<Rightarrow> u8 option list \<Rightarrow> (nat \<times> u8 list \<times> u8 option list) option" where
  "getResp_loop buf pStr count timeout [] = Some (pStr, buf, [])"
| "getResp_loop buf pStr count timeout (e # es) =
     (if count < timeout then
        (case e of
          Some b \<Rightarrow> do { buf \<leftarrow> wr buf pStr b; getResp_loop buf (Suc pStr) 0 timeout es }
        | None \<Rightarrow> getResp_loop buf pStr (Suc count) timeout es)
      else Some (pStr, buf, e # es))"

definition ISP_getResp :: "u8 list option \<Rightarrow> u32 \<Rightarrow> u8 option list \<Rightarrow> (int \<times> u8 list option \<times> u8 option list) option" where
  "ISP_getResp buf timeout_us line =
     (case buf of
       None \<Rightarrow> Some (ret_code RET_CODE_PARAM_ILLEGAL, None, line)
     | Some b \<Rightarrow> do {
         (n, b', line') \<leftarrow> getResp_loop b 0 0 (unat timeout_us) line;
         Some (int n, Some b', line') })"

text \<open>\<open>ISP_getResp(ispRecvBuf, timeout_us)\<close>.\<close>

definition recv :: "u32 \<Rightarrow> 's isp \<Rightarrow> (int \<times> 's isp) option" where
  "recv timeout_us st = do {
     (n, b, line) \<leftarrow> ISP_getResp (Some (ispRecvBuf st)) timeout_us (rx st);
     Some (n, st\<lparr>ispRecvBuf := (case b of None \<Rightarrow> [] | Some b' \<Rightarrow> b'), rx := line\<rparr>) }"

text \<open>\<open>sprintf\<close> into a local array of the given size.\<close>

definition sprintf_to :: "nat \<Rightarrow> u8 list \<Rightarrow> u8 list option" where
  "sprintf_to cap s = (if length s < cap then Some s else None)"

definition malloc :: "'s isp \<Rightarrow> bool \<times> 's isp" where
  "malloc st = (case mallocs st of
      [] \<Rightarrow> (True, st\<lparr>live := Suc (live st)\<rparr>)
    | True # ms \<Rightarrow> (True, st\<lparr>mallocs := ms, live := Suc (live st)\<rparr>)
    | False # ms \<Rightarrow> (False, st\<lparr>mallocs := ms\<rparr>))"

definition free :: "'s isp \<Rightarrow> 's isp" where
  "free st = st\<lparr>live := live st - 1\<rparr>"

text \<open>The tail all simple commands share: wait for an answer, look for a string in it.\<close>

definition await :: "u32 \<Rightarrow> u8 list \<Rightarrow> 's isp \<Rightarrow> (RET_CODE \<times> 's isp) option" where
  "await timeout_us expected st = do {
     (n, st) \<leftarrow> recv timeout_us st;
     if n \<le> 0 then Some (RET_CODE_RESP_TIMEOUT, st)
     else do {
       p \<leftarrow> strstr (ispRecvBuf st) expected;
       Some (if p \<noteq> None then RET_CODE_SUCCESS else RET_CODE_ERROR, st) } }"

section \<open>Baud rate synchronisation\<close>

datatype BAUDRATE_SYNC_STATUS = SYNC_STATUS_SETUP_SYNC | SYNC_STATUS_RESP_SYNC | SYNC_STATUS_SEND_FREQ
  | SYNC_STATUS_EXIT_SYNC | SYNC_STATUS_SYNC_DONE | SYNC_STATUS_SYNC_TIMEOUT | SYNC_STATUS_SYNC_ERROR

text \<open>One turn of the \<open>while (1)\<close> loop in a state that does not return.\<close>

definition sync_step :: "'s target \<Rightarrow> BAUDRATE_SYNC_STATUS \<Rightarrow> 's isp \<Rightarrow> (BAUDRATE_SYNC_STATUS \<times> 's isp) option" where
  "sync_step react syncStatus st =
     (case syncStatus of
       SYNC_STATUS_SETUP_SYNC \<Rightarrow> do {
         (n, st) \<leftarrow> recv ISP_UART_RECV_TIMEOUT_US (isp_puts react BAUDRATE_SYNC_SEND_STR (clear_recv st));
         if n \<le> 0 then Some (SYNC_STATUS_SYNC_TIMEOUT, st)
         else do {
           p \<leftarrow> strstr (ispRecvBuf st) BAUDRATE_SYNC_RECV_STR;
           if p \<noteq> None then Some (SYNC_STATUS_RESP_SYNC, st)
           else do {
             p \<leftarrow> strstr (ispRecvBuf st) BAUDRATE_SYNC_SEND_STR;
             Some (if p \<noteq> None then SYNC_STATUS_EXIT_SYNC else SYNC_STATUS_SYNC_ERROR, st) } } }
     | SYNC_STATUS_RESP_SYNC \<Rightarrow> do {
         (n, st) \<leftarrow> recv ISP_UART_RECV_TIMEOUT_US
           (isp_puts react CRLF (isp_puts react BAUDRATE_SYNC_RECV_STR (clear_recv st)));
         if n \<le> 0 then Some (SYNC_STATUS_SYNC_TIMEOUT, st)
         else do {
           p \<leftarrow> strstr (ispRecvBuf st) OK_STR;
           Some (if p \<noteq> None then SYNC_STATUS_SEND_FREQ else SYNC_STATUS_SYNC_ERROR, st) } }
     | SYNC_STATUS_SEND_FREQ \<Rightarrow> do {
         (n, st) \<leftarrow> recv ISP_UART_RECV_TIMEOUT_US (isp_puts react (bytes ''0'' @ CRLF) (clear_recv st));
         if n \<le> 0 then Some (SYNC_STATUS_SYNC_TIMEOUT, st)
         else do {
           p \<leftarrow> strstr (ispRecvBuf st) OK_STR;
           Some (if p \<noteq> None then SYNC_STATUS_SYNC_DONE else SYNC_STATUS_SYNC_ERROR, st) } }
     | SYNC_STATUS_EXIT_SYNC \<Rightarrow> do {
         (n, st) \<leftarrow> recv ISP_UART_RECV_TIMEOUT_US (isp_putc react 27 (clear_recv st));
         if n \<le> 0 then Some (SYNC_STATUS_SYNC_TIMEOUT, st)
         else do {
           c \<leftarrow> rd (ispRecvBuf st) 0;
           Some (if c = 27 then SYNC_STATUS_SYNC_DONE else SYNC_STATUS_SYNC_ERROR, st) } }
     | _ \<Rightarrow> None)"

text \<open>The states in which the loop returns, with the code returned.\<close>

fun sync_result :: "BAUDRATE_SYNC_STATUS \<Rightarrow> RET_CODE option" where
  "sync_result SYNC_STATUS_SYNC_DONE = Some RET_CODE_SUCCESS"
| "sync_result SYNC_STATUS_SYNC_TIMEOUT = Some RET_CODE_RESP_TIMEOUT"
| "sync_result SYNC_STATUS_SYNC_ERROR = Some RET_CODE_ERROR"
| "sync_result _ = None"

text \<open>How far a state is from returning.\<close>

fun sync_rank :: "BAUDRATE_SYNC_STATUS \<Rightarrow> nat" where
  "sync_rank SYNC_STATUS_SETUP_SYNC = 3"
| "sync_rank SYNC_STATUS_RESP_SYNC = 2"
| "sync_rank SYNC_STATUS_SEND_FREQ = 1"
| "sync_rank SYNC_STATUS_EXIT_SYNC = 1"
| "sync_rank _ = 0"

lemma sync_step_rank: "sync_step react s st = Some (s', st') \<Longrightarrow> sync_rank s' < sync_rank s"
  by (cases s) (auto simp: sync_step_def split: bind_splits if_splits prod.splits)

function sync_loop :: "'s target \<Rightarrow> BAUDRATE_SYNC_STATUS \<Rightarrow> 's isp \<Rightarrow> (RET_CODE \<times> 's isp) option" where
  "sync_loop react s st =
     (case sync_result s of
       Some r \<Rightarrow> Some (r, st)
     | None \<Rightarrow> (case sync_step react s st of
         None \<Rightarrow> None
       | Some (s', st') \<Rightarrow> sync_loop react s' st'))"
  by pat_completeness auto
termination
  by (relation "measure (\<lambda>(react, s, st). sync_rank s)") (auto dest: sync_step_rank)

declare sync_loop.simps [simp del]

definition ISP_syncBaudRate :: "'s target \<Rightarrow> 's isp \<Rightarrow> (RET_CODE \<times> 's isp) option" where
  "ISP_syncBaudRate react st = sync_loop react SYNC_STATUS_SETUP_SYNC st"

section \<open>The simple commands\<close>

text \<open>The copy of the part number.  The loop goes on while the character is not CR \<^emph>\<open>or\<close> the
  index has passed 10.\<close>

fun partId_copy :: "u8 list \<Rightarrow> u8 list \<Rightarrow> nat \<Rightarrow> (nat \<times> u8 list) option" where
  "partId_copy [] partId i = None"
| "partId_copy (c # cs) partId i =
     (if c \<noteq> 13 \<or> 10 < i then do { partId \<leftarrow> wr partId i c; partId_copy cs partId (Suc i) }
      else Some (i, partId))"

definition ISP_getPartID :: "'s target \<Rightarrow> u8 list \<Rightarrow> 's isp \<Rightarrow> (RET_CODE \<times> u8 list \<times> 's isp) option" where
  "ISP_getPartID react partId st = do {
     (n, st) \<leftarrow> recv ISP_UART_RECV_TIMEOUT_US
       (isp_puts react CRLF (isp_putc react (isp_cmd_list ISP_CMD_READ_PART_ID) (clear_recv st)));
     if n \<le> 0 then Some (RET_CODE_RESP_TIMEOUT, partId, st)
     else do {
       p \<leftarrow> strstr (ispRecvBuf st) CMD_SUCCESS_RESP_STR;
       case p of
         None \<Rightarrow> Some (RET_CODE_ERROR, partId, st)
       | Some k \<Rightarrow> do {
           (i, partId) \<leftarrow> partId_copy (drop (k + length CMD_SUCCESS_RESP_STR) (ispRecvBuf st)) partId 0;
           Some (if 10 < i then RET_CODE_ERROR else RET_CODE_SUCCESS, partId, st) } } }"

definition ISP_unlock :: "'s target \<Rightarrow> 's isp \<Rightarrow> (RET_CODE \<times> 's isp) option" where
  "ISP_unlock react st =
     await ISP_UART_RECV_TIMEOUT_US CMD_SUCCESS_RESP_STR
       (isp_puts react CRLF (isp_puts react UNLOCK_CMD_STR (clear_recv st)))"

text \<open>The only command that does not clear the receive buffer first.\<close>

definition ISP_disableEcho :: "'s target \<Rightarrow> 's isp \<Rightarrow> (RET_CODE \<times> 's isp) option" where
  "ISP_disableEcho react st =
     await ISP_UART_RECV_TIMEOUT_US CMD_SUCCESS_RESP_STR (isp_puts react DISABLE_ECHO_CMD_STR st)"

text \<open>A byte in \<open>%d\<close>, and the command line of the two sector commands.\<close>

definition sector_cmd :: "ISP_CMD \<Rightarrow> u8 \<Rightarrow> u8 \<Rightarrow> u8 list" where
  "sector_cmd c start end' =
     isp_cmd_list c # 32 # dec_nat (unat start) @ 32 # dec_nat (unat end') @ CRLF"

definition ISP_prepareSectors :: "'s target \<Rightarrow> u8 \<Rightarrow> u8 \<Rightarrow> 's isp \<Rightarrow> (RET_CODE \<times> 's isp) option" where
  "ISP_prepareSectors react start end' st =
     (if end' < start \<or> unat end' > SECTOR_NUM - 1 then Some (RET_CODE_PARAM_ILLEGAL, st)
      else do {
        cmd \<leftarrow> sprintf_to 12 (sector_cmd ISP_CMD_PREPARE_SECTORS start end');
        await ISP_UART_RECV_TIMEOUT_US CMD_SUCCESS_RESP_STR (isp_puts react cmd (clear_recv st)) })"

definition ISP_eraseSectors :: "'s target \<Rightarrow> u8 \<Rightarrow> u8 \<Rightarrow> 's isp \<Rightarrow> (RET_CODE \<times> 's isp) option" where
  "ISP_eraseSectors react start end' st =
     (if end' < start \<or> unat end' > SECTOR_NUM - 1 then Some (RET_CODE_PARAM_ILLEGAL, st)
      else do {
        cmd \<leftarrow> sprintf_to 12 (sector_cmd ISP_CMD_ERASE_SECTORS start end');
        await ISP_ERASE_WAIT_TIMEOUT_US CMD_SUCCESS_RESP_STR (isp_puts react cmd (clear_recv st)) })"

definition ISP_erase :: "'s target \<Rightarrow> u8 \<Rightarrow> u8 \<Rightarrow> 's isp \<Rightarrow> (RET_CODE \<times> 's isp) option" where
  "ISP_erase react start end' st = do {
     (ret, st) \<leftarrow> ISP_prepareSectors react start end' st;
     if ret \<noteq> RET_CODE_SUCCESS then Some (ret, st) else ISP_eraseSectors react start end' st }"

section \<open>Block transfers\<close>

text \<open>Send the lines: the last one carries \<open>extra\<close> bytes, the others 45.  A line the encoder refuses
  leaves the buffer as it was, and the buffer is sent all the same.\<close>

definition send_step :: "'s target \<Rightarrow> u8 list \<Rightarrow> nat \<Rightarrow> nat \<Rightarrow> nat \<Rightarrow> u8 list \<times> 's isp \<Rightarrow> (u8 list \<times> 's isp) option" where
  "send_step react data num extra i s = (case s of (encode, st) \<Rightarrow> do {
     (_, e) \<leftarrow> UUencodeLine (Some (drop (45 * i) data)) (Some encode)
       (if int i < int num - 1 then 45 else of_nat extra);
     let encode = (case e of None \<Rightarrow> [] | Some e \<Rightarrow> e);
     line \<leftarrow> cstr encode;
     Some (encode, isp_puts react line st) })"

definition send_lines :: "'s target \<Rightarrow> u8 list \<Rightarrow> nat \<Rightarrow> nat \<Rightarrow> u8 list \<times> 's isp \<Rightarrow> (u8 list \<times> 's isp) option" where
  "send_lines react data num extra s = for_up 0 num (send_step react data num extra) s"

fun sum_u32 :: "u8 list \<Rightarrow> nat \<Rightarrow> u32 \<Rightarrow> u32 option" where
  "sum_u32 p 0 acc = Some acc"
| "sum_u32 p (Suc n) acc = do { b \<leftarrow> rd p 0; sum_u32 (drop 1 p) n (acc + ucast b) }"

text \<open>\<open>encode\<close> points to a fresh block of 64 bytes; its contents are unknown, and they are written
  before they are sent because the first line is never empty.\<close>

definition ISP_WriteToRAM :: "'s target \<Rightarrow> u32 \<Rightarrow> u32 \<Rightarrow> u8 list option \<Rightarrow> u8 list \<Rightarrow> 's isp \<Rightarrow> (RET_CODE \<times> 's isp) option" where
  "ISP_WriteToRAM react start_addr size' data block st =
     (if CHECK_RAM_ADDR start_addr \<and> start_addr mod 32 = 0 \<and> size' mod 4 = 0 \<and> 0 < size' \<and> size' \<le> 512 \<and> data \<noteq> None
      then do {
        cmdStr \<leftarrow> sprintf_to 32 (isp_cmd_list ISP_CMD_WRITE_TO_RAM # 32 # fmt_d start_addr @ 32 # fmt_d size' @ CRLF);
        (n, st) \<leftarrow> recv ISP_UART_RECV_TIMEOUT_US (isp_puts react cmdStr (clear_recv st));
        if n \<le> 0 then Some (RET_CODE_RESP_TIMEOUT, st)
        else do {
          p \<leftarrow> strstr (ispRecvBuf st) CMD_SUCCESS_RESP_STR;
          if p = None then Some (RET_CODE_ERROR, st)
          else do {
            let extra = unat size' mod 45;
            let num = unat size' div 45 + (if extra = 0 then 0 else 1);
            let (ok, st) = malloc st;
            if \<not> ok then Some (RET_CODE_MEM_OVERFLOW, st)
            else do {
              (_, st) \<leftarrow> send_lines react (the data) num extra (block, st);
              let st = free st;
              checksum \<leftarrow> sum_u32 (the data) (unat size') 0;
              checksumStr \<leftarrow> sprintf_to 12 (fmt_d checksum @ CRLF);
              await 1000 OK_STR (isp_puts react checksumStr (clear_recv st)) } } } }
      else Some (RET_CODE_PARAM_ILLEGAL, st))"

definition ISP_copyToFlash :: "'s target \<Rightarrow> u32 \<Rightarrow> u32 \<Rightarrow> u16 \<Rightarrow> 's isp \<Rightarrow> (RET_CODE \<times> 's isp) option" where
  "ISP_copyToFlash react dst src size' st =
     (if CHECK_FLASH_ADDR dst \<and> CHECK_RAM_ADDR src \<and> dst mod 256 = 0 \<and>
         (size' = 256 \<or> size' = 512 \<or> size' = 1024 \<or> size' = 4096)
      then do {
        (ret, st) \<leftarrow> ISP_prepareSectors react 0 (of_nat (SECTOR_NUM - 1)) st;
        if ret = RET_CODE_SUCCESS then do {
          cmdStr \<leftarrow> sprintf_to 36 (isp_cmd_list ISP_CMD_COPY_RAM_TO_FLASH # 32 # fmt_d dst @ 32 # fmt_d src
            @ 32 # dec_nat (unat size') @ CRLF);
          await 10000 CMD_SUCCESS_RESP_STR (isp_puts react cmdStr (clear_recv st)) }
        else Some (ret, st) }
      else Some (RET_CODE_PARAM_ILLEGAL, st))"

text \<open>\<open>atoi\<close>: blanks, a sign, digits (an overflow is left out: the buffer could hold it, then the
  library's result is undefined as well).\<close>

definition isspace :: "u8 \<Rightarrow> bool" where
  "isspace c \<longleftrightarrow> c = 32 \<or> 9 \<le> c \<and> c \<le> 13"

definition atoi :: "u8 list \<Rightarrow> int option" where
  "atoi p = do {
     s \<leftarrow> cstr p;
     let t = dropWhile isspace s;
     let v = (case t of
        [] \<Rightarrow> 0
      | c # cs \<Rightarrow> if c = 45 then - int (dec_digits cs 0)
                  else if c = 43 then int (dec_digits cs 0) else int (dec_digits t 0));
     if - (2 ^ 31) \<le> v \<and> v < 2 ^ 31 then Some v else None }"

text \<open>Decode line \<open>i\<close> found at \<open>p + 63 * i\<close> into \<open>data + 45 * i\<close>; the decoder's result is ignored.\<close>

definition decode_lines :: "u8 list \<Rightarrow> nat \<Rightarrow> u8 list \<Rightarrow> u8 list option" where
  "decode_lines p num data =
     for_up 0 num (\<lambda>i data. do {
       (_, d) \<leftarrow> UUdecodeLine (Some (drop (63 * i) p)) (Some (drop (45 * i) data));
       Some (take (45 * i) data @ (case d of None \<Rightarrow> [] | Some d \<Rightarrow> d)) }) data"

fun sum_int :: "u8 list \<Rightarrow> nat \<Rightarrow> int \<Rightarrow> int option" where
  "sum_int p 0 acc = Some acc"
| "sum_int p (Suc n) acc = do { b \<leftarrow> rd p 0; sum_int (drop 1 p) n (acc + uint b) }"

text \<open>The data area is \<open>None\<close> for NULL.  A missing CR LF after the last line makes the code read
  at address 2, which is undefined.\<close>

definition ISP_readMemory :: "'s target \<Rightarrow> u32 \<Rightarrow> u32 \<Rightarrow> u8 list option \<Rightarrow> 's isp \<Rightarrow> (RET_CODE \<times> u8 list option \<times> 's isp) option" where
  "ISP_readMemory react addr size' data st =
     (if (CHECK_FLASH_ADDR addr \<or> CHECK_RAM_ADDR addr) \<and> size' mod 4 = 0 \<and> 0 < size' \<and>
         size' \<le> FLASH_SIZE \<and> size' \<le> RAM_SIZE \<and> data \<noteq> None
      then do {
        cmdStr \<leftarrow> sprintf_to 36 (isp_cmd_list ISP_CMD_READ_MEMORY # 32 # fmt_d addr @ 32 # fmt_d size' @ CRLF);
        (n, st) \<leftarrow> recv ISP_UART_RECV_TIMEOUT_US (isp_puts react cmdStr (clear_recv st));
        if n \<le> 0 then Some (RET_CODE_RESP_TIMEOUT, data, st)
        else do {
          q \<leftarrow> strstr (ispRecvBuf st) CMD_SUCCESS_RESP_STR;
          case q of
            None \<Rightarrow> Some (RET_CODE_ERROR, data, st)
          | Some k \<Rightarrow> do {
              let UUlineNum = unat size' div 45 + (if unat size' mod 45 \<noteq> 0 then 1 else 0);
              let p = drop (k + 3) (ispRecvBuf st);
              d \<leftarrow> decode_lines p UUlineNum (the data);
              checksum \<leftarrow> sum_int d (unat size') 0;
              let lastLine = drop (63 * (UUlineNum - 1)) p;
              e \<leftarrow> strstr lastLine CRLF;
              e \<leftarrow> e;
              checksumGet \<leftarrow> atoi (drop (e + 2) lastLine);
              if checksum = checksumGet
              then Some (RET_CODE_SUCCESS, Some d, isp_puts react CRLF (isp_puts react OK_STR st))
              else Some (RET_CODE_ERROR, Some d, st) } } }
      else Some (RET_CODE_PARAM_ILLEGAL, data, st))"

section \<open>Sending and receiving\<close>

text \<open>The target's state and output after a whole string.\<close>

fun reacts :: "'s target \<Rightarrow> 's \<Rightarrow> u8 list \<Rightarrow> 's \<times> u8 option list" where
  "reacts react t [] = (t, [])"
| "reacts react t (b # bs) =
     (let (t1, o1) = react t b; (t2, o2) = reacts react t1 bs in (t2, o1 @ o2))"

lemma isp_puts_eq:
  "isp_puts react s st =
     st\<lparr>tgt := fst (reacts react (tgt st) s), rx := rx st @ snd (reacts react (tgt st) s), tx := tx st @ s\<rparr>"
  by (induction s arbitrary: st) (simp_all add: isp_puts_def isp_putc_def Let_def split: prod.splits)

lemma isp_putc_eq: "isp_putc react b st = isp_puts react [b] st"
  by (simp add: isp_puts_def)

lemma reacts_append:
  "reacts react t (s @ s') =
     (fst (reacts react (fst (reacts react t s)) s'),
      snd (reacts react t s) @ snd (reacts react (fst (reacts react t s)) s'))"
  by (induction s arbitrary: t) (simp_all add: Let_def split: prod.splits)

lemma isp_puts_append: "isp_puts react t (isp_puts react s st) = isp_puts react (s @ t) st"
  by (simp add: isp_puts_eq reacts_append)

text \<open>What a receive call takes from the line: the bytes up to the first pause of \<open>t\<close> polls,
  and what stays behind; \<open>c\<close> empty polls have already passed.\<close>

fun received :: "nat \<Rightarrow> nat \<Rightarrow> u8 option list \<Rightarrow> u8 list" where
  "received c t [] = []"
| "received c t (e # es) =
     (if c < t then (case e of Some b \<Rightarrow> b # received 0 t es | None \<Rightarrow> received (Suc c) t es) else [])"

fun left_over :: "nat \<Rightarrow> nat \<Rightarrow> u8 option list \<Rightarrow> u8 option list" where
  "left_over c t [] = []"
| "left_over c t (e # es) =
     (if c < t then (case e of Some b \<Rightarrow> left_over 0 t es | None \<Rightarrow> left_over (Suc c) t es) else e # es)"

lemma getResp_loop_value:
  "p \<le> length buf \<Longrightarrow>
   getResp_loop buf p c t es =
     (let r = received c t es in
      if p + length r \<le> length buf
      then Some (p + length r, take p buf @ r @ drop (p + length r) buf, left_over c t es) else None)"
proof (induction es arbitrary: buf p c)
  case Nil
  then show ?case by simp
next
  case (Cons e es)
  show ?case
  proof (cases "c < t")
    case False
    with Cons.prems show ?thesis by simp
  next
    case True
    show ?thesis
    proof (cases e)
      case None
      with True Cons show ?thesis by (simp add: Let_def)
    next
      case (Some b)
      show ?thesis
      proof (cases "p < length buf")
        case True
        have "take (Suc p) (buf[p := b]) = take p buf @ [b]"
          using True by (simp add: take_Suc_conv_app_nth)
        moreover have "drop (Suc (p + n)) (buf[p := b]) = drop (Suc (p + n)) buf" for n
          by simp
        ultimately show ?thesis
          using True \<open>c < t\<close> Some Cons.IH [of "Suc p" "buf[p := b]" 0]
          by (auto simp: Let_def wr_in)
      next
        case False
        with \<open>c < t\<close> Some Cons.prems show ?thesis by (simp add: wr_out)
      qed
    qed
  qed
qed

lemma recv_value:
  "recv timeout st =
     (let r = received 0 (unat timeout) (rx st) in
      if length r \<le> length (ispRecvBuf st)
      then Some (int (length r),
        st\<lparr>ispRecvBuf := r @ drop (length r) (ispRecvBuf st), rx := left_over 0 (unat timeout) (rx st)\<rparr>)
      else None)"
  by (simp add: recv_def ISP_getResp_def getResp_loop_value Let_def)

lemma clear_recv_simps [simp]:
  "ispRecvBuf (clear_recv st) = replicate 1024 0"
  "rx (clear_recv st) = rx st" "tx (clear_recv st) = tx st" "tgt (clear_recv st) = tgt st"
  "mallocs (clear_recv st) = mallocs st" "live (clear_recv st) = live st"
  by (simp_all add: clear_recv_def)

lemma isp_puts_simps [simp]:
  "ispRecvBuf (isp_puts react s st) = ispRecvBuf st" "tx (isp_puts react s st) = tx st @ s"
  "mallocs (isp_puts react s st) = mallocs st" "live (isp_puts react s st) = live st"
  by (simp_all add: isp_puts_eq)

text \<open>The answer found in a cleared buffer: the bytes received, cut at the first NUL.\<close>

definition text_of :: "u8 list \<Rightarrow> u8 list" where
  "text_of r = takeWhile (\<lambda>c. c \<noteq> 0) r"

lemma cstr_text: "0 < n \<Longrightarrow> cstr (r @ replicate n 0) = Some (text_of r)"
proof (induction r)
  case Nil
  then show ?case by (cases n) (auto simp: text_of_def)
next
  case (Cons a r)
  then show ?case by (simp add: text_of_def)
qed

lemma text_of_id [simp]: "0 \<notin> set r \<Longrightarrow> text_of r = r"
  by (auto simp: text_of_def takeWhile_eq_all_conv)

definition contains :: "u8 list \<Rightarrow> u8 list \<Rightarrow> bool" where
  "contains r s \<longleftrightarrow> find_sub s r \<noteq> None"

lemma contains_iff: "contains r s \<longleftrightarrow> (\<exists>a b. r = a @ s @ b)"
  unfolding contains_def by (rule find_sub_iff)

definition answer :: "u32 \<Rightarrow> 's isp \<Rightarrow> u8 list" where
  "answer timeout st = received 0 (unat timeout) (rx st)"

text \<open>The state after an answer has been read into a cleared buffer.\<close>

definition after_answer :: "u32 \<Rightarrow> 's isp \<Rightarrow> 's isp" where
  "after_answer timeout st =
     st\<lparr>ispRecvBuf := answer timeout st @ replicate (1024 - length (answer timeout st)) 0,
       rx := left_over 0 (unat timeout) (rx st)\<rparr>"

lemma await_value:
  assumes "ispRecvBuf st = replicate 1024 0" and "length (answer timeout st) < 1024"
  shows "await timeout expected st =
    Some (if answer timeout st = [] then RET_CODE_RESP_TIMEOUT
          else if contains (text_of (answer timeout st)) expected then RET_CODE_SUCCESS
          else RET_CODE_ERROR, after_answer timeout st)"
proof -
  have "cstr (answer timeout st @ replicate (1024 - length (answer timeout st)) 0) =
      Some (text_of (answer timeout st))"
    using assms by (intro cstr_text) simp
  with assms show ?thesis
    by (auto simp: await_def recv_value Let_def strstr_def contains_def after_answer_def answer_def)
qed

lemma recv_cleared:
  assumes "ispRecvBuf st = replicate 1024 0" and "length (answer timeout st) < 1024"
  shows "recv timeout st = Some (int (length (answer timeout st)), after_answer timeout st)"
  using assms by (simp add: recv_value Let_def after_answer_def answer_def)

lemma after_answer_simps [simp]:
  "tx (after_answer t st) = tx st" "tgt (after_answer t st) = tgt st"
  "live (after_answer t st) = live st" "mallocs (after_answer t st) = mallocs st"
  "rx (after_answer t st) = left_over 0 (unat t) (rx st)"
  by (simp_all add: after_answer_def)

lemma await_tx: "await t e st = Some (r, st') \<Longrightarrow>
    tx st' = tx st \<and> live st' = live st \<and> mallocs st' = mallocs st \<and> tgt st' = tgt st"
  by (auto simp: await_def recv_value Let_def split: bind_splits if_splits)

lemma recv_frame: "recv t st = Some (n, st') \<Longrightarrow>
    tx st' = tx st \<and> live st' = live st \<and> mallocs st' = mallocs st \<and> tgt st' = tgt st"
  by (auto simp: recv_value Let_def split: if_splits)

lemma await_code: "await t e st = Some (r, st') \<Longrightarrow>
    r \<in> {RET_CODE_SUCCESS, RET_CODE_ERROR, RET_CODE_RESP_TIMEOUT}"
  by (auto simp: await_def split: bind_splits if_splits prod.splits)

text \<open>Silence.\<close>

lemma await_silent: "rx st = [] \<Longrightarrow> await t e st = Some (RET_CODE_RESP_TIMEOUT, st\<lparr>rx := []\<rparr>)"
  by (simp add: await_def recv_value Let_def)

text \<open>A burst: bytes without a pause, and then silence.\<close>

lemma received_burst: "0 < t \<Longrightarrow> received 0 t (map Some bs) = bs"
  by (induction bs) auto

lemma left_over_burst: "0 < t \<Longrightarrow> left_over 0 t (map Some bs) = []"
  by (induction bs) auto

section \<open>Replies\<close>

text \<open>The target's answer to a command, read into the cleared buffer.\<close>

definition reply :: "'s target \<Rightarrow> u32 \<Rightarrow> u8 list \<Rightarrow> 's isp \<Rightarrow> u8 list" where
  "reply react timeout cmd st = answer timeout (isp_puts react cmd (clear_recv st))"

definition after_reply :: "'s target \<Rightarrow> u32 \<Rightarrow> u8 list \<Rightarrow> 's isp \<Rightarrow> 's isp" where
  "after_reply react timeout cmd st = after_answer timeout (isp_puts react cmd (clear_recv st))"

lemma recv_reply:
  "length (reply react t cmd st) < 1024 \<Longrightarrow>
     recv t (isp_puts react cmd (clear_recv st)) = Some (int (length (reply react t cmd st)), after_reply react t cmd st)"
  by (simp add: reply_def after_reply_def recv_cleared)

lemma await_reply:
  "length (reply react t cmd st) < 1024 \<Longrightarrow>
     await t e (isp_puts react cmd (clear_recv st)) =
       Some (if reply react t cmd st = [] then RET_CODE_RESP_TIMEOUT
          else if contains (text_of (reply react t cmd st)) e then RET_CODE_SUCCESS
          else RET_CODE_ERROR, after_reply react t cmd st)"
  by (simp add: reply_def after_reply_def await_value)

lemma recvBuf_after_reply:
  "ispRecvBuf (after_reply react t cmd st) =
     reply react t cmd st @ replicate (1024 - length (reply react t cmd st)) 0"
  by (simp add: after_reply_def reply_def after_answer_def)

lemma after_reply_simps [simp]:
  "tx (after_reply react t cmd st) = tx st @ cmd" "live (after_reply react t cmd st) = live st"
  "mallocs (after_reply react t cmd st) = mallocs st"
  by (simp_all add: after_reply_def)

lemma strstr_reply:
  "length (reply react t cmd st) < 1024 \<Longrightarrow>
     strstr (ispRecvBuf (after_reply react t cmd st)) e = Some (find_sub e (text_of (reply react t cmd st)))"
  by (simp add: recvBuf_after_reply strstr_def cstr_text)

section \<open>A scripted target\<close>

text \<open>A target that answers the lines it is sent from a list.\<close>

definition scripted :: "u8 list list target" where
  "scripted rs b = (if b = 10 then (case rs of [] \<Rightarrow> ([], []) | r # rs \<Rightarrow> (rs, map Some r)) else (rs, []))"

definition power_on :: "'s \<Rightarrow> 's isp" where
  "power_on s = \<lparr>tgt = s, rx = [], tx = [], ispRecvBuf = replicate 1024 0, mallocs = [], live = 0\<rparr>"

lemma reacts_scripted [simp]: "10 \<notin> set s \<Longrightarrow> reacts scripted rs s = (rs, [])"
  by (induction s) (auto simp: scripted_def)

lemma scripted_line:
  "10 \<notin> set s \<Longrightarrow> tgt st = r # rs \<Longrightarrow>
     isp_puts scripted (s @ [10]) st = st\<lparr>tgt := rs, rx := rx st @ map Some r, tx := tx st @ s @ [10]\<rparr>"
  by (simp add: isp_puts_eq reacts_append scripted_def)

lemma scripted_reply:
  assumes "cmd = s @ [10]" "10 \<notin> set s" "tgt st = r # rs" "rx st = []" "0 < t"
  shows "reply scripted t cmd st = r"
    and "tgt (after_reply scripted t cmd st) = rs" and "rx (after_reply scripted t cmd st) = []"
  using assms
  by (simp_all add: reply_def answer_def after_reply_def scripted_line received_burst left_over_burst word_less_nat_alt)

lemma power_on_simps [simp]:
  "tgt (power_on s) = s" "rx (power_on s) = []" "tx (power_on s) = []" "mallocs (power_on s) = []"
  "live (power_on s) = 0"
  by (simp_all add: power_on_def)

lemmas memory_map = memory_map_defs CHECK_RAM_ADDR_def CHECK_FLASH_ADDR_def

lemma contains_mid: "contains (a @ s @ b) s"
  by (auto simp: contains_iff)

lemma ok_texts: "contains (text_of (bytes ''0'' @ CRLF)) CMD_SUCCESS_RESP_STR" "contains (text_of (bytes ''OK'' @ CRLF)) OK_STR"
  using contains_mid [of "[]" OK_STR CRLF] contains_mid [of "[]" CMD_SUCCESS_RESP_STR "[]"]
  by (simp_all add: CMD_SUCCESS_RESP_STR_def OK_STR_def CRLF_def)

section \<open>What the simple commands send and return\<close>

lemma sector_cmd_fits:
  assumes "unat e \<le> 15" "s \<le> e"
  shows "sprintf_to 12 (sector_cmd c s e) = Some (sector_cmd c s e)"
proof -
  from assms have "unat s \<le> 15" by (simp add: word_le_nat_alt)
  then have "length (dec_nat (unat s)) \<le> 2" "length (dec_nat (unat e)) \<le> 2"
    using assms by (auto intro!: length_dec_nat_le)
  then show ?thesis by (simp add: sprintf_to_def sector_cmd_def CRLF_def)
qed

lemma ISP_prepareSectors_value:
  assumes "s \<le> e" "unat e \<le> 15"
  shows "ISP_prepareSectors react s e st =
    await 500 CMD_SUCCESS_RESP_STR (isp_puts react (sector_cmd ISP_CMD_PREPARE_SECTORS s e) (clear_recv st))"
  using assms by (auto simp: ISP_prepareSectors_def sector_cmd_fits)

lemma ISP_eraseSectors_value:
  assumes "s \<le> e" "unat e \<le> 15"
  shows "ISP_eraseSectors react s e st =
    await 120000 CMD_SUCCESS_RESP_STR (isp_puts react (sector_cmd ISP_CMD_ERASE_SECTORS s e) (clear_recv st))"
  using assms by (auto simp: ISP_eraseSectors_def sector_cmd_fits)

lemma sectors_refused:
  assumes "\<not> (s \<le> e \<and> unat e \<le> 15)"
  shows "ISP_prepareSectors react s e st = Some (RET_CODE_PARAM_ILLEGAL, st)"
    and "ISP_eraseSectors react s e st = Some (RET_CODE_PARAM_ILLEGAL, st)"
  using assms by (auto simp: ISP_prepareSectors_def ISP_eraseSectors_def not_le)

section \<open>Synchronisation\<close>

lemma sync_loop_result: "sync_result s = Some r \<Longrightarrow> sync_loop react s st = Some (r, st)"
  by (simp add: sync_loop.simps)

lemma sync_loop_step: "sync_result s = None \<Longrightarrow>
    sync_loop react s st = do { (s', st') \<leftarrow> sync_step react s st; sync_loop react s' st' }"
  by (subst sync_loop.simps) (auto split: option.splits prod.splits)

lemma sync_loop_done:
  "sync_loop react SYNC_STATUS_SYNC_DONE st = Some (RET_CODE_SUCCESS, st)"
  "sync_loop react SYNC_STATUS_SYNC_TIMEOUT st = Some (RET_CODE_RESP_TIMEOUT, st)"
  "sync_loop react SYNC_STATUS_SYNC_ERROR st = Some (RET_CODE_ERROR, st)"
  by (simp_all add: sync_loop_result)

lemma sync_freq:
  assumes "sync_loop react SYNC_STATUS_SEND_FREQ st = Some (r, st')"
  shows "r \<in> {RET_CODE_SUCCESS, RET_CODE_ERROR, RET_CODE_RESP_TIMEOUT} \<and> tx st' = tx st @ bytes ''0'' @ CRLF"
  using assms
  by (auto simp: sync_loop_step [of SYNC_STATUS_SEND_FREQ] sync_step_def sync_loop_done
      split: bind_splits if_splits dest!: recv_frame)

lemma sync_exit:
  assumes "sync_loop react SYNC_STATUS_EXIT_SYNC st = Some (r, st')"
  shows "r \<in> {RET_CODE_SUCCESS, RET_CODE_ERROR, RET_CODE_RESP_TIMEOUT} \<and> tx st' = tx st @ [27]"
  using assms
  by (auto simp: sync_loop_step [of SYNC_STATUS_EXIT_SYNC] sync_step_def sync_loop_done isp_putc_eq
      split: bind_splits if_splits dest!: recv_frame)

lemma sync_resp:
  assumes "sync_loop react SYNC_STATUS_RESP_SYNC st = Some (r, st')"
  shows "r \<in> {RET_CODE_ERROR, RET_CODE_RESP_TIMEOUT} \<and> tx st' = tx st @ BAUDRATE_SYNC_RECV_STR @ CRLF \<or>
    r \<in> {RET_CODE_SUCCESS, RET_CODE_ERROR, RET_CODE_RESP_TIMEOUT} \<and>
      tx st' = tx st @ BAUDRATE_SYNC_RECV_STR @ CRLF @ bytes ''0'' @ CRLF"
  using assms
  by (auto simp: sync_loop_step [of SYNC_STATUS_RESP_SYNC] sync_step_def sync_loop_done isp_puts_append
      split: bind_splits if_splits dest!: recv_frame sync_freq)

section \<open>The contract of a command\<close>

text \<open>What the programmer relies on in every command: it leaves the heap as it found it and only adds
  to what has been sent.\<close>

definition kept :: "'s isp \<Rightarrow> 's isp \<Rightarrow> bool" where
  "kept st st' \<longleftrightarrow> live st' = live st \<and> prefix (tx st) (tx st') \<and> suffix (mallocs st') (mallocs st)"

lemma kept_refl [simp, intro]: "kept st st"
  by (simp add: kept_def)

lemma kept_trans: "kept a b \<Longrightarrow> kept b c \<Longrightarrow> kept a c"
  unfolding kept_def by (metis prefix_order.trans suffix_order.trans)

lemma kept_puts: "kept (isp_puts react s st) st' \<Longrightarrow> kept st st'"
  by (auto simp: kept_def dest: append_prefixD)

lemma kept_puts_after [simp]: "kept st st' \<Longrightarrow> kept st (isp_puts react s st')"
  by (auto simp: kept_def)

lemma kept_clear [simp]: "kept (clear_recv st) = kept st"
  by (simp add: kept_def fun_eq_iff)

lemma kept_recv: "recv t st = Some (n, st') \<Longrightarrow> kept st st'"
  by (auto simp: kept_def dest!: recv_frame)

lemma kept_await: "await t e st = Some (r, st') \<Longrightarrow> kept st st'"
  by (auto simp: kept_def dest!: await_tx)

lemmas keeps = kept_puts kept_recv kept_await

locale isp_command =
  fixes run :: "'s isp \<Rightarrow> (RET_CODE \<times> 's isp) option"
  assumes frame: "run st = Some (r, st') \<Longrightarrow> kept st st'"
begin

lemma keeps_live: "run st = Some (r, st') \<Longrightarrow> live st' = live st"
  using frame [of st r st'] by (simp add: kept_def)

lemma only_sends: "run st = Some (r, st') \<Longrightarrow> \<exists>s. tx st' = tx st @ s"
  using frame [of st r st'] by (auto simp: kept_def prefix_def)

text \<open>Retrying a command any number of times.\<close>

lemma repeated:
  assumes "for_up i n (\<lambda>_ s. do { (r, s) \<leftarrow> run s; Some s }) st = Some st'"
  shows "kept st st'"
  by (rule for_up_partial [OF assms, where P = "\<lambda>_. kept st"])
    (auto split: bind_splits dest!: frame intro: kept_trans)

end

interpretation unlock: isp_command "ISP_unlock react" for react
  by unfold_locales (auto simp: ISP_unlock_def isp_puts_append dest!: kept_await kept_puts)

interpretation echo: isp_command "ISP_disableEcho react" for react
  by unfold_locales (auto simp: ISP_disableEcho_def dest!: kept_await kept_puts)

interpretation prepare: isp_command "ISP_prepareSectors react s e" for react s e
  by unfold_locales (auto simp: ISP_prepareSectors_def split: bind_splits if_splits dest!: kept_await kept_puts)

interpretation erase_sectors: isp_command "ISP_eraseSectors react s e" for react s e
  by unfold_locales (auto simp: ISP_eraseSectors_def split: bind_splits if_splits dest!: kept_await kept_puts)

interpretation erase: isp_command "ISP_erase react s e" for react s e
  by unfold_locales (auto simp: ISP_erase_def split: bind_splits if_splits
      dest!: prepare.frame erase_sectors.frame intro: kept_trans)

interpretation copy: isp_command "ISP_copyToFlash react dst src n" for react dst src n
  by (unfold_locales, auto simp: ISP_copyToFlash_def split: bind_splits if_splits
      dest!: prepare.frame kept_await kept_puts, (blast intro: kept_trans)+)

lemma sync_step_kept: "sync_step react s st = Some (s1, st1) \<Longrightarrow> kept st st1"
  by (cases s) (auto simp: sync_step_def isp_putc_eq isp_puts_append split: bind_splits if_splits
      dest!: kept_recv kept_puts)

lemma sync_loop_kept: "sync_loop react s st = Some (r, st') \<Longrightarrow> kept st st'"
proof (induction react s st rule: sync_loop.induct)
  case (1 react s st)
  show ?case
  proof (cases "sync_result s")
    case None
    with "1.prems" obtain s1 st1 where step: "sync_step react s st = Some (s1, st1)"
      and rest: "sync_loop react s1 st1 = Some (r, st')"
      by (auto simp: sync_loop_step split: bind_splits)
    from "1.IH" [OF None step refl rest] sync_step_kept [OF step] show ?thesis by (blast intro: kept_trans)
  next
    case (Some r)
    with "1.prems" show ?thesis by (simp add: sync_loop_result)
  qed
qed

interpretation sync: isp_command "ISP_syncBaudRate react" for react
  by unfold_locales (simp add: ISP_syncBaudRate_def sync_loop_kept)

lemma send_lines_kept:
  assumes "send_lines react data num extra (b, st) = Some (b', st')"
  shows "kept st st'"
proof -
  have "kept st (snd (b', st'))"
    by (rule for_up_partial [OF assms [unfolded send_lines_def], where P = "\<lambda>_ s. kept st (snd s)"])
      (auto simp: send_step_def Let_def split: bind_splits intro: kept_trans)
  then show ?thesis by simp
qed

lemma kept_malloc_free: "malloc st = (True, st1) \<Longrightarrow> kept st1 st2 \<Longrightarrow> kept st (free st2)"
  by (auto simp: malloc_def free_def kept_def split: list.splits bool.splits intro: suffix_ConsI)

lemma kept_malloc_fail: "malloc st = (False, st1) \<Longrightarrow> kept st st1"
  by (auto simp: malloc_def kept_def split: list.splits bool.splits intro: suffix_ConsI)

interpretation write_ram: isp_command "ISP_WriteToRAM react addr n data block" for react addr n data block
proof
  fix st r st'
  assume *: "ISP_WriteToRAM react addr n data block st = Some (r, st')"
  show "kept st st'"
  proof (cases "CHECK_RAM_ADDR addr \<and> addr mod 32 = 0 \<and> n mod 4 = 0 \<and> 0 < n \<and> n \<le> 512 \<and> data \<noteq> None")
    case False
    with * show ?thesis unfolding ISP_WriteToRAM_def by (simp only: if_False) simp
  next
    case True
    with * obtain k st1 cmd where 1: "recv 500 (isp_puts react cmd (clear_recv st)) = Some (k, st1)"
      and 2: "st' = st1 \<or> malloc st1 = (False, st') \<or> (\<exists>st2 num extra b st3 c. malloc st1 = (True, st2) \<and>
          send_lines react (the data) num extra (block, st2) = Some (b, st3) \<and>
          await 1000 OK_STR (isp_puts react c (clear_recv (free st3))) = Some (r, st'))"
      unfolding ISP_WriteToRAM_def Let_def
      by (simp only: if_True simp_thms) (auto split: bind_splits if_splits prod.splits, blast+)
    from kept_recv [OF 1] have k1: "kept st st1" by (auto dest!: kept_puts)
    from 2 consider "st' = st1" | "malloc st1 = (False, st')" |
      st2 num extra b st3 c where "malloc st1 = (True, st2)"
        "send_lines react (the data) num extra (block, st2) = Some (b, st3)"
        "await 1000 OK_STR (isp_puts react c (clear_recv (free st3))) = Some (r, st')" by blast
    then show ?thesis
    proof cases
      case 1
      with k1 show ?thesis by simp
    next
      case 2
      with k1 show ?thesis by (blast intro: kept_malloc_fail kept_trans)
    next
      case 3
      from kept_malloc_free [OF 3(1) send_lines_kept [OF 3(2)]] kept_await [OF 3(3)] k1
      show ?thesis by (auto intro: kept_trans dest!: kept_puts)
    qed
  qed
qed

lemma ISP_readMemory_kept: "ISP_readMemory react addr n data st = Some (r, d, st') \<Longrightarrow> kept st st'"
proof (cases "(CHECK_FLASH_ADDR addr \<or> CHECK_RAM_ADDR addr) \<and> n mod 4 = 0 \<and> 0 < n \<and> n \<le> FLASH_SIZE \<and> n \<le> RAM_SIZE \<and> data \<noteq> None")
  case False
  moreover assume "ISP_readMemory react addr n data st = Some (r, d, st')"
  ultimately show ?thesis unfolding ISP_readMemory_def by (simp only: if_False) simp
next
  case True
  moreover assume "ISP_readMemory react addr n data st = Some (r, d, st')"
  ultimately obtain k st1 cmd where 1: "recv 500 (isp_puts react cmd (clear_recv st)) = Some (k, st1)"
    and 2: "st' = st1 \<or> st' = isp_puts react CRLF (isp_puts react OK_STR st1)"
    unfolding ISP_readMemory_def Let_def
    by (simp only: if_True simp_thms) (auto split: bind_splits if_splits prod.splits option.splits)
  from kept_recv [OF 1] have "kept st st1" by (auto dest!: kept_puts)
  with 2 show ?thesis by (auto intro: kept_trans)
qed

interpretation read: isp_command "\<lambda>st. map_option (\<lambda>(r, _, st). (r, st)) (ISP_readMemory react addr n data st)" for react addr n data
  by unfold_locales (auto dest: ISP_readMemory_kept)

section \<open>Properties\<close>

text \<open>The code a command returns for an answer.\<close>

definition verdict :: "u8 list \<Rightarrow> u8 list \<Rightarrow> RET_CODE" where
  "verdict expected r = (if r = [] then RET_CODE_RESP_TIMEOUT
     else if contains (text_of r) expected then RET_CODE_SUCCESS else RET_CODE_ERROR)"

lemma command_value:
  "length (reply react t cmd st) < 1024 \<Longrightarrow>
     await t e (isp_puts react cmd (clear_recv st)) =
       Some (verdict e (reply react t cmd st), after_reply react t cmd st)"
  by (simp add: await_reply verdict_def)

lemma verdict_codes: "verdict e r \<in> {RET_CODE_SUCCESS, RET_CODE_ERROR, RET_CODE_RESP_TIMEOUT}"
  by (simp add: verdict_def)

text \<open>\<open>ISP_erase\<close> refuses a bad sector range without sending anything; otherwise it sends the prepare
  command and, exactly when the answer to it contains the success code, the erase command, and its
  result is the verdict on the last answer.  The receive buffer is not overrun as long as the answers
  are shorter than the buffer.\<close>

theorem ISP_erase_protocol:
  assumes "length (reply react 500 (sector_cmd ISP_CMD_PREPARE_SECTORS s e) st) < 1024"
    and "length (reply react 120000 (sector_cmd ISP_CMD_ERASE_SECTORS s e)
      (after_reply react 500 (sector_cmd ISP_CMD_PREPARE_SECTORS s e) st)) < 1024"
  shows "ISP_erase react s e st =
    (let st1 = after_reply react 500 (sector_cmd ISP_CMD_PREPARE_SECTORS s e) st;
         v1 = verdict CMD_SUCCESS_RESP_STR (reply react 500 (sector_cmd ISP_CMD_PREPARE_SECTORS s e) st);
         st2 = after_reply react 120000 (sector_cmd ISP_CMD_ERASE_SECTORS s e) st1;
         v2 = verdict CMD_SUCCESS_RESP_STR (reply react 120000 (sector_cmd ISP_CMD_ERASE_SECTORS s e) st1)
     in if e < s \<or> 15 < unat e then Some (RET_CODE_PARAM_ILLEGAL, st)
        else if v1 = RET_CODE_SUCCESS then Some (v2, st2) else Some (v1, st1))"
proof (cases "s \<le> e \<and> unat e \<le> 15")
  case True
  with assms show ?thesis
    by (auto simp: ISP_erase_def ISP_prepareSectors_value ISP_eraseSectors_value command_value Let_def)
next
  case False
  then show ?thesis
    using sectors_refused(1) [OF False, of react st] by (auto simp: ISP_erase_def not_le)
qed

lemma erase_example:
  "reply scripted 500 (sector_cmd ISP_CMD_PREPARE_SECTORS 0 15) (power_on [r1, r2]) = r1"
  "reply scripted 120000 (sector_cmd ISP_CMD_ERASE_SECTORS 0 15)
     (after_reply scripted 500 (sector_cmd ISP_CMD_PREPARE_SECTORS 0 15) (power_on [r1, r2])) = r2"
proof -
  have c: "sector_cmd ISP_CMD_PREPARE_SECTORS 0 15 = bytes ''P 0 15'' @ [13] @ [10]"
    "sector_cmd ISP_CMD_ERASE_SECTORS 0 15 = bytes ''E 0 15'' @ [13] @ [10]"
    by (simp_all add: sector_cmd_def CRLF_def dec_nat.simps)
  note r = scripted_reply [OF c(1) [folded append_assoc], of "power_on [r1, r2]" r1 "[r2]" 500]
  show "reply scripted 500 (sector_cmd ISP_CMD_PREPARE_SECTORS 0 15) (power_on [r1, r2]) = r1"
    using r by simp
  show "reply scripted 120000 (sector_cmd ISP_CMD_ERASE_SECTORS 0 15)
     (after_reply scripted 500 (sector_cmd ISP_CMD_PREPARE_SECTORS 0 15) (power_on [r1, r2])) = r2"
    by (rule scripted_reply(1) [OF c(2) [folded append_assoc]]) (use r in simp_all)
qed

lemma ISP_erase_protocol_witness:
  "\<exists>st'. ISP_erase scripted 0 15 (power_on [bytes ''0'' @ CRLF, bytes ''9'' @ CRLF]) = Some (RET_CODE_ERROR, st') \<and>
    tx st' = sector_cmd ISP_CMD_PREPARE_SECTORS 0 15 @ sector_cmd ISP_CMD_ERASE_SECTORS 0 15"
proof -
  have "\<not> contains (text_of [57, 13, 10]) CMD_SUCCESS_RESP_STR"
    by (simp add: contains_def CMD_SUCCESS_RESP_STR_def CRLF_def text_of_def)
  then show ?thesis
    using ISP_erase_protocol [where react = scripted and s = 0 and e = 15 and
        st = "power_on [bytes ''0'' @ CRLF, bytes ''9'' @ CRLF]"] ok_texts(1)
    by (simp add: erase_example verdict_def CRLF_def)
qed

text \<open>The unlock command cannot fail while the target echoes: the echo of \<open>U 23130\<close> CR LF ends in
  \<open>0\<close> CR LF, which is what the code takes for the success code.  Whatever the target answers behind
  the echo, the result is success.\<close>

theorem ISP_unlock_accepts_echo:
  assumes "reply react 500 (UNLOCK_CMD_STR @ CRLF) st = UNLOCK_CMD_STR @ CRLF @ r"
    and "length r < 1000" and "0 \<notin> set r"
  shows "ISP_unlock react st = Some (RET_CODE_SUCCESS, after_reply react 500 (UNLOCK_CMD_STR @ CRLF) st)"
proof -
  let ?r = "UNLOCK_CMD_STR @ CRLF @ r"
  have "?r = bytes ''U 2313'' @ CMD_SUCCESS_RESP_STR @ r"
    by (simp add: UNLOCK_CMD_STR_def CRLF_def CMD_SUCCESS_RESP_STR_def)
  moreover have "0 \<notin> set ?r" using assms(3) by (simp add: UNLOCK_CMD_STR_def CRLF_def)
  ultimately have "contains (text_of ?r) CMD_SUCCESS_RESP_STR" by (metis contains_mid text_of_id)
  then have "verdict CMD_SUCCESS_RESP_STR ?r = RET_CODE_SUCCESS" by (simp add: verdict_def CRLF_def)
  moreover have "length ?r < 1024" using assms(2) by (simp add: UNLOCK_CMD_STR_def CRLF_def)
  ultimately show ?thesis
    using command_value [of react 500 "UNLOCK_CMD_STR @ CRLF" st] assms(1)
    by (simp add: ISP_unlock_def isp_puts_append)
qed

lemma ISP_unlock_accepts_echo_witness:
  "\<exists>st'. ISP_unlock scripted (power_on [UNLOCK_CMD_STR @ CRLF @ bytes ''16'' @ CRLF]) = Some (RET_CODE_SUCCESS, st')"
proof -
  let ?st = "power_on [UNLOCK_CMD_STR @ CRLF @ bytes ''16'' @ CRLF]"
  have "UNLOCK_CMD_STR @ CRLF = (UNLOCK_CMD_STR @ [13]) @ [10]" by (simp add: CRLF_def)
  then have "reply scripted 500 (UNLOCK_CMD_STR @ CRLF) ?st = UNLOCK_CMD_STR @ CRLF @ bytes ''16'' @ CRLF"
    by (rule scripted_reply(1)) (simp_all add: UNLOCK_CMD_STR_def)
  from ISP_unlock_accepts_echo [OF this] show ?thesis by (simp add: CRLF_def)
qed

text \<open>The success test looks for \<open>0\<close> CR LF anywhere in the answer, so an answer whose code ends in the
  digit 0, the compare error 10, counts as success in every command of this shape.\<close>

theorem ISP_error_10_is_success:
  assumes "s \<le> e" "unat e \<le> 15"
    and "reply react 120000 (sector_cmd ISP_CMD_ERASE_SECTORS s e) st = bytes ''10'' @ CRLF"
  shows "ISP_eraseSectors react s e st =
    Some (RET_CODE_SUCCESS, after_reply react 120000 (sector_cmd ISP_CMD_ERASE_SECTORS s e) st)"
proof -
  have "contains (text_of (bytes ''10'' @ CRLF)) CMD_SUCCESS_RESP_STR"
    using contains_mid [of "bytes ''1''" CMD_SUCCESS_RESP_STR "[]"]
    by (simp add: CRLF_def CMD_SUCCESS_RESP_STR_def)
  then have "verdict CMD_SUCCESS_RESP_STR (bytes ''10'' @ CRLF) = RET_CODE_SUCCESS"
    by (simp add: verdict_def)
  then show ?thesis
    using command_value [of react 120000 "sector_cmd ISP_CMD_ERASE_SECTORS s e" st CMD_SUCCESS_RESP_STR] assms
    by (simp add: ISP_eraseSectors_value CRLF_def)
qed

lemma ISP_error_10_is_success_witness:
  "\<exists>st'. ISP_eraseSectors scripted 0 15 (power_on [bytes ''10'' @ CRLF]) = Some (RET_CODE_SUCCESS, st')"
proof -
  have "sector_cmd ISP_CMD_ERASE_SECTORS 0 15 = (bytes ''E 0 15'' @ [13]) @ [10]"
    by (simp add: sector_cmd_def CRLF_def dec_nat.simps)
  then have "reply scripted 120000 (sector_cmd ISP_CMD_ERASE_SECTORS 0 15) (power_on [bytes ''10'' @ CRLF]) = bytes ''10'' @ CRLF"
    by (rule scripted_reply(1)) simp_all
  from ISP_error_10_is_success [OF _ _ this] show ?thesis by simp
qed

text \<open>The copy of the part number stops at a CR among the first eleven characters or runs off one of the
  two arrays.\<close>

lemma partId_copy_no_stop: "10 < i \<Longrightarrow> partId_copy p q i = None"
  by (induction p q i rule: partId_copy.induct) (auto split: bind_splits)

lemma partId_copy_index: "partId_copy p q i = Some (j, q') \<Longrightarrow> j \<le> 10"
  by (induction p q i rule: partId_copy.induct) (auto split: if_splits bind_splits)

lemma partId_copy_value:
  "13 \<notin> set cs \<Longrightarrow> i + length cs \<le> 10 \<Longrightarrow> i + length cs \<le> length q \<Longrightarrow>
     partId_copy (cs @ 13 # rest) q i = Some (i + length cs, take i q @ cs @ drop (i + length cs) q)"
proof (induction cs arbitrary: q i)
  case Nil
  then show ?case by simp
next
  case (Cons c cs)
  then have "take (Suc i) (q[i := c]) = take i q @ [c]" by (simp add: take_Suc_conv_app_nth)
  with Cons show ?case by (simp add: wr_in)
qed

lemma partId_copy_long:
  "13 \<notin> set (take 11 p) \<Longrightarrow> partId_copy p q 0 = None"
proof -
  have "13 \<notin> set (take (11 - i) p) \<Longrightarrow> i \<le> 11 \<Longrightarrow> partId_copy p q i = None" for i
  proof (induction p q i rule: partId_copy.induct)
    case (2 c cs q i)
    show ?case
    proof (cases "i = 11")
      case True
      then show ?thesis using partId_copy_no_stop by simp
    next
      case False
      with "2.prems" have "11 - i = Suc (11 - Suc i)" by simp
      with "2.prems" False "2.IH" show ?thesis by (auto split: bind_splits)
    qed
  qed simp
  then show "13 \<notin> set (take 11 p) \<Longrightarrow> partId_copy p q 0 = None" by simp
qed

text \<open>\<open>ISP_getPartID\<close>: a part number of at most ten characters is copied and the call succeeds; a longer
  one is not refused but makes the copy run past its arrays (the loop's \<open>||\<close> keeps it going once the index
  has passed 10), so the length check after the loop never fires.\<close>

theorem ISP_getPartID_bounds:
  assumes "reply react 500 (bytes ''J'' @ CRLF) st = CMD_SUCCESS_RESP_STR @ cs @ CRLF"
    and "0 \<notin> set cs" "13 \<notin> set cs" and "length cs < 1000" and "length cs \<le> length partId"
  shows "ISP_getPartID react partId st =
    (if length cs \<le> 10
     then Some (RET_CODE_SUCCESS, cs @ drop (length cs) partId, after_reply react 500 (bytes ''J'' @ CRLF) st)
     else None)"
proof -
  let ?cmd = "bytes ''J'' @ CRLF" let ?r = "CMD_SUCCESS_RESP_STR @ cs @ CRLF"
  let ?z = "1024 - length ?r"
  have len: "length ?r < 1024" using assms(4) by (simp add: CRLF_def CMD_SUCCESS_RESP_STR_def)
  have "0 \<notin> set ?r" using assms(2) by (simp add: CRLF_def CMD_SUCCESS_RESP_STR_def)
  moreover have "find_sub CMD_SUCCESS_RESP_STR ?r = Some 0"
    by (simp add: CMD_SUCCESS_RESP_STR_def CRLF_def)
  ultimately have s: "strstr (ispRecvBuf (after_reply react 500 ?cmd st)) CMD_SUCCESS_RESP_STR = Some (Some 0)"
    using strstr_reply [of react 500 ?cmd st CMD_SUCCESS_RESP_STR] len assms(1) by simp
  have b: "ispRecvBuf (after_reply react 500 ?cmd st) = ?r @ replicate ?z 0"
    using recvBuf_after_reply [of react 500 ?cmd st] by (simp only: assms(1))
  have d: "drop (length CMD_SUCCESS_RESP_STR) (ispRecvBuf (after_reply react 500 ?cmd st)) =
      cs @ 13 # 10 # replicate ?z 0"
    unfolding b by (simp add: CRLF_def)
  have n: "0 < int (length ?r)" by (simp add: CMD_SUCCESS_RESP_STR_def)
  have "13 \<notin> set (take 11 cs)" using assms(3) by (meson in_set_takeD)
  then have "partId_copy (cs @ 13 # 10 # replicate ?z 0) partId 0 =
      (if length cs \<le> 10 then Some (length cs, cs @ drop (length cs) partId) else None)"
    using partId_copy_value [of cs 0 partId "10 # replicate ?z 0"]
      partId_copy_long [of "cs @ 13 # 10 # replicate ?z 0" partId] assms(3,5)
    by (auto simp: not_le)
  moreover have "recv 500 (isp_puts react ?cmd (clear_recv st)) = Some (int (length ?r), after_reply react 500 ?cmd st)"
    using recv_reply [of react 500 ?cmd st] len by (simp only: assms(1))
  ultimately show ?thesis
    using s d n by (simp add: ISP_getPartID_def isp_putc_eq isp_puts_append)
qed

lemma ISP_getPartID_bounds_witness:
  "(\<exists>st'. ISP_getPartID scripted (replicate 12 0) (power_on [CMD_SUCCESS_RESP_STR @ bytes ''1125'' @ CRLF]) =
      Some (RET_CODE_SUCCESS, bytes ''1125'' @ replicate 8 0, st')) \<and>
   ISP_getPartID scripted (replicate 12 0) (power_on [CMD_SUCCESS_RESP_STR @ bytes ''12345678901'' @ CRLF]) = None"
proof -
  have c: "bytes ''J'' @ CRLF = (bytes ''J'' @ [13]) @ [10]" by (simp add: CRLF_def)
  have "reply scripted 500 (bytes ''J'' @ CRLF) (power_on [r]) = r" for r
    by (rule scripted_reply(1) [OF c]) simp_all
  then show ?thesis
    using ISP_getPartID_bounds [of scripted "power_on [CMD_SUCCESS_RESP_STR @ bytes ''1125'' @ CRLF]" "bytes ''1125''" "replicate 12 0"]
      ISP_getPartID_bounds [of scripted "power_on [CMD_SUCCESS_RESP_STR @ bytes ''12345678901'' @ CRLF]" "bytes ''12345678901''" "replicate 12 0"]
    by simp
qed

text \<open>C25: The synchronisation ends after at most three exchanges, with a result that is a function of the
  answers: no answer to the question mark is a timeout; \<open>Synchronized\<close> leads through the two lines of the
  dialogue, each answered by \<open>OK\<close>; an echoed question mark leads to the escape byte, which has to be
  echoed; anything else is an error.\<close>

theorem ISP_syncBaudRate_spec:
  fixes react :: "'s target" and st :: "'s isp"
  defines "line1 \<equiv> BAUDRATE_SYNC_RECV_STR @ CRLF" and "line2 \<equiv> bytes ''0'' @ CRLF"
  defines "r1 \<equiv> reply react 500 BAUDRATE_SYNC_SEND_STR st" and "s1 \<equiv> after_reply react 500 BAUDRATE_SYNC_SEND_STR st"
  defines "r2 \<equiv> reply react 500 line1 s1" and "s2 \<equiv> after_reply react 500 line1 s1"
  defines "r3 \<equiv> reply react 500 line2 s2" and "s3 \<equiv> after_reply react 500 line2 s2"
  defines "e \<equiv> reply react 500 [27] s1" and "s4 \<equiv> after_reply react 500 [27] s1"
  assumes "length r1 < 1024" "length r2 < 1024" "length r3 < 1024" "length e < 1024"
  shows "ISP_syncBaudRate react st = Some (
    if r1 = [] then (RET_CODE_RESP_TIMEOUT, s1)
    else if contains (text_of r1) BAUDRATE_SYNC_RECV_STR then
      (if verdict OK_STR r2 = RET_CODE_SUCCESS then (verdict OK_STR r3, s3) else (verdict OK_STR r2, s2))
    else if contains (text_of r1) BAUDRATE_SYNC_SEND_STR then
      (if e = [] then RET_CODE_RESP_TIMEOUT else if hd e = 27 then RET_CODE_SUCCESS else RET_CODE_ERROR, s4)
    else (RET_CODE_ERROR, s1))"
proof -
  have l2: "48 # CRLF = line2" by (simp add: line2_def)
  have 1: "sync_loop react SYNC_STATUS_SEND_FREQ s2 = Some (verdict OK_STR r3, s3)"
    using assms(13) recv_reply [of react 500 line2 s2] strstr_reply [of react 500 line2 s2 OK_STR]
    by (simp add: sync_loop_step [of SYNC_STATUS_SEND_FREQ] sync_step_def sync_loop_done verdict_def contains_def
        l2 flip: r3_def s3_def)
  have 2: "sync_loop react SYNC_STATUS_RESP_SYNC s1 =
      Some (if verdict OK_STR r2 = RET_CODE_SUCCESS then (verdict OK_STR r3, s3) else (verdict OK_STR r2, s2))"
    using assms(12) recv_reply [of react 500 line1 s1] strstr_reply [of react 500 line1 s1 OK_STR] 1
    by (simp add: sync_loop_step [of SYNC_STATUS_RESP_SYNC] sync_step_def sync_loop_done verdict_def contains_def
        isp_puts_append flip: r2_def s2_def line1_def)
  have "e \<noteq> [] \<Longrightarrow> rd (ispRecvBuf s4) 0 = Some (hd e)"
    by (cases e) (simp_all add: s4_def recvBuf_after_reply rd_def flip: e_def)
  then have 3: "sync_loop react SYNC_STATUS_EXIT_SYNC s1 = Some
      (if e = [] then RET_CODE_RESP_TIMEOUT else if hd e = 27 then RET_CODE_SUCCESS else RET_CODE_ERROR, s4)"
    using assms(14) recv_reply [of react 500 "[27]" s1]
    by (simp add: sync_loop_step [of SYNC_STATUS_EXIT_SYNC] sync_step_def sync_loop_done isp_putc_eq
        flip: e_def s4_def)
  show ?thesis
    using assms(11) recv_reply [of react 500 BAUDRATE_SYNC_SEND_STR st] 2 3
      strstr_reply [of react 500 BAUDRATE_SYNC_SEND_STR st BAUDRATE_SYNC_RECV_STR]
      strstr_reply [of react 500 BAUDRATE_SYNC_SEND_STR st BAUDRATE_SYNC_SEND_STR]
    by (simp add: ISP_syncBaudRate_def sync_loop_step [of SYNC_STATUS_SETUP_SYNC] sync_step_def sync_loop_done
        contains_def flip: r1_def s1_def)
qed

text \<open>A target that synchronises.\<close>

definition sync_target :: "unit target" where
  "sync_target u b = ((), map Some (if b = 63 then BAUDRATE_SYNC_RECV_STR @ CRLF
     else if b = 10 then OK_STR @ CRLF else []))"

lemma ISP_syncBaudRate_spec_witness:
  "\<exists>st'. ISP_syncBaudRate sync_target (power_on ()) = Some (RET_CODE_SUCCESS, st')"
proof -
  have r: "reply sync_target 500 cmd st = r" "rx (after_reply sync_target 500 cmd st) = []"
    if "snd (reacts sync_target () cmd) = map Some r" "rx st = []" for cmd r st
    using that by (simp_all add: reply_def after_reply_def answer_def isp_puts_eq received_burst left_over_burst)
  have 1: "snd (reacts sync_target () BAUDRATE_SYNC_SEND_STR) = map Some (BAUDRATE_SYNC_RECV_STR @ CRLF)"
    by (simp add: sync_target_def BAUDRATE_SYNC_SEND_STR_def)
  have 2: "snd (reacts sync_target () (BAUDRATE_SYNC_RECV_STR @ CRLF)) = map Some (OK_STR @ CRLF)"
    by (simp add: sync_target_def BAUDRATE_SYNC_RECV_STR_def CRLF_def)
  have 3: "snd (reacts sync_target () (bytes ''0'' @ CRLF)) = map Some (OK_STR @ CRLF)"
    by (simp add: sync_target_def CRLF_def)
  have 4: "snd (reacts sync_target () [27]) = map Some []"
    by (simp add: sync_target_def)
  let ?s1 = "after_reply sync_target 500 BAUDRATE_SYNC_SEND_STR (power_on ())"
  let ?s2 = "after_reply sync_target 500 (BAUDRATE_SYNC_RECV_STR @ CRLF) ?s1"
  note r1 = r [OF 1, of "power_on ()"]
  note r2 = r [OF 2, of ?s1]
  have r3: "reply sync_target 500 (bytes ''0'' @ CRLF) ?s2 = OK_STR @ CRLF"
    and r4: "reply sync_target 500 [27] ?s1 = []"
    using r [OF 3, of ?s2] r [OF 4, of ?s1] r1 r2 by simp_all
  have c: "contains (text_of (BAUDRATE_SYNC_RECV_STR @ CRLF)) BAUDRATE_SYNC_RECV_STR"
    using contains_mid [of "[]" BAUDRATE_SYNC_RECV_STR CRLF] by (simp add: BAUDRATE_SYNC_RECV_STR_def CRLF_def)
  have v: "verdict OK_STR (OK_STR @ CRLF) = RET_CODE_SUCCESS"
    using ok_texts(2) by (simp add: verdict_def OK_STR_def)
  have l: "length (BAUDRATE_SYNC_RECV_STR @ CRLF) < 1024" "length (OK_STR @ CRLF) < 1024" "BAUDRATE_SYNC_RECV_STR \<noteq> []"
    by (simp_all add: BAUDRATE_SYNC_RECV_STR_def OK_STR_def CRLF_def)
  show ?thesis
    using ISP_syncBaudRate_spec [of sync_target "power_on ()"] r1 r2 r3 r4 c v l by simp
qed

end
