(* ===== verification/IspBlock.thy ===== *)
theory IspBlock
  imports Isp
begin

text \<open>
  The block transfers of \<open>src/Program/program.cpp\<close> (\<open>ISP_WriteToRAM\<close>, \<open>ISP_readMemory\<close>, both defined in
  \<open>Isp\<close>): what goes over the wire for a block and what is read back from an answer.  The locale
  \<open>line_codec\<close> is the interface between the transfers and the line codec of \<open>UU\<close>.
\<close>

section \<open>Blocks of lines\<close>

text \<open>The interface between the block transfers and the line codec: what one line promises.\<close>

locale line_codec =
  fixes enc :: "u8 list \<Rightarrow> u8 \<Rightarrow> u8 list"
    and dec :: "u8 list \<Rightarrow> u8 list \<Rightarrow> u8 list option"
    and width :: "nat \<Rightarrow> nat"
  assumes full_line: "length (enc d 45) = 63"
    and width_full: "width 45 = 45"
    and dec_enc: "0 < n \<Longrightarrow> n \<le> 45 \<Longrightarrow> width (unat n) \<le> length d \<Longrightarrow> width (unat n) \<le> length a \<Longrightarrow>
      unat n < length a \<Longrightarrow>
      \<exists>a'. dec (enc d n @ rest) a = Some a' \<and> length a' = length a \<and>
        take (unat n) a' = take (unat n) d \<and> a' ! unat n = 0"
begin

lemma full_lines_length: "length (concat (map (\<lambda>i. enc (drop (45 * i) mem) 45) [0..<k])) = 63 * k"
  by (induction k) (auto simp: full_line)

lemma drop_full_lines:
  "i \<le> k \<Longrightarrow> drop (63 * i) (concat (map (\<lambda>i. enc (drop (45 * i) mem) 45) [0..<k]) @ rest) =
     concat (map (\<lambda>i. enc (drop (45 * i) mem) 45) [i..<k]) @ rest"
proof -
  assume "i \<le> k"
  then have "[0..<k] = [0..<i] @ [i..<k]" by (metis le0 le_add_diff_inverse upt_add_eq_append)
  then show ?thesis by (simp add: full_lines_length)
qed

lemma decode_step:
  assumes "0 < n" "n \<le> 45" "o' + width (unat n) \<le> length mem" "o' + width (unat n) \<le> length a"
    "o' + unat n < length a" "take o' a = take o' mem"
  shows "\<exists>d. dec (enc (drop o' mem) n @ rest) (drop o' a) = Some d \<and>
    length (take o' a @ d) = length a \<and> take (o' + unat n) (take o' a @ d) = take (o' + unat n) mem \<and>
    (take o' a @ d) ! (o' + unat n) = 0"
proof -
  have "width (unat n) \<le> length (drop o' mem)" "width (unat n) \<le> length (drop o' a)"
    "unat n < length (drop o' a)"
    using assms unfolding length_drop by linarith+
  with assms obtain d where d: "dec (enc (drop o' mem) n @ rest) (drop o' a) = Some d"
    "length d = length a - o'" "take (unat n) d = take (unat n) (drop o' mem)" "d ! unat n = 0"
    using dec_enc [of n "drop o' mem" "drop o' a" rest] by auto
  have "length (take o' a) = o'" using assms by simp
  with d assms show ?thesis
    by (auto simp: nth_append take_add min_def)
qed

lemma decode_block:
  assumes num: "0 < num" and n: "0 < n" "n \<le> 45"
    and mem: "45 * (num - 1) + width (unat n) \<le> length mem"
    and data: "45 * (num - 1) + width (unat n) \<le> length data" "45 * (num - 1) + unat n < length data"
    and p: "p = concat (map (\<lambda>i. enc (drop (45 * i) mem) 45) [0..<num - 1]) @
      enc (drop (45 * (num - 1)) mem) n @ rest"
  shows "\<exists>d. for_up 0 num (\<lambda>i data. do {
        e \<leftarrow> dec (drop (63 * i) p) (drop (45 * i) data); Some (take (45 * i) data @ e) }) data = Some d \<and>
      length d = length data \<and>
      take (45 * (num - 1) + unat n) d = take (45 * (num - 1) + unat n) mem \<and>
      d ! (45 * (num - 1) + unat n) = 0"
proof -
  let ?f = "\<lambda>i data. do { e \<leftarrow> dec (drop (63 * i) p) (drop (45 * i) data); Some (take (45 * i) data @ e) }"
  let ?P = "\<lambda>k a. length a = length data \<and> take (45 * k) a = take (45 * k) mem"
  obtain m where m: "num = m + 1" using num by (metis Suc_eq_plus1 Suc_pred)
  have "\<exists>a. for_up 0 m ?f data = Some a \<and> ?P (0 + m) a"
  proof (rule for_up_total)
    fix k t
    assume "k < 0 + m" and P: "?P k t"
    then have k: "k < m" by simp
    then have "[k..<m] = k # [Suc k..<m]" by (simp add: upt_conv_Cons)
    then have "drop (63 * k) p = enc (drop (45 * k) mem) 45 @
        concat (map (\<lambda>i. enc (drop (45 * i) mem) 45) [Suc k..<m]) @ enc (drop (45 * m) mem) n @ rest"
      using k by (simp add: p m drop_full_lines del: drop_append)
    moreover have "45 * k + 45 \<le> 45 * m" using k by simp
    moreover have u: "unat (45 :: u8) = 45" by simp
    have le: "45 * k + 45 \<le> length mem" "45 * k + 45 \<le> length t" "45 * k + 45 < length t"
      using P k mem data m by (auto simp: algebra_simps)
    have "\<exists>d. dec (enc (drop (45 * k) mem) 45 @ rest') (drop (45 * k) t) = Some d \<and>
        length (take (45 * k) t @ d) = length t \<and>
        take (45 * k + 45) (take (45 * k) t @ d) = take (45 * k + 45) mem" for rest'
      using decode_step [of 45 "45 * k" mem t rest', unfolded u width_full] le P by auto
    ultimately obtain d where "dec (drop (63 * k) p) (drop (45 * k) t) = Some d"
      and "length (take (45 * k) t @ d) = length t"
      and "take (45 * k + 45) (take (45 * k) t @ d) = take (45 * k + 45) mem" by metis
    then show "\<exists>t'. ?f k t = Some t' \<and> ?P (Suc k) t'"
      using P by (intro exI [of _ "take (45 * k) t @ d"]) (simp add: add.commute)
  qed simp
  then obtain a where a: "for_up 0 m ?f data = Some a" "length a = length data" "take (45 * m) a = take (45 * m) mem"
    by auto
  have "drop (63 * m) p = enc (drop (45 * m) mem) n @ rest"
    by (simp add: p m drop_full_lines del: drop_append)
  from this obtain d where d: "dec (drop (63 * m) p) (drop (45 * m) a) = Some d"
    "length (take (45 * m) a @ d) = length a"
    "take (45 * m + unat n) (take (45 * m) a @ d) = take (45 * m + unat n) mem"
    "(take (45 * m) a @ d) ! (45 * m + unat n) = 0"
  proof -
    have "45 * m + width (unat n) \<le> length mem" "45 * m + width (unat n) \<le> length a"
      "45 * m + unat n < length a"
      using mem data m a(2) by simp_all
    from decode_step [OF n this a(3), of rest] that show ?thesis
      by (simp only: \<open>drop (63 * m) p = enc (drop (45 * m) mem) n @ rest\<close>) blast
  qed
  then have "for_up 0 num ?f data = Some (take (45 * m) a @ d)"
    using a(1) by (simp add: m for_up_last del: for_up.simps(2))
  with d a(2) m show ?thesis by auto
qed

end

text \<open>The codec of \<open>UU\<close> keeps these promises.\<close>

definition uu_dec :: "u8 list \<Rightarrow> u8 list \<Rightarrow> u8 list option" where
  "uu_dec p a = do {
     (_, d) \<leftarrow> UUdecodeLine (Some p) (Some a); Some (case d of None \<Rightarrow> [] | Some d \<Rightarrow> d) }"

interpretation uu: line_codec uu_line uu_dec "\<lambda>n. 3 * uu_groups n"
proof
  show "length (uu_line d 45) = 63" for d
    by (simp add: uu_groups_def)
  show "3 * uu_groups 45 = 45" by (simp add: uu_groups_def)
  fix n :: u8 and d a rest :: "u8 list"
  assume *: "0 < n" "n \<le> 45" "3 * uu_groups (unat n) \<le> length d" "3 * uu_groups (unat n) \<le> length a"
    "unat n < length a"
  moreover have "unat n \<le> 3 * uu_groups (unat n)" by (rule uu_groups_bounds)
  ultimately show "\<exists>a'. uu_dec (uu_line d n @ rest) a = Some a' \<and> length a' = length a \<and>
      take (unat n) a' = take (unat n) d \<and> a' ! unat n = 0"
    by (simp add: uu_dec_def UUdecodeLine_value min_def)
qed

lemma decode_lines_eq:
  "decode_lines p num data =
     for_up 0 num (\<lambda>i data. do {
        e \<leftarrow> uu_dec (drop (63 * i) p) (drop (45 * i) data); Some (take (45 * i) data @ e) }) data"
  unfolding decode_lines_def uu_dec_def
  by (rule for_up_cong) (auto split: bind_splits)

text \<open>The text of a block: \<open>num - 1\<close> full lines and one of \<open>extra\<close> bytes.\<close>

definition uu_text :: "u8 list \<Rightarrow> nat \<Rightarrow> nat \<Rightarrow> u8 list" where
  "uu_text mem num extra =
     concat (map (\<lambda>i. uu_line (drop (45 * i) mem) 45) [0..<num - 1]) @
     uu_line (drop (45 * (num - 1)) mem) (of_nat extra)"

lemma of_nat_extra: "0 < extra \<Longrightarrow> extra \<le> 45 \<Longrightarrow>
    0 < (of_nat extra :: u8) \<and> (of_nat extra :: u8) \<le> 45 \<and> unat (of_nat extra :: u8) = extra"
  by (simp add: word_less_nat_alt word_le_nat_alt unat_of_nat_len)

lemma decode_lines_text:
  assumes "0 < num" "0 < extra" "extra \<le> 45"
    and "45 * (num - 1) + 3 * uu_groups extra \<le> length mem"
    and "45 * (num - 1) + 3 * uu_groups extra \<le> length data" "45 * (num - 1) + extra < length data"
  shows "\<exists>d. decode_lines (uu_text mem num extra @ rest) num data = Some d \<and> length d = length data \<and>
    take (45 * (num - 1) + extra) d = take (45 * (num - 1) + extra) mem \<and>
    d ! (45 * (num - 1) + extra) = 0"
  using uu.decode_block [of num "of_nat extra" mem data "uu_text mem num extra @ rest" rest] assms of_nat_extra [of extra]
  by (simp add: decode_lines_eq uu_text_def)

lemma encode_one:
  assumes "0 < len" "len \<le> 45" "3 * uu_groups (unat len) \<le> length inp" "64 \<le> length block"
  shows "\<exists>b. UUencodeLine (Some inp) (Some block) len = Some (1, Some b) \<and> length b = length block \<and>
    cstr b = Some (uu_line inp len)"
proof -
  have "uu_groups (unat len) \<le> 15" using uu_groups_bounds(1) uu_len_bounds [OF assms(1,2)] by blast
  with assms show ?thesis
    by (auto simp: UUencodeLine_value cstr_append_NUL uu_line_nonzero)
qed

lemma uu_text_Suc:
  "concat (map (\<lambda>i. uu_line (drop (45 * i) mem) 45) [0..<Suc k]) =
   concat (map (\<lambda>i. uu_line (drop (45 * i) mem) 45) [0..<k]) @ uu_line (drop (45 * k) mem) 45"
  by simp

lemma send_step_line:
  assumes "encode_ok = (if int i < int num - 1 then 45 else of_nat extra)"
    and "0 < encode_ok" "encode_ok \<le> 45" "45 * i + 3 * uu_groups (unat encode_ok) \<le> length data"
    and "64 \<le> length block"
  shows "\<exists>b. send_step react data num extra i (block, st) =
      Some (b, isp_puts react (uu_line (drop (45 * i) data) encode_ok) st) \<and>
    length b = length block \<and> cstr b = Some (uu_line (drop (45 * i) data) encode_ok)"
proof -
  have "3 * uu_groups (unat encode_ok) \<le> length (drop (45 * i) data)"
    using assms unfolding length_drop by linarith
  from encode_one [OF assms(2,3) this assms(5)] show ?thesis
    by (auto simp: send_step_def Let_def simp flip: assms(1))
qed

lemma send_full_lines:
  assumes "k \<le> num - 1" "45 * k \<le> length data" "64 \<le> length block"
  shows "\<exists>b. for_up 0 k (send_step react data num extra) (block, st) =
     Some (b, isp_puts react (concat (map (\<lambda>i. uu_line (drop (45 * i) data) 45) [0..<k])) st) \<and>
     length b = length block \<and> (0 < k \<longrightarrow> cstr b = Some (uu_line (drop (45 * (k - 1)) data) 45))"
    (is "\<exists>b. _ = Some (b, ?g k) \<and> _")
proof -
  let ?P = "\<lambda>k s. \<exists>b. s = (b, ?g k) \<and> length b = length block \<and>
      (0 < k \<longrightarrow> cstr b = Some (uu_line (drop (45 * (k - 1)) data) 45))"
  have "\<exists>s. for_up 0 k (send_step react data num extra) (block, st) = Some s \<and> ?P (0 + k) s"
  proof (rule for_up_total)
    show "?P 0 (block, st)" by (simp add: isp_puts_eq)
  next
    fix i s
    assume "i < 0 + k" and "?P i s"
    then obtain b where i: "i < k" and b: "s = (b, ?g i)" "length b = length block" by auto
    from i assms have "45 = (if int i < int num - 1 then 45 else of_nat extra :: u8)" by auto
    moreover have "45 * i + 3 * uu_groups (unat (45 :: u8)) \<le> length data"
      using i assms by (simp add: uu_groups_def)
    ultimately show "\<exists>s'. send_step react data num extra i s = Some s' \<and> ?P (Suc i) s'"
      using send_step_line [of 45 i num extra data b react "snd s"] b assms(3)
      by (auto simp: isp_puts_append)
  qed
  then show ?thesis by simp
qed

lemma send_lines_text:
  assumes "0 < num" "0 < extra" "extra \<le> 45"
    and "45 * (num - 1) + 3 * uu_groups extra \<le> length data" "64 \<le> length block"
  shows "\<exists>b. send_lines react data num extra (block, st) = Some (b, isp_puts react (uu_text data num extra) st)"
proof -
  obtain m where m: "num = m + 1" using assms(1) by (metis Suc_eq_plus1 Suc_pred)
  from send_full_lines [of m num data block react extra st] assms m obtain b where
    b: "for_up 0 m (send_step react data num extra) (block, st) =
     Some (b, isp_puts react (concat (map (\<lambda>i. uu_line (drop (45 * i) data) 45) [0..<m])) st)"
    "length b = length block" by auto
  have "\<exists>b'. send_step react data num extra m (b, st') =
      Some (b', isp_puts react (uu_line (drop (45 * m) data) (of_nat extra)) st')" for st'
    using send_step_line [of "of_nat extra" m num extra data b react st'] assms m of_nat_extra [of extra] b(2)
    by auto
  from this [of "isp_puts react (concat (map (\<lambda>i. uu_line (drop (45 * i) data) 45) [0..<m])) st"]
  obtain b' where "send_step react data num extra m
      (b, isp_puts react (concat (map (\<lambda>i. uu_line (drop (45 * i) data) 45) [0..<m])) st) =
    Some (b', isp_puts react (uu_text data num extra) st)"
    using m by (auto simp: uu_text_def isp_puts_append)
  with b m show ?thesis
    by (simp add: send_lines_def for_up_last del: for_up.simps(2))
qed

text \<open>A block whose size is a multiple of 45: the last line is refused by the encoder and the line
  before it goes out a second time.\<close>

lemma send_lines_repeat:
  assumes "1 < num" "45 * num \<le> length data" "64 \<le> length block"
  shows "\<exists>b. send_lines react data num 0 (block, st) = Some (b, isp_puts react (
      concat (map (\<lambda>i. uu_line (drop (45 * i) data) 45) [0..<num - 1]) @
      uu_line (drop (45 * (num - 2)) data) 45) st)"
proof -
  obtain m where m: "num = Suc m" "0 < m" using assms(1) by (cases num) auto
  from send_full_lines [of m num data block react 0 st] assms m obtain b where
    b: "for_up 0 m (send_step react data num 0) (block, st) =
     Some (b, isp_puts react (concat (map (\<lambda>i. uu_line (drop (45 * i) data) 45) [0..<m])) st)"
    "cstr b = Some (uu_line (drop (45 * (m - 1)) data) 45)" by auto
  moreover have "UUencodeLine (Some i) (Some b) 0 = Some (- 1, Some b)" for i
    by (simp add: UUencodeLine_def)
  ultimately have "send_step react data num 0 m
      (b, isp_puts react (concat (map (\<lambda>i. uu_line (drop (45 * i) data) 45) [0..<m])) st) =
    Some (b, isp_puts react (concat (map (\<lambda>i. uu_line (drop (45 * i) data) 45) [0..<m]) @
      uu_line (drop (45 * (m - 1)) data) 45) st)"
    using m by (simp add: send_step_def Let_def isp_puts_append)
  with b m show ?thesis
    by (simp add: send_lines_def for_up_last del: for_up.simps(2))
qed

section \<open>Checksums and numbers on the line\<close>

definition byte_sum :: "u8 list \<Rightarrow> nat" where
  "byte_sum p = sum_list (map unat p)"

lemma byte_sum_simps [simp]: "byte_sum [] = 0" "byte_sum (b # p) = unat b + byte_sum p"
  by (simp_all add: byte_sum_def)

lemma byte_sum_le: "byte_sum p \<le> 255 * length p"
proof (induction p)
  case Nil
  then show ?case by simp
next
  case (Cons b p)
  have "unat b \<le> 255" using unsigned_less [where ?'a = nat, of b] by simp
  with Cons show ?case by simp
qed

lemma sum_u32_eq: "n \<le> length p \<Longrightarrow> sum_u32 p n acc = Some (acc + of_nat (byte_sum (take n p)))"
proof (induction n arbitrary: p acc)
  case 0
  then show ?case by simp
next
  case (Suc n)
  then obtain b q where p: "p = b # q" by (cases p) auto
  have "(ucast b :: u32) = of_nat (unat b)" by (metis of_nat_unat)
  with Suc p show ?case by (simp add: rd_def algebra_simps)
qed

lemma sum_int_eq: "n \<le> length p \<Longrightarrow> sum_int p n acc = Some (acc + int (byte_sum (take n p)))"
proof (induction n arbitrary: p acc)
  case 0
  then show ?case by simp
next
  case (Suc n)
  then obtain b q where p: "p = b # q" by (cases p) auto
  with Suc show ?case by (simp add: rd_def algebra_simps)
qed

lemma sint_small: "unat w < 2 ^ 31 \<Longrightarrow> sint (w :: u32) = int (unat w)"
  proof -
  assume "unat w < 2 ^ 31"
  then have "int (unat w) < int (2 ^ 31)" by (simp only: of_nat_less_iff)
  then have "int (unat w) < 2 ^ 31" by (simp only: of_nat_power of_nat_numeral)
  moreover have "sint w = signed_take_bit 31 (int (unat w))" by (simp add: sint_uint)
  moreover have "- (2 ^ 31) \<le> int (unat w)" by (rule order_trans [OF _ of_nat_0_le_iff]) simp
  ultimately show ?thesis
    using signed_take_bit_int_eq_self [of 31 "int (unat w)"] by metis
qed

lemma fmt_d_small: "unat (w :: u32) < 2 ^ 31 \<Longrightarrow> fmt_d w = dec_nat (unat w)"
  by (simp add: fmt_d_def dec_int_def sint_small)

lemma length_fmt_d: "length (fmt_d w) \<le> 11"
proof -
  have "- (2 ^ 31) \<le> sint w" "sint w < 2 ^ 31"
    using sint_ge [of w] sint_lt [of w] by simp_all
  then have "length (dec_nat (nat (sint w))) \<le> 10" "length (dec_nat (nat (- sint w))) \<le> 10"
    by (auto intro!: length_dec_nat_le)
  then show ?thesis by (simp add: fmt_d_def dec_int_def)
qed

lemma find_sub_first: "x \<notin> set xs \<Longrightarrow> find_sub (x # n) (xs @ x # n @ ys) = Some (length xs)"
proof (induction xs)
  case Nil
  have "prefix_at (x # n) (x # n @ ys)" by simp
  then show ?case by simp
next
  case (Cons a xs)
  then show ?case by simp
qed

lemma atoi_dec_nat:
  assumes "k < 2 ^ 31"
  shows "atoi (dec_nat k @ 13 # 10 # replicate (Suc j) 0) = Some (int k)"
proof -
  obtain c cs where c: "dec_nat k = c # cs" by (cases "dec_nat k") auto
  have dig: "48 \<le> c" "c \<le> 57" using dec_nat_digits [of c k] c by auto
  then have "\<not> isspace c" "c \<noteq> 45" "c \<noteq> 43" by (auto simp: isspace_def word_le_nat_alt)
  moreover have "cstr (dec_nat k @ 13 # 10 # replicate (Suc j) 0) = Some (dec_nat k @ [13, 10])"
    using cstr_append_NUL [of "dec_nat k @ [13, 10]" "replicate j 0"] dec_nat_no_NUL [of k] by simp
  moreover have "dec_digits (c # cs @ [13, 10]) 0 = k"
    using dec_digits_parse [of "[13, 10]" k] by (simp add: c)
  ultimately show ?thesis using assms by (simp add: atoi_def c)
qed

text \<open>The characters of a line are printable: no CR and no NUL before its end.\<close>

lemma uu_char_ge: "x AND 0x3F = x \<Longrightarrow> 32 \<le> UU_ENCODE_BYTE x"
proof -
  assume x: "x AND 0x3F = x"
  then have "x \<le> 0x3F" by (metis word_and_le1)
  then have "unat x \<le> 63" by (simp add: word_le_nat_alt)
  then have "unat (x + 0x20) = unat x + 32" by (simp add: unat_word_ariths)
  then show ?thesis by (auto simp: UU_ENCODE_BYTE_def word_le_nat_alt)
qed

lemma uu_enc3_ge: "c \<in> set (uu_enc3 x y z) \<Longrightarrow> 32 \<le> c"
  using uu_sextets [THEN uu_char_ge] unfolding uu_enc3_def by (metis empty_iff empty_set set_ConsD)

lemma uu_line_split:
  assumes "0 < len" "len \<le> 45"
  shows "\<exists>xs. uu_line inp len = xs @ CRLF \<and> (\<forall>c\<in>set xs. 32 \<le> c)"
proof (intro exI conjI ballI)
  show "uu_line inp len = (UU_ENCODE_LEN_BYTE len # uu_body inp (uu_groups (unat len))) @ CRLF"
    by (simp add: uu_line_def CRLF_def)
  fix c assume "c \<in> set (UU_ENCODE_LEN_BYTE len # uu_body inp (uu_groups (unat len)))"
  moreover have "unat (UU_ENCODE_LEN_BYTE len) = unat len + 32"
    using uu_len_bounds [OF assms] by (simp add: UU_ENCODE_LEN_BYTE_def unat_word_ariths)
  ultimately show "32 \<le> c"
    by (auto simp: word_le_nat_alt uu_body_def dest!: uu_enc3_ge)
qed

lemma uu_line_chars: "0 < len \<Longrightarrow> len \<le> 45 \<Longrightarrow> 0 \<notin> set (uu_line inp len)"
  by (rule uu_line_nonzero)

lemma uu_text_no_NUL: "0 < extra \<Longrightarrow> extra \<le> 45 \<Longrightarrow> 0 \<notin> set (uu_text mem num extra)"
  using uu_line_nonzero [of 45] uu_line_nonzero [of "of_nat extra"] of_nat_extra [of extra]
  by (auto simp: uu_text_def)

section \<open>Writing a block\<close>

definition write_cmd :: "u32 \<Rightarrow> u32 \<Rightarrow> u8 list" where
  "write_cmd addr n = isp_cmd_list ISP_CMD_WRITE_TO_RAM # 32 # fmt_d addr @ 32 # fmt_d n @ CRLF"

definition read_cmd :: "u32 \<Rightarrow> u32 \<Rightarrow> u8 list" where
  "read_cmd addr n = isp_cmd_list ISP_CMD_READ_MEMORY # 32 # fmt_d addr @ 32 # fmt_d n @ CRLF"

lemma cmds_fit: "sprintf_to 32 (write_cmd a n) = Some (write_cmd a n)" "sprintf_to 36 (read_cmd a n) = Some (read_cmd a n)"
  using length_fmt_d [of a] length_fmt_d [of n]
  by (simp_all add: sprintf_to_def write_cmd_def read_cmd_def CRLF_def)

definition valid_write :: "u32 \<Rightarrow> u32 \<Rightarrow> bool" where
  "valid_write addr n \<longleftrightarrow> CHECK_RAM_ADDR addr \<and> addr mod 32 = 0 \<and> n mod 4 = 0 \<and> 0 < n \<and> n \<le> 512"

definition sent_block :: "u8 list \<Rightarrow> u32 \<Rightarrow> u8 list" where
  "sent_block data n = uu_text data (unat n div 45 + (if unat n mod 45 = 0 then 0 else 1)) (unat n mod 45)"

definition checksum_line :: "u8 list \<Rightarrow> u8 list" where
  "checksum_line p = dec_nat (byte_sum p) @ CRLF"

lemma checksum_line_u32:
  assumes "length p \<le> 512"
  shows "fmt_d (of_nat (byte_sum p)) @ CRLF = checksum_line p"
    and "sprintf_to 12 (checksum_line p) = Some (checksum_line p)"
proof -
  have b: "byte_sum p < 10 ^ 6" using byte_sum_le [of p] assms by simp
  then have "unat (of_nat (byte_sum p) :: u32) = byte_sum p" by (intro unat_of_nat_len) simp
  with b show "fmt_d (of_nat (byte_sum p)) @ CRLF = checksum_line p"
    by (simp add: fmt_d_small checksum_line_def)
  from b have "length (dec_nat (byte_sum p)) \<le> 6" by (intro length_dec_nat_le) auto
  then show "sprintf_to 12 (checksum_line p) = Some (checksum_line p)"
    by (simp add: sprintf_to_def checksum_line_def CRLF_def)
qed

lemma ISP_WriteToRAM_sends:
  assumes valid: "valid_write addr n" and data: "unat n \<le> length data" and m: "mallocs st = []"
    and short: "length (reply react 500 (write_cmd addr n) st) < 1024"
    and ok: "contains (text_of (reply react 500 (write_cmd addr n) st)) CMD_SUCCESS_RESP_STR"
    and sends: "\<And>s. \<exists>b. send_lines react data (unat n div 45 + (if unat n mod 45 = 0 then 0 else 1))
        (unat n mod 45) (block, s) = Some (b, isp_puts react sent s)"
  defines "st1 \<equiv> isp_puts react sent (after_reply react 500 (write_cmd addr n) st)"
  shows "ISP_WriteToRAM react addr n (Some data) block st =
    await 1000 OK_STR (isp_puts react (checksum_line (take (unat n) data)) (clear_recv st1))"
proof -
  let ?cmd = "write_cmd addr n" and ?r = "reply react 500 (write_cmd addr n) st"
  let ?num = "unat n div 45 + (if unat n mod 45 = 0 then 0 else 1)"
  let ?s = "after_reply react 500 ?cmd st"
  have n: "unat n \<le> 512" using valid by (simp add: valid_write_def word_le_nat_alt)
  have "?r \<noteq> []" using ok by (auto simp: contains_iff text_of_def CMD_SUCCESS_RESP_STR_def)
  moreover obtain j where "find_sub CMD_SUCCESS_RESP_STR (text_of ?r) = Some j"
    using ok by (auto simp: contains_def)
  then have "strstr (ispRecvBuf ?s) CMD_SUCCESS_RESP_STR = Some (Some j)"
    using short by (simp add: strstr_reply)
  moreover have "malloc ?s = (True, ?s\<lparr>live := Suc (live ?s)\<rparr>)"
    using m by (simp add: malloc_def)
  moreover obtain b where "send_lines react data ?num (unat n mod 45) (block, ?s\<lparr>live := Suc (live ?s)\<rparr>) =
      Some (b, isp_puts react sent (?s\<lparr>live := Suc (live ?s)\<rparr>))"
    using sends by blast
  moreover have "free (isp_puts react sent (?s\<lparr>live := Suc (live ?s)\<rparr>)) = st1"
    by (simp add: st1_def free_def isp_puts_eq)
  moreover have "sum_u32 data (unat n) 0 = Some (of_nat (byte_sum (take (unat n) data)))"
    using data by (simp add: sum_u32_eq)
  moreover note checksum_line_u32 [of "take (unat n) data"]
  ultimately show ?thesis
    using valid n recv_reply [OF short] cmds_fit [of addr n]
    by (simp add: ISP_WriteToRAM_def valid_write_def write_cmd_def Let_def)
qed

lemma ISP_WriteToRAM_accepted:
  assumes valid: "valid_write addr n" and extra: "unat n mod 45 \<noteq> 0"
    and data: "45 * (unat n div 45) + 3 * uu_groups (unat n mod 45) \<le> length data"
    and block: "64 \<le> length block" and m: "mallocs st = []"
    and short: "length (reply react 500 (write_cmd addr n) st) < 1024"
    and ok: "contains (text_of (reply react 500 (write_cmd addr n) st)) CMD_SUCCESS_RESP_STR"
  shows "ISP_WriteToRAM react addr n (Some data) block st =
    await 1000 OK_STR (isp_puts react (checksum_line (take (unat n) data))
      (clear_recv (isp_puts react (sent_block data n) (after_reply react 500 (write_cmd addr n) st))))"
proof (rule ISP_WriteToRAM_sends [OF valid _ m short ok])
  show "unat n \<le> length data"
    using data uu_groups_bounds(2) [of "unat n mod 45"] mult_div_mod_eq [of 45 "unat n"] by linarith
  show "\<exists>b. send_lines react data (unat n div 45 + (if unat n mod 45 = 0 then 0 else 1)) (unat n mod 45) (block, s) =
      Some (b, isp_puts react (sent_block data n) s)" for s
    unfolding sent_block_def
    using send_lines_text [of "unat n div 45 + 1" "unat n mod 45" data block react s] extra data block
    by (auto simp: less_imp_le)
qed




text \<open>The block size the programmer uses, 512, does not fit the encoder: the last of the twelve lines
  carries 17 bytes, the encoder reads them in groups of three, and so the call reads one byte behind a
  buffer of exactly 512 bytes.\<close>

theorem ISP_WriteToRAM_overread:
  assumes "valid_write addr 512" and "length data = 512"
    and "64 \<le> length block" and "mallocs st = []"
    and "length (reply react 500 (write_cmd addr 512) st) < 1024"
    and "contains (text_of (reply react 500 (write_cmd addr 512) st)) CMD_SUCCESS_RESP_STR"
  shows "ISP_WriteToRAM react addr 512 (Some data) block st = None"
proof -
  let ?cmd = "write_cmd addr 512" and ?r = "reply react 500 (write_cmd addr 512) st"
  let ?s = "after_reply react 500 ?cmd st"
  obtain j where "find_sub CMD_SUCCESS_RESP_STR (text_of ?r) = Some j"
    using assms(6) by (auto simp: contains_def)
  then have p: "strstr (ispRecvBuf ?s) CMD_SUCCESS_RESP_STR = Some (Some j)"
    using assms(5) by (simp add: strstr_reply)
  moreover have "?r \<noteq> []" using assms(6) by (auto simp: contains_iff text_of_def CMD_SUCCESS_RESP_STR_def)
  moreover have m: "malloc ?s = (True, ?s\<lparr>live := Suc (live ?s)\<rparr>)"
    using assms(4) by (simp add: malloc_def)
  moreover have "send_lines react data 12 17 (block, s') = None" for s'
  proof -
    have "send_step react data 12 17 11 (b, t) = None" for b t
      using UUencodeLine_overread [of 17 "drop 495 data" b] assms(2) by (simp add: send_step_def uu_groups_def)
    then have "send_step react data 12 17 11 bt = None" for bt by (cases bt) simp
    then show ?thesis
      using for_up_last [of 0 11 "send_step react data 12 17" "(block, s')"]
      by (simp add: send_lines_def bind_eq_None_conv del: for_up.simps(2))
  qed
  ultimately show ?thesis
    using assms(1) recv_reply [OF assms(5)] cmds_fit [of addr 512]
    by (simp add: ISP_WriteToRAM_def valid_write_def write_cmd_def Let_def)
qed

text \<open>A decoder whose buffer ends at the line's length writes its terminator behind it.\<close>

lemma UUdecodeBase_length: "UUdecodeBase inp out q = Some out' \<Longrightarrow> length out' = length out"
  by (auto simp: UUdecodeBase_def split: bind_splits dest!: wr_length)

lemma UUdecodeLine_overrun:
  assumes "0 < len" "len \<le> 45" "length out \<le> unat len"
  shows "UUdecodeLine (Some (uu_line inp len @ rest)) (Some out) = None"
proof -
  note b = uu_len_bounds [OF assms(1,2)]
  have "unat (UU_ENCODE_LEN_BYTE len) = unat len + 32"
    using b by (simp add: UU_ENCODE_LEN_BYTE_def unat_word_ariths)
  then have u: "uint (UU_ENCODE_LEN_BYTE len) = uint len + 32"
    by (metis of_nat_add of_nat_numeral of_nat_unat)
  have l: "length t = length out" if "for_up 0 n (\<lambda>i out. UUdecodeBase (p i) out (3 * i)) out = Some t" for n p t
    by (rule for_up_partial [OF that, where P = "\<lambda>_ t. length t = length out"]) (auto dest: UUdecodeBase_length)
  have "0 < uint len" "uint len \<le> 45"
    using assms(1,2) by (simp_all add: word_less_def word_le_def)
  with u b assms(3) show ?thesis
    by (auto simp: UUdecodeLine_def uu_line_def rd_def Let_def wr_def split: bind_splits dest!: l)
qed

lemma uu_dec_length: "uu_dec p a = Some d \<Longrightarrow> length d = length a"
proof -
  have l: "length t = length a" if "for_up 0 n (\<lambda>i out. UUdecodeBase (p i) out (3 * i)) a = Some t" for n p t
    by (rule for_up_partial [OF that, where P = "\<lambda>_ t. length t = length a"]) (auto dest: UUdecodeBase_length)
  assume "uu_dec p a = Some d"
  then show ?thesis
    by (auto simp: uu_dec_def UUdecodeLine_def Let_def split: bind_splits if_splits dest!: wr_length l)
qed

definition last_size :: "nat \<Rightarrow> nat" where
  "last_size n = (if n mod 45 = 0 then 45 else n mod 45)"

definition line_count :: "nat \<Rightarrow> nat" where
  "line_count n = n div 45 + (if n mod 45 \<noteq> 0 then 1 else 0)"

lemma block_split: "0 < n \<Longrightarrow> 0 < line_count n \<and> 0 < last_size n \<and> last_size n \<le> 45 \<and> 45 * (line_count n - 1) + last_size n = n"
proof -
  assume n: "0 < n"
  obtain q r where q: "n div 45 = q" and r: "n mod 45 = r" by simp
  have "45 * q + r = n" "r < 45" unfolding q [symmetric] r [symmetric] by simp_all
  with n show ?thesis
    unfolding line_count_def last_size_def q r by (cases q) auto
qed

text \<open>What a target sends for \<open>n\<close> bytes of its memory.\<close>

definition memory_answer :: "u8 list \<Rightarrow> nat \<Rightarrow> u8 list" where
  "memory_answer mem n = CMD_SUCCESS_RESP_STR @ uu_text mem (line_count n) (last_size n) @ checksum_line (take n mem)"

definition valid_read :: "u32 \<Rightarrow> u32 \<Rightarrow> bool" where
  "valid_read addr n \<longleftrightarrow> (CHECK_FLASH_ADDR addr \<or> CHECK_RAM_ADDR addr) \<and> n mod 4 = 0 \<and> 0 < n \<and> n \<le> FLASH_SIZE \<and> n \<le> RAM_SIZE"

lemma memory_answer_no_NUL: "0 < n \<Longrightarrow> 0 \<notin> set (memory_answer mem n)"
  using uu_text_no_NUL [of "last_size n"] block_split [of n] dec_nat_no_NUL
  by (auto simp: memory_answer_def checksum_line_def CMD_SUCCESS_RESP_STR_def CRLF_def)

lemma find_status: "find_sub CMD_SUCCESS_RESP_STR (CMD_SUCCESS_RESP_STR @ xs) = Some 0"
  by (simp add: CMD_SUCCESS_RESP_STR_def CRLF_def)

lemma uu_text_last:
  "drop (63 * (num - 1)) (uu_text mem num extra @ rest) = uu_line (drop (45 * (num - 1)) mem) (of_nat extra) @ rest"
  using uu.drop_full_lines [of "num - 1" "num - 1" mem "uu_line (drop (45 * (num - 1)) mem) (of_nat extra) @ rest"]
  by (simp add: uu_text_def del: drop_append)

text \<open>The checksum is found behind the last line.\<close>

lemma checksum_found:
  fixes inp :: "u8 list"
  assumes "0 < len" "len \<le> 45" "byte_sum p < 2 ^ 31" "0 < z"
  defines "l \<equiv> uu_line inp len @ checksum_line p @ replicate z 0"
  shows "\<exists>e. strstr l CRLF = Some (Some e) \<and> atoi (drop (e + 2) l) = Some (int (byte_sum p))"
proof -
  obtain xs where xs: "uu_line inp len = xs @ CRLF" and ge: "\<forall>c\<in>set xs. 32 \<le> c"
    using uu_line_split [OF assms(1,2)] by blast
  obtain z' where z: "z = Suc z'" using assms(4) by (cases z) auto
  have nul: "0 \<notin> set (uu_line inp len @ checksum_line p)"
    using uu_line_nonzero [OF assms(1,2)] dec_nat_no_NUL by (auto simp: checksum_line_def CRLF_def)
  have "13 \<notin> set xs" using ge by fastforce
  then have "find_sub CRLF (xs @ CRLF @ checksum_line p) = Some (length xs)"
    unfolding CRLF_def using find_sub_first [of 13 xs "[10]" "checksum_line p"] by simp
  moreover have "cstr l = Some (xs @ CRLF @ checksum_line p)"
    using cstr_append_NUL [OF nul, of "replicate z' 0"] by (simp add: l_def z xs)
  ultimately have "strstr l CRLF = Some (Some (length xs))" by (simp add: strstr_def)
  moreover have "drop (length xs + 2) l = dec_nat (byte_sum p) @ 13 # 10 # replicate (Suc z') 0"
    by (simp add: l_def xs z checksum_line_def CRLF_def)
  ultimately show ?thesis
    using atoi_dec_nat [OF assms(3), of z'] by auto
qed

lemma ISP_readMemory_answer:
  assumes valid: "valid_read addr n"
    and ans: "reply react 500 (read_cmd addr n) st = memory_answer mem (unat n)"
    and short: "length (memory_answer mem (unat n)) < 1024"
  defines "st1 \<equiv> after_reply react 500 (read_cmd addr n) st"
    and "p \<equiv> uu_text mem (line_count (unat n)) (last_size (unat n)) @ checksum_line (take (unat n) mem) @
      replicate (1024 - length (memory_answer mem (unat n))) 0"
  shows "ISP_readMemory react addr n (Some data) st = do {
     d \<leftarrow> decode_lines p (line_count (unat n)) data;
     checksum \<leftarrow> sum_int d (unat n) 0;
     if checksum = int (byte_sum (take (unat n) mem))
     then Some (RET_CODE_SUCCESS, Some d, isp_puts react (OK_STR @ CRLF) st1)
     else Some (RET_CODE_ERROR, Some d, st1) }"
proof -
  have n: "0 < unat n" "n \<le> 8192" using valid by (auto simp: valid_read_def word_less_nat_alt memory_map)
  let ?z = "1024 - length (memory_answer mem (unat n))"
  have buf: "ispRecvBuf st1 = memory_answer mem (unat n) @ replicate ?z 0"
    by (simp add: st1_def recvBuf_after_reply ans)
  have "drop 3 (ispRecvBuf st1) = p"
    unfolding buf by (simp add: p_def memory_answer_def CMD_SUCCESS_RESP_STR_def CRLF_def)
  moreover have "strstr (ispRecvBuf st1) CMD_SUCCESS_RESP_STR = Some (Some 0)"
    using strstr_reply [of react 500 "read_cmd addr n" st] short memory_answer_no_NUL [OF n(1), of mem]
    by (simp add: ans st1_def) (simp add: memory_answer_def find_status)
  moreover have "recv 500 (isp_puts react (read_cmd addr n) (clear_recv st)) =
      Some (int (length (memory_answer mem (unat n))), st1)"
    using recv_reply [of react 500 "read_cmd addr n" st] short by (simp add: ans st1_def)
  moreover have "0 < length (memory_answer mem (unat n))"
    by (simp add: memory_answer_def CMD_SUCCESS_RESP_STR_def)
  moreover obtain e where
    "strstr (drop (63 * (line_count (unat n) - 1)) p) CRLF = Some (Some e)"
    "atoi (drop (e + 2) (drop (63 * (line_count (unat n) - 1)) p)) = Some (int (byte_sum (take (unat n) mem)))"
  proof -
    have "byte_sum (take (unat n) mem) \<le> 255 * 8192"
      using byte_sum_le [of "take (unat n) mem"] n(2) by (simp add: word_le_nat_alt)
    then have "byte_sum (take (unat n) mem) < 2 ^ 31" by simp
    with checksum_found [of "of_nat (last_size (unat n))" "take (unat n) mem" ?z "drop (45 * (line_count (unat n) - 1)) mem"]
      of_nat_extra [of "last_size (unat n)"] block_split [OF n(1)] short that
    show ?thesis unfolding p_def uu_text_last by auto
  qed
  ultimately show ?thesis
    using valid cmds_fit(2) [of addr n]
    unfolding ISP_readMemory_def Let_def line_count_def [symmetric]
    by (simp add: valid_read_def isp_puts_append read_cmd_def del: drop_drop cong: if_cong)
qed


text \<open>A concrete read: four bytes at 0x100.\<close>

lemma read_example:
  shows "read_cmd 0x100 4 = bytes ''R 256 4'' @ CRLF"
    and "reply scripted 500 (read_cmd 0x100 4) (power_on [memory_answer [1, 2, 3, 255, 0, 0] 4]) =
      memory_answer [1, 2, 3, 255, 0, 0] 4"
    and "length (memory_answer [1, 2, 3, 255, 0, 0] 4) < 1024"
    and "valid_read 0x100 4"
proof -
  have s: "read_cmd 0x100 4 = (bytes ''R 256 4'' @ [13]) @ [10]"
    by (simp add: read_cmd_def fmt_d_small CRLF_def dec_nat.simps)
  then show "read_cmd 0x100 4 = bytes ''R 256 4'' @ CRLF" by (simp add: CRLF_def)
  show "reply scripted 500 (read_cmd 0x100 4) (power_on [memory_answer [1, 2, 3, 255, 0, 0] 4]) =
      memory_answer [1, 2, 3, 255, 0, 0] 4"
    by (rule scripted_reply(1) [OF s]) simp_all
  have "checksum_line [1, 2, 3, 255] = bytes ''261'' @ [13, 10]"
    by (simp add: checksum_line_def CRLF_def dec_nat.simps)
  then show "length (memory_answer [1, 2, 3, 255, 0, 0] 4) < 1024"
    by (simp add: memory_answer_def uu_text_def line_count_def last_size_def uu_groups_def CMD_SUCCESS_RESP_STR_def CRLF_def)
  show "valid_read 0x100 4" by (simp add: valid_read_def memory_map)
qed

text \<open>C3: \<open>ISP_readMemory\<close> reads back what the target holds: if the answer to the read command is the success
  code, the encoded lines of the memory and its checksum, then the call succeeds, the first \<open>n\<close> bytes of
  the buffer are the memory's, the byte behind them is overwritten with NUL, and the acknowledgement is
  sent.\<close>

theorem ISP_readMemory_roundtrip:
  assumes "valid_read addr n"
    and "reply react 500 (read_cmd addr n) st = memory_answer mem (unat n)"
    and "length (memory_answer mem (unat n)) < 1024"
    and "45 * (line_count (unat n) - 1) + 3 * uu_groups (last_size (unat n)) \<le> length mem"
    and "45 * (line_count (unat n) - 1) + 3 * uu_groups (last_size (unat n)) \<le> length data"
    and "unat n < length data"
  shows "\<exists>d st'. ISP_readMemory react addr n (Some data) st = Some (RET_CODE_SUCCESS, Some d, st') \<and>
    take (unat n) d = take (unat n) mem \<and> length d = length data \<and> d ! unat n = 0 \<and>
    tx st' = tx st @ read_cmd addr n @ OK_STR @ CRLF"
proof -
  have n: "0 < unat n" using assms(1) by (simp add: valid_read_def word_less_nat_alt)
  note b = block_split [OF n]
  obtain d where d: "decode_lines (uu_text mem (line_count (unat n)) (last_size (unat n)) @
        checksum_line (take (unat n) mem) @ replicate (1024 - length (memory_answer mem (unat n))) 0)
      (line_count (unat n)) data = Some d"
    "length d = length data" "take (unat n) d = take (unat n) mem" "d ! unat n = 0"
    using decode_lines_text [of "line_count (unat n)" "last_size (unat n)" mem data] assms(4-6) b by auto
  have "sum_int d (unat n) 0 = Some (int (byte_sum (take (unat n) mem)))"
    using sum_int_eq [of "unat n" d 0] assms(6) d by simp
  with ISP_readMemory_answer [OF assms(1-3), of data] d show ?thesis by simp
qed

lemma ISP_readMemory_roundtrip_witness:
  "\<exists>d st'. ISP_readMemory scripted 0x100 4 (Some (replicate 6 0))
       (power_on [memory_answer [1, 2, 3, 255, 0, 0] 4]) = Some (RET_CODE_SUCCESS, Some d, st') \<and>
    take 4 d = [1, 2, 3, 255] \<and> length d = 6 \<and> d ! 4 = 0 \<and>
    tx st' = bytes ''R 256 4'' @ CRLF @ OK_STR @ CRLF"
  using ISP_readMemory_roundtrip [where addr = "0x100" and n = "4" and react = scripted and data = "replicate 6 0"
      and mem = "[1, 2, 3, 255, 0, 0]" and st = "power_on [memory_answer [1, 2, 3, 255, 0, 0] 4]"]
    read_example
  by (simp add: line_count_def last_size_def uu_groups_def)

text \<open>A buffer of exactly the size asked for is overrun: the decoder ends each line with a NUL, so a
  well-formed answer makes the call write one byte behind the buffer.\<close>

theorem ISP_readMemory_overrun:
  assumes "valid_read addr n"
    and "reply react 500 (read_cmd addr n) st = memory_answer mem (unat n)"
    and "length (memory_answer mem (unat n)) < 1024"
    and "length data = unat n"
  shows "ISP_readMemory react addr n (Some data) st = None"
proof -
  have n: "0 < unat n" using assms(1) by (simp add: valid_read_def word_less_nat_alt)
  note b = block_split [OF n]
  obtain m where m: "line_count (unat n) = Suc m" using b by (cases "line_count (unat n)") auto
  from b have e: "45 * m + last_size (unat n) = unat n" by (simp add: m)
  have o: "unat (of_nat (last_size (unat n)) :: u8) = last_size (unat n)"
    "0 < (of_nat (last_size (unat n)) :: u8)" "(of_nat (last_size (unat n)) :: u8) \<le> 45"
    using of_nat_extra [of "last_size (unat n)"] b by auto
  have "decode_lines (uu_text mem (Suc m) (last_size (unat n)) @ rest) (Suc m) data = None" for rest
  proof -
    let ?p = "uu_text mem (Suc m) (last_size (unat n)) @ rest"
    let ?f = "\<lambda>i data. do { e \<leftarrow> uu_dec (drop (63 * i) ?p) (drop (45 * i) data); Some (take (45 * i) data @ e) }"
    have "?f m t = None" if "for_up 0 m ?f data = Some t" for t
    proof -
      have "length t = length data"
        by (rule for_up_partial [OF that, where P = "\<lambda>_ t. length t = length data"])
          (auto split: bind_splits dest!: uu_dec_length)
      then have "length (drop (45 * m) t) \<le> unat (of_nat (last_size (unat n)) :: u8)"
        using assms(4) e unfolding m o(1) length_drop by linarith
      from UUdecodeLine_overrun [OF o(2,3) this] show ?thesis
        using uu_text_last [of "Suc m" mem "last_size (unat n)" rest] by (simp add: uu_dec_def del: drop_append)
    qed
    then have "for_up 0 (Suc m) ?f data = None"
      unfolding for_up_last by (cases "for_up 0 m ?f data") simp_all
    then show ?thesis by (simp only: decode_lines_eq)
  qed
  with ISP_readMemory_answer [OF assms(1-3), of data] show ?thesis by (simp add: m)
qed


lemma ISP_readMemory_overrun_witness:
  "ISP_readMemory scripted 0x100 4 (Some (replicate 4 0))
       (power_on [memory_answer [1, 2, 3, 255, 0, 0] 4]) = None"
  using ISP_readMemory_overrun [where addr = "0x100" and n = "4" and react = scripted and data = "replicate 4 0"
      and mem = "[1, 2, 3, 255, 0, 0]" and st = "power_on [memory_answer [1, 2, 3, 255, 0, 0] 4]"]
    read_example
  by (simp add: line_count_def last_size_def uu_groups_def)

lemma write_example:
  assumes "n \<in> {180, 512}"
  shows "valid_write 0x10000300 n"
    and "reply scripted 500 (write_cmd 0x10000300 n) (power_on (r # rs)) = r"
    and "tgt (after_reply scripted 500 (write_cmd 0x10000300 n) (power_on (r # rs))) = rs"
    and "rx (after_reply scripted 500 (write_cmd 0x10000300 n) (power_on (r # rs))) = []"
proof -
  show "valid_write 0x10000300 n" using assms by (auto simp: valid_write_def memory_map)
  have c: "write_cmd 0x10000300 n = (bytes ''W 268436224 '' @ dec_nat (unat n) @ [13]) @ [10]"
    using assms by (elim insertE emptyE; hypsubst; simp add: write_cmd_def fmt_d_small CRLF_def dec_nat.simps)
  have d: "10 \<notin> set (bytes ''W 268436224 '' @ dec_nat (unat n) @ [13])"
    using assms by (elim insertE emptyE; hypsubst; simp add: dec_nat.simps)
  show "reply scripted 500 (write_cmd 0x10000300 n) (power_on (r # rs)) = r"
    "tgt (after_reply scripted 500 (write_cmd 0x10000300 n) (power_on (r # rs))) = rs"
    "rx (after_reply scripted 500 (write_cmd 0x10000300 n) (power_on (r # rs))) = []"
    using scripted_reply [OF c d, of "power_on (r # rs)" r rs 500] by simp_all
qed

lemma ISP_WriteToRAM_overread_witness:
  "ISP_WriteToRAM scripted 0x10000300 512 (Some (replicate 512 0)) (replicate 64 0)
     (power_on [bytes ''0'' @ CRLF]) = None"
  using ISP_WriteToRAM_overread [where addr = "0x10000300" and data = "replicate 512 0" and block = "replicate 64 0"
      and react = scripted and st = "power_on [bytes ''0'' @ CRLF]"]
    write_example [of 512] ok_texts
  by (simp add: CRLF_def)

text \<open>A block whose size is a multiple of 45 (180 or 360 bytes) is sent wrongly: the encoder refuses the
  last line because its length is computed as 0, and the line before it is sent a second time in its
  place.\<close>

theorem ISP_WriteToRAM_repeats_line:
  assumes "valid_write addr n" and "unat n = 45 * num" and "1 < num"
    and "unat n \<le> length data" and "64 \<le> length block" and "mallocs st = []"
    and "length (reply react 500 (write_cmd addr n) st) < 1024"
    and "contains (text_of (reply react 500 (write_cmd addr n) st)) CMD_SUCCESS_RESP_STR"
    and "ISP_WriteToRAM react addr n (Some data) block st = Some (r, st')"
  shows "tx st' = tx st @ write_cmd addr n @
    concat (map (\<lambda>i. uu_line (drop (45 * i) data) 45) [0..<num - 1]) @ uu_line (drop (45 * (num - 2)) data) 45 @
    checksum_line (take (unat n) data)"
proof -
  let ?t = "concat (map (\<lambda>i. uu_line (drop (45 * i) data) 45) [0..<num - 1]) @ uu_line (drop (45 * (num - 2)) data) 45"
  have "\<exists>b. send_lines react data (unat n div 45 + (if unat n mod 45 = 0 then 0 else 1)) (unat n mod 45) (block, s) =
      Some (b, isp_puts react ?t s)" for s
    using send_lines_repeat [of num data block react s] assms by simp
  from ISP_WriteToRAM_sends [OF assms(1,4,6-8) this] assms(9)
  have "await 1000 OK_STR (isp_puts react (checksum_line (take (unat n) data))
      (clear_recv (isp_puts react ?t (after_reply react 500 (write_cmd addr n) st)))) = Some (r, st')"
    by simp
  from await_tx [OF this] show ?thesis by simp
qed

lemma ISP_WriteToRAM_repeats_line_witness:
  "\<exists>r st'. ISP_WriteToRAM scripted 0x10000300 180 (Some (replicate 180 0)) (replicate 64 0)
       (power_on [bytes ''0'' @ CRLF]) = Some (r, st') \<and>
     tx st' = write_cmd 0x10000300 180 @
       concat (map (\<lambda>i. uu_line (drop (45 * i) (replicate 180 0)) 45) [0..<3]) @
       uu_line (drop 90 (replicate 180 0)) 45 @ checksum_line (replicate 180 0)"
proof -
  let ?st = "power_on [bytes ''0'' @ CRLF]"
  let ?s1 = "after_reply scripted 500 (write_cmd 0x10000300 180) ?st"
  let ?t = "concat (map (\<lambda>i. uu_line (drop (45 * i) (replicate 180 0)) 45) [0..<4 - 1]) @ uu_line (drop (45 * (4 - 2)) (replicate 180 0)) 45"
  note e = write_example [of 180, simplified]
  have "\<exists>b. send_lines scripted (replicate 180 0) (unat (180 :: u32) div 45 + (if unat (180 :: u32) mod 45 = 0 then 0 else 1))
      (unat (180 :: u32) mod 45) (replicate 64 0, s) = Some (b, isp_puts scripted ?t s)" for s :: "u8 list list isp"
    using send_lines_repeat [of 4 "replicate 180 0" "replicate 64 0" scripted s] by simp
  note s = ISP_WriteToRAM_sends [OF e(1) _ _ _ _ this, of ?st]
  have "reacts scripted [] x = ([], [])" for x by (induction x) (auto simp: scripted_def)
  then have "\<exists>r st'. ISP_WriteToRAM scripted 0x10000300 180 (Some (replicate 180 0)) (replicate 64 0) ?st = Some (r, st')"
    using s e ok_texts by (simp add: CRLF_def isp_puts_eq await_silent)
  then obtain r st' where r: "ISP_WriteToRAM scripted 0x10000300 180 (Some (replicate 180 0)) (replicate 64 0) ?st = Some (r, st')"
    by blast
  show ?thesis
    using ISP_WriteToRAM_repeats_line [OF e(1) _ _ _ _ _ _ _ r, of 4] r e ok_texts
    by (auto simp: CRLF_def)
qed

end
