(* ===== verification/Indicator.thy ===== *)
theory Indicator
  imports Prelude
begin

text \<open>
  The three LEDs of \<open>src/indicator.cpp\<close>.  An LED is lit while its output is 0; the state holds the
  outputs.  \<open>wait_ms\<close> is the only observable besides the outputs: the mode switch display returns the
  outputs held during each wait and the waits' lengths.
\<close>

record leds =
  red :: bool
  green :: bool
  blue :: bool

definition ledInit :: "leds \<Rightarrow> leds" where
  "ledInit l = l\<lparr>red := True, green := True, blue := True\<rparr>"

definition Indicator_reset :: "leds \<Rightarrow> leds" where
  "Indicator_reset l = l\<lparr>red := True, green := True, blue := True\<rparr>"

definition Indicator_noBin :: "leds \<Rightarrow> leds" where
  "Indicator_noBin l = l\<lparr>blue := True, green := True, red := \<not> red l\<rparr>"

definition Indicator_disconnected :: "leds \<Rightarrow> leds" where
  "Indicator_disconnected l = l\<lparr>green := True, red := True, blue := \<not> blue l\<rparr>"

definition Indicator_connected :: "leds \<Rightarrow> leds" where
  "Indicator_connected l = l\<lparr>red := True, green := True, blue := False\<rparr>"

definition Indicator_programing :: "leds \<Rightarrow> leds" where
  "Indicator_programing l = l\<lparr>blue := True, red := True, green := \<not> green l\<rparr>"

definition Indicator_programDone :: "leds \<Rightarrow> leds" where
  "Indicator_programDone l = l\<lparr>blue := True, red := True, green := False\<rparr>"

definition Indicator_programFail :: "leds \<Rightarrow> leds" where
  "Indicator_programFail l = l\<lparr>blue := True, green := True, red := False\<rparr>"

definition Indicator_offline :: "leds \<Rightarrow> leds" where
  "Indicator_offline l = l\<lparr>red := False, green := False, blue := False\<rparr>"

definition Indicator_noAuth :: "leds \<Rightarrow> leds" where
  "Indicator_noAuth l = l\<lparr>red := False, green := False, blue := True\<rparr>"

text \<open>\<open>while (i--)\<close>: each turn shows green for 100 ms and blue for 100 ms.\<close>

fun modeSwitch_loop :: "nat \<Rightarrow> leds \<Rightarrow> leds \<times> (leds \<times> nat) list" where
  "modeSwitch_loop 0 l = (l, [])"
| "modeSwitch_loop (Suc i) l =
     (let a = l\<lparr>green := False, blue := True\<rparr>;
          b = a\<lparr>blue := False, green := True\<rparr>;
          (l', shown) = modeSwitch_loop i b
      in (l', (a, 100) # (b, 100) # shown))"

definition Indicator_modeSwitch :: "leds \<Rightarrow> leds \<times> (leds \<times> nat) list" where
  "Indicator_modeSwitch l = modeSwitch_loop 10 (l\<lparr>red := True\<rparr>)"

section \<open>Properties\<close>

lemma modeSwitch_loop_time: "sum_list (map snd (snd (modeSwitch_loop n l))) = 200 * n"
  by (induction n arbitrary: l) (simp_all add: Let_def case_prod_unfold)

lemma modeSwitch_loop_end:
  "0 < n \<Longrightarrow> fst (modeSwitch_loop n l) = l\<lparr>green := True, blue := False\<rparr>"
proof (induction n arbitrary: l)
  case (Suc n)
  show ?case
    using Suc.IH [of "l\<lparr>blue := False, green := True\<rparr>"]
    by (cases "n = 0") (simp_all add: Let_def case_prod_unfold)
qed simp

lemma modeSwitch_loop_shown:
  "red l \<Longrightarrow> map (\<lambda>(x, t). (red x, green x, blue x)) (snd (modeSwitch_loop n l)) =
     concat (replicate n [(True, False, True), (True, True, False)])"
proof (induction n arbitrary: l)
  case (Suc n)
  show ?case
    using Suc.IH [of "l\<lparr>blue := False, green := True\<rparr>"] Suc.prems
    by (simp add: Let_def case_prod_unfold)
qed simp

text \<open>The display of a mode switch takes two seconds, green and blue alternating with the red LED off,
  and ends with only the blue LED lit, whatever was lit before.\<close>

theorem Indicator_modeSwitch_shows:
  "sum_list (map snd (snd (Indicator_modeSwitch l))) = 2000 \<and>
   fst (Indicator_modeSwitch l) = Indicator_connected l \<and>
   map (\<lambda>(x, t). (red x, green x, blue x)) (snd (Indicator_modeSwitch l)) =
     concat (replicate 10 [(True, False, True), (True, True, False)])"
proof -
  have "sum_list (map snd (snd (Indicator_modeSwitch l))) = 2000"
    by (simp add: Indicator_modeSwitch_def modeSwitch_loop_time)
  moreover have "fst (Indicator_modeSwitch l) = Indicator_connected l"
    by (simp add: Indicator_modeSwitch_def modeSwitch_loop_end Indicator_connected_def)
  moreover have "map (\<lambda>(x, t). (red x, green x, blue x)) (snd (Indicator_modeSwitch l)) =
     concat (replicate 10 [(True, False, True), (True, True, False)])"
    by (simp add: Indicator_modeSwitch_def modeSwitch_loop_shown)
  ultimately show ?thesis by blast
qed

text \<open>The five steady displays do not depend on what was shown before and are pairwise different; the
  three flashing ones invert their own LED at each call and switch the other two off.\<close>

theorem Indicator_displays:
  "distinct [Indicator_connected l, Indicator_programDone l, Indicator_programFail l, Indicator_offline l,
     Indicator_noAuth l, Indicator_reset l] \<and>
   Indicator_noBin (Indicator_noBin l) = l\<lparr>green := True, blue := True\<rparr> \<and>
   Indicator_disconnected (Indicator_disconnected l) = l\<lparr>red := True, green := True\<rparr> \<and>
   Indicator_programing (Indicator_programing l) = l\<lparr>red := True, blue := True\<rparr>"
  by (cases l) (simp add: Indicator_connected_def Indicator_programDone_def Indicator_programFail_def
      Indicator_offline_def Indicator_noAuth_def Indicator_reset_def Indicator_noBin_def
      Indicator_disconnected_def Indicator_programing_def)

end
