(* ===== verification/Programmer.thy ===== *)
theory Programmer
  imports IspBlock Indicator
begin

text \<open>
  The programmer of \<open>src/OnlineProgram.cpp\<close>: \<open>programBinFileV1\<close>, its twin \<open>programBinFileV2\<close>,
  \<open>programUID\<close>, and the file helpers \<open>strFlit\<close>, \<open>detectFile\<close> and \<open>printLog\<close>.

  The state is the serial port with its target and its heap (\<open>Isp\<close>), the number of open files, the LEDs,
  the global 512-byte \<open>buffer\<close> and the progress bar on the debug port; the other debug messages are left
  out.  The file system is a parameter: a path leads to nothing or to a file with a size and the bytes
  \<open>fread\<close> delivers at an offset.  Uninitialised memory is a parameter too: \<open>blk\<close> is the allocated
  buffer with whatever follows it on the heap, \<open>enc\<close> the line buffer of \<open>ISP_WriteToRAM\<close>.
\<close>

unbundle bit_operations_syntax

section \<open>The code\<close>

record bin_file =
  fsize :: int
  fread :: "nat \<Rightarrow> nat \<Rightarrow> u8 list"

record 's prog =
  port :: "'s isp"
  files :: nat
  led :: leds
  buffer :: "u8 list"
  bar :: "u8 list"

definition MIN_BIN_SIZE :: int where "MIN_BIN_SIZE = 1024 * 2"

text \<open>The word at 0x1c is set so that the first eight words of the image add up to 0.\<close>

definition vector_sum :: "u8 list \<Rightarrow> u32 option" where
  "vector_sum buf = for_up 0 28 (\<lambda>j tmp. do {
     b \<leftarrow> rd buf j;
     Some (tmp + push_bit (j mod 4 * 8) (ucast b)) }) 0"

definition patch_vector :: "u8 list \<Rightarrow> u8 list option" where
  "patch_vector buf = do {
     tmp \<leftarrow> vector_sum buf;
     let tmp = NOT tmp + 1;
     for_up 0 4 (\<lambda>j buf. wr buf (28 + j) (ucast (drop_bit (j * 8) tmp))) buf }"

text \<open>One turn of the programming loop; the exit value is the code after \<open>goto Exit\<close>.\<close>

definition load_block :: "bin_file \<Rightarrow> nat \<Rightarrow> nat \<Rightarrow> nat \<Rightarrow> u8 list \<Rightarrow> (bool \<times> u8 list) option" where
  "load_block file num lastPackSize i buf =
     (if i = num - 1 then do {
        let d = fread file (i * 512) lastPackSize;
        buf \<leftarrow> wrs buf 0 d;
        if length d \<noteq> lastPackSize then Some (False, buf)
        else do {
          buf \<leftarrow> wrs buf lastPackSize (replicate (512 - lastPackSize) 0xff);
          Some (True, buf) } }
      else do {
        let d = fread file (i * 512) 512;
        buf \<leftarrow> wrs buf 0 d;
        Some (length d = 512, buf) })"

definition write_block :: "'s target \<Rightarrow> bin_file \<Rightarrow> nat \<Rightarrow> nat \<Rightarrow> u8 list \<Rightarrow> nat \<Rightarrow>
    u8 list \<times> int list \<times> 's prog \<Rightarrow> (int option \<times> u8 list \<times> int list \<times> 's prog) option" where
  "write_block react file num lastPackSize enc i s = (case s of (buf, checksumW, st) \<Rightarrow> do {
     let st = st\<lparr>led := Indicator_programing (led st)\<rparr>;
     (ok, buf) \<leftarrow> load_block file num lastPackSize i buf;
     if \<not> ok then Some (Some (- 6), buf, checksumW, st)
     else do {
       buf \<leftarrow> (if i = 0 then patch_vector buf else Some buf);
       (ret, p) \<leftarrow> ISP_WriteToRAM react ISP_WRITE_RAM_ADDR 512 (Some buf) enc (port st);
       let st = st\<lparr>port := p\<rparr>;
       if ret \<noteq> RET_CODE_SUCCESS then Some (Some (- 7), buf, checksumW, st)
       else do {
         (ret, p) \<leftarrow> ISP_copyToFlash react (of_nat (i * 512)) ISP_WRITE_RAM_ADDR 512 (port st);
         let st = st\<lparr>port := p\<rparr>;
         if ret \<noteq> RET_CODE_SUCCESS then Some (Some (- 8), buf, checksumW, st)
         else do {
           c \<leftarrow> sum_int buf 512 0;
           checksumW \<leftarrow> wr checksumW i c;
           let n = (if i = num - 1 then 60 - (60 div num) * (num - 1) else 60 div num);
           Some (None, buf, checksumW, st\<lparr>bar := bar st @ replicate n 42\<rparr>) } } } })"

text \<open>One turn of the verification loop.\<close>

definition verify_block :: "'s target \<Rightarrow> int list \<Rightarrow> nat \<Rightarrow>
    u8 list \<times> int list \<times> 's prog \<Rightarrow> (int option \<times> u8 list \<times> int list \<times> 's prog) option" where
  "verify_block react checksumW i s = (case s of (buf, checksumR, st) \<Rightarrow> do {
     checksumR \<leftarrow> wr checksumR i 0;
     (ret, d, p) \<leftarrow> ISP_readMemory react (of_nat (i * 512)) 512 (Some buf) (port st);
     let st = st\<lparr>port := p\<rparr>;
     let buf = (case d of None \<Rightarrow> [] | Some d \<Rightarrow> d);
     if ret \<noteq> RET_CODE_SUCCESS then Some (Some (- 9), buf, checksumR, st)
     else do {
       c \<leftarrow> sum_int buf 512 0;
       checksumR \<leftarrow> wr checksumR i c;
       r \<leftarrow> rd checksumR i;
       w \<leftarrow> rd checksumW i;
       if r \<noteq> w then Some (Some (- 10), buf, checksumR, st) else Some (None, buf, checksumR, st) } })"

definition fclose :: "'s prog \<Rightarrow> 's prog" where
  "fclose st = st\<lparr>files := files st - 1\<rparr>"

definition free_all :: "'s prog \<Rightarrow> 's prog" where
  "free_all st = st\<lparr>port := free (free (free (port st)))\<rparr>"

text \<open>The three allocations; on failure the blocks already held are freed.\<close>

definition alloc_all :: "'s isp \<Rightarrow> bool \<times> 's isp" where
  "alloc_all p =
     (let (ok, p) = malloc p
      in if \<not> ok then (False, p)
         else let (ok, p) = malloc p
              in if \<not> ok then (False, free p)
                 else let (ok, p) = malloc p
                      in if \<not> ok then (False, free (free p)) else (True, p))"

definition block_num :: "int \<Rightarrow> nat" where
  "block_num sz = nat (sz div 512 + (if sz mod 512 \<noteq> 0 then 1 else 0))"

definition last_pack_size :: "int \<Rightarrow> nat" where
  "last_pack_size sz = nat (if sz mod 512 = 0 then 512 else sz mod 512)"

definition programBinFileV1 :: "'s target \<Rightarrow> (u8 list \<Rightarrow> bin_file option) \<Rightarrow> u8 list \<Rightarrow> u8 list \<Rightarrow>
    u8 list option \<Rightarrow> 's prog \<Rightarrow> (int \<times> 's prog) option" where
  "programBinFileV1 react disk blk enc path st =
     (case path of
       None \<Rightarrow> Some (- 1, st)
     | Some path \<Rightarrow>
     (case disk path of
       None \<Rightarrow> Some (- 2, st)
     | Some file \<Rightarrow> do {
         let st = st\<lparr>files := Suc (files st)\<rparr>;
         let sz = fsize file;
         if sz < MIN_BIN_SIZE \<or> sz > uint FLASH_SIZE then Some (- 3, st)
         else do {
           (_, p) \<leftarrow> ISP_unlock react (port st);
           (ret, p) \<leftarrow> ISP_erase react 0 (of_nat (SECTOR_NUM - 1)) p;
           if ret \<noteq> RET_CODE_SUCCESS then Some (- 4, st\<lparr>port := p\<rparr>)
           else do {
             let (ok, p) = alloc_all p;
             if \<not> ok then Some (- 5, st\<lparr>port := p\<rparr>)
             else do {
               let num = block_num sz;
               (_, p) \<leftarrow> ISP_unlock react p;
               let st = st\<lparr>port := p, bar := bar st @ replicate 60 61 @ CRLF\<rparr>;
               (e, buf, checksumW, st) \<leftarrow>
                 for_exit 0 num (write_block react file num (last_pack_size sz) enc) (blk, replicate num 0, st);
               (case e of
                 Some ret \<Rightarrow> Some (ret, fclose (free_all st))
               | None \<Rightarrow> do {
                   (e, buf, checksumR, st) \<leftarrow>
                     for_exit 0 num (verify_block react checksumW) (buf, replicate num 0, st);
                   (case e of
                     Some ret \<Rightarrow> Some (ret, fclose (free_all st))
                   | None \<Rightarrow> Some (0, fclose st)) }) } } } }))"

text \<open>The second version has the same body, line by line; its second argument is not used.\<close>

definition programBinFileV2 :: "'s target \<Rightarrow> (u8 list \<Rightarrow> bin_file option) \<Rightarrow> u8 list \<Rightarrow> u8 list \<Rightarrow>
    u8 list option \<Rightarrow> u8 \<Rightarrow> 's prog \<Rightarrow> (int \<times> 's prog) option" where
  "programBinFileV2 react disk blk enc path encode_type st = programBinFileV1 react disk blk enc path st"

definition programUID :: "'s target \<Rightarrow> u8 list \<Rightarrow> u32 \<Rightarrow> u8 list option \<Rightarrow> u8 \<Rightarrow> 's prog \<Rightarrow> (int \<times> 's prog) option" where
  "programUID react enc addr ident sz st =
     (case ident of
       None \<Rightarrow> Some (- 1, st)
     | Some ident \<Rightarrow>
       if \<not> CHECK_FLASH_ADDR addr \<or> addr mod 16 \<noteq> 0 \<or> sz = 0 then Some (- 1, st)
       else if addr + ucast sz > FLASH_END_ADDRESS then Some (- 2, st)
       else do {
         let offset = unat (addr mod 512);
         let sectorIndex = of_nat (unat (addr div of_nat SECTOR_SIZE));
         let programAddr = (2 * (addr div 512) + (if addr mod 512 + ucast sz > 512 then 1 else 0)) * 256;
         buf \<leftarrow> wrs (buffer st) 0 (replicate 512 0xff);
         buf \<leftarrow> for_up 0 (unat sz) (\<lambda>i buf. do { c \<leftarrow> rd ident i; wr buf (offset + i) c }) buf;
         let st = st\<lparr>buffer := buf\<rparr>;
         (_, p) \<leftarrow> ISP_unlock react (port st);
         (ret, p) \<leftarrow> ISP_erase react sectorIndex sectorIndex p;
         if ret \<noteq> RET_CODE_SUCCESS then Some (- 3, st\<lparr>port := p\<rparr>)
         else do {
           (_, p) \<leftarrow> ISP_unlock react p;
           (ret, p) \<leftarrow> ISP_WriteToRAM react ISP_WRITE_RAM_ADDR 512 (Some buf) enc p;
           if ret \<noteq> RET_CODE_SUCCESS then Some (- 4, st\<lparr>port := p\<rparr>)
           else do {
             (ret, p) \<leftarrow> ISP_copyToFlash react programAddr ISP_WRITE_RAM_ADDR 512 p;
             if ret \<noteq> RET_CODE_SUCCESS then Some (- 5, st\<lparr>port := p\<rparr>)
             else do {
               checksumW \<leftarrow> sum_u32 buf 512 0;
               (ret, d, p) \<leftarrow> ISP_readMemory react programAddr 512 (Some buf) p;
               let buf = (case d of None \<Rightarrow> [] | Some d \<Rightarrow> d);
               let st = st\<lparr>buffer := buf, port := p\<rparr>;
               if ret \<noteq> RET_CODE_SUCCESS then Some (- 6, st)
               else do {
                 checksumR \<leftarrow> sum_u32 buf 512 0;
                 Some (if checksumW \<noteq> checksumR then - 7 else 0, st) } } } } })"

text \<open>\<open>strFlit\<close>: skip to the first brace, then keep the characters between blank and tilde.\<close>

fun strFlit_skip :: "u8 list \<Rightarrow> u8 list option" where
  "strFlit_skip [] = None"
| "strFlit_skip (c # cs) = (if c = 123 then Some (c # cs) else strFlit_skip cs)"

fun strFlit_copy :: "u8 list \<Rightarrow> u8 list \<Rightarrow> nat \<Rightarrow> (u8 list \<times> nat) option" where
  "strFlit_copy [] out pOut = None"
| "strFlit_copy (c # cs) out pOut =
     (if c = 0 then Some (out, pOut)
      else if 32 < c \<and> c < 126 then do { out \<leftarrow> wr out pOut c; strFlit_copy cs out (Suc pOut) }
      else strFlit_copy cs out pOut)"

definition strFlit :: "u8 list option \<Rightarrow> u8 list option \<Rightarrow> (int \<times> u8 list option) option" where
  "strFlit inp out =
     (case (inp, out) of
       (Some i, Some o') \<Rightarrow> do {
         p \<leftarrow> strFlit_skip i;
         (o', pOut) \<leftarrow> strFlit_copy p o' 0;
         o' \<leftarrow> wr o' pOut 0;
         Some (0, Some o') }
     | _ \<Rightarrow> Some (- 1, out))"

text \<open>\<open>detectFile\<close>: \<open>entries\<close> are the names \<open>readdir\<close> delivers, \<open>None\<close> when \<open>opendir\<close> fails; the
  result has the path array and the number of directories left open.\<close>

definition SD_ROOT_DERECTORY :: "u8 list" where "SD_ROOT_DERECTORY = bytes ''/sd''"

fun detect_entry :: "u8 list \<Rightarrow> u8 list list \<Rightarrow> u8 list \<Rightarrow> nat \<Rightarrow> (int \<times> u8 list \<times> nat) option" where
  "detect_entry file_type [] path dirs = Some (- 3, path, dirs - 1)"
| "detect_entry file_type (d_name # ds) path dirs =
     (if find_sub file_type d_name \<noteq> None then do {
        old \<leftarrow> cstr path;
        if old \<noteq> d_name then do {
          path \<leftarrow> wrs path 0 (SD_ROOT_DERECTORY @ bytes ''/'' @ d_name @ [0]);
          Some (0, path, dirs - 1) }
        else Some (0, path, dirs) }
      else detect_entry file_type ds path dirs)"

definition detectFile :: "(u8 list \<Rightarrow> u8 list list option) \<Rightarrow> u8 list option \<Rightarrow> u8 list option \<Rightarrow> u8 list option \<Rightarrow>
    nat \<Rightarrow> (int \<times> u8 list option \<times> nat) option" where
  "detectFile opendir dir file_type path dirs =
     (case (dir, file_type, path) of
       (Some dir, Some file_type, Some p) \<Rightarrow>
         (case opendir dir of
           None \<Rightarrow> Some (- 2, path, dirs)
         | Some entries \<Rightarrow> do {
             (r, p, dirs) \<leftarrow> detect_entry file_type entries p (Suc dirs);
             Some (r, Some p, dirs) })
     | _ \<Rightarrow> Some (- 1, path, dirs))"

text \<open>\<open>printLog\<close>: \<open>log\<close> is the log file's text, \<open>None\<close> when it cannot be opened; \<open>room\<close> tells whether
  the write succeeds.\<close>

definition printLog :: "u8 list option \<Rightarrow> bool \<Rightarrow> u8 list option \<Rightarrow> u8 list option \<Rightarrow> int \<times> u8 list option" where
  "printLog log room path txt =
     (case (path, txt) of
       (Some _, Some txt) \<Rightarrow>
         (case log of
           None \<Rightarrow> (- 2, None)
         | Some text' \<Rightarrow> (0, Some (if room then text' @ txt @ CRLF else text')))
     | _ \<Rightarrow> (- 1, log))"

section \<open>Resources\<close>

lemma write_block_kept:
  assumes "write_block react file num lps enc i (buf, cw, st) = Some (e, buf', cw', st')"
  shows "kept (port st) (port st') \<and> files st' = files st \<and> (\<forall>x. e = Some x \<longrightarrow> x \<in> {- 6, - 7, - 8})"
proof -
  have "kept (port st) (port st')"
    using assms
    by (auto simp: write_block_def Let_def split: bind_splits if_splits dest!: write_ram.frame copy.frame,
        (blast intro: kept_trans)+)
  moreover have "files st' = files st \<and> (\<forall>x. e = Some x \<longrightarrow> x \<in> {- 6, - 7, - 8})"
    using assms by (auto simp: write_block_def Let_def split: bind_splits if_splits)
  ultimately show ?thesis by blast
qed

lemma verify_block_kept:
  assumes "verify_block react cw i (buf, cr, st) = Some (e, buf', cr', st')"
  shows "kept (port st) (port st') \<and> files st' = files st \<and> (\<forall>x. e = Some x \<longrightarrow> x \<in> {- 9, - 10})"
  using assms
  by (auto simp: verify_block_def Let_def split: bind_splits if_splits dest!: ISP_readMemory_kept)

lemma write_loop_kept:
  assumes "for_exit 0 n (write_block react file num lps enc) (buf, cw, st) = Some (e, buf', cw', st')"
  shows "kept (port st) (port st') \<and> files st' = files st \<and> (\<forall>x. e = Some x \<longrightarrow> x \<in> {- 6, - 7, - 8})"
proof -
  let ?P = "\<lambda>(b, c, s). kept (port st) (port s) \<and> files s = files st"
  have "case e of None \<Rightarrow> ?P (buf', cw', st') | Some x \<Rightarrow> ?P (buf', cw', st') \<and> x \<in> {- 6, - 7, - 8}"
    by (rule for_exit_partial [OF assms, where P = "\<lambda>_. ?P" and Q = "\<lambda>x s. ?P s \<and> x \<in> {- 6, - 7, - 8}"])
      (auto dest!: write_block_kept intro: kept_trans)
  then show ?thesis by (cases e) auto
qed

lemma verify_loop_kept:
  assumes "for_exit 0 n (verify_block react cw) (buf, cr, st) = Some (e, buf', cr', st')"
  shows "kept (port st) (port st') \<and> files st' = files st \<and> (\<forall>x. e = Some x \<longrightarrow> x \<in> {- 9, - 10})"
proof -
  let ?P = "\<lambda>(b, c, s). kept (port st) (port s) \<and> files s = files st"
  have "case e of None \<Rightarrow> ?P (buf', cr', st') | Some x \<Rightarrow> ?P (buf', cr', st') \<and> x \<in> {- 9, - 10}"
    by (rule for_exit_partial [OF assms, where P = "\<lambda>_. ?P" and Q = "\<lambda>x s. ?P s \<and> x \<in> {- 9, - 10}"])
      (auto dest!: verify_block_kept intro: kept_trans)
  then show ?thesis by (cases e) auto
qed

lemma malloc_live: "malloc p = (ok, p') \<Longrightarrow> live p' = (if ok then Suc (live p) else live p)"
  by (auto simp: malloc_def split: list.splits bool.splits)

lemma alloc_all_live: "alloc_all p = (ok, p') \<Longrightarrow> live p' = (if ok then live p + 3 else live p)"
  by (auto simp: alloc_all_def free_def split: prod.splits if_splits dest!: malloc_live)

lemma live_free_all: "kept p p' \<Longrightarrow> live (free (free (free p'))) = live p - 3"
  by (simp add: kept_def free_def)

lemma run_resources:
  assumes "programBinFileV1 react disk blk enc path st = Some (r, st')"
  shows "r \<in> {- 1, - 2} \<and> st' = st
    \<or> r = - 3 \<and> files st' = files st + 1 \<and> port st' = port st
    \<or> r \<in> {- 4, - 5} \<and> files st' = files st + 1 \<and> live (port st') = live (port st)
    \<or> r \<in> {- 6, - 7, - 8, - 9, - 10} \<and> files st' = files st \<and> live (port st') = live (port st)
    \<or> r = 0 \<and> files st' = files st \<and> live (port st') = live (port st) + 3"
proof (cases "path = None \<or> disk (the path) = None")
  case True
  with assms show ?thesis by (auto simp: programBinFileV1_def split: option.splits)
next
  case False
  then obtain p fl where path: "path = Some p" "disk p = Some fl" by auto
  let ?sz = "fsize fl" let ?num = "block_num ?sz"
  show ?thesis
  proof (cases "?sz < MIN_BIN_SIZE \<or> ?sz > uint FLASH_SIZE")
    case True
    with assms path show ?thesis by (auto simp: programBinFileV1_def Let_def)
  next
    case False
    from assms path False obtain u1 p1 r2 p2 where
      u: "ISP_unlock react (port st) = Some (u1, p1)" and e: "ISP_erase react 0 15 p1 = Some (r2, p2)"
      by (auto simp: programBinFileV1_def Let_def split: bind_splits)
    have l2: "live p2 = live (port st)" using unlock.keeps_live [OF u] erase.keeps_live [OF e] by simp
    show ?thesis
    proof (cases "r2 = RET_CODE_SUCCESS")
      case no: False
      with assms path False u e l2 show ?thesis by (auto simp: programBinFileV1_def Let_def)
    next
      case erased: True
      obtain ok p3 where a: "alloc_all p2 = (ok, p3)" by fastforce
      show ?thesis
      proof (cases ok)
        case no: False
        with assms path False u e erased a l2 alloc_all_live [OF a] show ?thesis
          by (auto simp: programBinFileV1_def Let_def)
      next
        case ok: True
        with assms path False u e erased a obtain u4 p4 x buf cw s5 where
          u4: "ISP_unlock react p3 = Some (u4, p4)" and
          w: "for_exit 0 ?num (write_block react fl ?num (last_pack_size ?sz) enc) (blk, replicate ?num 0,
              st\<lparr>files := Suc (files st), port := p4, bar := bar st @ replicate 60 61 @ CRLF\<rparr>) = Some (x, buf, cw, s5)" and
          c: "(case x of
                 Some ret \<Rightarrow> Some (ret, fclose (free_all s5))
               | None \<Rightarrow> do {
                   (e, buf, checksumR, st) \<leftarrow> for_exit 0 ?num (verify_block react cw) (buf, replicate ?num 0, s5);
                   (case e of
                     Some ret \<Rightarrow> Some (ret, fclose (free_all st))
                   | None \<Rightarrow> Some (0, fclose st)) }) = Some (r, st')"
          by (auto simp: programBinFileV1_def Let_def split: bind_splits)
        have l4: "live p4 = live (port st) + 3"
          using unlock.keeps_live [OF u4] alloc_all_live [OF a] ok l2 by simp
        from write_loop_kept [OF w] l4 have s5: "live (port s5) = live (port st) + 3" "files s5 = Suc (files st)"
          and x: "\<And>y. x = Some y \<Longrightarrow> y \<in> {- 6, - 7, - 8}" by (auto simp: kept_def)
        show ?thesis
        proof (cases x)
          case (Some y)
          with c x [OF Some] s5 show ?thesis by (auto simp: fclose_def free_all_def free_def)
        next
          case None
          with c obtain z buf' cr s6 where
            v: "for_exit 0 ?num (verify_block react cw) (buf, replicate ?num 0, s5) = Some (z, buf', cr, s6)"
            and d: "(case z of Some ret \<Rightarrow> Some (ret, fclose (free_all s6)) | None \<Rightarrow> Some (0, fclose s6)) = Some (r, st')"
            by (auto split: bind_splits)
          from verify_loop_kept [OF v] s5 d show ?thesis
            by (cases z) (auto simp: kept_def fclose_def free_all_def free_def)
        qed
      qed
    qed
  qed
qed

text \<open>C26: What a run of the programmer leaves behind, for every target, file and heap.  Only the paths through
  \<open>Exit\<close> (codes -6 to -10) are clean.  A refused size (-3), a failed erase (-4) and a failed allocation (-5)
  leave the file open; a successful run closes the file but keeps its three blocks of memory.\<close>

theorem programBinFile_resources:
  assumes "programBinFileV1 react disk blk enc path st = Some (r, st')"
  shows "r \<in> {- 1, - 2} \<and> st' = st
    \<or> r = - 3 \<and> files st' = files st + 1 \<and> port st' = port st
    \<or> r \<in> {- 4, - 5} \<and> files st' = files st + 1 \<and> live (port st') = live (port st)
    \<or> r \<in> {- 6, - 7, - 8, - 9, - 10} \<and> files st' = files st \<and> live (port st') = live (port st)
    \<or> r = 0 \<and> files st' = files st \<and> live (port st') = live (port st) + 3"
  using run_resources [OF assms] .

lemma programBinFile_resources_witness:
  "\<exists>st'. programBinFileV1 scripted (\<lambda>_. Some \<lparr>fsize = 100, fread = \<lambda>_ _. []\<rparr>) [] [] (Some [])
      \<lparr>port = power_on [], files = 0, led = \<lparr>red = True, green = True, blue = True\<rparr>, buffer = [], bar = []\<rparr> = Some (- 3, st') \<and> files st' = 1"
proof -
  let ?st = "\<lparr>port = power_on [], files = 0, led = \<lparr>red = True, green = True, blue = True\<rparr>, buffer = [], bar = []\<rparr> :: u8 list list prog"
  have "programBinFileV1 scripted (\<lambda>_. Some \<lparr>fsize = 100, fread = \<lambda>_ _. []\<rparr>) [] [] (Some []) ?st = Some (- 3, ?st\<lparr>files := 1\<rparr>)"
    by (simp add: programBinFileV1_def MIN_BIN_SIZE_def)
  from programBinFile_resources [OF this] this show ?thesis by auto
qed

section \<open>The image\<close>

definition vec_term :: "u8 list \<Rightarrow> nat \<Rightarrow> u32" where
  "vec_term b j = push_bit (j mod 4 * 8) (ucast (b ! j))"

text \<open>The sum of the first \<open>k\<close> little-endian words.\<close>

definition word_sum :: "u8 list \<Rightarrow> nat \<Rightarrow> u32" where
  "word_sum b k = (\<Sum>j<4 * k. vec_term b j)"

lemma vector_sum_value: "28 \<le> length b \<Longrightarrow> vector_sum b = Some (word_sum b 7)"
proof -
  assume len: "28 \<le> length b"
  have "for_up 0 28 (\<lambda>j tmp. do { b \<leftarrow> rd b j; Some (tmp + push_bit (j mod 4 * 8) (ucast b)) }) (\<Sum>j<0. vec_term b j) =
      Some (\<Sum>j<0 + 28. vec_term b j)"
    by (rule for_up_determ [where g = "\<lambda>k. \<Sum>j<k. vec_term b j"]) (use len in \<open>auto simp: vec_term_def rd_def\<close>)
  then show ?thesis by (simp add: vector_sum_def word_sum_def)
qed

definition word_bytes :: "u32 \<Rightarrow> u8 list" where
  "word_bytes w = map (\<lambda>j. ucast (drop_bit (j * 8) w)) [0..<4]"

lemma word_bytes_list:
  "word_bytes w = [ucast w, ucast (drop_bit 8 w), ucast (drop_bit 16 w), ucast (drop_bit 24 w)]"
  by (simp add: word_bytes_def upt_rec)

lemma word_bytes_sum:
  "ucast (ucast w :: u8) + push_bit 8 (ucast (ucast (drop_bit 8 w) :: u8)) +
   push_bit 16 (ucast (ucast (drop_bit 16 w) :: u8)) + push_bit 24 (ucast (ucast (drop_bit 24 w) :: u8)) = (w :: u32)"
proof -
  let ?a = "ucast (ucast w :: u8) :: u32" and ?b = "push_bit 8 (ucast (ucast (drop_bit 8 w) :: u8)) :: u32"
  let ?c = "push_bit 16 (ucast (ucast (drop_bit 16 w) :: u8)) :: u32" and ?d = "push_bit 24 (ucast (ucast (drop_bit 24 w) :: u8)) :: u32"
  have 1: "?a + ?b = ?a OR ?b"
    by (rule disjunctive_add_eq_or) (auto intro!: bit_word_eqI simp: bit_simps)
  have 2: "(?a OR ?b) + ?c = ?a OR ?b OR ?c"
    by (subst disjunctive_add_eq_or) (auto intro!: bit_word_eqI simp: bit_simps)
  have 3: "(?a OR ?b OR ?c) + ?d = ?a OR ?b OR ?c OR ?d"
    by (subst disjunctive_add_eq_or) (auto intro!: bit_word_eqI simp: bit_simps)
  have "?a OR ?b OR ?c OR ?d = w"
  proof (rule bit_word_eqI)
    fix n :: nat assume "n < LENGTH(32)"
    moreover have "n < 8 \<or> 8 \<le> n \<and> n - 8 < 8 \<or> 16 \<le> n \<and> n - 16 < 8 \<or> 24 \<le> n \<and> n - 24 < 8" if "n < 32"
      using that by linarith
    ultimately show "bit (?a OR ?b OR ?c OR ?d) n \<longleftrightarrow> bit w n" by (auto simp: bit_simps)
  qed
  with 1 2 3 show ?thesis by simp
qed

definition patched :: "u8 list \<Rightarrow> u8 list" where
  "patched b = take 28 b @ word_bytes (- word_sum b 7) @ drop 32 b"

lemma length_patched [simp]: "32 \<le> length b \<Longrightarrow> length (patched b) = length b"
  by (simp add: patched_def word_bytes_def)

lemma wr_four:
  assumes "n + 4 \<le> length b"
  shows "for_up 0 4 (\<lambda>j buf. wr buf (n + j) (f j)) b = Some (take n b @ map f [0..<4] @ drop (n + 4) b)"
proof -
  let ?g = "\<lambda>k. take n b @ map f [0..<k] @ drop (n + k) b"
  have "for_up 0 4 (\<lambda>j buf. wr buf (n + j) (f j)) (?g 0) = Some (?g (0 + 4))"
  proof (rule for_up_determ)
    fix k :: nat assume "k < 0 + 4"
    with assms have "drop (n + k) b = b ! (n + k) # drop (n + Suc k) b"
      by (simp add: Cons_nth_drop_Suc)
    then show "wr (?g k) (n + k) (f k) = Some (?g (Suc k))"
      using assms \<open>k < 0 + 4\<close> by (simp add: wr_def list_update_append)
  qed
  then show ?thesis by simp
qed

lemma patch_vector_value: "32 \<le> length b \<Longrightarrow> patch_vector b = Some (patched b)"
  using wr_four [of 28 b "\<lambda>j. ucast (drop_bit (j * 8) (NOT (word_sum b 7) + 1))"]
  by (simp add: patch_vector_def vector_sum_value Let_def patched_def word_bytes_def minus_eq_not_plus_1)

lemma vec_term_cong: "b ! j = c ! j \<Longrightarrow> vec_term b j = vec_term c j"
  by (simp add: vec_term_def)

lemma patched_sum: "32 \<le> length b \<Longrightarrow> word_sum (patched b) 8 = 0"
proof -
  assume len: "32 \<le> length b"
  let ?p = "patched b" and ?w = "- word_sum b 7"
  have "?p ! j = b ! j" if "j < 28" for j using that len by (simp add: patched_def nth_append)
  then have 7: "word_sum ?p 7 = word_sum b 7"
    unfolding word_sum_def by (intro sum.cong vec_term_cong) auto
  have n: "?p ! (28 + j) = word_bytes ?w ! j" if "j < 4" for j
    using that len by (simp add: patched_def nth_append word_bytes_def)
  have "word_sum ?p 8 = word_sum ?p 7 + (vec_term ?p 28 + vec_term ?p 29 + vec_term ?p 30 + vec_term ?p 31)"
    by (simp add: word_sum_def eval_nat_numeral)
  also have "vec_term ?p 28 + vec_term ?p 29 + vec_term ?p 30 + vec_term ?p 31 = ?w"
    using n [of 0] n [of 1] n [of 2] n [of 3] word_bytes_sum [of ?w]
    by (simp add: vec_term_def word_bytes_list)
  finally show ?thesis using 7 by simp
qed

text \<open>An honest file: its bytes are a list.\<close>

definition honest_file :: "u8 list \<Rightarrow> bin_file" where
  "honest_file c = \<lparr>fsize = int (length c), fread = (\<lambda>o' n. take n (drop o' c))\<rparr>"

definition padded :: "u8 list \<Rightarrow> nat \<Rightarrow> u8 list" where
  "padded c i = take 512 (drop (512 * i) c @ replicate 512 0xff)"

definition image_block :: "u8 list \<Rightarrow> nat \<Rightarrow> u8 list" where
  "image_block c i = (if i = 0 then patched (padded c 0) else padded c i)"

lemma length_padded [simp]: "length (padded c i) = 512"
  by (simp add: padded_def)

lemma length_image_block [simp]: "length (image_block c i) = 512"
  by (simp add: image_block_def)

lemma block_num_bounds:
  assumes "0 < length c"
  shows "0 < block_num (int (length c)) \<and> 512 * (block_num (int (length c)) - 1) + last_pack_size (int (length c)) = length c \<and>
    0 < last_pack_size (int (length c)) \<and> last_pack_size (int (length c)) \<le> 512"
proof -
  obtain q r where q: "length c div 512 = q" and r: "length c mod 512 = r" by simp
  have l: "512 * q + r = length c" "r < 512" unfolding q [symmetric] r [symmetric] by simp_all
  have iq: "int (length c) div 512 = int q" using q by (metis of_nat_numeral zdiv_int)
  have ir: "int (length c) mod 512 = int r" using r by (metis of_nat_numeral zmod_int)
  have n: "block_num (int (length c)) = q + (if r = 0 then 0 else 1)"
    unfolding block_num_def iq ir by (simp add: nat_add_distrib)
  have p: "last_pack_size (int (length c)) = (if r = 0 then 512 else r)"
    unfolding last_pack_size_def ir by simp
  show ?thesis unfolding n p using l assms by (cases q) auto
qed

lemma wrs_prefix: "length zs \<le> length p \<Longrightarrow> wrs p 0 zs = Some (zs @ drop (length zs) p)"
  using wrs_at [of 0 zs p] by simp

lemma load_block_value:
  assumes "512 \<le> length b" and "0 < length c" and "i < block_num (int (length c))"
  shows "load_block (honest_file c) (block_num (int (length c))) (last_pack_size (int (length c))) i b =
    Some (True, padded c i @ drop 512 b)"
proof -
  let ?n = "block_num (int (length c))" and ?l = "last_pack_size (int (length c))"
  note bb = block_num_bounds [OF assms(2)]
  show ?thesis
  proof (cases "i = ?n - 1")
    case True
    have d: "take ?l (drop (i * 512) c) = drop (512 * i) c" "length (drop (512 * i) c) = ?l"
      using bb True by (auto simp: mult.commute)
    have "wrs b 0 (drop (512 * i) c) = Some (drop (512 * i) c @ drop ?l b)"
      using wrs_prefix [of "drop (512 * i) c" b] d assms(1) bb by simp
    moreover have "wrs (drop (512 * i) c @ drop ?l b) ?l (replicate (512 - ?l) 0xff) =
        Some (drop (512 * i) c @ replicate (512 - ?l) 0xff @ drop 512 b)"
      using wrs_append [of "replicate (512 - ?l) 0xff" "drop ?l b" "drop (512 * i) c"] d assms(1) bb by simp
    moreover have "padded c i = drop (512 * i) c @ replicate (512 - ?l) 0xff"
      using d bb by (simp add: padded_def min_def)
    ultimately show ?thesis
      using True d by (simp add: load_block_def honest_file_def Let_def)
  next
    case False
    with assms(3) bb have "512 * i + 512 \<le> length c" by linarith
    then have "take 512 (drop (i * 512) c) = padded c i" "length (take 512 (drop (i * 512) c)) = 512"
      by (auto simp: padded_def mult.commute)
    with False assms(1) show ?thesis
      using wrs_prefix [of "padded c i" b] by (simp add: load_block_def honest_file_def Let_def)
  qed
qed

end
