(* ===== verification/ProgrammerWire.thy ===== *)
theory ProgrammerWire
  imports Programmer
begin

text \<open>
  What a run of \<open>programBinFileV1\<close> (\<open>Programmer\<close>) sends over the wire: the trace of a successful run for
  every target, and the success of the run for a target that answers every line as the protocol says.
\<close>

section \<open>What a successful command has sent\<close>

definition copy_cmd :: "u32 \<Rightarrow> u32 \<Rightarrow> u16 \<Rightarrow> u8 list" where
  "copy_cmd dst src n = isp_cmd_list ISP_CMD_COPY_RAM_TO_FLASH # 32 # fmt_d dst @ 32 # fmt_d src @ 32 # dec_nat (unat n) @ CRLF"

lemma sprintf_to_id: "sprintf_to n s = Some t \<Longrightarrow> t = s"
  by (simp add: sprintf_to_def split: if_splits)

lemma ISP_unlock_tx: "ISP_unlock react st = Some (r, st') \<Longrightarrow> tx st' = tx st @ UNLOCK_CMD_STR @ CRLF"
  by (auto simp: ISP_unlock_def isp_puts_append dest!: await_tx)

lemma ISP_prepareSectors_success:
  "ISP_prepareSectors react s e st = Some (RET_CODE_SUCCESS, st') \<Longrightarrow>
     tx st' = tx st @ sector_cmd ISP_CMD_PREPARE_SECTORS s e"
  by (auto simp: ISP_prepareSectors_def split: bind_splits if_splits dest!: sprintf_to_id await_tx)

lemma ISP_eraseSectors_success:
  "ISP_eraseSectors react s e st = Some (RET_CODE_SUCCESS, st') \<Longrightarrow>
     tx st' = tx st @ sector_cmd ISP_CMD_ERASE_SECTORS s e"
  by (auto simp: ISP_eraseSectors_def split: bind_splits if_splits dest!: sprintf_to_id await_tx)

lemma ISP_erase_success:
  "ISP_erase react s e st = Some (RET_CODE_SUCCESS, st') \<Longrightarrow>
     tx st' = tx st @ sector_cmd ISP_CMD_PREPARE_SECTORS s e @ sector_cmd ISP_CMD_ERASE_SECTORS s e"
  by (auto simp: ISP_erase_def split: bind_splits if_splits dest!: ISP_prepareSectors_success ISP_eraseSectors_success)

lemma ISP_copyToFlash_success:
  "ISP_copyToFlash react dst src n st = Some (RET_CODE_SUCCESS, st') \<Longrightarrow>
     tx st' = tx st @ sector_cmd ISP_CMD_PREPARE_SECTORS 0 15 @ copy_cmd dst src n"
  by (auto simp: ISP_copyToFlash_def copy_cmd_def split: bind_splits if_splits
      dest!: sprintf_to_id ISP_prepareSectors_success await_tx)

lemma ISP_WriteToRAM_success:
  assumes run: "ISP_WriteToRAM react addr n (Some data) block st = Some (RET_CODE_SUCCESS, st')"
    and extra: "unat n mod 45 \<noteq> 0"
    and data: "45 * (unat n div 45) + 3 * uu_groups (unat n mod 45) \<le> length data"
    and block: "64 \<le> length block"
  shows "tx st' = tx st @ write_cmd addr n @ sent_block data n @ checksum_line (take (unat n) data)"
proof -
  let ?num = "unat n div 45 + (if unat n mod 45 = 0 then 0 else 1)"
  from run have n: "n \<le> 512" by (auto simp: ISP_WriteToRAM_def split: if_splits)
  have len: "unat n \<le> length data"
    using data uu_groups_bounds(2) [of "unat n mod 45"] mult_div_mod_eq [of 45 "unat n"] by linarith
  then have sum: "sum_u32 data (unat n) 0 = Some (of_nat (byte_sum (take (unat n) data)))"
    by (simp add: sum_u32_eq)
  have sends: "\<exists>b. send_lines react data ?num (unat n mod 45) (block, s) = Some (b, isp_puts react (sent_block data n) s)" for s
    unfolding sent_block_def
    using send_lines_text [of "unat n div 45 + 1" "unat n mod 45" data block react s] extra data block
    by (auto simp: less_imp_le)
  from n have l: "length (take (unat n) data) \<le> 512" by (simp add: word_le_nat_alt)
  have cmd: "sprintf_to 32 (isp_cmd_list ISP_CMD_WRITE_TO_RAM # 32 # fmt_d addr @ 32 # fmt_d n @ CRLF) = Some (write_cmd addr n)"
    using cmds_fit(1) [of addr n] by (simp add: write_cmd_def)
  from run obtain k st1 st2 where
    1: "recv 500 (isp_puts react (write_cmd addr n) (clear_recv st)) = Some (k, st1)"
    and 2: "malloc st1 = (True, st2)"
    and 3: "(do { (_, st) \<leftarrow> send_lines react data ?num (unat n mod 45) (block, st2);
            let st = free st;
            checksum \<leftarrow> sum_u32 data (unat n) 0;
            checksumStr \<leftarrow> sprintf_to 12 (fmt_d checksum @ CRLF);
            await 1000 OK_STR (isp_puts react checksumStr (clear_recv st)) }) = Some (RET_CODE_SUCCESS, st')"
    unfolding ISP_WriteToRAM_def Let_def cmd
    by (auto simp: cmd split: if_splits bind_splits prod.splits)
  obtain b where b: "send_lines react data ?num (unat n mod 45) (block, st2) = Some (b, isp_puts react (sent_block data n) st2)"
    using sends by blast
  have "await 1000 OK_STR (isp_puts react (checksum_line (take (unat n) data))
      (clear_recv (free (isp_puts react (sent_block data n) st2)))) = Some (RET_CODE_SUCCESS, st')"
    using 3 checksum_line_u32 [OF l] unfolding b sum Let_def by simp
  from await_tx [OF this] recv_frame [OF 1] 2 show ?thesis
    by (auto simp: free_def malloc_def split: list.splits bool.splits)
qed

lemma decode_lines_length: "decode_lines p num data = Some d \<Longrightarrow> length d = length data"
  unfolding decode_lines_eq
  by (drule for_up_partial [where P = "\<lambda>_ t. length t = length data"]) (auto split: bind_splits dest!: uu_dec_length)

lemma ISP_readMemory_success:
  assumes "ISP_readMemory react addr n (Some data) st = Some (RET_CODE_SUCCESS, d, st')"
  shows "tx st' = tx st @ read_cmd addr n @ OK_STR @ CRLF \<and> (\<exists>b. d = Some b \<and> length b = length data)"
proof -
  have cmd: "sprintf_to 36 (isp_cmd_list ISP_CMD_READ_MEMORY # 32 # fmt_d addr @ 32 # fmt_d n @ CRLF) = Some (read_cmd addr n)"
    using cmds_fit(2) [of addr n] by (simp add: read_cmd_def)
  from assms obtain k st1 p num b where
    1: "recv 500 (isp_puts react (read_cmd addr n) (clear_recv st)) = Some (k, st1)"
    and 2: "d = decode_lines p num data" "d = Some b"
    and 3: "st' = isp_puts react CRLF (isp_puts react OK_STR st1)"
    unfolding ISP_readMemory_def Let_def cmd
    by (auto simp: cmd split: if_splits bind_splits prod.splits option.splits)
  from 2 have "decode_lines p num data = Some b" by metis
  from recv_frame [OF 1] 2(2) 3 decode_lines_length [OF this] show ?thesis by simp
qed


section \<open>The wire of a whole run\<close>

definition block_wire :: "u8 list \<Rightarrow> u8 list \<Rightarrow> nat \<Rightarrow> u8 list" where
  "block_wire c slack i =
     write_cmd ISP_WRITE_RAM_ADDR 512 @ sent_block (image_block c i @ slack) 512 @ checksum_line (image_block c i) @
     sector_cmd ISP_CMD_PREPARE_SECTORS 0 15 @ copy_cmd (of_nat (i * 512)) ISP_WRITE_RAM_ADDR 512"

definition verify_wire :: "nat \<Rightarrow> u8 list" where
  "verify_wire i = read_cmd (of_nat (i * 512)) 512 @ OK_STR @ CRLF"

definition image_wire :: "u8 list \<Rightarrow> u8 list \<Rightarrow> u8 list" where
  "image_wire c slack =
     UNLOCK_CMD_STR @ CRLF @ sector_cmd ISP_CMD_PREPARE_SECTORS 0 15 @ sector_cmd ISP_CMD_ERASE_SECTORS 0 15 @
     UNLOCK_CMD_STR @ CRLF @ concat (map (block_wire c slack) [0..<block_num (int (length c))]) @
     concat (map verify_wire [0..<block_num (int (length c))])"

lemma write_block_success:
  assumes run: "write_block react (honest_file c) (block_num (int (length c))) (last_pack_size (int (length c))) enc i
      (x @ slack, cw, st) = Some (None, buf', cw', st')"
    and x: "length x = 512" and slack: "slack \<noteq> []" and enc: "64 \<le> length enc"
    and c: "0 < length c" and i: "i < block_num (int (length c))"
  shows "tx (port st') = tx (port st) @ block_wire c slack i \<and> (\<exists>y. buf' = y @ slack \<and> length y = 512) \<and>
    cw' = cw[i := int (byte_sum (image_block c i))]"
proof -
  let ?n = "block_num (int (length c))" and ?b = "image_block c i @ slack"
  have load: "load_block (honest_file c) ?n (last_pack_size (int (length c))) i (x @ slack) = Some (True, padded c i @ slack)"
    using load_block_value [of "x @ slack" c i] x c i by simp
  have patch: "(if i = 0 then patch_vector (padded c i @ slack) else Some (padded c i @ slack)) = Some ?b"
  proof (cases "i = 0")
    case True
    have "word_sum (padded c 0 @ slack) 7 = word_sum (padded c 0) 7"
      unfolding word_sum_def by (intro sum.cong vec_term_cong) (auto simp: nth_append)
    then have "patched (padded c 0 @ slack) = patched (padded c 0) @ slack"
      by (simp add: patched_def)
    with True show ?thesis by (simp add: patch_vector_value image_block_def)
  qed (simp add: image_block_def)
  define b where "b = ?b"
  define w where "w = int (byte_sum (image_block c i))"
  have sum: "sum_int b 512 0 = Some w"
    using sum_int_eq [of 512 ?b 0] by (simp add: b_def w_def)
  from run obtain p1 p2 where
    w: "ISP_WriteToRAM react ISP_WRITE_RAM_ADDR 512 (Some b) enc (port st) = Some (RET_CODE_SUCCESS, p1)" and
    k: "ISP_copyToFlash react (of_nat (i * 512)) ISP_WRITE_RAM_ADDR 512 p1 = Some (RET_CODE_SUCCESS, p2)" and
    e: "port st' = p2" "buf' = b" "wr cw i w = Some cw'"
    unfolding write_block_def prod.case load patch [folded b_def] Let_def
    by (auto simp: patch [folded b_def] sum simp del: of_nat_mult split: if_splits bind_splits)
  note w = w [unfolded b_def] and e = e [unfolded b_def w_def]
  have "1 \<le> length slack" using slack by (cases slack) auto
  then have "tx p1 = tx (port st) @ write_cmd ISP_WRITE_RAM_ADDR 512 @ sent_block ?b 512 @ checksum_line (image_block c i)"
    using ISP_WriteToRAM_success [OF w _ _ enc] by (simp add: uu_groups_def)
  with ISP_copyToFlash_success [OF k] e show ?thesis
    by (auto simp: block_wire_def wr_Some_iff)
qed

lemma write_loop_success:
  assumes run: "for_exit 0 (block_num (int (length c)))
      (write_block react (honest_file c) (block_num (int (length c))) (last_pack_size (int (length c))) enc)
      (x @ slack, cw, st) = Some (None, buf', cw', st')"
    and x: "length x = 512" and slack: "slack \<noteq> []" and enc: "64 \<le> length enc" and c: "0 < length c"
  shows "tx (port st') = tx (port st) @ concat (map (block_wire c slack) [0..<block_num (int (length c))]) \<and>
    (\<exists>y. buf' = y @ slack \<and> length y = 512)"
proof -
  let ?P = "\<lambda>k (b, _, s). tx (port s) = tx (port st) @ concat (map (block_wire c slack) [0..<k]) \<and>
      (\<exists>y. b = y @ slack \<and> length y = 512)"
  have "case (None :: int option) of None \<Rightarrow> ?P (0 + block_num (int (length c))) (buf', cw', st') | Some e \<Rightarrow> True"
    by (rule for_exit_partial [OF run, where P = ?P and Q = "\<lambda>_ _. True"])
      (use x in \<open>auto dest!: write_block_success [OF _ _ slack enc c]\<close>)
  then show ?thesis by simp
qed

lemma verify_block_success:
  assumes "verify_block react cw i (buf, cr, st) = Some (None, buf', cr', st')"
  shows "tx (port st') = tx (port st) @ verify_wire i"
  using assms
  by (auto simp: verify_block_def verify_wire_def Let_def simp del: of_nat_mult split: bind_splits if_splits
      dest!: ISP_readMemory_success)

lemma verify_loop_success:
  assumes run: "for_exit 0 n (verify_block react cw) (buf, cr, st) = Some (None, buf', cr', st')"
  shows "tx (port st') = tx (port st) @ concat (map verify_wire [0..<n])"
proof -
  let ?P = "\<lambda>k (_, _, s). tx (port s) = tx (port st) @ concat (map verify_wire [0..<k])"
  have "case (None :: int option) of None \<Rightarrow> ?P (0 + n) (buf', cr', st') | Some e \<Rightarrow> True"
    by (rule for_exit_partial [OF run, where P = ?P and Q = "\<lambda>_ _. True"])
      (auto dest!: verify_block_success)
  then show ?thesis by simp
qed

lemma alloc_all_tx: "alloc_all p = (ok, p') \<Longrightarrow> tx p' = tx p"
  by (auto simp: alloc_all_def free_def malloc_def split: list.splits bool.splits)

lemma success_wire:
  assumes "programBinFileV1 react disk (x @ slack) enc (Some path) st = Some (0, st')"
    and "disk path = Some (honest_file c)" and "length x = 512" "slack \<noteq> []" "64 \<le> length enc"
  shows "2048 \<le> length c \<and> length c \<le> 65536 \<and> tx (port st') = tx (port st) @ image_wire c slack"
proof -
  let ?n = "block_num (int (length c))"
  let ?sz = "int (length c)"
  have sz: "\<not> (?sz < MIN_BIN_SIZE \<or> ?sz > uint FLASH_SIZE)"
    using assms(1,2) by (auto simp: programBinFileV1_def Let_def honest_file_def split: if_splits)
  then have len: "2048 \<le> length c" "length c \<le> 65536" by (auto simp: MIN_BIN_SIZE_def FLASH_SIZE_def)
  have f: "fsize (honest_file c) = ?sz" by (simp add: honest_file_def)
  from assms(1,2) sz obtain u1 p1 p2 p3 u4 p4 buf cw s5 buf' cr s6 where
    u: "ISP_unlock react (port st) = Some (u1, p1)" and e: "ISP_erase react 0 15 p1 = Some (RET_CODE_SUCCESS, p2)" and
    a: "alloc_all p2 = (True, p3)" and u4: "ISP_unlock react p3 = Some (u4, p4)" and
    w: "for_exit 0 ?n (write_block react (honest_file c) ?n (last_pack_size ?sz) enc) (x @ slack, replicate ?n 0,
        st\<lparr>files := Suc (files st), port := p4, bar := bar st @ replicate 60 61 @ CRLF\<rparr>) = Some (None, buf, cw, s5)" and
    v: "for_exit 0 ?n (verify_block react cw) (buf, replicate ?n 0, s5) = Some (None, buf', cr, s6)" and
    s': "st' = fclose s6"
    by (auto simp: programBinFileV1_def Let_def f fclose_def free_all_def split: bind_splits if_splits prod.splits option.splits
        dest: write_loop_kept verify_loop_kept)
  have "0 < length c" using len by linarith
  from write_loop_success [OF w assms(3-5) this] verify_loop_success [OF v]
    ISP_unlock_tx [OF u] ISP_erase_success [OF e] alloc_all_tx [OF a] ISP_unlock_tx [OF u4] s' len
  show ?thesis by (simp add: image_wire_def fclose_def)
qed

section \<open>A target that answers every line\<close>

definition one_line :: "u8 list \<Rightarrow> bool" where
  "one_line cmd \<longleftrightarrow> (\<exists>s. cmd = s @ [10] \<and> 10 \<notin> set s)"

definition at :: "u8 list list \<Rightarrow> u8 list list isp \<Rightarrow> bool" where
  "at rs st \<longleftrightarrow> tgt st = rs \<and> rx st = [] \<and> mallocs st = []"

definition OKR :: "u8 list" where "OKR = bytes ''0'' @ CRLF"

definition OKK :: "u8 list" where "OKK = bytes ''OK'' @ CRLF"

lemma fmt_d_no_LF: "10 \<notin> set (fmt_d w)" "10 \<notin> set (dec_nat n)"
  by (auto simp: fmt_d_def dec_int_def dest!: dec_nat_digits)

lemma one_line_CRLF: "10 \<notin> set s \<Longrightarrow> one_line (s @ CRLF)"
  unfolding one_line_def CRLF_def by (intro exI [of _ "s @ [13]"]) simp

lemma one_lines:
  "one_line (UNLOCK_CMD_STR @ CRLF)" "one_line (sector_cmd c s e)" "one_line (copy_cmd d r n)"
  "one_line (write_cmd a m)" "one_line (read_cmd a m)" "one_line (checksum_line p)" "one_line (OK_STR @ CRLF)"
proof -
  show "one_line (UNLOCK_CMD_STR @ CRLF)" "one_line (OK_STR @ CRLF)" "one_line (checksum_line p)"
    unfolding checksum_line_def
    by (rule one_line_CRLF, simp add: UNLOCK_CMD_STR_def OK_STR_def fmt_d_no_LF)+
  have c: "isp_cmd_list c \<noteq> 10" for c by (cases c) auto
  show "one_line (sector_cmd c s e)"
    using one_line_CRLF [of "isp_cmd_list c # 32 # dec_nat (unat s) @ 32 # dec_nat (unat e)"] c
    by (simp add: sector_cmd_def fmt_d_no_LF)
  show "one_line (copy_cmd d r n)"
    using one_line_CRLF [of "isp_cmd_list ISP_CMD_COPY_RAM_TO_FLASH # 32 # fmt_d d @ 32 # fmt_d r @ 32 # dec_nat (unat n)"]
    by (simp add: copy_cmd_def fmt_d_no_LF)
  show "one_line (write_cmd a m)"
    using one_line_CRLF [of "isp_cmd_list ISP_CMD_WRITE_TO_RAM # 32 # fmt_d a @ 32 # fmt_d m"]
    by (simp add: write_cmd_def fmt_d_no_LF)
  show "one_line (read_cmd a m)"
    using one_line_CRLF [of "isp_cmd_list ISP_CMD_READ_MEMORY # 32 # fmt_d a @ 32 # fmt_d m"]
    by (simp add: read_cmd_def fmt_d_no_LF)
qed

lemma script_reply:
  assumes "at (r # rs) st" "one_line cmd" "0 < t"
  shows "reply scripted t cmd st = r" "at rs (after_reply scripted t cmd st)"
  using assms scripted_reply [of cmd _ st r rs t] unfolding one_line_def at_def by auto

lemma script_silent:
  assumes "at ([] # rs) st" "one_line cmd"
  shows "at rs (isp_puts scripted cmd st)"
  using assms scripted_line [of _ st "[]" rs] by (auto simp: one_line_def at_def)

lemma at_clear [simp]: "at rs (clear_recv st) = at rs st"
  by (simp add: at_def)

lemma script_await:
  assumes "at (r # rs) st" "one_line cmd" "0 < t" "length r < 1024"
  shows "\<exists>st'. await t e (isp_puts scripted cmd (clear_recv st)) = Some (verdict e r, st') \<and> at rs st'"
  using command_value [of scripted t cmd st e] script_reply [OF assms(1-3)] assms(4) by auto

lemma verdict_OK: "verdict CMD_SUCCESS_RESP_STR OKR = RET_CODE_SUCCESS" "verdict OK_STR OKK = RET_CODE_SUCCESS"
  "length OKR < 1024" "length OKK < 1024"
  using ok_texts by (simp_all add: verdict_def OKR_def OKK_def CRLF_def)

lemma script_unlock:
  assumes "at (OKR # rs) st"
  shows "\<exists>st'. ISP_unlock scripted st = Some (RET_CODE_SUCCESS, st') \<and> at rs st'"
  using script_await [OF assms one_lines(1), of 500 CMD_SUCCESS_RESP_STR]
  by (simp add: ISP_unlock_def isp_puts_append verdict_OK)

lemma script_prepare:
  assumes "at (OKR # rs) st" "s \<le> e" "unat e \<le> 15"
  shows "\<exists>st'. ISP_prepareSectors scripted s e st = Some (RET_CODE_SUCCESS, st') \<and> at rs st'"
  using script_await [OF assms(1) one_lines(2), of 500 CMD_SUCCESS_RESP_STR] assms(2,3)
  by (simp add: ISP_prepareSectors_value verdict_OK)

lemma script_erase:
  assumes "at (OKR # OKR # rs) st" "s \<le> e" "unat e \<le> 15"
  shows "\<exists>st'. ISP_erase scripted s e st = Some (RET_CODE_SUCCESS, st') \<and> at rs st'"
proof -
  obtain st1 where 1: "ISP_prepareSectors scripted s e st = Some (RET_CODE_SUCCESS, st1)" "at (OKR # rs) st1"
    using script_prepare [OF assms] by blast
  then show ?thesis
    using script_await [OF 1(2) one_lines(2), of 120000 CMD_SUCCESS_RESP_STR] assms(2,3)
    by (simp add: ISP_erase_def ISP_eraseSectors_value verdict_OK)
qed

lemma script_copy:
  assumes "at (OKR # OKR # rs) st" "CHECK_FLASH_ADDR dst" "dst mod 256 = 0"
  shows "\<exists>st'. ISP_copyToFlash scripted dst ISP_WRITE_RAM_ADDR 512 st = Some (RET_CODE_SUCCESS, st') \<and> at rs st'"
proof -
  obtain st1 where 1: "ISP_prepareSectors scripted 0 15 st = Some (RET_CODE_SUCCESS, st1)" "at (OKR # rs) st1"
    using script_prepare [OF assms(1), of 0 15] by auto
  have "length (fmt_d dst) \<le> 11" "length (fmt_d ISP_WRITE_RAM_ADDR) \<le> 11" by (rule length_fmt_d)+
  moreover have "length (dec_nat (unat (512 :: u16))) = 3" by (simp add: dec_nat.simps)
  ultimately have "sprintf_to 36 (copy_cmd dst ISP_WRITE_RAM_ADDR 512) = Some (copy_cmd dst ISP_WRITE_RAM_ADDR 512)"
    by (simp add: sprintf_to_def copy_cmd_def CRLF_def)
  then show ?thesis
    using script_await [OF 1(2) one_lines(3) [of dst ISP_WRITE_RAM_ADDR 512], of 10000 CMD_SUCCESS_RESP_STR] 1(1) assms(2,3)
    by (simp add: ISP_copyToFlash_def copy_cmd_def verdict_OK memory_map ISP_WRITE_RAM_ADDR_def)
qed

lemma uu_line_one_line: "0 < len \<Longrightarrow> len \<le> 45 \<Longrightarrow> one_line (uu_line inp len)"
  using uu_line_split [of len inp] one_line_CRLF by fastforce

lemma script_lines:
  "at (replicate (length ls) [] @ rs) st \<Longrightarrow> (\<forall>l\<in>set ls. one_line l) \<Longrightarrow> at rs (isp_puts scripted (concat ls) st)"
proof (induction ls arbitrary: st)
  case Nil
  then show ?case by (simp add: isp_puts_eq)
next
  case (Cons l ls)
  then have "at (replicate (length ls) [] @ rs) (isp_puts scripted l st)"
    by (intro script_silent) auto
  from Cons.IH [OF this] Cons.prems(2) show ?case by (simp add: isp_puts_append)
qed

lemma script_text:
  assumes "at (replicate num [] @ rs) st" "0 < num" "0 < extra" "extra \<le> 45"
  shows "at rs (isp_puts scripted (uu_text data num extra) st)"
proof -
  let ?ls = "map (\<lambda>i. uu_line (drop (45 * i) data) 45) [0..<num - 1] @ [uu_line (drop (45 * (num - 1)) data) (of_nat extra)]"
  have "uu_text data num extra = concat ?ls" by (simp add: uu_text_def)
  moreover have "length ?ls = num" using assms(2) by simp
  moreover have "\<forall>l\<in>set ?ls. one_line l"
    using of_nat_extra [OF assms(3,4)] by (auto intro!: uu_line_one_line)
  ultimately show ?thesis using script_lines [of ?ls rs st] assms(1) by simp
qed


lemma length_uu_text: "0 < num \<Longrightarrow> 0 < extra \<Longrightarrow> extra \<le> 45 \<Longrightarrow>
    length (uu_text mem num extra) = 63 * (num - 1) + 4 * uu_groups extra + 3"
  using of_nat_extra [of extra]
  by (simp add: uu_text_def uu.full_lines_length)

lemma length_checksum_line: "length p \<le> 512 \<Longrightarrow> length (checksum_line p) \<le> 8"
proof -
  assume "length p \<le> 512"
  then have "byte_sum p < 10 ^ 6" using byte_sum_le [of p] by simp
  then have "length (dec_nat (byte_sum p)) \<le> 6" by (intro length_dec_nat_le) auto
  then show ?thesis by (simp add: checksum_line_def CRLF_def)
qed

lemma block_512: "line_count 512 = 12" "last_size 512 = 17" "uu_groups 17 = 6"
  by (simp_all add: line_count_def last_size_def uu_groups_def)

lemma memory_answer_512: "length (memory_answer mem 512) < 1024"
proof -
  have "length (checksum_line (take 512 mem)) \<le> 8" by (rule length_checksum_line) simp
  then show ?thesis
    by (simp add: memory_answer_def block_512 length_uu_text CMD_SUCCESS_RESP_STR_def CRLF_def)
qed

text \<open>The answers to one block written, and to one block read.\<close>

definition write_script :: "u8 list list" where
  "write_script = OKR # replicate 12 [] @ [OKK, OKR, OKR]"

definition read_script :: "u8 list \<Rightarrow> u8 list list" where
  "read_script mem = [memory_answer mem 512, []]"

lemma valid_write_512: "valid_write ISP_WRITE_RAM_ADDR 512"
  by (simp add: valid_write_def ISP_WRITE_RAM_ADDR_def memory_map)

lemma script_write:
  assumes "at (OKR # replicate 12 [] @ OKK # rs) st" "513 \<le> length data" "64 \<le> length enc"
  shows "\<exists>st'. ISP_WriteToRAM scripted ISP_WRITE_RAM_ADDR 512 (Some data) enc st = Some (RET_CODE_SUCCESS, st') \<and> at rs st'"
proof -
  let ?cmd = "write_cmd ISP_WRITE_RAM_ADDR 512"
  let ?s1 = "isp_puts scripted (sent_block data 512) (after_reply scripted 500 ?cmd st)"
  note r = script_reply [OF assms(1) one_lines(4) [of ISP_WRITE_RAM_ADDR 512], of 500]
  have "at (OKK # rs) ?s1"
    using script_text [of 12 "OKK # rs" _ 17 data] r(2) by (simp add: sent_block_def)
  from script_await [OF this one_lines(6), of 1000 OK_STR "take 512 data"]
  show ?thesis
    using ISP_WriteToRAM_accepted [OF valid_write_512, of data enc st scripted] assms r(1) ok_texts(1) [folded OKR_def]
    by (auto simp: uu_groups_def verdict_OK at_def)
qed


lemma script_read:
  assumes "at (memory_answer mem 512 # [] # rs) st" "CHECK_FLASH_ADDR addr"
    and "513 \<le> length mem" "513 \<le> length data"
  shows "\<exists>d st'. ISP_readMemory scripted addr 512 (Some data) st = Some (RET_CODE_SUCCESS, Some d, st') \<and>
    at rs st' \<and> length d = length data \<and> take 512 d = take 512 mem"
proof -
  let ?s1 = "after_reply scripted 500 (read_cmd addr 512) st"
  note r = script_reply [OF assms(1) one_lines(5) [of addr 512], of 500]
  have v: "valid_read addr 512" using assms(2) by (simp add: valid_read_def memory_map)
  obtain d where d: "decode_lines (uu_text mem 12 17 @ checksum_line (take 512 mem) @
        replicate (1024 - length (memory_answer mem 512)) 0) 12 data = Some d"
    "length d = length data" "take 512 d = take 512 mem"
    using decode_lines_text [of 12 17 mem data] assms(3,4) by (auto simp: block_512)
  have "sum_int d 512 0 = Some (int (byte_sum (take 512 mem)))"
    using sum_int_eq [of 512 d 0] d assms(4) by simp
  moreover have "at rs (isp_puts scripted (OK_STR @ CRLF) ?s1)"
    using script_silent [OF r(2) one_lines(7)] by simp
  ultimately show ?thesis
    using ISP_readMemory_answer [OF v, of scripted st mem data] r(1) d memory_answer_512
    by (simp add: block_512)
qed


definition program_script :: "u8 list \<Rightarrow> u8 list \<Rightarrow> u8 list list" where
  "program_script c slack =
     [OKR, OKR, OKR, OKR] @ concat (map (\<lambda>_. write_script) [0..<block_num (int (length c))]) @
     concat (map (\<lambda>i. read_script (image_block c i @ slack)) [0..<block_num (int (length c))])"

lemma flash_block:
  assumes "i < 128"
  shows "CHECK_FLASH_ADDR (of_nat (i * 512)) \<and> (of_nat (i * 512) :: u32) mod 256 = 0"
proof -
  have u: "unat (of_nat (i * 512) :: u32) = i * 512" using assms by (intro unat_of_nat_len) simp
  have "(i * 512) mod 256 = 0" by simp
  then have "unat ((of_nat (i * 512) :: u32) mod 256) = 0" by (simp only: unat_mod u) simp
  then have "(of_nat (i * 512) :: u32) mod 256 = 0" by (simp only: unat_eq_0)
  moreover have "(of_nat (i * 512) :: u32) \<le> 0xFFFF"
    unfolding word_le_nat_alt u using assms by simp
  ultimately show ?thesis by (simp add: memory_map)
qed

lemma script_write_block:
  assumes at: "at (write_script @ rs) (port st)" and x: "length x = 512" and slack: "slack \<noteq> []"
    and enc: "64 \<le> length enc" and c: "0 < length c" and i: "i < block_num (int (length c))" and n: "i < 128"
    and cw: "i < length cw"
  shows "\<exists>buf' cw' st'. write_block scripted (honest_file c) (block_num (int (length c))) (last_pack_size (int (length c))) enc i
      (x @ slack, cw, st) = Some (None, buf', cw', st') \<and> at rs (port st') \<and> files st' = files st"
proof -
  let ?n = "block_num (int (length c))"
  obtain b where load: "load_block (honest_file c) ?n (last_pack_size (int (length c))) i (x @ slack) = Some (True, b)"
    and b: "513 \<le> length b"
    using load_block_value [of "x @ slack" c i] x slack c i by (cases slack) auto
  obtain b' where patch: "(if i = 0 then patch_vector b else Some b) = Some b'" and b': "513 \<le> length b'"
    using b by (cases "i = 0") (auto simp: patch_vector_value)
  have at': "at (OKR # replicate 12 [] @ OKK # OKR # OKR # rs) (port st)"
    using at by (simp add: write_script_def)
  obtain p1 where w: "ISP_WriteToRAM scripted ISP_WRITE_RAM_ADDR 512 (Some b') enc (port st) = Some (RET_CODE_SUCCESS, p1)"
    and p1: "at (OKR # OKR # rs) p1"
    using script_write [OF at' b' enc] by blast
  obtain p2 where k: "ISP_copyToFlash scripted (of_nat (i * 512)) ISP_WRITE_RAM_ADDR 512 p1 = Some (RET_CODE_SUCCESS, p2)"
    and p2: "at rs p2"
    using script_copy [OF p1 conjunct1 [OF flash_block [OF n]] conjunct2 [OF flash_block [OF n]]] by blast
  have "sum_int b' 512 0 = Some (int (byte_sum (take 512 b')))" using sum_int_eq [of 512 b' 0] b' by simp
  moreover have "wr cw i v = Some (cw[i := v])" for v using cw by (simp add: wr_in)
  ultimately show ?thesis
    using w k p2 patch unfolding write_block_def prod.case load Let_def
    by (simp del: of_nat_mult)
qed

lemma script_write_loop:
  fixes c defines "n \<equiv> block_num (int (length c))"
  assumes at: "at (concat (map (\<lambda>_. write_script) [0..<n]) @ rs) (port st)" and x: "length x = 512" and slack: "slack \<noteq> []"
    and enc: "64 \<le> length enc" and c: "0 < length c" and n: "n \<le> 128"
  shows "\<exists>buf' cw' st'. for_exit 0 n (write_block scripted (honest_file c) n (last_pack_size (int (length c))) enc)
      (x @ slack, replicate n 0, st) = Some (None, buf', cw', st') \<and> at rs (port st') \<and> files st' = files st \<and>
    (\<exists>y. buf' = y @ slack \<and> length y = 512) \<and> cw' = map (\<lambda>i. int (byte_sum (image_block c i))) [0..<n]"
proof -
  let ?w = "\<lambda>i. int (byte_sum (image_block c i))"
  let ?P = "\<lambda>k (b, cw, s). at (concat (map (\<lambda>_. write_script) [k..<n]) @ rs) (port s) \<and> files s = files st \<and>
      (\<exists>y. b = y @ slack \<and> length y = 512) \<and> cw = map ?w [0..<k] @ replicate (n - k) 0"
  have "\<exists>t. for_exit 0 n (write_block scripted (honest_file c) n (last_pack_size (int (length c))) enc)
      (x @ slack, replicate n 0, st) = Some (None, t) \<and> ?P (0 + n) t"
  proof (rule for_exit_total)
    show "?P 0 (x @ slack, replicate n 0, st)" using at x by simp
  next
    fix k and t :: "u8 list \<times> int list \<times> u8 list list prog"
    assume "k < 0 + n" and P: "?P k t"
    then have k: "k < n" by simp
    obtain b cw s where t: "t = (b, cw, s)" by (cases t)
    with P obtain y where y: "b = y @ slack" "length y = 512" by auto
    have "[k..<n] = k # [Suc k..<n]" using k by (rule upt_conv_Cons)
    with P t have a: "at (write_script @ concat (map (\<lambda>_. write_script) [Suc k..<n]) @ rs) (port s)" by simp
    have kn: "k < block_num (int (length c))" using k by (simp add: n_def)
    obtain buf' cw' st' where run: "write_block scripted (honest_file c) n (last_pack_size (int (length c))) enc k (b, cw, s) =
        Some (None, buf', cw', st')" "at (concat (map (\<lambda>_. write_script) [Suc k..<n]) @ rs) (port st')" "files st' = files s"
      using script_write_block [OF a y(2) slack enc c kn, of cw] P t k n y unfolding n_def by auto
    have "n - k = Suc (n - Suc k)" using k by simp
    then have "cw[k := ?w k] = map ?w [0..<Suc k] @ replicate (n - Suc k) 0"
      using P t by (simp add: list_update_append)
    with write_block_success [OF run(1) [unfolded y n_def] y(2) slack enc c kn] run P t
    show "\<exists>t'. write_block scripted (honest_file c) n (last_pack_size (int (length c))) enc k t = Some (None, t') \<and> ?P (Suc k) t'"
      by auto
  qed
  then show ?thesis by auto
qed

lemma script_verify_loop:
  fixes c defines "n \<equiv> block_num (int (length c))"
  assumes at: "at (concat (map (\<lambda>i. read_script (image_block c i @ slack)) [0..<n])) (port st)" and slack: "slack \<noteq> []"
    and n: "n \<le> 128" and buf: "513 \<le> length buf"
  shows "\<exists>buf' cr' st'. for_exit 0 n (verify_block scripted (map (\<lambda>i. int (byte_sum (image_block c i))) [0..<n]))
      (buf, replicate n 0, st) = Some (None, buf', cr', st') \<and> at [] (port st') \<and> files st' = files st"
proof -
  let ?w = "\<lambda>i. int (byte_sum (image_block c i))"
  let ?f = "verify_block scripted (map ?w [0..<n])"
  let ?P = "\<lambda>k (b, cr, s). at (concat (map (\<lambda>i. read_script (image_block c i @ slack)) [k..<n])) (port s) \<and> files s = files st \<and>
      513 \<le> length b \<and> length cr = n"
  have "\<exists>t. for_exit 0 n ?f (buf, replicate n 0, st) = Some (None, t) \<and> ?P (0 + n) t"
  proof (rule for_exit_total)
    show "?P 0 (buf, replicate n 0, st)" using at buf by simp
  next
    fix k and t :: "u8 list \<times> int list \<times> u8 list list prog"
    assume "k < 0 + n" and P: "?P k t"
    then have k: "k < n" by simp
    obtain b cr s where t: "t = (b, cr, s)" by (cases t)
    let ?m = "image_block c k @ slack" let ?rs = "concat (map (\<lambda>i. read_script (image_block c i @ slack)) [Suc k..<n])"
    have "[k..<n] = k # [Suc k..<n]" using k by (rule upt_conv_Cons)
    with P t have a: "at (memory_answer ?m 512 # [] # ?rs) (port s)" by (simp add: read_script_def)
    have "CHECK_FLASH_ADDR (of_nat (k * 512))" using flash_block [of k] k n by simp
    moreover have "513 \<le> length ?m" using slack by (cases slack) auto
    ultimately obtain d p where r: "ISP_readMemory scripted (of_nat (k * 512)) 512 (Some b) (port s) = Some (RET_CODE_SUCCESS, Some d, p)"
      and p: "at ?rs p" "length d = length b" "take 512 d = take 512 ?m"
      using script_read [OF a, of "of_nat (k * 512)" b] P t by auto
    have "sum_int d 512 0 = Some (?w k)"
      using sum_int_eq [of 512 d 0] p P t by simp
    then show "\<exists>t'. ?f k t = Some (None, t') \<and> ?P (Suc k) t'"
      using r p P t k by (auto simp: verify_block_def wr_in rd_def nth_append simp del: of_nat_mult)
  qed
  then show ?thesis by auto
qed

lemma block_num_le: "0 < length c \<Longrightarrow> length c \<le> 65536 \<Longrightarrow> block_num (int (length c)) \<le> 128"
  using block_num_bounds [of c] by linarith

lemma program_runs:
  assumes "disk path = Some (honest_file c)" "2048 \<le> length c" "length c \<le> 65536"
    and x: "length x = 512" and slack: "slack \<noteq> []" and enc: "64 \<le> length enc"
    and at: "at (program_script c slack) (port st)"
  shows "\<exists>st'. programBinFileV1 scripted disk (x @ slack) enc (Some path) st = Some (0, st') \<and> at [] (port st') \<and> files st' = files st"
proof -
  let ?sz = "int (length c)" let ?n = "block_num ?sz"
  let ?ws = "concat (map (\<lambda>_. write_script) [0..<?n])"
  let ?rs = "concat (map (\<lambda>i. read_script (image_block c i @ slack)) [0..<?n])"
  have c: "0 < length c" using assms(2) by linarith
  have n: "?n \<le> 128" using block_num_le [OF c assms(3)] .
  have sz: "\<not> (?sz < MIN_BIN_SIZE \<or> ?sz > uint FLASH_SIZE)"
    using assms(2,3) by (simp add: MIN_BIN_SIZE_def FLASH_SIZE_def)
  have f: "fsize (honest_file c) = ?sz" by (simp add: honest_file_def)
  have a0: "at (OKR # OKR # OKR # OKR # ?ws @ ?rs) (port st)" using at by (simp add: program_script_def)
  obtain p1 where p1: "ISP_unlock scripted (port st) = Some (RET_CODE_SUCCESS, p1)" "at (OKR # OKR # OKR # ?ws @ ?rs) p1"
    using script_unlock [OF a0] by blast
  obtain p2 where p2: "ISP_erase scripted 0 15 p1 = Some (RET_CODE_SUCCESS, p2)" "at (OKR # ?ws @ ?rs) p2"
    using script_erase [OF p1(2), of 0 15] by auto
  obtain p3 where p3: "alloc_all p2 = (True, p3)" "at (OKR # ?ws @ ?rs) p3"
    using p2(2) by (auto simp: alloc_all_def malloc_def at_def)
  obtain p4 where p4: "ISP_unlock scripted p3 = Some (RET_CODE_SUCCESS, p4)" "at (?ws @ ?rs) p4"
    using script_unlock [OF p3(2)] by blast
  let ?s5 = "st\<lparr>files := Suc (files st), port := p4, bar := bar st @ replicate 60 61 @ CRLF\<rparr>"
  have "at (?ws @ ?rs) (port ?s5)" using p4(2) by simp
  from script_write_loop [OF this x slack enc c n] obtain b' cw' s6 where
    w: "for_exit 0 ?n (write_block scripted (honest_file c) ?n (last_pack_size ?sz) enc) (x @ slack, replicate ?n 0, ?s5) =
      Some (None, b', cw', s6)" "at ?rs (port s6)" "files s6 = Suc (files st)" "513 \<le> length b'"
      "cw' = map (\<lambda>i. int (byte_sum (image_block c i))) [0..<?n]"
    using slack by (cases slack) auto
  from script_verify_loop [OF w(2) slack n w(4)] obtain b'' cr' s7 where
    v: "for_exit 0 ?n (verify_block scripted cw') (b', replicate ?n 0, s6) = Some (None, b'', cr', s7)"
      "at [] (port s7)" "files s7 = Suc (files st)"
    using w(3,5) by auto
  have "programBinFileV1 scripted disk (x @ slack) enc (Some path) st = Some (0, fclose s7)"
    using assms(1) sz p1 p2 p3 p4 w(1) v(1) by (simp add: programBinFileV1_def Let_def f)
  with v show ?thesis by (simp add: fclose_def)
qed


section \<open>Properties\<close>


definition idle_prog :: "'s \<Rightarrow> 's prog" where
  "idle_prog s = \<lparr>port = power_on s, files = 0, led = \<lparr>red = True, green = True, blue = True\<rparr>,
     buffer = replicate 513 0, bar = []\<rparr>"

lemma at_idle: "at rs (port (idle_prog rs))"
  by (simp add: at_def idle_prog_def)


text \<open>C2: A run that reports success has sent exactly that, whatever the target is: every block of the image
  was written and copied to its place, in order, and read back.  The last encoded group of each block holds
  a byte of the heap behind the buffer, \<open>slack\<close>.\<close>

theorem programBinFile_wire:
  assumes "programBinFileV1 react disk (x @ slack) enc (Some path) st = Some (0, st')"
    and "disk path = Some (honest_file c)" and "length x = 512" "slack \<noteq> []" "64 \<le> length enc"
  shows "2048 \<le> length c \<and> length c \<le> 65536 \<and> tx (port st') = tx (port st) @ image_wire c slack"
  using success_wire [OF assms] .

lemma programBinFile_wire_witness:
  "\<exists>st'. programBinFileV1 scripted (\<lambda>_. Some (honest_file (replicate 2048 1))) (replicate 512 0 @ [9]) (replicate 64 0)
      (Some []) (idle_prog (program_script (replicate 2048 1) [9])) = Some (0, st') \<and>
    tx (port st') = image_wire (replicate 2048 1) [9]"
proof -
  obtain st' where st': "programBinFileV1 scripted (\<lambda>_. Some (honest_file (replicate 2048 1))) (replicate 512 0 @ [9]) (replicate 64 0)
      (Some []) (idle_prog (program_script (replicate 2048 1) [9])) = Some (0, st')"
    using program_runs [of "\<lambda>_. Some (honest_file (replicate 2048 1))" "[]" "replicate 2048 1" "replicate 512 0"
      "[9]" "replicate 64 0" "idle_prog (program_script (replicate 2048 1) [9])", OF refl _ _ _ _ _ at_idle] by auto
  from programBinFile_wire [OF this] show ?thesis using st' by (simp add: idle_prog_def)
qed

end
