(* ===== verification/ProgrammerUid.thy ===== *)
theory ProgrammerUid imports ProgrammerWire begin

text \<open>The UID programmer of \<open>src/OnlineProgram.cpp\<close> (\<open>programUID\<close>): what it sends, when it refuses, and where its
  one-page buffer is overrun.\<close>

section \<open>The UID\<close>

definition uid_image :: "nat \<Rightarrow> u8 list \<Rightarrow> u8 list" where
  "uid_image offset ident = replicate offset 0xff @ ident @ replicate (512 - offset - length ident) 0xff"

lemma length_uid_image [simp]: "offset + length ident \<le> 512 \<Longrightarrow> length (uid_image offset ident) = 512"
  by (simp add: uid_image_def)

lemma copy_ident:
  assumes "off + n \<le> length b" "n \<le> length ident"
  shows "for_up 0 n (\<lambda>i b. do { c \<leftarrow> rd ident i; wr b (off + i) c }) b =
    Some (take off b @ take n ident @ drop (off + n) b)"
proof -
  let ?g = "\<lambda>k. take off b @ take k ident @ drop (off + k) b"
  have "for_up 0 n (\<lambda>i b. do { c \<leftarrow> rd ident i; wr b (off + i) c }) (?g 0) = Some (?g (0 + n))"
  proof (rule for_up_determ)
    fix k :: nat assume "k < 0 + n"
    with assms have "drop (off + k) b = b ! (off + k) # drop (off + Suc k) b"
      "take (Suc k) ident = take k ident @ [ident ! k]"
      by (simp_all add: Cons_nth_drop_Suc take_Suc_conv_app_nth)
    then show "(do { c \<leftarrow> rd ident k; wr (?g k) (off + k) c }) = Some (?g (Suc k))"
      using assms \<open>k < 0 + n\<close> by (simp add: rd_def wr_def list_update_append)
  qed
  then show ?thesis by simp
qed

lemma copy_ident_overrun:
  assumes "length b < off + n" "0 < n"
  shows "for_up 0 n (\<lambda>i b. do { c \<leftarrow> rd ident i; wr b (off + i) c }) b = None"
proof (rule ccontr)
  assume "for_up 0 n (\<lambda>i b. do { c \<leftarrow> rd ident i; wr b (off + i) c }) b \<noteq> None"
  then obtain t where t: "for_up 0 n (\<lambda>i b. do { c \<leftarrow> rd ident i; wr b (off + i) c }) b = Some t" by blast
  have "length t = length b \<and> (0 < 0 + n \<longrightarrow> off + (0 + n) \<le> length b)"
    by (rule for_up_partial [OF t, where P = "\<lambda>k t. length t = length b \<and> (0 < k \<longrightarrow> off + k \<le> length b)"])
      (auto split: bind_splits simp: wr_Some_iff)
  with assms show False by (cases n) auto
qed

text \<open>The sums over a word are the byte sums: 512 bytes do not wrap.\<close>

lemma sum_u32_512:
  assumes "512 \<le> length b"
  shows "sum_u32 b 512 0 = Some (of_nat (byte_sum (take 512 b)))"
    and "unat (of_nat (byte_sum (take 512 b)) :: u32) = byte_sum (take 512 b)"
  using assms byte_sum_le [of "take 512 b"] by (simp_all add: sum_u32_eq unat_of_nat_len del: of_nat_add)

lemma addr_facts:
  assumes "CHECK_FLASH_ADDR addr" "addr mod 16 = 0" "\<not> addr + ucast (sz :: u8) > FLASH_END_ADDRESS"
    "unat (addr mod 512) + unat sz \<le> 512"
  shows "(2 * (addr div 512) + (if addr mod 512 + ucast sz > 512 then 1 else 0)) * 256 = addr - addr mod 512"
    and "unat (addr - addr mod 512) = unat addr - unat addr mod 512"
proof -
  have a: "unat addr < 65536" using assms(1) by (simp add: memory_map word_le_nat_alt)
  have z: "unat sz < 256" using unsigned_less [where ?'a = nat, of sz] by simp
  have "(ucast sz :: u32) = of_nat (unat sz)" by (metis of_nat_unat)
  then have s: "unat (ucast sz :: u32) = unat sz" using z by (simp add: unat_of_nat_len del: of_nat_unat)
  have "unat (addr mod 512) < 512" by (simp add: unat_mod)
  moreover note z
  ultimately have "unat (addr mod 512 + ucast sz) = unat (addr mod 512) + unat sz"
    using s by (subst unat_add_lem [THEN iffD1]) simp_all
  with assms(4) have "\<not> addr mod 512 + ucast sz > 512" by (simp add: word_less_nat_alt)
  moreover have "addr - addr mod 512 = addr div 512 * 512"
    by (metis add_diff_cancel_right' div_mult_mod_eq)
  moreover have "2 * (addr div 512) * 256 = addr div 512 * 512"
    by (simp only: mult.commute [of 2] mult.assoc) simp
  ultimately show "(2 * (addr div 512) + (if addr mod 512 + ucast sz > 512 then 1 else 0)) * 256 = addr - addr mod 512"
    by (simp only: if_False add_0_right)
  show "unat (addr - addr mod 512) = unat addr - unat addr mod 512"
    by (simp add: unat_sub unat_mod word_le_nat_alt)
qed

lemma sum_u32_eq_iff:
  assumes "512 \<le> length a" "512 \<le> length b" "sum_u32 a 512 0 = Some v" "sum_u32 b 512 0 = Some v"
  shows "byte_sum (take 512 a) = byte_sum (take 512 b)"
  using assms sum_u32_512 [of a] sum_u32_512 [of b] by (metis option.inject)

definition uid_wire :: "u32 \<Rightarrow> u8 list \<Rightarrow> u8 list \<Rightarrow> u8 list" where
  "uid_wire addr ident slack =
     (let s = of_nat (unat addr div 4096); off = unat addr mod 512; page = addr - addr mod 512; img = uid_image off ident
      in UNLOCK_CMD_STR @ CRLF @ sector_cmd ISP_CMD_PREPARE_SECTORS s s @ sector_cmd ISP_CMD_ERASE_SECTORS s s @
         UNLOCK_CMD_STR @ CRLF @ write_cmd ISP_WRITE_RAM_ADDR 512 @ sent_block (img @ slack) 512 @ checksum_line img @
         sector_cmd ISP_CMD_PREPARE_SECTORS 0 15 @ copy_cmd page ISP_WRITE_RAM_ADDR 512 @
         read_cmd page 512 @ OK_STR @ CRLF)"

lemma page_block:
  assumes "CHECK_FLASH_ADDR addr"
  shows "CHECK_FLASH_ADDR (addr - addr mod 512) \<and> (addr - addr mod 512) mod 256 = 0"
proof -
  have a: "unat addr < 65536" using assms by (simp add: memory_map word_le_nat_alt)
  have u: "unat (addr - addr mod 512) = unat addr - unat addr mod 512"
    by (simp add: unat_sub unat_mod word_le_nat_alt)
  have "unat addr - unat addr mod 512 = 256 * (2 * (unat addr div 512))"
    by (simp add: minus_mod_eq_mult_div)
  then have "(unat addr - unat addr mod 512) mod 256 = 0" by simp
  then have "unat ((addr - addr mod 512) mod 256) = 0" by (simp only: unat_mod u) simp
  then have "(addr - addr mod 512) mod 256 = 0" by (simp only: unat_eq_0)
  with a u show ?thesis by (simp add: memory_map word_le_nat_alt)
qed

definition uid_script :: "u32 \<Rightarrow> u8 list \<Rightarrow> u8 list \<Rightarrow> u8 list list" where
  "uid_script addr ident slack =
     [OKR, OKR, OKR, OKR] @ write_script @ read_script (uid_image (unat addr mod 512) ident @ slack)"

lemma uid_runs:
  assumes chk: "CHECK_FLASH_ADDR addr" "addr mod 16 = 0" "\<not> addr + ucast sz > FLASH_END_ADDRESS" "sz \<noteq> 0"
    and page: "unat addr mod 512 + unat sz \<le> 512" and ident: "unat sz \<le> length ident"
    and buf: "length (buffer st) = 512 + length slack" "drop 512 (buffer st) = slack" "slack \<noteq> []" and enc: "64 \<le> length enc"
    and at: "at (uid_script addr (take (unat sz) ident) slack) (port st)"
  shows "\<exists>st'. programUID scripted enc addr (Some ident) sz st = Some (0, st') \<and> at [] (port st')"
proof -
  let ?off = "unat addr mod 512" let ?id = "take (unat sz) ident" let ?img = "uid_image ?off ?id"
  let ?sec = "of_nat (unat addr div 4096) :: u8" let ?pg = "addr - addr mod 512"
  define b where "b = ?img @ slack"
  have lid: "length ?id = unat sz" using ident by simp
  have off: "unat (addr mod 512) = ?off" by (simp add: unat_mod)
  have fill: "wrs (buffer st) 0 (replicate 512 0xff) = Some (replicate 512 0xff @ slack)"
    using wrs_prefix [of "replicate 512 0xff" "buffer st"] buf by simp
  have copy: "for_up 0 (unat sz) (\<lambda>i b. do { c \<leftarrow> rd ident i; wr b (?off + i) c }) (replicate 512 0xff @ slack) = Some b"
    using copy_ident [of ?off "unat sz" "replicate 512 0xff @ slack" ident] page ident
    by (simp add: b_def uid_image_def)
  have pa: "(2 * (addr div 512) + (if addr mod 512 + ucast sz > 512 then 1 else 0)) * 256 = ?pg"
    by (rule addr_facts(1) [OF chk(1-3)]) (use page off in simp)
  have sec: "of_nat (unat (addr div of_nat SECTOR_SIZE)) = ?sec" by (simp add: unat_div)
  have lb: "513 \<le> length b" using page lid buf(3) by (cases slack) (auto simp: b_def)
  have a: "unat addr < 65536" using chk(1) by (simp add: memory_map word_le_nat_alt)
  then have sec15: "unat ?sec \<le> 15" by (subst unat_of_nat_len) auto
  have a0: "at (OKR # OKR # OKR # OKR # OKR # replicate 12 [] @ OKK # OKR # OKR # read_script b) (port st)"
    using at by (simp add: uid_script_def write_script_def b_def)
  obtain p1 where 1: "ISP_unlock scripted (port st) = Some (RET_CODE_SUCCESS, p1)"
      "at (OKR # OKR # OKR # OKR # replicate 12 [] @ OKK # OKR # OKR # read_script b) p1"
    using script_unlock [OF a0] by blast
  obtain p2 where 2: "ISP_erase scripted ?sec ?sec p1 = Some (RET_CODE_SUCCESS, p2)"
      "at (OKR # OKR # replicate 12 [] @ OKK # OKR # OKR # read_script b) p2"
    using script_erase [OF 1(2) order_refl sec15] by blast
  obtain p3 where 3: "ISP_unlock scripted p2 = Some (RET_CODE_SUCCESS, p3)"
      "at (OKR # replicate 12 [] @ OKK # OKR # OKR # read_script b) p3"
    using script_unlock [OF 2(2)] by blast
  obtain p4 where 4: "ISP_WriteToRAM scripted ISP_WRITE_RAM_ADDR 512 (Some b) enc p3 = Some (RET_CODE_SUCCESS, p4)"
      "at (OKR # OKR # read_script b) p4"
    using script_write [OF 3(2) lb enc] by blast
  note pg = page_block [OF chk(1)]
  obtain p5 where 5: "ISP_copyToFlash scripted ?pg ISP_WRITE_RAM_ADDR 512 p4 = Some (RET_CODE_SUCCESS, p5)" "at (read_script b) p5"
    using script_copy [OF 4(2) conjunct1 [OF pg] conjunct2 [OF pg]] by blast
  have a5: "at (memory_answer b 512 # [] # []) p5" using 5(2) by (simp add: read_script_def)
  obtain d p6 where 6: "ISP_readMemory scripted ?pg 512 (Some b) p5 = Some (RET_CODE_SUCCESS, Some d, p6)"
      "at [] p6" "length d = length b" "take 512 d = take 512 b"
    using script_read [OF a5 conjunct1 [OF pg] lb lb] by blast
  have s: "sum_u32 b 512 0 = Some (of_nat (byte_sum (take 512 b)))" "sum_u32 d 512 0 = Some (of_nat (byte_sum (take 512 b)))"
    using sum_u32_512(1) [of b] sum_u32_512(1) [of d] lb 6(3,4) by simp_all
  have "programUID scripted enc addr (Some ident) sz st = Some (0, st\<lparr>buffer := d, port := p6\<rparr>)"
    unfolding programUID_def option.case Let_def off sec pa
    using chk 1(1) 2(1) 3(1) 4(1) 5(1) 6(1) s by (simp add: fill copy)
  with 6(2) show ?thesis by simp
qed

text \<open>C17: A UID that stays inside its 512-byte page.  Success means: the sector of the address was erased, the page
  was written with the UID at its offset and 0xff everywhere else, it was read back with the same byte sum,
  and nothing else went over the wire; the heap is as it was.\<close>

theorem programUID_success:
  assumes run: "programUID react enc addr (Some ident) sz st = Some (0, st')"
    and page: "unat addr mod 512 + unat sz \<le> 512" and ident: "unat sz \<le> length ident"
    and buf: "length (buffer st) = 512 + length slack" "drop 512 (buffer st) = slack" "slack \<noteq> []" and enc: "64 \<le> length enc"
  shows "tx (port st') = tx (port st) @ uid_wire addr (take (unat sz) ident) slack \<and>
    byte_sum (take 512 (buffer st')) = byte_sum (uid_image (unat addr mod 512) (take (unat sz) ident)) \<and>
    live (port st') = live (port st)"
proof -
  let ?off = "unat addr mod 512" let ?id = "take (unat sz) ident" let ?img = "uid_image ?off ?id"
  let ?sec = "of_nat (unat addr div 4096) :: u8" let ?pg = "addr - addr mod 512"
  define b where "b = ?img @ slack"
  have lid: "length ?id = unat sz" using ident by simp
  have chk: "CHECK_FLASH_ADDR addr" "addr mod 16 = 0" "\<not> addr + ucast sz > FLASH_END_ADDRESS" "sz \<noteq> 0"
    using run by (auto simp: programUID_def split: if_splits)
  have off: "unat (addr mod 512) = ?off" by (simp add: unat_mod)
  have fill: "wrs (buffer st) 0 (replicate 512 0xff) = Some (replicate 512 0xff @ slack)"
    using wrs_prefix [of "replicate 512 0xff" "buffer st"] buf by simp
  have copy: "for_up 0 (unat sz) (\<lambda>i b. do { c \<leftarrow> rd ident i; wr b (?off + i) c }) (replicate 512 0xff @ slack) = Some b"
    using copy_ident [of ?off "unat sz" "replicate 512 0xff @ slack" ident] page ident
    by (simp add: b_def uid_image_def)
  have pa: "(2 * (addr div 512) + (if addr mod 512 + ucast sz > 512 then 1 else 0)) * 256 = ?pg"
    by (rule addr_facts(1) [OF chk(1-3)]) (use page off in simp)
  have sec: "of_nat (unat (addr div of_nat SECTOR_SIZE)) = ?sec" by (simp add: unat_div)
  from run obtain u1 p1 p2 u3 p3 p4 p5 d p6 v where
    1: "ISP_unlock react (port st) = Some (u1, p1)" and 2: "ISP_erase react ?sec ?sec p1 = Some (RET_CODE_SUCCESS, p2)" and
    3: "ISP_unlock react p2 = Some (u3, p3)" and
    4: "ISP_WriteToRAM react ISP_WRITE_RAM_ADDR 512 (Some b) enc p3 = Some (RET_CODE_SUCCESS, p4)" and
    5: "ISP_copyToFlash react ?pg ISP_WRITE_RAM_ADDR 512 p4 = Some (RET_CODE_SUCCESS, p5)" and
    6: "ISP_readMemory react ?pg 512 (Some b) p5 = Some (RET_CODE_SUCCESS, d, p6)" and
    7: "sum_u32 b 512 0 = Some v" "sum_u32 (case d of None \<Rightarrow> [] | Some d \<Rightarrow> d) 512 0 = Some v" and
    8: "st' = st\<lparr>buffer := (case d of None \<Rightarrow> [] | Some d \<Rightarrow> d), port := p6\<rparr>"
    using chk unfolding programUID_def option.case Let_def off sec pa fill
    by (auto simp: copy fill split: if_splits bind_splits)
  have lb: "length b = 512 + length slack" using page lid by (simp add: b_def)
  from ISP_readMemory_success [OF 6] obtain d' where d: "d = Some d'" "length d' = length b" by blast
  have "byte_sum (take 512 d') = byte_sum (take 512 b)"
    using sum_u32_eq_iff [of d' b] 7 d lb by simp
  moreover have t: "take 512 b = ?img" using page lid by (simp add: b_def)
  moreover have "1 \<le> length slack" using buf(3) by (cases slack) auto
  then have "tx p4 = tx p3 @ write_cmd ISP_WRITE_RAM_ADDR 512 @ sent_block b 512 @ checksum_line ?img"
    using ISP_WriteToRAM_success [OF 4 _ _ enc] lb t by (simp add: uu_groups_def)
  moreover have "live p6 = live (port st)"
    using unlock.keeps_live [OF 1] erase.keeps_live [OF 2] unlock.keeps_live [OF 3] write_ram.keeps_live [OF 4]
      copy.keeps_live [OF 5] ISP_readMemory_kept [OF 6] by (simp add: kept_def)
  ultimately show ?thesis
    using ISP_unlock_tx [OF 1] ISP_erase_success [OF 2] ISP_unlock_tx [OF 3] ISP_copyToFlash_success [OF 5]
      ISP_readMemory_success [OF 6] 8 d by (simp add: uid_wire_def Let_def b_def)
qed


lemma programUID_success_witness:
  "\<exists>st'. programUID scripted (replicate 64 0) 0xF000 (Some [1, 2, 3, 4]) 4 (idle_prog (uid_script 0xF000 [1, 2, 3, 4] [0])) =
      Some (0, st') \<and> tx (port st') = uid_wire 0xF000 [1, 2, 3, 4] [0]"
proof -
  let ?st = "idle_prog (uid_script 0xF000 [1, 2, 3, 4] [0])"
  have b: "buffer ?st = replicate 512 0 @ [0]"
    using replicate_add [of 512 1 "0 :: u8"] by (simp add: idle_prog_def)
  then have 1: "length (buffer ?st) = 512 + length [0 :: u8]" "drop 512 (buffer ?st) = [0]" by simp_all
  obtain st' where run: "programUID scripted (replicate 64 0) 0xF000 (Some [1, 2, 3, 4]) 4 ?st = Some (0, st')"
    using uid_runs [of "0xF000" 4 "[1, 2, 3, 4]" ?st "[0]" "replicate 64 0"] 1 at_idle
    by (auto simp: memory_map)
  from programUID_success [OF this _ _ 1] run show ?thesis by (simp add: idle_prog_def)
qed

text \<open>The argument checks of \<open>programUID\<close>: a missing UID, an address outside the flash or not a multiple of 16, or
  an empty UID is refused with -1, and a UID reaching past the flash with -2; nothing is sent.  The second
  check is off by one: a UID that ends exactly at the end of the flash is refused as well.\<close>

theorem programUID_refuses:
  "(ident = None \<or> unat addr \<ge> 65536 \<or> unat addr mod 16 \<noteq> 0 \<or> sz = 0 \<longrightarrow>
      programUID react enc addr ident sz st = Some (- 1, st)) \<and>
   (ident \<noteq> None \<and> unat addr < 65536 \<and> unat addr mod 16 = 0 \<and> sz \<noteq> 0 \<and> unat addr + unat sz \<ge> 65536 \<longrightarrow>
      programUID react enc addr ident sz st = Some (- 2, st))"
proof -
  have z: "unat sz < 256" using unsigned_less [where ?'a = nat, of sz] by simp
  have "(ucast sz :: u32) = of_nat (unat sz)" by (metis of_nat_unat)
  then have s: "unat (ucast sz :: u32) = unat sz" using z by (simp add: unat_of_nat_len del: of_nat_unat)
  have c: "CHECK_FLASH_ADDR addr \<longleftrightarrow> unat addr < 65536"
    by (simp add: memory_map word_le_nat_alt) linarith
  have m: "addr mod 16 = 0 \<longleftrightarrow> unat addr mod 16 = 0"
    by (simp add: unat_mod flip: unat_eq_0)
  have a: "unat addr < 65536 \<Longrightarrow> unat (addr + ucast sz) = unat addr + unat sz"
    using s z by (subst unat_add_lem [THEN iffD1]) simp_all
  show ?thesis
    by (cases ident) (auto simp: programUID_def c m a memory_map_defs word_less_nat_alt)
qed

lemma programUID_refuses_witness:
  "programUID scripted [] 0xFFF0 (Some [1, 2]) 16 (idle_prog []) = Some (- 2, idle_prog []) \<and>
   programUID scripted [] 0x10000000 (Some [1, 2]) 16 (idle_prog []) = Some (- 1, idle_prog [])"
  using programUID_refuses [where ident = "Some [1, 2]" and addr = "0xFFF0" and sz = 16 and react = scripted
      and enc = "[]" and st = "idle_prog []"]
    programUID_refuses [where ident = "Some [1, 2]" and addr = "0x10000000" and sz = 16 and react = scripted
      and enc = "[]" and st = "idle_prog []"] by simp

text \<open>A UID that crosses a 512-byte page runs over the end of the global buffer: the bytes are stored at their
  page offset although only one page is buffered.\<close>

theorem programUID_page_crossing:
  assumes "unat addr < 65536" "unat addr mod 16 = 0" "unat addr + unat sz < 65536"
    and "512 \<le> length (buffer st)" "length (buffer st) < unat addr mod 512 + unat sz" and "0 < unat sz"
  shows "programUID react enc addr (Some ident) sz st = None"
proof -
  have z: "unat sz < 256" using unsigned_less [where ?'a = nat, of sz] by simp
  have "(ucast sz :: u32) = of_nat (unat sz)" by (metis of_nat_unat)
  then have s: "unat (ucast sz :: u32) = unat sz" using z by (simp add: unat_of_nat_len del: of_nat_unat)
  have c: "CHECK_FLASH_ADDR addr" using assms(1) by (simp add: memory_map word_le_nat_alt)
  have m: "addr mod 16 = 0"
    using assms(2) by (simp add: unat_mod flip: unat_eq_0)
  have a: "unat (addr + ucast sz) = unat addr + unat sz"
    using s z assms(1) by (subst unat_add_lem [THEN iffD1]) simp_all
  have f: "wrs (buffer st) 0 (replicate 512 0xff) = Some (replicate 512 0xff @ drop 512 (buffer st))"
    using wrs_prefix [of "replicate 512 0xff" "buffer st"] assms(4) by simp
  have l: "length (replicate 512 0xff @ drop 512 (buffer st)) < unat addr mod 512 + unat sz"
    using assms(4,5) by simp
  note copy_ident_overrun [OF l assms(6)]
  then show ?thesis
    using assms(3,6) c m a f by (auto simp: programUID_def Let_def memory_map_defs word_less_nat_alt unat_mod)
qed

lemma programUID_page_crossing_witness:
  "programUID scripted (replicate 64 0) 0x1F0 (Some (replicate 24 65)) 24 (idle_prog []) = None"
  using programUID_page_crossing [where addr = "0x1F0" and sz = 24 and st = "idle_prog []"] by (simp add: idle_prog_def)

end
