(* ===== verification/ProgrammerFiles.thy ===== *)
theory ProgrammerFiles imports ProgrammerWire begin

text \<open>The helpers around the binary file in \<open>src/OnlineProgram.cpp\<close>: what \<open>strFlit\<close> keeps, which file \<open>detectFile\<close>
  finds, and the checksum the vector table gets.\<close>

section \<open>Finding and filtering files\<close>

definition printable :: "u8 list \<Rightarrow> u8 list" where
  "printable s = filter (\<lambda>c. 32 < c \<and> c < 126) s"

lemma strFlit_skip_first: "123 \<notin> set pre \<Longrightarrow> strFlit_skip (pre @ 123 # s) = Some (123 # s)"
  by (induction pre) auto

lemma strFlit_skip_none: "123 \<notin> set s \<Longrightarrow> strFlit_skip s = None"
  by (induction s) auto

lemma strFlit_copy_text:
  assumes "0 \<notin> set s" "pOut + length (printable s) \<le> length out"
  shows "strFlit_copy (s @ 0 # r) out pOut =
    Some (take pOut out @ printable s @ drop (pOut + length (printable s)) out, pOut + length (printable s))"
  using assms
proof (induction s arbitrary: out pOut)
  case (Cons c s)
  show ?case
  proof (cases "32 < c \<and> c < 126")
    case True
    with Cons.prems have l: "pOut < length out" "0 \<notin> set s" "Suc pOut + length (printable s) \<le> length (out[pOut := c])"
      by (simp_all add: printable_def)
    have "take (Suc pOut) (out[pOut := c]) = take pOut out @ [c]"
      using l(1) by (simp add: take_Suc_conv_app_nth)
    moreover have "c \<noteq> 0" using True by auto
    ultimately show ?thesis
      using Cons.IH [OF l(2,3)] l(1) True by (simp add: printable_def wr_def)
  next
    case False
    with Cons show ?thesis by (auto simp: printable_def)
  qed
qed (simp add: printable_def)

text \<open>\<open>strFlit\<close> drops everything before the first brace and every blank, control character, tilde and byte above
  it, provided the text has a brace at all and the output has room.  Without a brace in the memory behind the
  pointer it runs off the end, although the text itself is terminated.\<close>

theorem strFlit_filters:
  "(123 \<notin> set pre \<and> 0 \<notin> set body \<and> length (printable body) + 1 < length out \<longrightarrow>
      strFlit (Some (pre @ 123 # body @ 0 # rest)) (Some out) =
      Some (0, Some (123 # printable body @ 0 # drop (length (printable body) + 2) out))) \<and>
   (123 \<notin> set pre \<longrightarrow> strFlit (Some pre) (Some out) = None)"
proof (intro conjI impI; (elim conjE)?)
  assume a: "123 \<notin> set pre" "0 \<notin> set body" "length (printable body) + 1 < length out"
  let ?s = "123 # body" let ?n = "length (printable body)"
  have p: "printable ?s = 123 # printable body" by (simp add: printable_def)
  have c: "strFlit_copy (?s @ 0 # rest) out 0 = Some (printable ?s @ drop (?n + 1) out, ?n + 1)"
    using strFlit_copy_text [of ?s 0 out rest] a by (simp add: p)
  have "drop (?n + 1) out = out ! (?n + 1) # drop (?n + 2) out"
    using a(3) by (simp add: Cons_nth_drop_Suc)
  then have w: "wr (printable ?s @ drop (?n + 1) out) (?n + 1) 0 = Some (123 # printable body @ 0 # drop (?n + 2) out)"
    using a(3) by (simp add: wr_def p list_update_append)
  show "strFlit (Some (pre @ 123 # body @ 0 # rest)) (Some out) =
      Some (0, Some (123 # printable body @ 0 # drop (?n + 2) out))"
    using strFlit_skip_first [OF a(1), of "body @ 0 # rest"] c w by (simp add: strFlit_def del: strFlit_copy.simps)
qed (simp add: strFlit_def strFlit_skip_none)

lemma strFlit_filters_witness:
  "strFlit (Some [120, 123, 32, 97, 9, 125, 0]) (Some (replicate 6 9)) = Some (0, Some (123 # 97 # 125 # 0 # replicate 2 9)) \<and>
   strFlit (Some [120, 0]) (Some []) = None"
  using strFlit_filters [of "[120]" "[32, 97, 9, 125]" "replicate 6 9" "[]"] strFlit_filters [of "[120, 0]" "[]" "[]" "[]"]
  by (simp add: printable_def)

lemma detect_entry_skip:
  "\<forall>m \<in> set ms. find_sub file_type m = None \<Longrightarrow>
   detect_entry file_type (ms @ ns) path d = detect_entry file_type ns path d"
  by (induction ms) auto

lemma detect_entry_hit:
  assumes "find_sub file_type n \<noteq> None" "cstr path = Some old" "old \<noteq> n"
  shows "detect_entry file_type (n # ns) path d =
    (if length n + 5 \<le> length path then Some (0, bytes ''/sd/'' @ n @ [0] @ drop (length n + 5) path, d - 1) else None)"
proof -
  define z where "z = SD_ROOT_DERECTORY @ bytes ''/'' @ n @ [0]"
  have e: "z = bytes ''/sd/'' @ n @ [0]" by (simp add: z_def SD_ROOT_DERECTORY_def)
  then have l: "length z = length n + 5" "z \<noteq> []" by simp_all
  have run: "detect_entry file_type (n # ns) path d = wrs path 0 z \<bind> (\<lambda>p. Some (0, p, d - 1))"
    using assms by (simp add: z_def del: wrs.simps bytes_simps)
  show ?thesis
  proof (cases "length n + 5 \<le> length path")
    case True
    then have "wrs path 0 z = Some (z @ drop (length z) path)" using wrs_prefix [of z path] by (simp only: l)
    then have "detect_entry file_type (n # ns) path d = Some (0, z @ drop (length n + 5) path, d - 1)"
      using run by (simp only: l Option.bind.simps)
    with True show ?thesis by (simp add: e)
  next
    case False
    then have "wrs path 0 z = None" using wrs_short [of path 0 z] l by simp
    with run False show ?thesis by (simp only: Option.bind.simps if_False)
  qed
qed

text \<open>\<open>detectFile\<close> picks the first directory entry whose name contains the type anywhere (not only at its end), writes
  \<open>/sd/\<close> and the name, and closes the directory; a name of more than 30 characters runs over a path array of
  36 bytes.  Without such an entry the path stays and the result is -3, without the directory -2.\<close>

theorem detectFile_first:
  assumes "\<forall>m \<in> set ms. find_sub file_type m = None"
  shows "(find_sub file_type n \<noteq> None \<and> cstr path = Some old \<and> old \<noteq> n \<and> opendir dir = Some (ms @ n # ns) \<longrightarrow>
      detectFile opendir (Some dir) (Some file_type) (Some path) d =
        (if length n + 5 \<le> length path then Some (0, Some (bytes ''/sd/'' @ n @ [0] @ drop (length n + 5) path), d) else None)) \<and>
    (opendir dir = Some ms \<longrightarrow> detectFile opendir (Some dir) (Some file_type) (Some path) d = Some (- 3, Some path, d)) \<and>
    (opendir dir = None \<longrightarrow> detectFile opendir (Some dir) (Some file_type) (Some path) d = Some (- 2, Some path, d))"
  using detect_entry_skip [OF assms, of "n # ns" path "Suc d"] detect_entry_skip [OF assms, of "[]" path "Suc d"]
    detect_entry_hit [of file_type n path old ns "Suc d"]
  by (auto simp: detectFile_def simp del: bytes_simps detect_entry.simps(2))

lemma detectFile_first_witness:
  "detectFile (\<lambda>_. Some [[120], [46, 98, 33]]) (Some [47]) (Some [46, 98]) (Some (replicate 36 0)) 0 =
     Some (0, Some (bytes ''/sd/'' @ [46, 98, 33] @ [0] @ replicate 28 0), 0) \<and>
   detectFile (\<lambda>_. Some [46 # replicate 40 97]) (Some [47]) (Some [46]) (Some (replicate 36 0)) 0 = None"
proof
  have c: "cstr (replicate 36 0) = Some []" by (simp add: numeral_eq_Suc)
  have "detectFile (\<lambda>_. Some ([[120]] @ [46, 98, 33] # [])) (Some [47]) (Some [46, 98]) (Some (replicate 36 0)) 0 =
     Some (0, Some (bytes ''/sd/'' @ [46, 98, 33] @ [0] @ drop 8 (replicate 36 0)), 0)"
    using detectFile_first [of "[[120]]" "[46, 98]" "[46, 98, 33]" "replicate 36 0" "[]" "\<lambda>_. Some ([[120]] @ [46, 98, 33] # [])" "[47]" "[]" 0]
    by (simp add: c)
  then show "detectFile (\<lambda>_. Some [[120], [46, 98, 33]]) (Some [47]) (Some [46, 98]) (Some (replicate 36 0)) 0 =
     Some (0, Some (bytes ''/sd/'' @ [46, 98, 33] @ [0] @ replicate 28 0), 0)" by simp
  have "detectFile (\<lambda>_. Some ([] @ (46 # replicate 40 97) # [])) (Some [47]) (Some [46]) (Some (replicate 36 0)) 0 = None"
    using detectFile_first [of "[]" "[46]" "46 # replicate 40 97" "replicate 36 0" "[]" "\<lambda>_. Some ([] @ (46 # replicate 40 97) # [])" "[47]" "[]" 0]
    by (simp add: c)
  then show "detectFile (\<lambda>_. Some [46 # replicate 40 97]) (Some [47]) (Some [46]) (Some (replicate 36 0)) 0 = None" by simp
qed

text \<open>The vector checksum.  Patching the first block makes the eight words of the vector table add up to 0, as
  the boot loader wants, and changes only the four bytes at 0x1c.\<close>

theorem patch_vector_checksum:
  assumes "32 \<le> length b"
  shows "\<exists>b'. patch_vector b = Some b' \<and> word_sum b' 8 = 0 \<and> length b' = length b \<and>
    take 28 b' = take 28 b \<and> drop 32 b' = drop 32 b"
  using assms patched_sum [OF assms]
  by (intro exI [of _ "patched b"]) (simp add: patch_vector_value, simp add: patched_def word_bytes_def)

lemma patch_vector_checksum_witness: "\<exists>b'. patch_vector (replicate 512 1) = Some b' \<and> word_sum b' 8 = 0"
  using patch_vector_checksum [of "replicate 512 1"] by auto

end
