(* ===== verification/Json.thy ===== *)
theory Json imports Prelude begin

text \<open>
  The JSON reader of \<open>src/cJSON/cJSON.cpp\<close>: the allocator behind \<open>cJSON_malloc\<close>, \<open>cJSON_New_Item\<close>,
  \<open>cJSON_Delete\<close>, \<open>parse_number\<close>, \<open>parse_hex4\<close>, \<open>parse_string\<close>, \<open>skip\<close>, \<open>parse_value\<close>, \<open>parse_array\<close>,
  \<open>parse_object\<close>, \<open>cJSON_ParseWithOpts\<close>, \<open>cJSON_Parse\<close> and the lookups.

  A parsed item is a tree: its fields and the chain of its children as a list (the parser builds no
  sharing; the pointer structure itself is the subject of \<open>JsonList\<close>).  A string value is the list of
  the bytes written to its buffer, without the terminating NUL.  \<open>double\<close> arithmetic is a parameter, the
  record \<open>fp\<close>.  A pointer returned as NULL is \<open>None\<close> in the second component; the outer \<open>None\<close> is undefined
  behaviour, or fuel that ran out: \<open>cJSON_Parse_returns\<close> (\<open>JsonParse\<close>) shows how much is enough.
\<close>

unbundle bit_operations_syntax

section \<open>Data\<close>

record 'd fp =
  fp_lit :: "int \<Rightarrow> 'd"
  fp_add :: "'d \<Rightarrow> 'd \<Rightarrow> 'd"
  fp_mul :: "'d \<Rightarrow> 'd \<Rightarrow> 'd"
  fp_pow10 :: "int \<Rightarrow> 'd"
  fp_int :: "'d \<Rightarrow> int"

abbreviation (input) cJSON_False :: nat where "cJSON_False \<equiv> 1"
abbreviation (input) cJSON_True :: nat where "cJSON_True \<equiv> 2"
abbreviation (input) cJSON_NULL :: nat where "cJSON_NULL \<equiv> 4"
abbreviation (input) cJSON_Number :: nat where "cJSON_Number \<equiv> 8"
abbreviation (input) cJSON_String :: nat where "cJSON_String \<equiv> 16"
abbreviation (input) cJSON_Array :: nat where "cJSON_Array \<equiv> 32"
abbreviation (input) cJSON_Object :: nat where "cJSON_Object \<equiv> 64"

record 'd jfields =
  jtype :: nat
  valuestring :: "u8 list option"
  valueint :: int
  valuedouble :: 'd
  jname :: "u8 list option"

datatype 'd cJSON = Item (jf: "'d jfields") (child: "'d cJSON list")

text \<open>The state of the allocator, and \<open>global_ep\<close>: \<open>grants\<close> lists the outcomes of the coming calls of
  \<open>cJSON_malloc\<close> (an empty list: they all succeed), \<open>blocks\<close> counts the blocks in use.\<close>

record jst =
  grants :: "bool list"
  blocks :: nat
  ep :: "u8 list option"

definition cJSON_malloc :: "jst \<Rightarrow> bool \<times> jst" where
  "cJSON_malloc st = (case grants st of
      [] \<Rightarrow> (True, st\<lparr>blocks := Suc (blocks st)\<rparr>)
    | g # gs \<Rightarrow> (g, st\<lparr>grants := gs, blocks := blocks st + (if g then 1 else 0)\<rparr>))"

definition zeroed :: "'d fp \<Rightarrow> 'd cJSON" where
  "zeroed fp = Item \<lparr>jtype = 0, valuestring = None, valueint = 0, valuedouble = fp_lit fp 0, jname = None\<rparr> []"

definition cJSON_New_Item :: "'d fp \<Rightarrow> jst \<Rightarrow> 'd cJSON option \<times> jst" where
  "cJSON_New_Item fp st = (let (ok, st) = cJSON_malloc st in (if ok then Some (zeroed fp) else None, st))"

text \<open>The blocks \<open>cJSON_Delete\<close> frees: the item, its strings and, item by item, its children; a reference
  (bit 8 of the type) keeps its value and its children, a constant name (bit 9) stays.\<close>

fun owned :: "'d cJSON \<Rightarrow> nat" where
  "owned (Item f cs) =
     (if bit (jtype f) 8 then 0 else sum_list (map owned cs)) +
     (if \<not> bit (jtype f) 8 \<and> valuestring f \<noteq> None then 1 else 0) +
     (if \<not> bit (jtype f) 9 \<and> jname f \<noteq> None then 1 else 0) + 1"

definition cJSON_Delete :: "'d cJSON \<Rightarrow> jst \<Rightarrow> jst" where
  "cJSON_Delete c st = st\<lparr>blocks := blocks st - owned c\<rparr>"

section \<open>Numbers\<close>

abbreviation (input) digit :: "u8 \<Rightarrow> bool" where "digit c \<equiv> 48 \<le> c \<and> c \<le> 57"

text \<open>The digit loops: the value, the number of digits, the rest.\<close>

fun digits :: "'d fp \<Rightarrow> 'd \<Rightarrow> nat \<Rightarrow> u8 list \<Rightarrow> ('d \<times> nat \<times> u8 list) option" where
  "digits fp n k [] = None"
| "digits fp n k (c # cs) =
     (if digit c then digits fp (fp_add fp (fp_mul fp n (fp_lit fp 10)) (fp_lit fp (uint c - 48))) (Suc k) cs
      else Some (n, k, c # cs))"

text \<open>The exponent is an \<open>int\<close>; its overflow wraps.\<close>

fun exponent_digits :: "u32 \<Rightarrow> u8 list \<Rightarrow> (u32 \<times> u8 list) option" where
  "exponent_digits n [] = None"
| "exponent_digits n (c # cs) =
     (if digit c then exponent_digits (n * 10 + (ucast c - 48)) cs else Some (n, c # cs))"

definition parse_exponent :: "u8 list \<Rightarrow> (u32 \<times> u32 \<times> u8 list) option" where
  "parse_exponent num = do {
     c \<leftarrow> rd num 0;
     if c = 101 \<or> c = 69 then do {
       let num = tl num;
       c \<leftarrow> rd num 0;
       let (sgn, num) = (if c = 43 then (1, tl num) else if c = 45 then (- 1, tl num) else (1, num));
       (subscale, num) \<leftarrow> exponent_digits 0 num;
       Some (subscale, sgn, num) }
     else Some (0, 1, num) }"

definition parse_number :: "'d fp \<Rightarrow> 'd cJSON \<Rightarrow> u8 list \<Rightarrow> ('d cJSON \<times> u8 list) option" where
  "parse_number fp item num = do {
     c \<leftarrow> rd num 0;
     let (sgn, num) = (if c = 45 then (- 1, tl num) else (1, num));
     c \<leftarrow> rd num 0;
     let num = (if c = 48 then tl num else num);
     c \<leftarrow> rd num 0;
     (n, num) \<leftarrow> (if 49 \<le> c \<and> c \<le> 57 then do { (n, _, num) \<leftarrow> digits fp (fp_lit fp 0) 0 num; Some (n, num) }
       else Some (fp_lit fp 0, num));
     c \<leftarrow> rd num 0;
     (n, scale, num) \<leftarrow> (if c = 46 then do {
         d \<leftarrow> rd num 1;
         if digit d then do { (n, k, num) \<leftarrow> digits fp n 0 (tl num); Some (n, - int k, num) }
         else Some (n, 0, num) }
       else Some (n, 0, num));
     (subscale, signsubscale, num) \<leftarrow> parse_exponent num;
     let n = fp_mul fp (fp_mul fp (fp_lit fp sgn) n) (fp_pow10 fp (scale + sint (subscale * signsubscale)));
     Some (Item ((jf item)\<lparr>valuedouble := n, valueint := fp_int fp n, jtype := cJSON_Number\<rparr>) (child item), num) }"

section \<open>Strings\<close>

definition hex_val :: "u8 \<Rightarrow> u32 option" where
  "hex_val c = (if 48 \<le> c \<and> c \<le> 57 then Some (ucast c - 48)
     else if 65 \<le> c \<and> c \<le> 70 then Some (10 + ucast c - 65)
     else if 97 \<le> c \<and> c \<le> 102 then Some (10 + ucast c - 97) else None)"

fun hex_digits :: "nat \<Rightarrow> u32 \<Rightarrow> u8 list \<Rightarrow> u32 option" where
  "hex_digits 0 h s = Some h"
| "hex_digits (Suc k) h [] = None"
| "hex_digits (Suc k) h (c # cs) = (case hex_val c of
     None \<Rightarrow> Some 0
   | Some v \<Rightarrow> if k = 0 then Some (h + v) else hex_digits k (push_bit 4 (h + v)) cs)"

definition parse_hex4 :: "u8 list \<Rightarrow> u32 option" where
  "parse_hex4 s = hex_digits 4 0 s"

text \<open>\<open>scan_end s\<close>: how far \<open>end_ptr\<close> runs from \<open>s\<close>, and \<open>len\<close>, an escape counting once.\<close>

fun scan_end :: "u8 list \<Rightarrow> (nat \<times> nat) option" where
  "scan_end [] = None"
| "scan_end (c # cs) =
     (if c = 34 \<or> c = 0 then Some (0, 0)
      else if c = 92 then (case cs of [] \<Rightarrow> None | _ # ds \<Rightarrow> map_option (\<lambda>(p, l). (p + 2, Suc l)) (scan_end ds))
      else map_option (\<lambda>(p, l). (Suc p, Suc l)) (scan_end cs))"

definition utf8_len :: "u32 \<Rightarrow> nat" where
  "utf8_len uc = (if uc < 0x80 then 1 else if uc < 0x800 then 2 else if uc < 0x10000 then 3 else 4)"

definition firstByteMark :: "u8 list" where
  "firstByteMark = [0x00, 0x00, 0xC0, 0xE0, 0xF0, 0xF8, 0xFC]"

text \<open>The \<open>switch (len)\<close> stores from the last byte to the first.\<close>

fun utf8_tail :: "nat \<Rightarrow> u32 \<Rightarrow> u8 list \<Rightarrow> u32 \<times> u8 list" where
  "utf8_tail 0 uc out = (uc, out)"
| "utf8_tail (Suc k) uc out = utf8_tail k (drop_bit 6 uc) (ucast ((uc OR 0x80) AND 0xBF) # out)"

definition utf8 :: "u32 \<Rightarrow> u8 list" where
  "utf8 uc = (let len = utf8_len uc; (uc, out) = utf8_tail (len - 1) uc []
     in ucast (uc OR ucast (firstByteMark ! len)) # out)"

text \<open>Storing at \<open>ptr2\<close>: the buffer has \<open>cap\<close> bytes, \<open>out\<close> are those already stored.\<close>

definition store :: "nat \<Rightarrow> u8 list \<Rightarrow> u8 list \<Rightarrow> u8 list option" where
  "store cap out bs = (if length out + length bs \<le> cap then Some (out @ bs) else None)"

definition escape_code :: "u8 \<Rightarrow> u8" where
  "escape_code c = (if c = 98 then 8 else if c = 102 then 12 else if c = 110 then 10
     else if c = 114 then 13 else if c = 116 then 9 else c)"

definition low_surrogate :: "u32 \<Rightarrow> bool" where "low_surrogate uc = (0xDC00 \<le> uc \<and> uc \<le> 0xDFFF)"
definition high_surrogate :: "u32 \<Rightarrow> bool" where "high_surrogate uc = (0xD800 \<le> uc \<and> uc \<le> 0xDBFF)"

text \<open>The copying loop; its second argument is \<open>end_ptr - ptr\<close> (0 when \<open>ptr\<close> has passed it).  The result has
  the bytes stored and the pointer behind, NULL for an invalid escape.\<close>

fun unescape :: "nat \<Rightarrow> nat \<Rightarrow> u8 list \<Rightarrow> u8 list \<Rightarrow> (u8 list \<times> u8 list option) option" where
  "unescape cap 0 s out = Some (out, Some s)"
| "unescape cap (Suc n) [] out = None"
| "unescape cap (Suc n) (c # s) out =
     (if c \<noteq> 92 then do { out \<leftarrow> store cap out [c]; unescape cap n s out }
      else case s of
        [] \<Rightarrow> None
      | d # s \<Rightarrow>
        if d \<noteq> 117 then do { out \<leftarrow> store cap out [escape_code d]; unescape cap (n - 1) s out }
        else do {
          uc \<leftarrow> parse_hex4 s;
          if n \<le> 4 then Some (out, None)
          else if low_surrogate uc \<or> uc = 0 then Some (out, None)
          else if high_surrogate uc then
            (if n < 10 then Some (out, None)
             else do {
               b \<leftarrow> rd s 4;
               u \<leftarrow> (if b \<noteq> 92 then Some 0 else rd s 5);
               if u \<noteq> 117 then Some (out, None)
               else do {
                 uc2 \<leftarrow> parse_hex4 (drop 6 s);
                 if \<not> low_surrogate uc2 then Some (out, None)
                 else do {
                   out \<leftarrow> store cap out (utf8 (0x10000 + (push_bit 10 (uc AND 0x3FF) OR (uc2 AND 0x3FF))));
                   unescape cap (n - 11) (drop 10 s) out } } })
          else do { out \<leftarrow> store cap out (utf8 uc); unescape cap (n - 5) (drop 4 s) out } })"

definition parse_string :: "'d cJSON \<Rightarrow> u8 list \<Rightarrow> jst \<Rightarrow> ('d cJSON \<times> u8 list option \<times> jst) option" where
  "parse_string item str st = do {
     c \<leftarrow> rd str 0;
     if c \<noteq> 34 then Some (item, None, st\<lparr>ep := Some str\<rparr>)
     else do {
       (n, len) \<leftarrow> scan_end (tl str);
       let (ok, st) = cJSON_malloc st;
       if \<not> ok then Some (item, None, st)
       else do {
         (out, p) \<leftarrow> unescape (len + 1) n (tl str) [];
         let item = Item ((jf item)\<lparr>valuestring := Some out, jtype := cJSON_String\<rparr>) (child item);
         case p of
           None \<Rightarrow> Some (item, None, st\<lparr>ep := Some str\<rparr>)
         | Some p \<Rightarrow> do {
             _ \<leftarrow> store (len + 1) out [0];
             c \<leftarrow> rd p 0;
             Some (item, Some (if c = 34 then tl p else p), st) } } } }"

section \<open>Values\<close>

fun skip :: "u8 list \<Rightarrow> u8 list option" where
  "skip [] = None"
| "skip (c # cs) = (if c \<noteq> 0 \<and> c \<le> 32 then skip cs else Some (c # cs))"

text \<open>\<open>strncmp(value, lit, strlen(lit)) == 0\<close>\<close>

fun strncmp_eq :: "u8 list \<Rightarrow> u8 list \<Rightarrow> bool option" where
  "strncmp_eq [] s = Some True"
| "strncmp_eq (l # ls) [] = None"
| "strncmp_eq (l # ls) (c # cs) = (if c = l then strncmp_eq ls cs else Some False)"

definition set_type :: "nat \<Rightarrow> 'd cJSON \<Rightarrow> 'd cJSON" where
  "set_type t c = Item ((jf c)\<lparr>jtype := t\<rparr>) (child c)"

definition set_child :: "'d cJSON list \<Rightarrow> 'd cJSON \<Rightarrow> 'd cJSON" where
  "set_child cs c = Item (jf c) cs"

definition name_from_value :: "'d cJSON \<Rightarrow> 'd cJSON" where
  "name_from_value c = Item ((jf c)\<lparr>jname := valuestring (jf c), valuestring := None\<rparr>) (child c)"

text \<open>The item parser a loop calls is its first argument; \<open>parse_value\<close> ties the knot, each level handing its
  remaining fuel to the levels below.\<close>

type_synonym 'd item_parser = "'d cJSON \<Rightarrow> u8 list \<Rightarrow> jst \<Rightarrow> ('d cJSON \<times> u8 list option \<times> jst) option"
type_synonym 'd chain_parser = "'d cJSON list \<Rightarrow> u8 list \<Rightarrow> jst \<Rightarrow> ('d cJSON list \<times> u8 list option \<times> jst) option"

primrec array_items :: "nat \<Rightarrow> 'd fp \<Rightarrow> 'd item_parser \<Rightarrow> 'd chain_parser" where
  "array_items 0 fp pv = (\<lambda>cs value st. None)"
| "array_items (Suc k) fp pv = (\<lambda>cs value st.
     (case cJSON_New_Item fp st of
       (None, st) \<Rightarrow> Some (cs, None, st)
     | (Some c, st) \<Rightarrow> do {
         value \<leftarrow> skip value;
         (c, r, st) \<leftarrow> pv c value st;
         let cs = cs @ [c];
         case r of
           None \<Rightarrow> Some (cs, None, st)
         | Some value \<Rightarrow> do {
             value \<leftarrow> skip value;
             b \<leftarrow> rd value 0;
             if b = 44 then array_items k fp pv cs (tl value) st else Some (cs, Some value, st) } }))"

definition object_item :: "'d fp \<Rightarrow> 'd item_parser \<Rightarrow> 'd item_parser" where
  "object_item fp pv c value st = do {
     (c, r, st) \<leftarrow> parse_string c value st;
     case r of
       None \<Rightarrow> Some (c, None, st)
     | Some value \<Rightarrow> do {
         value \<leftarrow> skip value;
         let c = name_from_value c;
         b \<leftarrow> rd value 0;
         if b \<noteq> 58 then Some (c, None, st\<lparr>ep := Some value\<rparr>)
         else do {
           value \<leftarrow> skip (tl value);
           pv c value st } } }"

text \<open>The loop of \<open>parse_object\<close> is that of \<open>parse_array\<close> with a named item in place of a value.\<close>

definition object_items :: "nat \<Rightarrow> 'd fp \<Rightarrow> 'd item_parser \<Rightarrow> 'd chain_parser" where
  "object_items k fp pv = array_items k fp (object_item fp pv)"

definition parse_chain :: "u8 \<Rightarrow> u8 \<Rightarrow> nat \<Rightarrow> 'd chain_parser \<Rightarrow> 'd item_parser" where
  "parse_chain open_c close_c typ items item value st = do {
     c \<leftarrow> rd value 0;
     if c \<noteq> open_c then Some (item, None, st\<lparr>ep := Some value\<rparr>)
     else do {
       let item = set_type typ item;
       value \<leftarrow> skip (tl value);
       c \<leftarrow> rd value 0;
       if c = close_c then Some (item, Some (tl value), st)
       else do {
         (cs, r, st) \<leftarrow> items [] value st;
         let item = set_child cs item;
         case r of
           None \<Rightarrow> Some (item, None, st)
         | Some value \<Rightarrow> do {
             c \<leftarrow> rd value 0;
             if c = close_c then Some (item, Some (tl value), st)
             else Some (item, None, st\<lparr>ep := Some value\<rparr>) } } } }"

definition parse_array :: "nat \<Rightarrow> 'd fp \<Rightarrow> 'd item_parser \<Rightarrow> 'd item_parser" where
  "parse_array k fp pv = parse_chain 91 93 cJSON_Array (array_items k fp pv)"

definition parse_object :: "nat \<Rightarrow> 'd fp \<Rightarrow> 'd item_parser \<Rightarrow> 'd item_parser" where
  "parse_object k fp pv = parse_chain 123 125 cJSON_Object (object_items k fp pv)"

primrec parse_value :: "nat \<Rightarrow> 'd fp \<Rightarrow> 'd item_parser" where
  "parse_value 0 fp = (\<lambda>item value st. None)"
| "parse_value (Suc f) fp = (\<lambda>item value st. do {
     b \<leftarrow> strncmp_eq (bytes ''null'') value;
     if b then Some (set_type cJSON_NULL item, Some (drop 4 value), st) else do {
     b \<leftarrow> strncmp_eq (bytes ''false'') value;
     if b then Some (set_type cJSON_False item, Some (drop 5 value), st) else do {
     b \<leftarrow> strncmp_eq (bytes ''true'') value;
     if b then Some (Item ((jf item)\<lparr>jtype := cJSON_True, valueint := 1\<rparr>) (child item), Some (drop 4 value), st) else do {
     c \<leftarrow> rd value 0;
     if c = 34 then parse_string item value st
     else if c = 45 \<or> digit c then do { (item, r) \<leftarrow> parse_number fp item value; Some (item, Some r, st) }
     else if c = 91 then parse_array f fp (parse_value f fp) item value st
     else if c = 123 then parse_object f fp (parse_value f fp) item value st
     else Some (item, None, st\<lparr>ep := Some value\<rparr>) } } } })"

text \<open>The result of \<open>cJSON_ParseWithOpts\<close> is the tree (\<open>None\<close> for NULL) with the parse end, and the state;
  \<open>*ep\<close> is kept in \<open>ep\<close> also when the caller passes its own \<open>return_parse_end\<close>.\<close>

definition cJSON_ParseWithOpts :: "nat \<Rightarrow> 'd fp \<Rightarrow> u8 list \<Rightarrow> bool \<Rightarrow> jst \<Rightarrow> (('d cJSON \<times> u8 list) option \<times> jst) option" where
  "cJSON_ParseWithOpts f fp value require_null_terminated st =
     (case cJSON_New_Item fp st of
       (None, st) \<Rightarrow> Some (None, st\<lparr>ep := None\<rparr>)
     | (Some c, st) \<Rightarrow> do {
         value \<leftarrow> skip value;
         (c, r, st) \<leftarrow> parse_value f fp c value (st\<lparr>ep := None\<rparr>);
         case r of
           None \<Rightarrow> Some (None, cJSON_Delete c st)
         | Some rest \<Rightarrow>
             if require_null_terminated then do {
               rest \<leftarrow> skip rest;
               b \<leftarrow> rd rest 0;
               if b \<noteq> 0 then Some (None, (cJSON_Delete c st)\<lparr>ep := Some rest\<rparr>)
               else Some (Some (c, rest), st) }
             else Some (Some (c, rest), st) })"

definition cJSON_Parse :: "nat \<Rightarrow> 'd fp \<Rightarrow> u8 list \<Rightarrow> jst \<Rightarrow> ('d cJSON option \<times> jst) option" where
  "cJSON_Parse f fp value st = do {
     (r, st) \<leftarrow> cJSON_ParseWithOpts f fp value False st;
     Some (map_option fst r, st) }"

section \<open>Lookup\<close>

definition tolower :: "u8 \<Rightarrow> u8" where
  "tolower c = (if 65 \<le> c \<and> c \<le> 90 then c + 32 else c)"

fun strcasecmp_loop :: "u8 list \<Rightarrow> u8 list \<Rightarrow> int" where
  "strcasecmp_loop [] [] = 0"
| "strcasecmp_loop [] (d # ds) = - uint (tolower d)"
| "strcasecmp_loop (c # cs) [] = uint (tolower c)"
| "strcasecmp_loop (c # cs) (d # ds) =
     (if tolower c = tolower d then strcasecmp_loop cs ds else uint (tolower c) - uint (tolower d))"

definition cJSON_strcasecmp :: "u8 list option \<Rightarrow> u8 list option \<Rightarrow> int" where
  "cJSON_strcasecmp s1 s2 = (case (s1, s2) of
      (None, None) \<Rightarrow> 0 | (None, _) \<Rightarrow> 1 | (_, None) \<Rightarrow> 1 | (Some a, Some b) \<Rightarrow> strcasecmp_loop a b)"

definition cJSON_GetArraySize :: "'d cJSON \<Rightarrow> nat" where
  "cJSON_GetArraySize a = length (child a)"

definition cJSON_GetArrayItem :: "'d cJSON option \<Rightarrow> int \<Rightarrow> 'd cJSON option" where
  "cJSON_GetArrayItem a n = (case a of None \<Rightarrow> None
     | Some a \<Rightarrow> if nat n < length (child a) then Some (child a ! nat n) else None)"

definition cJSON_GetObjectItem :: "'d cJSON option \<Rightarrow> u8 list option \<Rightarrow> 'd cJSON option" where
  "cJSON_GetObjectItem object s = (case object of None \<Rightarrow> None
     | Some ob \<Rightarrow> find (\<lambda>c. cJSON_strcasecmp (jname (jf c)) s = 0) (child ob))"

definition cJSON_HasObjectItem :: "'d cJSON option \<Rightarrow> u8 list option \<Rightarrow> bool" where
  "cJSON_HasObjectItem object s = (cJSON_GetObjectItem object s \<noteq> None)"

end
