(* ===== verification/JsonParse.thy ===== *)
theory JsonParse
  imports Json
begin

text \<open>
  The reader of \<open>Json\<close> on terminated texts: it returns, within a fuel of the text's length, reads nothing behind the
  terminator, keeps account of its blocks and builds well-formed trees.
\<close>

section \<open>Text that ends\<close>

text \<open>A terminated text whose last character is not a backslash; \<open>tlen\<close> is its length.\<close>

definition tame :: "u8 list \<Rightarrow> bool" where
  "tame s = (0 \<in> set s \<and> (takeWhile (\<lambda>c. c \<noteq> 0) s = [] \<or> last (takeWhile (\<lambda>c. c \<noteq> 0) s) \<noteq> 92))"

definition tlen :: "u8 list \<Rightarrow> nat" where
  "tlen s = length (takeWhile (\<lambda>c. c \<noteq> 0) s)"

lemma tame_Nil [simp]: "\<not> tame []"
  by (simp add: tame_def)

lemma tame_Cons: "tame (c # s) \<longleftrightarrow> c = 0 \<or> tame s \<and> (c = 92 \<longrightarrow> hd s \<noteq> 0)"
  by (cases s) (auto simp: tame_def)

lemma tlen_Cons [simp]: "tlen (c # s) = (if c = 0 then 0 else Suc (tlen s))"
  by (simp add: tlen_def)

lemma tame_cases:
  assumes "tame s"
  obtains r where "s = 0 # r" | c r where "s = c # r" "c \<noteq> 0" "tame r" "c = 92 \<longrightarrow> hd r \<noteq> 0"
  using assms by (cases s) (auto simp: tame_Cons)

lemma tame_not_Nil: "tame s \<Longrightarrow> s \<noteq> []"
  by auto

lemma skip_tame: "tame s \<Longrightarrow> \<exists>s'. skip s = Some s' \<and> tame s' \<and> tlen s' \<le> tlen s"
  by (induction s) (auto simp: tame_Cons le_Suc_eq)

lemma digits_tame: "tame s \<Longrightarrow> \<exists>n' k' s'. digits fp n k s = Some (n', k', s') \<and> tame s' \<and> tlen s' \<le> tlen s"
  by (induction s arbitrary: n k) (auto simp: tame_Cons le_Suc_eq, metis+)

lemma digits_tame_first:
  assumes "tame s" "48 \<le> hd s" "hd s \<le> 57"
  obtains n' k' s' where "digits fp n k s = Some (n', k', s')" "tame s'" "tlen s' < tlen s"
proof -
  have "hd s \<noteq> 0" using assms(2) by auto
  then obtain c r where s: "s = c # r" "c \<noteq> 0" "tame r" using assms(1) by (cases s) (auto simp: tame_Cons)
  obtain n' k' s' where "digits fp (fp_add fp (fp_mul fp n (fp_lit fp 10)) (fp_lit fp (uint c - 48))) (Suc k) r = Some (n', k', s')"
    "tame s'" "tlen s' \<le> tlen r"
    using digits_tame [OF s(3), of fp "fp_add fp (fp_mul fp n (fp_lit fp 10)) (fp_lit fp (uint c - 48))" "Suc k"] by blast
  with s assms that [of n' k' s'] show ?thesis by simp
qed

lemma exponent_digits_tame: "tame s \<Longrightarrow> \<exists>n' s'. exponent_digits n s = Some (n', s') \<and> tame s' \<and> tlen s' \<le> tlen s"
  by (induction s arbitrary: n) (auto simp: tame_Cons le_Suc_eq, metis+)

lemma rd_tame: "tame s \<Longrightarrow> rd s 0 = Some (hd s)"
  by (cases s) (auto simp: rd_def)

lemma tl_tame: "tame s \<Longrightarrow> hd s \<noteq> 0 \<Longrightarrow> tame (tl s) \<and> tlen s = Suc (tlen (tl s))"
  by (cases s) (auto simp: tame_Cons)

lemma rd1_tame: "tame s \<Longrightarrow> hd s \<noteq> 0 \<Longrightarrow> rd s 1 = Some (hd (tl s))"
  by (cases s; cases "tl s") (auto simp: tame_Cons rd_def)

lemma parse_exponent_tame:
  "tame s \<Longrightarrow> \<exists>a b s'. parse_exponent s = Some (a, b, s') \<and> tame s' \<and> tlen s' \<le> tlen s"
proof -
  assume s: "tame s"
  show ?thesis
  proof (cases "hd s = 101 \<or> hd s = 69")
    case True
    then have t: "tame (tl s)" "tlen s = Suc (tlen (tl s))" using tl_tame [OF s] by auto
    define u where "u = (if hd (tl s) = 43 \<or> hd (tl s) = 45 then tl (tl s) else tl s)"
    have u: "tame u" "tlen u \<le> tlen (tl s)" using t(1) tl_tame [OF t(1)] by (auto simp: u_def)
    from exponent_digits_tame [OF u(1), of 0] obtain n v where
      "exponent_digits 0 u = Some (n, v)" "tame v" "tlen v \<le> tlen u" by blast
    with True s t u show ?thesis
      by (auto simp: parse_exponent_def rd_tame Let_def u_def split: if_splits)
  next
    case False
    with s show ?thesis by (simp add: parse_exponent_def rd_tame)
  qed
qed

lemma parse_number_tame:
  assumes s: "tame s" and hd: "hd s = 45 \<or> 48 \<le> hd s \<and> hd s \<le> 57"
  shows "\<exists>c r. parse_number fp item s = Some (c, r) \<and> tame r \<and> tlen r < tlen s"
proof -
  have nz: "hd s \<noteq> 0" using hd by auto
  define u where "u = (if hd s = 45 then tl s else s)"
  have u: "tame u" "tlen u \<le> tlen s" "hd s = 45 \<Longrightarrow> tlen u < tlen s"
    using s tl_tame [OF s nz] by (auto simp: u_def)
  define v where "v = (if hd u = 48 then tl u else u)"
  have v: "tame v" "tlen v \<le> tlen u" "hd u = 48 \<Longrightarrow> tlen v < tlen u"
    using u tl_tame [OF u(1)] by (auto simp: v_def)
  let ?D = "if 49 \<le> hd v \<and> hd v \<le> 57 then do { (n, _, num) \<leftarrow> digits fp (fp_lit fp 0) 0 v; Some (n, num) } else Some (fp_lit fp 0, v)"
  have "\<exists>n w. ?D = Some (n, w) \<and> tame w \<and> tlen w \<le> tlen v \<and> (49 \<le> hd v \<and> hd v \<le> 57 \<longrightarrow> tlen w < tlen v)"
  proof (cases "49 \<le> hd v \<and> hd v \<le> 57")
    case True
    then have "48 \<le> hd v" "hd v \<le> 57" by (auto simp: word_le_nat_alt)
    from digits_tame_first [OF v(1) this, of fp "fp_lit fp 0" 0] obtain n k w where
      "digits fp (fp_lit fp 0) 0 v = Some (n, k, w)" "tame w" "tlen w < tlen v" .
    with True show ?thesis by simp
  qed (use v in auto)
  then obtain n w where w: "?D = Some (n, w)" "tame w" "tlen w \<le> tlen v" "49 \<le> hd v \<and> hd v \<le> 57 \<longrightarrow> tlen w < tlen v"
    by blast
  let ?F = "if hd w = 46 then do { d \<leftarrow> rd w 1;
      if digit d then do { (n, k, num) \<leftarrow> digits fp n 0 (tl w); Some (n, - int k, num) } else Some (n, 0, w) } else Some (n, 0, w)"
  have "\<exists>n' k x. ?F = Some (n', k, x) \<and> tame x \<and> tlen x \<le> tlen w"
  proof (cases "hd w = 46")
    case True
    then have t: "tame (tl w)" "tlen w = Suc (tlen (tl w))" using tl_tame [OF w(2)] by auto
    from digits_tame [OF t(1), of fp n 0] obtain n' k x where
      "digits fp n 0 (tl w) = Some (n', k, x)" "tame x" "tlen x \<le> tlen (tl w)" by blast
    with True w(2) t show ?thesis by (simp add: rd1_tame del: One_nat_def)
  qed (use w in auto)
  then obtain n' k x where x: "?F = Some (n', k, x)" "tame x" "tlen x \<le> tlen w" by blast
  obtain a b y where y: "parse_exponent x = Some (a, b, y)" "tame y" "tlen y \<le> tlen x"
    using parse_exponent_tame [OF x(2)] by blast
  have e1: "(if hd s = 45 then (- 1, tl s) else (1, s)) = (if hd s = 45 then - 1 else 1 :: int, u)" by (simp add: u_def)
  have run: "\<exists>c. parse_number fp item s = Some (c, y)"
    unfolding parse_number_def Let_def rd_tame [OF s] Option.bind.simps e1 prod.case rd_tame [OF u(1)] v_def [symmetric] rd_tame [OF v(1)] w(1) rd_tame [OF w(2)] x(1) y(1)
    by simp
  have "hd s = 45 \<or> hd s = 48 \<or> 49 \<le> hd s \<and> hd s \<le> 57"
    using hd by (auto simp: word_le_nat_alt word_unat_eq_iff)
  then have "tlen y < tlen s"
    using y(3) x(3) w(3,4) v(2,3) u(2,3) by (auto simp: u_def v_def)
  with run y(2) show ?thesis by blast
qed

section \<open>Strings are read within their bounds\<close>

lemma scan_end_tame:
  "tame s \<Longrightarrow> \<exists>n l. scan_end s = Some (n, l) \<and> n \<le> tlen s \<and> tame (drop n s) \<and> hd (drop n s) \<in> {0, 34} \<and>
     tlen (drop n s) = tlen s - n"
proof (induction s rule: scan_end.induct)
  case (2 c cs)
  show ?case
  proof (cases "c = 34 \<or> c = 0")
    case True
    with 2 show ?thesis by (auto simp: tame_Cons)
  next
    case no: False
    show ?thesis
    proof (cases "c = 92")
      case True
      with 2(3) no obtain d ds where "cs = d # ds" "d \<noteq> 0" "tame ds" by (cases cs) (auto simp: tame_Cons)
      with 2(1) [OF no True] no True show ?thesis by fastforce
    next
      case False
      with 2(2) [OF no False] 2(3) no show ?thesis by (auto simp: tame_Cons)
    qed
  qed
qed simp

lemma scan_end_plain:
  "\<forall>d \<in> set ds. d \<notin> {0, 34, 92} \<Longrightarrow>
   scan_end (ds @ r) = map_option (\<lambda>(p, l). (p + length ds, l + length ds)) (scan_end r)"
  by (induction ds) (auto simp: option.map_comp comp_def case_prod_unfold prod.case_eq_if option.map_ident intro!: option.map_cong0)

lemma tame_plain: "\<forall>d \<in> set ds. d \<notin> {0, 92} \<Longrightarrow> tame (ds @ r) = tame r"
  by (induction ds) (auto simp: tame_Cons)

lemma hex_val_plain: "hex_val d \<noteq> None \<Longrightarrow> d \<notin> {0, 34, 92}"
  by (auto simp: hex_val_def)

lemma hex_digits_tame: "tame s \<Longrightarrow> \<exists>uc. hex_digits k h s = Some uc"
proof (induction k arbitrary: h s)
  case (Suc k)
  then obtain c cs where s: "s = c # cs" by (cases s) auto
  show ?case
  proof (cases "hex_val c")
    case (Some v)
    then have "tame cs" using Suc.prems hex_val_plain [of c] by (auto simp: s tame_Cons)
    with Suc.IH Some show ?thesis by (auto simp: s)
  qed (simp add: s)
qed simp

lemma hex_digits_nonzero:
  "hex_digits (Suc k) h s = Some uc \<Longrightarrow> uc \<noteq> 0 \<Longrightarrow>
   \<exists>ds r. s = ds @ r \<and> length ds = Suc k \<and> (\<forall>d \<in> set ds. d \<notin> {0, 34, 92})"
proof (induction k arbitrary: h s)
  case 0
  then obtain c cs where s: "s = c # cs" by (cases s) auto
  with 0 have "hex_val c \<noteq> None" by (auto split: option.splits)
  with hex_val_plain s show ?case by (intro exI [of _ "[c]"] exI [of _ cs]) auto
next
  case (Suc k)
  then obtain c cs where s: "s = c # cs" by (cases s) auto
  with Suc.prems obtain v where v: "hex_val c = Some v" by (cases "hex_val c") auto
  with Suc.prems s have "hex_digits (Suc k) (push_bit 4 (h + v)) cs = Some uc" by simp
  from Suc.IH [OF this Suc.prems(2)] obtain ds r where
    "cs = ds @ r" "length ds = Suc k" "\<forall>d \<in> set ds. d \<notin> {0, 34, 92}" by blast
  with s v hex_val_plain [of c] show ?case by (intro exI [of _ "c # ds"] exI [of _ r]) simp
qed

lemma parse_hex4_nonzero:
  assumes "parse_hex4 s = Some uc" "uc \<noteq> 0"
  obtains ds r where "s = ds @ r" "length ds = 4" "\<forall>d \<in> set ds. d \<notin> {0, 34, 92}"
proof -
  have "hex_digits (Suc 3) 0 s = Some uc" using assms(1) by (simp add: parse_hex4_def)
  from hex_digits_nonzero [OF this assms(2)] that show ?thesis by fastforce
qed

lemma length_utf8_tail [simp]: "length (snd (utf8_tail k uc out)) = k + length out"
  by (induction k arbitrary: uc out) auto

lemma length_utf8: "length (utf8 uc) = utf8_len uc"
proof -
  have "0 < utf8_len uc" by (simp add: utf8_len_def)
  then show ?thesis by (simp add: utf8_def Let_def case_prod_unfold)
qed

lemma length_utf8_le: "length (utf8 uc) \<le> 4"
  by (simp add: length_utf8 utf8_len_def)

text \<open>Four hexadecimal digits, as the scanner sees them.\<close>

lemma scan_hex4:
  assumes "scan_end s = Some (n, l)" "tame s" "parse_hex4 s = Some uc" "uc \<noteq> 0"
  shows "4 \<le> n \<and> 4 \<le> l \<and> scan_end (drop 4 s) = Some (n - 4, l - 4) \<and> tame (drop 4 s) \<and> drop (n - 4) (drop 4 s) = drop n s"
proof -
  obtain ds r where s: "s = ds @ r" "length ds = 4" "\<forall>d \<in> set ds. d \<notin> {0, 34, 92}"
    using parse_hex4_nonzero [OF assms(3,4)] .
  have "scan_end s = map_option (\<lambda>(p, l). (p + 4, l + 4)) (scan_end r)" using scan_end_plain [OF s(3), of r] s by simp
  moreover have "tame r" using tame_plain [of ds r] s assms(2) by auto
  ultimately show ?thesis using assms(1) s by auto
qed

lemma scan_step:
  assumes "scan_end s = Some (Suc m, l)" "tame s"
  obtains c r where "s = c # r" "c \<noteq> 92" "c \<noteq> 34" "c \<noteq> 0" "tame r" "scan_end r = Some (m, l - 1)" "0 < l"
    | d r where "s = 92 # d # r" "d \<noteq> 0" "tame r" "0 < m" "scan_end r = Some (m - 1, l - 1)" "0 < l"
proof -
  obtain c r where s: "s = c # r" using assms(2) by (cases s) auto
  have nz: "c \<noteq> 34" "c \<noteq> 0" using assms(1) s by (auto split: if_splits)
  show ?thesis
  proof (cases "c = 92")
    case True
    with assms s obtain d r' where r: "r = d # r'" "d \<noteq> 0" "tame r'"
      by (cases r) (auto simp: tame_Cons)
    with True assms(1) s nz that(2) [of d r'] show ?thesis by (auto split: if_splits)
  next
    case False
    with assms s nz that(1) [of c r] show ?thesis by (auto simp: tame_Cons)
  qed
qed

lemma unescape_tame:
  assumes "tame s" "scan_end s = Some (n, l)" "length out + l + 1 \<le> cap"
  shows "\<exists>out' r. unescape cap n s out = Some (out', r) \<and> length out' + 1 \<le> cap \<and> (r = None \<or> r = Some (drop n s))"
  using assms
proof (induction n arbitrary: s l out rule: less_induct)
  case (less n)
  show ?case
  proof (cases n)
    case 0
    with less.prems show ?thesis by auto
  next
    case (Suc m)
    from less.prems(2) Suc have sc: "scan_end s = Some (Suc m, l)" by simp
    from scan_step [OF sc less.prems(1)] show ?thesis
    proof cases
      case (1 c r)
      with less.IH [of m r "l - 1" "out @ [c]"] less.prems(3) Suc show ?thesis
        by (simp add: store_def)
    next
      case (2 d r)
      have room: "length (out @ [escape_code d]) + (l - 1) + 1 \<le> cap" using less.prems(3) 2(6) by simp
      have dm: "drop n s = drop (m - 1) r" using 2 Suc by (cases m) auto
      show ?thesis
      proof (cases "d = 117")
        case False
        with less.IH [OF _ 2(3,5) room] Suc 2 dm less.prems(3) show ?thesis
          by (simp add: store_def)
      next
        case u: True
        obtain uc where uc: "parse_hex4 r = Some uc"
          using hex_digits_tame [OF 2(3)] unfolding parse_hex4_def by blast
        let ?bad = "m \<le> 4 \<or> low_surrogate uc \<or> uc = 0"
        have out: "length out + 1 \<le> cap" using less.prems(3) by simp
        show ?thesis
        proof (cases ?bad)
          case True
          then show ?thesis using uc u 2 Suc out by auto
        next
          case ok: False
          note h = scan_hex4 [OF 2(5,3) uc]
          then have h: "4 \<le> m - 1" "4 \<le> l - 1" "scan_end (drop 4 r) = Some (m - 5, l - 5)" "tame (drop 4 r)"
            "drop (m - 5) (drop 4 r) = drop n s" using ok dm by (simp_all add: numeral_eq_Suc)
          show ?thesis
          proof (cases "high_surrogate uc")
            case False
            have "length (out @ utf8 uc) + (l - 5) + 1 \<le> cap" using less.prems(3) length_utf8_le [of uc] h(2) by simp
            from less.IH [OF _ h(4,3) this] show ?thesis
              using uc u 2 Suc ok False h less.prems(3) length_utf8_le [of uc] by (simp add: store_def)
          next
            case hi: True
            show ?thesis
            proof (cases "m < 10")
              case True
              then show ?thesis using uc u 2 Suc ok hi out by auto
            next
              case long: False
              obtain a t where t: "drop 4 r = a # t" "a \<noteq> 0"
                using h(3,4) long by (cases "drop 4 r") (auto split: if_splits)
              have b: "rd r 4 = Some a" using t(1) by (metis rd_def nth_via_drop drop_eq_Nil linorder_not_le list.discI)
              show ?thesis
              proof (cases "a = 92")
                case False
                then show ?thesis using uc u 2 Suc ok hi out long b by auto
              next
                case a: True
                obtain e v where v: "t = e # v" "e \<noteq> 0" "tame v" using h(4) t(1) a by (cases t) (auto simp: tame_Cons)
                have dv: "drop 6 r = v" "drop 5 r = e # v"
                  using t(1) v(1) drop_drop [of 2 4 r] drop_drop [of 1 4 r] by (simp_all add: numeral_eq_Suc)
                have e: "rd r 5 = Some e" using dv(2) by (metis rd_def nth_via_drop drop_eq_Nil linorder_not_le list.discI)
                show ?thesis
                proof (cases "e = 117")
                  case False
                  then show ?thesis using uc u 2 Suc ok hi out long b a e by auto
                next
                  case e117: True
                  obtain uc2 where uc2: "parse_hex4 v = Some uc2"
                    using hex_digits_tame [OF v(3)] unfolding parse_hex4_def by blast
                  show ?thesis
                  proof (cases "low_surrogate uc2")
                    case False
                    then show ?thesis using uc u 2 Suc ok hi out long b a e e117 uc2 dv by auto
                  next
                    case lo: True
                    then have nz: "uc2 \<noteq> 0" by (auto simp: low_surrogate_def)
                    have sv: "scan_end v = Some (m - 7, l - 6)" "2 \<le> m - 5" "0 < l - 5"
                      using h(3) long unfolding t(1) v(1) a by auto
                    note g = scan_hex4 [OF sv(1) v(3) uc2 nz]
                    let ?w = "0x10000 + (push_bit 10 (uc AND 0x3FF) OR (uc2 AND 0x3FF))"
                    have dr: "drop 4 v = drop 10 r" using dv(1) by (simp flip: dv(1))
                    have g': "scan_end (drop 10 r) = Some (m - 11, l - 10)" "tame (drop 10 r)" "4 \<le> m - 7" "4 \<le> l - 6"
                      using g dr by (simp_all add: numeral_eq_Suc)
                    have "drop n s = drop (m - 11) (drop 10 r)"
                      using dm g'(3) by (simp add: add.commute)
                    moreover have "length (out @ utf8 ?w) + (l - 10) + 1 \<le> cap"
                      using less.prems(3) length_utf8_le [of ?w] g'(4) by simp
                    from less.IH [OF _ g'(2,1) this]
                    have "\<exists>out' r'. unescape cap (m - 11) (drop 10 r) (out @ utf8 ?w) = Some (out', r') \<and>
                        length out' + 1 \<le> cap \<and> (r' = None \<or> r' = Some (drop (m - 11) (drop 10 r)))"
                      using Suc by simp
                    moreover have "length out + length (utf8 ?w) \<le> cap"
                      using less.prems(3) length_utf8_le [of ?w] g'(4) by simp
                    ultimately show ?thesis
                      using uc u 2 Suc ok hi out long b a e e117 uc2 dv lo by (simp add: store_def)
                  qed
                qed
              qed
            qed
          qed
        qed
      qed
    qed
  qed
qed

lemma parse_string_tame:
  assumes "tame s"
  shows "\<exists>c r st'. parse_string item s st = Some (c, r, st') \<and> (\<forall>r'. r = Some r' \<longrightarrow> tame r' \<and> tlen r' < tlen s)"
proof (cases "hd s = 34")
  case True
  then have t: "tame (tl s)" "tlen s = Suc (tlen (tl s))" using tl_tame [OF assms] by auto
  from scan_end_tame [OF t(1)] obtain n l where n: "scan_end (tl s) = Some (n, l)" "n \<le> tlen (tl s)"
    "tame (drop n (tl s))" "hd (drop n (tl s)) \<in> {0, 34}" "tlen (drop n (tl s)) = tlen (tl s) - n" by blast
  obtain out r where u: "unescape (l + 1) n (tl s) [] = Some (out, r)" "length out + 1 \<le> l + 1"
    "r = None \<or> r = Some (drop n (tl s))" using unescape_tame [OF t(1) n(1), of "[]" "l + 1"] by auto
  note run = rd_tame [OF assms] True n(1) u(1)
  obtain ok st1 where m: "cJSON_malloc st = (ok, st1)" by fastforce
  show ?thesis
  proof (cases "ok \<and> r \<noteq> None")
    case False
    with run m show ?thesis by (auto simp: parse_string_def)
  next
    case T: True
    then have r: "r = Some (drop n (tl s))" using u(3) by auto
    have "hd (drop n (tl s)) = 34 \<Longrightarrow> tame (tl (drop n (tl s))) \<and> tlen (drop n (tl s)) = Suc (tlen (tl (drop n (tl s))))"
      using tl_tame [OF n(3)] by auto
    with run m T r rd_tame [OF n(3)] n(3,5) t(2) u(2) show ?thesis
      by (auto simp: parse_string_def store_def)
  qed
qed (use assms rd_tame in \<open>auto simp: parse_string_def\<close>)

section \<open>Every call returns\<close>

lemma strncmp_eq_tame: "tame s \<Longrightarrow> 0 \<notin> set ls \<Longrightarrow> 92 \<notin> set ls \<Longrightarrow> \<exists>b. strncmp_eq ls s = Some b"
proof (induction ls s rule: strncmp_eq.induct)
  case (3 l ls c cs)
  then show ?case by (cases "c = l") (auto simp: tame_Cons)
qed auto

lemma strncmp_eq_prefix: "strncmp_eq ls s = Some True \<Longrightarrow> \<exists>r. s = ls @ r"
  by (induction ls s rule: strncmp_eq.induct) (auto split: if_splits)

lemma tame_append: "0 \<notin> set ls \<Longrightarrow> 92 \<notin> set ls \<Longrightarrow> tame (ls @ r) = tame r"
  using tame_plain [of ls r] by auto

lemma tlen_append: "0 \<notin> set ls \<Longrightarrow> tlen (ls @ r) = length ls + tlen r"
  by (induction ls) auto

lemma literal_tame:
  assumes "strncmp_eq ls s = Some True" "tame s" "0 \<notin> set ls" "92 \<notin> set ls" "ls \<noteq> []" "n = length ls"
  shows "tame (drop n s) \<and> tlen (drop n s) < tlen s"
  using strncmp_eq_prefix [OF assms(1)] assms(2-) by (auto simp: tame_append tlen_append)

definition leaves :: "u8 list \<Rightarrow> u8 list option \<Rightarrow> bool" where
  "leaves s r = (\<forall>r'. r = Some r' \<longrightarrow> tame r' \<and> tlen r' < tlen s)"

text \<open>A parser that returns on every tame text shorter than its bound, and consumes something when it succeeds.\<close>

locale returning =
  fixes pv :: "'d item_parser" and bound :: nat
  assumes returns: "tame s \<Longrightarrow> tlen s < bound \<Longrightarrow> \<exists>c r st'. pv item s st = Some (c, r, st') \<and> leaves s r"
begin

lemma array_items_returns:
  "tame s \<Longrightarrow> tlen s < bound \<Longrightarrow> tlen s < k \<Longrightarrow>
   \<exists>cs' r st'. array_items k fp pv cs s st = Some (cs', r, st') \<and> leaves s r"
proof (induction k arbitrary: cs s st)
  case (Suc k)
  obtain i st1 where new: "cJSON_New_Item fp st = (i, st1)" by fastforce
  show ?case
  proof (cases i)
    case None
    with new show ?thesis by (simp add: leaves_def)
  next
    case (Some c)
    obtain u where u: "skip s = Some u" "tame u" "tlen u \<le> tlen s" using skip_tame [OF Suc.prems(1)] by blast
    obtain c' r st2 where p: "pv c u st1 = Some (c', r, st2)" "leaves u r"
      using returns [OF u(2)] u(3) Suc.prems(2) by (meson le_less_trans)
    show ?thesis
    proof (cases r)
      case None
      with new Some u p show ?thesis by (simp add: leaves_def)
    next
      case r: (Some v)
      with p(2) have v: "tame v" "tlen v < tlen u" by (auto simp: leaves_def)
      obtain w where w: "skip v = Some w" "tame w" "tlen w \<le> tlen v" using skip_tame [OF v(1)] by blast
      note run = new Some u(1) p(1) r w(1) rd_tame [OF w(2)]
      show ?thesis
      proof (cases "hd w = 44")
        case True
        then have t: "tame (tl w)" "tlen w = Suc (tlen (tl w))" using tl_tame [OF w(2)] by auto
        have "tlen (tl w) < bound" "tlen (tl w) < k" "tlen (tl w) < tlen s"
          using t(2) w(3) v(2) u(3) Suc.prems by linarith+
        with Suc.IH [OF t(1), of "cs @ [c']" st2] run True show ?thesis by (fastforce simp: leaves_def)
      next
        case False
        with run w v u show ?thesis by (auto simp: leaves_def)
      qed
    qed
  qed
qed simp

lemma object_item_returns: "returning (object_item fp pv) bound"
proof
  fix s :: "u8 list" and item :: "'d cJSON" and st :: jst
  assume s: "tame s" "tlen s < bound"
  obtain c r st1 where p: "parse_string item s st = Some (c, r, st1)" "\<forall>r'. r = Some r' \<longrightarrow> tame r' \<and> tlen r' < tlen s"
    using parse_string_tame [OF s(1)] by blast
  show "\<exists>c r st'. object_item fp pv item s st = Some (c, r, st') \<and> leaves s r"
  proof (cases r)
    case None
    with p show ?thesis by (simp add: object_item_def leaves_def)
  next
    case (Some v)
    with p(2) have v: "tame v" "tlen v < tlen s" by auto
    obtain w where w: "skip v = Some w" "tame w" "tlen w \<le> tlen v" using skip_tame [OF v(1)] by blast
    note run = p(1) Some w(1) rd_tame [OF w(2)]
    show ?thesis
    proof (cases "hd w = 58")
      case True
      then have t: "tame (tl w)" "tlen w = Suc (tlen (tl w))" using tl_tame [OF w(2)] by auto
      obtain x where x: "skip (tl w) = Some x" "tame x" "tlen x \<le> tlen (tl w)" using skip_tame [OF t(1)] by blast
      then have "tlen x < bound" "tlen x < tlen s" using t(2) w(3) v(2) s(2) by linarith+
      with returns [OF x(2), of "name_from_value c" st1] run True x(1) show ?thesis
        by (fastforce simp: object_item_def leaves_def)
    next
      case False
      with run show ?thesis by (simp add: object_item_def leaves_def)
    qed
  qed
qed

end

lemma parse_chain_returns:
  assumes items: "\<And>s st. tame s \<Longrightarrow> tlen s < k \<Longrightarrow> \<exists>cs r st'. items [] s st = Some (cs, r, st') \<and> leaves s r"
    and s: "tame s" "tlen s \<le> k" and c: "open_c \<noteq> 0" "close_c \<noteq> 0"
  shows "\<exists>c r st'. parse_chain open_c close_c typ items item s st = Some (c, r, st') \<and> leaves s r"
proof (cases "hd s = open_c")
  case False
  with rd_tame [OF s(1)] show ?thesis by (simp add: parse_chain_def leaves_def)
next
  case True
  then have t: "tame (tl s)" "tlen s = Suc (tlen (tl s))" using tl_tame [OF s(1)] c by auto
  obtain u where u: "skip (tl s) = Some u" "tame u" "tlen u \<le> tlen (tl s)" using skip_tame [OF t(1)] by blast
  note run = rd_tame [OF s(1)] True u(1) rd_tame [OF u(2)]
  show ?thesis
  proof (cases "hd u = close_c")
    case True
    with run tl_tame [OF u(2)] c u(3) t(2) show ?thesis by (simp add: parse_chain_def leaves_def)
  next
    case more: False
    have "tlen u < k" using u(3) t(2) s(2) by linarith
    then obtain cs r st1 where i: "items [] u st = Some (cs, r, st1)" "leaves u r" using items [OF u(2)] by blast
    show ?thesis
    proof (cases r)
      case None
      with run more i show ?thesis by (simp add: parse_chain_def leaves_def Let_def)
    next
      case (Some v)
      with i(2) have v: "tame v" "tlen v < tlen u" by (auto simp: leaves_def)
      with run more i Some rd_tame [OF v(1)] tl_tame [OF v(1)] c u(3) t(2) show ?thesis
        by (cases "hd v = close_c") (simp_all add: parse_chain_def leaves_def Let_def)
    qed
  qed
qed

lemma parse_value_step:
  assumes "tame s"
  shows "(\<exists>c r st'. parse_value (Suc f) fp item s st = Some (c, r, st') \<and> leaves s r)
    \<or> hd s = 91 \<and> parse_value (Suc f) fp item s st = parse_array f fp (parse_value f fp) item s st
    \<or> hd s = 123 \<and> parse_value (Suc f) fp item s st = parse_object f fp (parse_value f fp) item s st"
proof -
  obtain b1 b2 b3 where b: "strncmp_eq (bytes ''null'') s = Some b1" "strncmp_eq (bytes ''false'') s = Some b2"
    "strncmp_eq (bytes ''true'') s = Some b3"
    using strncmp_eq_tame [OF assms, of "bytes ''null''"] strncmp_eq_tame [OF assms, of "bytes ''false''"]
      strncmp_eq_tame [OF assms, of "bytes ''true''"] by auto
  have lit: "0 \<notin> set (bytes ''null'')" "92 \<notin> set (bytes ''null'')" "0 \<notin> set (bytes ''false'')" "92 \<notin> set (bytes ''false'')"
    "0 \<notin> set (bytes ''true'')" "92 \<notin> set (bytes ''true'')" by simp_all
  have len: "4 = length (bytes ''null'')" "5 = length (bytes ''false'')" "4 = length (bytes ''true'')" by (simp_all only: bytes_simps) simp_all
  then have ne: "bytes ''null'' \<noteq> []" "bytes ''false'' \<noteq> []" "bytes ''true'' \<noteq> []" by (simp_all add: bytes_def)
  have l: "b1 \<Longrightarrow> leaves s (Some (drop 4 s))" "b2 \<Longrightarrow> leaves s (Some (drop 5 s))" "b3 \<Longrightarrow> leaves s (Some (drop 4 s))"
    unfolding leaves_def
    using literal_tame [OF _ assms lit(1,2) ne(1) len(1)] literal_tame [OF _ assms lit(3,4) ne(2) len(2)]
      literal_tame [OF _ assms lit(5,6) ne(3) len(3)] b by (simp_all del: bytes_simps)
  note run = b rd_tame [OF assms]
  consider "b1" | "\<not> b1" "b2" | "\<not> b1" "\<not> b2" "b3" | "\<not> b1" "\<not> b2" "\<not> b3" by blast
  then show ?thesis
  proof cases
    case 4
    note run = run 4
    show ?thesis
    proof (cases "hd s = 34")
      case True
      with run parse_string_tame [OF assms, of item st] show ?thesis by (auto simp: leaves_def simp del: bytes_simps)
    next
      case str: False
      show ?thesis
      proof (cases "hd s = 45 \<or> 48 \<le> hd s \<and> hd s \<le> 57")
        case True
        obtain c r where "parse_number fp item s = Some (c, r)" "tame r" "tlen r < tlen s"
          using parse_number_tame [OF assms True, of fp item] by blast
        with run str True show ?thesis by (simp add: leaves_def del: bytes_simps)
      next
        case False
        with run str show ?thesis by (auto simp: leaves_def simp del: bytes_simps)
      qed
    qed
  qed (use run l in \<open>simp_all del: bytes_simps\<close>)
qed

lemma parse_value_returning: "returning (parse_value f fp) f"
proof (induction f)
  case 0
  show ?case by unfold_locales simp
next
  case (Suc f)
  note arr = returning.array_items_returns [OF Suc]
    and obj = returning.array_items_returns [OF returning.object_item_returns [OF Suc]]
  show ?case
  proof
    fix s :: "u8 list" and item :: "'a cJSON" and st :: jst
    assume s: "tame s" "tlen s < Suc f"
    then have f: "tlen s \<le> f" by simp
    have "\<exists>c r st'. parse_array f fp (parse_value f fp) item s st = Some (c, r, st') \<and> leaves s r"
      unfolding parse_array_def by (rule parse_chain_returns [OF _ s(1) f]; (rule arr)?; simp)
    moreover have "\<exists>c r st'. parse_object f fp (parse_value f fp) item s st = Some (c, r, st') \<and> leaves s r"
      unfolding parse_object_def object_items_def by (rule parse_chain_returns [OF _ s(1) f]; (rule obj)?; simp)
    ultimately show "\<exists>c r st'. parse_value (Suc f) fp item s st = Some (c, r, st') \<and> leaves s r"
      using parse_value_step [OF s(1), of f fp item st] by metis
  qed
qed

interpretation pval: returning "parse_value f fp" f for f fp
  by (rule parse_value_returning)

text \<open>C5: The reader always returns.  On every terminated text that does not end in a backslash, with the
  stack depth and loop counts bounded by the text's length, \<open>cJSON_Parse\<close> reads and writes only inside its
  memory and comes back, whatever the text is and whichever allocations fail.\<close>

theorem cJSON_Parse_returns:
  assumes "tame text" "tlen text < f"
  shows "\<exists>r st'. cJSON_Parse f fp text st = Some (r, st')"
proof -
  obtain i st1 where new: "cJSON_New_Item fp st = (i, st1)" by fastforce
  show ?thesis
  proof (cases i)
    case None
    with new show ?thesis by (simp add: cJSON_Parse_def cJSON_ParseWithOpts_def)
  next
    case (Some c)
    obtain u where u: "skip text = Some u" "tame u" "tlen u \<le> tlen text" using skip_tame [OF assms(1)] by blast
    then have "tlen u < f" using assms(2) by simp
    from pval.returns [OF u(2) this, of fp c "st1\<lparr>ep := None\<rparr>"] obtain c' r st2 where
      "parse_value f fp c u (st1\<lparr>ep := None\<rparr>) = Some (c', r, st2)" by blast
    with new Some u(1) show ?thesis
      by (auto simp: cJSON_Parse_def cJSON_ParseWithOpts_def split: option.split)
  qed
qed

definition fp0 :: "int fp" where
  "fp0 = \<lparr>fp_lit = id, fp_add = (+), fp_mul = (*), fp_pow10 = (\<lambda>e. 10 ^ nat e), fp_int = id\<rparr>"

definition fresh_jst :: jst where
  "fresh_jst = \<lparr>grants = [], blocks = 0, ep = None\<rparr>"

lemma cJSON_Parse_returns_witness:
  "\<exists>r st'. cJSON_Parse 5 fp0 (bytes ''[1,}'' @ [0]) fresh_jst = Some (r, st')"
  by (rule cJSON_Parse_returns) (simp_all add: tame_Cons)

text \<open>The defect behind the side condition: a string that ends in a backslash makes the scanner step over the
  terminator, and with nothing but the terminator behind it the reader leaves the text, whatever the fuel.\<close>

theorem cJSON_Parse_overread:
  assumes "34 \<notin> set t" "92 \<notin> set t" "0 \<notin> set t" "grants st = []"
  shows "cJSON_Parse f fp (34 # t @ [92, 0]) st = None"
proof -
  have "\<forall>d \<in> set t. d \<notin> {0, 34, 92}" using assms by auto
  from scan_end_plain [OF this, of "[92, 0]"] have scan: "scan_end (t @ [92, 0]) = None" by simp
  have new: "cJSON_New_Item fp st = (Some (zeroed fp), st\<lparr>blocks := Suc (blocks st)\<rparr>)"
    using assms(4) by (simp add: cJSON_New_Item_def cJSON_malloc_def)
  show ?thesis
  proof (cases f)
    case 0
    then show ?thesis using new by (simp add: cJSON_Parse_def cJSON_ParseWithOpts_def)
  next
    case (Suc f')
    with new scan show ?thesis
      by (simp add: cJSON_Parse_def cJSON_ParseWithOpts_def parse_string_def rd_def)
  qed
qed

lemma cJSON_Parse_overread_witness: "cJSON_Parse 100 fp0 (34 # bytes ''abc'' @ [92, 0]) fresh_jst = None"
  by (rule cJSON_Parse_overread) (simp_all add: fresh_jst_def)

section \<open>Trees and blocks\<close>

text \<open>A well-formed tree: one of the seven types, a string value exactly in strings, children only in arrays and
  objects, named exactly in objects.\<close>

fun wf_json :: "'d cJSON \<Rightarrow> bool" where
  "wf_json (Item f cs) =
     (jtype f \<in> {cJSON_False, cJSON_True, cJSON_NULL, cJSON_Number, cJSON_String, cJSON_Array, cJSON_Object} \<and>
      (valuestring f \<noteq> None \<longleftrightarrow> jtype f = cJSON_String) \<and>
      (cs \<noteq> [] \<longrightarrow> jtype f \<in> {cJSON_Array, cJSON_Object}) \<and>
      (\<forall>c \<in> set cs. wf_json c \<and> (jname (jf c) \<noteq> None \<longleftrightarrow> jtype f = cJSON_Object)))"

fun flagless :: "'d cJSON \<Rightarrow> bool" where
  "flagless (Item f cs) = (jtype f < 256 \<and> (\<forall>c \<in> set cs. flagless c))"

definition opt_block :: "u8 list option \<Rightarrow> nat" where
  "opt_block s = (if s = None then 0 else 1)"

lemma small_no_flag: "(n :: nat) < 256 \<Longrightarrow> \<not> bit n 8 \<and> \<not> bit n 9"
  by (simp add: bit_nat_iff bit_iff_odd)

lemma owned_flagless:
  "jtype f < 256 \<Longrightarrow> owned (Item f cs) = sum_list (map owned cs) + opt_block (valuestring f) + opt_block (jname f) + 1"
  using small_no_flag [of "jtype f"] by (simp add: opt_block_def)

text \<open>An item a parser may fill: no children, no value.\<close>

definition blank :: "'d cJSON \<Rightarrow> bool" where
  "blank c = (child c = [] \<and> valuestring (jf c) = None \<and> jtype (jf c) < 256)"

text \<open>What a parser makes of it: the name stays, the tree has no flags, the heap grows by the tree.\<close>

definition fills :: "'d cJSON \<Rightarrow> jst \<Rightarrow> 'd cJSON \<Rightarrow> jst \<Rightarrow> bool" where
  "fills c st c' st' = (flagless c' \<and> blocks st' + owned c = blocks st + owned c')"

lemma malloc_blocks: "cJSON_malloc st = (ok, st') \<Longrightarrow> blocks st' = blocks st + (if ok then 1 else 0)"
  by (auto simp: cJSON_malloc_def split: list.splits)

lemma new_item_blocks:
  "cJSON_New_Item fp st = (i, st') \<Longrightarrow>
     (case i of None \<Rightarrow> blocks st' = blocks st | Some c \<Rightarrow> c = zeroed fp \<and> blocks st' = blocks st + 1)"
  using malloc_blocks by (fastforce simp: cJSON_New_Item_def split: prod.splits)

lemma zeroed_blank: "blank (zeroed fp)" "owned (zeroed fp) = 1" "jname (jf (zeroed fp)) = None"
  by (simp_all add: zeroed_def blank_def)

lemma parse_number_fills:
  assumes "blank c" "parse_number fp c s = Some (c', r)"
  shows "fills c st c' st \<and> wf_json c' \<and> jname (jf c') = jname (jf c)"
proof -
  obtain n k where c': "c' = Item ((jf c)\<lparr>valuedouble := n, valueint := k, jtype := 8\<rparr>) (child c)"
    using assms(2) by (auto simp: parse_number_def Let_def split: bind_splits if_splits)
  then show ?thesis
    using assms(1) by (cases c) (simp add: blank_def fills_def owned_flagless del: owned.simps)
qed

lemma parse_string_fills:
  assumes "blank c" "parse_string c s st = Some (c', r, st')"
  shows "fills c st c' st' \<and> jname (jf c') = jname (jf c) \<and> child c' = [] \<and>
    (r \<noteq> None \<longrightarrow> wf_json c' \<and> valuestring (jf c') \<noteq> None)"
proof -
  have keep: "fills c st c (st\<lparr>ep := e\<rparr>)" for st e
    using assms(1) by (cases c) (simp add: blank_def fills_def)
  have keep2: "cJSON_malloc st = (False, st1) \<Longrightarrow> fills c st c st1" for st1
    using assms(1) malloc_blocks [of st False st1] by (cases c) (simp add: blank_def fills_def)
  have new: "fills c st (Item ((jf c)\<lparr>valuestring := Some out, jtype := 16\<rparr>) (child c)) st2"
    if "cJSON_malloc st = (True, st1)" "blocks st2 = blocks st1" for out st1 st2
    using assms(1) malloc_blocks [OF that(1)] that(2)
    by (cases c) (simp add: blank_def fills_def owned_flagless opt_block_def del: owned.simps)
  show ?thesis
    using assms keep keep2 new
    by (auto simp: parse_string_def Let_def blank_def split: bind_splits if_splits prod.splits option.splits)
qed

text \<open>The contract of the item parsers: \<open>pre\<close> holds of the item handed in, \<open>post\<close> of it after success.\<close>

locale item_parser =
  fixes pv :: "'d item_parser" and pre post :: "'d cJSON \<Rightarrow> bool"
  assumes filled: "pre c \<Longrightarrow> pv c s st = Some (c', r, st') \<Longrightarrow> fills c st c' st' \<and> (r \<noteq> None \<longrightarrow> post c')"
begin

lemma array_items_fill:
  assumes "\<And>fp. pre (zeroed fp)"
  shows "array_items k fp pv cs s st = Some (cs', r, st') \<Longrightarrow>
    \<exists>ds. cs' = cs @ ds \<and> (\<forall>d \<in> set ds. flagless d) \<and> blocks st' = blocks st + sum_list (map owned ds) \<and>
      (r \<noteq> None \<longrightarrow> (\<forall>d \<in> set ds. post d))"
proof (induction k arbitrary: cs s st)
  case (Suc k)
  obtain i st1 where new: "cJSON_New_Item fp st = (i, st1)" by fastforce
  show ?case
  proof (cases i)
    case None
    with Suc.prems new new_item_blocks [OF new] show ?thesis by auto
  next
    case (Some c)
    with new_item_blocks [OF new] have c: "c = zeroed fp" "blocks st1 = blocks st + 1" by auto
    from Suc.prems new Some obtain u c1 r1 st2 where p: "skip s = Some u" "pv c u st1 = Some (c1, r1, st2)"
      by (auto split: bind_splits)
    have f: "flagless c1" "blocks st2 = blocks st + owned c1" "r1 \<noteq> None \<longrightarrow> post c1"
      using filled [OF _ p(2)] assms c zeroed_blank(2) [of fp] by (auto simp: fills_def)
    show ?thesis
    proof (cases r1)
      case None
      with Suc.prems new Some p f show ?thesis by auto
    next
      case r1: (Some v)
      with Suc.prems new Some p obtain w b where w: "skip v = Some w" "rd w 0 = Some b" by (auto simp: Let_def split: bind_splits)
      show ?thesis
      proof (cases "b = 44")
        case True
        with Suc.prems new Some p r1 w have "array_items k fp pv (cs @ [c1]) (tl w) st2 = Some (cs', r, st')" by simp
        from Suc.IH [OF this] f r1 show ?thesis by fastforce
      next
        case False
        with Suc.prems new Some p r1 w f show ?thesis by auto
      qed
    qed
  qed
qed simp

end

text \<open>\<open>nameless\<close> items fill arrays, \<open>named\<close> ones objects.\<close>

definition nameless :: "'d cJSON \<Rightarrow> bool" where
  "nameless c = (wf_json c \<and> jname (jf c) = None)"

definition named :: "'d cJSON \<Rightarrow> bool" where
  "named c = (wf_json c \<and> jname (jf c) \<noteq> None)"

text \<open>The stronger contract of \<open>parse_value\<close>, which keeps the name whatever it is.\<close>

definition value_parser :: "'d item_parser \<Rightarrow> bool" where
  "value_parser pv = (\<forall>c s st c' r st'. blank c \<longrightarrow> pv c s st = Some (c', r, st') \<longrightarrow>
     fills c st c' st' \<and> jname (jf c') = jname (jf c) \<and> (r \<noteq> None \<longrightarrow> wf_json c'))"

lemma value_parserD:
  "value_parser pv \<Longrightarrow> blank c \<Longrightarrow> pv c s st = Some (c', r, st') \<Longrightarrow>
     fills c st c' st' \<and> jname (jf c') = jname (jf c) \<and> (r \<noteq> None \<longrightarrow> wf_json c')"
  unfolding value_parser_def by blast

lemma value_parser_nameless: "value_parser pv \<Longrightarrow> item_parser pv (\<lambda>c. blank c \<and> jname (jf c) = None) nameless"
  by unfold_locales (metis value_parserD nameless_def)

lemma object_item_fills:
  assumes pv: "value_parser pv" and c: "blank c" "jname (jf c) = None"
    and run: "object_item fp pv c s st = Some (c', r, st')"
  shows "fills c st c' st' \<and> (r \<noteq> None \<longrightarrow> named c')"
proof -
  from run obtain c1 r1 st1 where p: "parse_string c s st = Some (c1, r1, st1)"
    by (auto simp: object_item_def split: bind_splits)
  note s = parse_string_fills [OF c(1) p]
  show ?thesis
  proof (cases r1)
    case None
    with run p s show ?thesis by (auto simp: object_item_def)
  next
    case (Some v)
    let ?n = "name_from_value c1"
    from s Some c(2) have n: "blank ?n" "owned ?n = owned c1" "jname (jf ?n) \<noteq> None" "flagless ?n"
      by (cases c1; auto simp: name_from_value_def blank_def fills_def owned_flagless opt_block_def simp del: owned.simps)+
    from run p Some obtain w b where w: "skip v = Some w" "rd w 0 = Some b"
      by (auto simp: object_item_def Let_def split: bind_splits)
    show ?thesis
    proof (cases "b = 58")
      case False
      with run p Some w s n show ?thesis by (auto simp: object_item_def fills_def)
    next
      case True
      with run p Some w obtain x where x: "skip (tl w) = Some x" "pv ?n x st1 = Some (c', r, st')"
        by (auto simp: object_item_def split: bind_splits)
      from value_parserD [OF pv n(1) x(2)] n s show ?thesis by (auto simp: fills_def named_def)
    qed
  qed
qed

lemma value_parser_named: "value_parser pv \<Longrightarrow> item_parser (object_item fp pv) (\<lambda>c. blank c \<and> jname (jf c) = None) named"
  by unfold_locales (metis object_item_fills)

lemma parse_chain_fills:
  assumes c: "blank c" and ty: "ty = cJSON_Array \<and> P = nameless \<or> ty = cJSON_Object \<and> P = named"
    and items: "\<And>s st cs r st'. items [] s st = Some (cs, r, st') \<Longrightarrow>
      (\<forall>d \<in> set cs. flagless d) \<and> blocks st' = blocks st + sum_list (map owned cs) \<and> (r \<noteq> None \<longrightarrow> (\<forall>d \<in> set cs. P d))"
    and run: "parse_chain oc cc ty items c s st = Some (c', r, st')"
  shows "fills c st c' st' \<and> jname (jf c') = jname (jf c) \<and> (r \<noteq> None \<longrightarrow> wf_json c')"
proof -
  have t: "ty < 256" using ty by auto
  have filled: "fills c st (set_child cs (set_type ty c)) st2 \<and> jname (jf (set_child cs (set_type ty c))) = jname (jf c)"
    if "\<forall>d \<in> set cs. flagless d" "blocks st2 = blocks st + sum_list (map owned cs)" for cs st2
    using that t c by (cases c) (simp add: fills_def blank_def set_child_def set_type_def owned_flagless del: owned.simps)
  have wf: "wf_json (set_child cs (set_type ty c))" if "\<forall>d \<in> set cs. P d" for cs
    using that ty c by (cases c) (auto simp: blank_def set_child_def set_type_def nameless_def named_def)
  have set0: "set_child [] (set_type ty c) = set_type ty c"
    using c by (cases c) (simp add: blank_def set_child_def set_type_def)
  from run obtain b where b: "rd s 0 = Some b" by (auto simp: parse_chain_def split: bind_splits)
  show ?thesis
  proof (cases "b = oc")
    case False
    with run b c show ?thesis by (cases c) (auto simp: parse_chain_def fills_def blank_def)
  next
    case True
    with run b obtain u d where u: "skip (tl s) = Some u" "rd u 0 = Some d"
      by (auto simp: parse_chain_def Let_def split: bind_splits)
    show ?thesis
    proof (cases "d = cc")
      case True
      with run b \<open>b = oc\<close> u filled [of "[]" st] wf [of "[]"] set0 show ?thesis by (auto simp: parse_chain_def)
    next
      case more: False
      with run b \<open>b = oc\<close> u obtain cs r1 st1 where i: "items [] u st = Some (cs, r1, st1)"
        by (auto simp: parse_chain_def split: bind_splits)
      note f = items [OF i]
      have st1: "fills c st (set_child cs (set_type ty c)) (st1\<lparr>ep := e\<rparr>)" for e
        using filled [of cs "st1\<lparr>ep := e\<rparr>"] f by simp
      show ?thesis
        using run b \<open>b = oc\<close> u more i f filled [of cs st1] wf [of cs] st1
        by (auto simp: parse_chain_def Let_def split: bind_splits if_splits option.splits)
    qed
  qed
qed

lemma parse_value_cases:
  assumes "parse_value (Suc f) fp c s st = Some (c', r, st')"
  shows "(c' = set_type 4 c \<or> c' = set_type 1 c \<or> c' = Item ((jf c)\<lparr>jtype := 2, valueint := 1\<rparr>) (child c)) \<and> st' = st
    \<or> parse_string c s st = Some (c', r, st')
    \<or> (\<exists>r'. parse_number fp c s = Some (c', r') \<and> st' = st)
    \<or> parse_array f fp (parse_value f fp) c s st = Some (c', r, st')
    \<or> parse_object f fp (parse_value f fp) c s st = Some (c', r, st')
    \<or> c' = c \<and> st' = st\<lparr>ep := Some s\<rparr> \<and> r = None"
proof -
  from assms obtain b1 where 1: "strncmp_eq (bytes ''null'') s = Some b1" by (auto simp del: bytes_simps split: bind_splits)
  show ?thesis
  proof (cases b1)
    case True
    with assms 1 show ?thesis by (simp del: bytes_simps)
  next
    case b1: False
    from assms 1 b1 obtain b2 where 2: "strncmp_eq (bytes ''false'') s = Some b2"
      by (auto simp del: bytes_simps split: bind_splits)
    show ?thesis
    proof (cases b2)
      case True
      with assms 1 b1 2 show ?thesis by (simp del: bytes_simps)
    next
      case b2: False
      from assms 1 b1 2 b2 obtain b3 where 3: "strncmp_eq (bytes ''true'') s = Some b3"
        by (auto simp del: bytes_simps split: bind_splits)
      show ?thesis
      proof (cases b3)
        case True
        with assms 1 b1 2 b2 3 show ?thesis by (simp del: bytes_simps)
      next
        case False
        with assms 1 b1 2 b2 3 obtain d where d: "rd s 0 = Some d"
          by (auto simp del: bytes_simps split: bind_splits)
        have num: "parse_number fp c s \<bind> (\<lambda>(item, r). Some (item, Some r, st)) = Some (c', r, st') \<Longrightarrow>
          \<exists>r'. parse_number fp c s = Some (c', r') \<and> st' = st" by (auto split: bind_splits)
        show ?thesis
          using assms False 1 b1 2 b2 3 d num by (simp del: bytes_simps split: if_splits)
      qed
    qed
  qed
qed

lemma set_type_fills:
  "blank c \<Longrightarrow> t \<in> {1, 2, 4} \<Longrightarrow> c' = Item ((jf c)\<lparr>jtype := t, valueint := v\<rparr>) (child c) \<Longrightarrow>
     fills c st c' st \<and> jname (jf c') = jname (jf c) \<and> wf_json c'"
  by (cases c) (auto simp: blank_def fills_def owned_flagless simp del: owned.simps)

lemma set_type_alt: "set_type t c = Item ((jf c)\<lparr>jtype := t, valueint := valueint (jf c)\<rparr>) (child c)"
  by (simp add: set_type_def)

lemma parse_value_value_parser: "value_parser (parse_value f fp)"
proof (induction f)
  case 0
  show ?case by (simp add: value_parser_def)
next
  case (Suc f)
  have z: "blank (zeroed fp) \<and> jname (jf (zeroed fp)) = None" for fp :: "'a fp" by (simp add: zeroed_blank)
  note arr = item_parser.array_items_fill [OF value_parser_nameless [OF Suc] z]
    and obj = item_parser.array_items_fill [OF value_parser_named [OF Suc] z]
  show ?case
    unfolding value_parser_def
  proof (intro allI impI)
    fix c c' :: "'a cJSON" and s r st st'
    assume c: "blank c" and run: "parse_value (Suc f) fp c s st = Some (c', r, st')"
    from parse_value_cases [OF run]
    show "fills c st c' st' \<and> jname (jf c') = jname (jf c) \<and> (r \<noteq> None \<longrightarrow> wf_json c')"
    proof (elim disjE conjE exE)
      assume "c' = set_type 4 c" "st' = st"
      from set_type_fills [OF c _ trans [OF this(1) set_type_alt], of st] this(2) show ?thesis by simp
    next
      assume "c' = set_type 1 c" "st' = st"
      from set_type_fills [OF c _ trans [OF this(1) set_type_alt], of st] this(2) show ?thesis by simp
    next
      assume "c' = Item ((jf c)\<lparr>jtype := 2, valueint := 1\<rparr>) (child c)" "st' = st"
      from set_type_fills [OF c _ this(1), of st] this(2) show ?thesis by simp
    next
      assume "parse_string c s st = Some (c', r, st')"
      from parse_string_fills [OF c this] show ?thesis by blast
    next
      fix r' assume "parse_number fp c s = Some (c', r')" "st' = st"
      with parse_number_fills [OF c this(1), of st] show ?thesis by blast
    next
      assume a: "parse_array f fp (parse_value f fp) c s st = Some (c', r, st')"
      show ?thesis
        by (rule parse_chain_fills [OF c _ _ a [unfolded parse_array_def], where P = nameless]) (auto dest: arr)
    next
      assume a: "parse_object f fp (parse_value f fp) c s st = Some (c', r, st')"
      show ?thesis
        by (rule parse_chain_fills [OF c _ _ a [unfolded parse_object_def object_items_def], where P = named]) (auto dest: obj)
    next
      assume "c' = c" "st' = st\<lparr>ep := Some s\<rparr>" "r = None"
      with c show ?thesis by (cases c) (simp add: fills_def blank_def)
    qed
  qed
qed

interpretation pitem: item_parser "parse_value f fp" "\<lambda>c. blank c \<and> jname (jf c) = None" nameless for f fp
  by (rule value_parser_nameless [OF parse_value_value_parser])

text \<open>What every run of \<open>cJSON_ParseWithOpts\<close> leaves.\<close>

lemma ParseWithOpts_leaves:
  assumes "cJSON_ParseWithOpts f fp text nt st = Some (r, st')"
  shows "case r of None \<Rightarrow> blocks st' = blocks st
    | Some (c, e) \<Rightarrow> wf_json c \<and> jname (jf c) = None \<and> blocks st' = blocks st + owned c \<and> cJSON_Delete c st' = st'\<lparr>blocks := blocks st\<rparr>"
proof -
  obtain i st1 where new: "cJSON_New_Item fp st = (i, st1)" by fastforce
  show ?thesis
  proof (cases i)
    case None
    with assms new new_item_blocks [OF new] show ?thesis by (auto simp: cJSON_ParseWithOpts_def)
  next
    case (Some z)
    with new_item_blocks [OF new] have z: "z = zeroed fp" "blocks st1 = blocks st + 1" by auto
    from assms new Some obtain u c r1 st2 where p: "skip text = Some u" "parse_value f fp z u (st1\<lparr>ep := None\<rparr>) = Some (c, r1, st2)"
      by (auto simp: cJSON_ParseWithOpts_def split: bind_splits)
    have f: "blocks st2 = blocks st + owned c" "r1 \<noteq> None \<longrightarrow> wf_json c \<and> jname (jf c) = None"
      using pitem.filled [OF _ p(2)] z zeroed_blank [of fp] by (auto simp: fills_def nameless_def)
    show ?thesis
    proof (cases r1)
      case None
      with assms new Some p f show ?thesis by (auto simp: cJSON_ParseWithOpts_def cJSON_Delete_def)
    next
      case r1: (Some v)
      show ?thesis
      proof (cases nt)
        case False
        with assms new Some p f r1 show ?thesis by (auto simp: cJSON_ParseWithOpts_def cJSON_Delete_def)
      next
        case True
        with assms new Some p r1 obtain w b where w: "skip v = Some w" "rd w 0 = Some b"
          by (auto simp: cJSON_ParseWithOpts_def split: bind_splits)
        with True assms new Some p f r1 show ?thesis
          by (auto simp: cJSON_ParseWithOpts_def cJSON_Delete_def split: if_splits)
      qed
    qed
  qed
qed

lemma cJSON_Parse_blocks:
  assumes "cJSON_Parse f fp text st = Some (r, st')"
  shows "(r = None \<longrightarrow> blocks st' = blocks st) \<and>
    (\<forall>c. r = Some c \<longrightarrow> blocks st' = blocks st + owned c \<and> blocks (cJSON_Delete c st') = blocks st)"
proof -
  from assms obtain q where q: "cJSON_ParseWithOpts f fp text False st = Some (q, st')" "r = map_option fst q"
    by (auto simp: cJSON_Parse_def split: bind_splits)
  with ParseWithOpts_leaves [OF q(1)] show ?thesis by (cases q) auto
qed

text \<open>C6: No parse leaks.  A failed parse has given every block back; a successful one holds exactly the blocks of
  its tree, which \<open>cJSON_Delete\<close> returns one by one.\<close>

theorem cJSON_Parse_no_leak:
  assumes "cJSON_Parse f fp text st = Some (r, st')"
  shows "(r = None \<longrightarrow> blocks st' = blocks st) \<and>
    (\<forall>c. r = Some c \<longrightarrow> blocks st' = blocks st + owned c \<and> blocks (cJSON_Delete c st') = blocks st)"
  using cJSON_Parse_blocks [OF assms] .

lemma cJSON_Parse_no_leak_witness:
  "\<exists>st'. cJSON_Parse (Suc (Suc (Suc 0))) fp0 [91, 110, 117, 108, 108, 44, 33, 0] fresh_jst = Some (None, st') \<and> blocks st' = 0"
proof -
  have "\<exists>st'. cJSON_Parse (Suc (Suc (Suc 0))) fp0 [91, 110, 117, 108, 108, 44, 33, 0] fresh_jst = Some (None, st')"
    by (simp add: cJSON_Parse_def cJSON_ParseWithOpts_def cJSON_New_Item_def cJSON_malloc_def fresh_jst_def
      parse_array_def parse_chain_def rd_def)
  then obtain st' where run: "cJSON_Parse (Suc (Suc (Suc 0))) fp0 [91, 110, 117, 108, 108, 44, 33, 0] fresh_jst = Some (None, st')" by blast
  from cJSON_Parse_no_leak [OF this] run show ?thesis by (simp add: fresh_jst_def)
qed

text \<open>C7: The type of what the reader builds.  Every tree is well formed: its types are the seven of the header, the
  string value is there exactly in strings (so a client that prints \<open>valuestring\<close> of anything else
  dereferences NULL), only arrays and objects have children, and exactly an object's children have names.\<close>

theorem cJSON_Parse_wf:
  assumes "cJSON_Parse f fp text st = Some (Some c, st')"
  shows "wf_json c \<and> jname (jf c) = None"
proof -
  from assms obtain e where q: "cJSON_ParseWithOpts f fp text False st = Some (Some (c, e), st')"
    by (auto simp: cJSON_Parse_def split: bind_splits)
  from ParseWithOpts_leaves [OF q] show ?thesis by simp
qed

lemma cJSON_Parse_wf_witness:
  "\<exists>c st'. cJSON_Parse (Suc (Suc (Suc 0))) fp0 [91, 93, 0] fresh_jst = Some (Some c, st') \<and> jtype (jf c) = 32 \<and> wf_json c"
proof -
  let ?c = "Item \<lparr>jtype = 32, valuestring = None, valueint = 0, valuedouble = 0, jname = None\<rparr> [] :: int cJSON"
  have "\<exists>st'. cJSON_Parse (Suc (Suc (Suc 0))) fp0 [91, 93, 0] fresh_jst = Some (Some ?c, st')"
    by (simp add: cJSON_Parse_def cJSON_ParseWithOpts_def cJSON_New_Item_def cJSON_malloc_def fresh_jst_def zeroed_def fp0_def
      parse_array_def parse_chain_def rd_def set_type_def)
  then obtain st' where "cJSON_Parse (Suc (Suc (Suc 0))) fp0 [91, 93, 0] fresh_jst = Some (Some ?c, st')" by blast
  from cJSON_Parse_wf [OF this] this show ?thesis by (intro exI [of _ ?c] exI [of _ st']) simp
qed

end
