(* ===== verification/Network.thy ===== *)
theory Network
  imports JsonParse Isp
begin

text \<open>
  The server client: \<open>src/network.cpp\<close> with the types of \<open>src/network.h\<close> and the flags of
  \<open>src/OnlineProgram.h\<close>.

  The record \<open>net\<close> holds the globals it works on: the event flags, the message handle, the socket buffers, \<open>DevMAC\<close>
  and \<open>uid\<close> with exactly the bytes they have, the timers, the JSON heap, and the trace of the calls on \<open>tcpSock\<close>.
  What the socket calls of one turn of the main loop return is the record \<open>socket_io\<close>.  Debug output is
  left out.  \<open>None\<close> is undefined behaviour (a write outside an array, a string that is NULL).
\<close>

section \<open>Data\<close>

record EVENT_FLAGS =
  binFileExsitFlag :: bool
  boardConnectedFlag :: bool
  startProgramFlag :: bool
  resetDevStatusFlag :: bool
  modeSwitchFlag :: bool
  UIDavailableFlag :: bool
  UIDProgramSuccessFlag :: bool
  notifyDoneFlag :: bool

record NETWORK_EVENT =
  authorizeReqFlag :: bool
  heartbeatFlag :: bool
  uidReqFlag :: bool
  notifyResultFlag :: bool
  offlineFlag :: bool
  firstConnectFlag :: bool
  authorizePassFlag :: bool

datatype MSG_ID = MSG_ID_INVALID | MSG_ID_AUTH | MSG_ID_GET_UID | MSG_ID_NOTIFY

definition API_ID_AUTH :: int where "API_ID_AUTH = 1"
definition API_ID_HEARTBEAT :: int where "API_ID_HEARTBEAT = 2"
definition API_ID_GET_UID :: int where "API_ID_GET_UID = 10"
definition API_ID_NOTIFY_PROGRAM_UID_RESULT :: int where "API_ID_NOTIFY_PROGRAM_UID_RESULT = 20"
definition RESP_CODE_DEFAULT :: int where "RESP_CODE_DEFAULT = 0"
definition RESP_CODE_SUCCESS :: int where "RESP_CODE_SUCCESS = 100"
definition SOCKET_IN_BUFFER_SIZE :: nat where "SOCKET_IN_BUFFER_SIZE = 512"
definition MSG_RESEND_PERIOD_S :: u32 where "MSG_RESEND_PERIOD_S = 5"

record MSG_HANDLE =
  msgSendId :: MSG_ID
  msgRecvId :: MSG_ID
  sendRespCode :: int
  recvRespCode :: int

datatype sock_call = Close | Connect | Send "u8 list"

record net =
  eventFlags :: EVENT_FLAGS
  networkEvent :: NETWORK_EVENT
  msgHandle :: MSG_HANDLE
  inBuffer :: "u8 list"
  outBuffer :: "u8 list"
  DevMAC :: "u8 list"
  uid :: "u8 list"
  sendMsgTime :: u32
  systemTimer :: u32
  jheap :: jst
  calls :: "sock_call list"

record socket_io =
  connect_r :: int
  beat_r :: int
  send_r :: int
  receive_r :: "int \<times> u8 list"

definition on_event :: "(NETWORK_EVENT \<Rightarrow> NETWORK_EVENT) \<Rightarrow> net \<Rightarrow> net" where
  "on_event f st = st\<lparr>networkEvent := f (networkEvent st)\<rparr>"

definition on_flags :: "(EVENT_FLAGS \<Rightarrow> EVENT_FLAGS) \<Rightarrow> net \<Rightarrow> net" where
  "on_flags f st = st\<lparr>eventFlags := f (eventFlags st)\<rparr>"

definition on_handle :: "(MSG_HANDLE \<Rightarrow> MSG_HANDLE) \<Rightarrow> net \<Rightarrow> net" where
  "on_handle f st = st\<lparr>msgHandle := f (msgHandle st)\<rparr>"

definition sock :: "sock_call \<Rightarrow> net \<Rightarrow> net" where
  "sock c st = st\<lparr>calls := calls st @ [c]\<rparr>"

definition customerCode :: "u8 list" where "customerCode = bytes ''0000000100000002abcdefgh''"

section \<open>Messages\<close>

text \<open>The formats \<open>REQ_AUTH\<close>, \<open>REQ_GET_UID\<close>, \<open>REQ_NOTIFY_RESULT\<close> and \<open>REQ_HEARTBEAT\<close>.\<close>

definition fmt_bool :: "bool \<Rightarrow> u8 list" where
  "fmt_bool b = (if b then bytes ''1'' else bytes ''0'')"

definition REQ_AUTH :: "int \<Rightarrow> u8 list \<Rightarrow> bool \<Rightarrow> u8 list" where
  \<open>REQ_AUTH api mac reconnect = bytes ''{"apiId":'' @ dec_int api @ bytes '',"mac":"'' @ mac @ bytes ''","reconnect":'' @
     fmt_bool reconnect @ bytes ''}''\<close>

definition REQ_GET_UID :: "int \<Rightarrow> u8 list \<Rightarrow> u8 list" where
  \<open>REQ_GET_UID api code = bytes ''{"apiId":'' @ dec_int api @ bytes '',"customerCode":"'' @ code @ bytes ''"}''\<close>

definition REQ_NOTIFY_RESULT :: "int \<Rightarrow> u8 list \<Rightarrow> bool \<Rightarrow> u8 list" where
  \<open>REQ_NOTIFY_RESULT api u result = bytes ''{"apiId":'' @ dec_int api @ bytes '',"UID":"'' @ u @ bytes ''","result":'' @
     fmt_bool result @ bytes ''}''\<close>

definition REQ_HEARTBEAT :: "int \<Rightarrow> u8 list" where
  \<open>REQ_HEARTBEAT api = bytes ''{"apiId":'' @ dec_int api @ bytes ''}''\<close>

section \<open>Set-up\<close>

text \<open>\<open>sscanf\<close> with \<open>%02x\<close> stores an \<open>unsigned int\<close> of four bytes at each \<open>&macAddr[i]\<close>; \<open>stack\<close> is the memory from
  \<open>macAddr\<close> on.\<close>

definition scan_mac :: "u8 list \<Rightarrow> u8 list \<Rightarrow> u8 list option" where
  "scan_mac mac stack = for_up 0 6 (\<lambda>i m. do { b \<leftarrow> rd mac i; wrs m i [b, 0, 0, 0] }) stack"

definition hex_digit :: "nat \<Rightarrow> u8" where
  "hex_digit n = of_nat (if n < 10 then 48 + n else 87 + n)"

definition fmt_02x :: "u8 \<Rightarrow> u8 list" where
  "fmt_02x b = [hex_digit (unat b div 16), hex_digit (unat b mod 16)]"

text \<open>\<open>initNetwork\<close>: \<open>ip\<close> is the text of \<open>eth.getIPAddress()\<close>, \<open>mac\<close> the six bytes its MAC text stands for, \<open>zero\<close> the
  memory at address 0, which \<open>strcmp(..., NULL)\<close> reads.  The result is \<open>False\<close> when the system is reset.\<close>

definition initNetwork :: "u8 list \<Rightarrow> u8 list \<Rightarrow> u8 list \<Rightarrow> u8 list \<Rightarrow> net \<Rightarrow> (bool \<times> net) option" where
  "initNetwork ip mac zero stack st = do {
     z \<leftarrow> cstr zero;
     if ip = z then Some (False, st)
     else do {
       m \<leftarrow> scan_mac mac stack;
       dev \<leftarrow> wrs (DevMAC st) 0 (concat (map fmt_02x (take 6 m)) @ [0]);
       Some (True, st\<lparr>DevMAC := dev\<rparr>) } }"

definition initNetworkEvent :: "net \<Rightarrow> net" where
  "initNetworkEvent = on_event (\<lambda>e. e\<lparr>authorizeReqFlag := False, heartbeatFlag := False, notifyResultFlag := False,
     offlineFlag := True, uidReqFlag := False, firstConnectFlag := True, authorizePassFlag := False\<rparr>)"

section \<open>The connection\<close>

definition checkNetwork :: "socket_io \<Rightarrow> net \<Rightarrow> net" where
  "checkNetwork io st =
     (if offlineFlag (networkEvent st) then
        let st = sock Connect (sock Close st)
        in if connect_r io < 0 then st
           else let st = (if firstConnectFlag (networkEvent st) then on_event (firstConnectFlag_update (\<lambda>_. False)) st else st)
                in on_event (\<lambda>e. e\<lparr>offlineFlag := False, authorizeReqFlag := True\<rparr>) st
      else if heartbeatFlag (networkEvent st) then
        let st = sock (Send (REQ_HEARTBEAT API_ID_HEARTBEAT)) (on_event (heartbeatFlag_update (\<lambda>_. False)) st)
        in if beat_r io < 0 then on_event (\<lambda>e. e\<lparr>offlineFlag := True, authorizePassFlag := False\<rparr>) st else st
      else st)"

definition message_text :: "MSG_ID \<Rightarrow> net \<Rightarrow> u8 list option option" where
  "message_text msgId st = (case msgId of
     MSG_ID_AUTH \<Rightarrow> do { mac \<leftarrow> cstr (DevMAC st);
       Some (Some (REQ_AUTH API_ID_AUTH mac (\<not> firstConnectFlag (networkEvent st)))) }
   | MSG_ID_GET_UID \<Rightarrow> Some (Some (REQ_GET_UID API_ID_GET_UID customerCode))
   | MSG_ID_NOTIFY \<Rightarrow> do { u \<leftarrow> cstr (uid st);
       Some (Some (REQ_NOTIFY_RESULT API_ID_NOTIFY_PROGRAM_UID_RESULT u (UIDProgramSuccessFlag (eventFlags st)))) }
   | MSG_ID_INVALID \<Rightarrow> Some None)"

definition sendMsgHandle :: "socket_io \<Rightarrow> MSG_ID \<Rightarrow> net \<Rightarrow> net option" where
  "sendMsgHandle io msgId st = do {
     t \<leftarrow> message_text msgId st;
     case t of
       None \<Rightarrow> Some st
     | Some text \<Rightarrow> do {
         out \<leftarrow> wrs (outBuffer st) 0 (text @ [0]);
         let st = sock (Send text) (st\<lparr>outBuffer := out\<rparr>);
         Some (if send_r io \<ge> 0
           then on_handle (\<lambda>h. h\<lparr>msgSendId := msgId\<rparr>) (st\<lparr>sendMsgTime := systemTimer st\<rparr>) else st) } }"

section \<open>Answers\<close>

text \<open>The fuel of the JSON reader: more than the receive buffer is long.\<close>

definition json_fuel :: nat where "json_fuel = 513"

definition int_item :: "'d cJSON \<Rightarrow> string \<Rightarrow> int option" where
  "int_item json name = map_option (\<lambda>c. valueint (jf c)) (cJSON_GetObjectItem (Some json) (Some (bytes name)))"

definition api_dispatch :: "'d cJSON \<Rightarrow> int \<Rightarrow> int \<Rightarrow> net \<Rightarrow> net option" where
  "api_dispatch json code apiId st =
     (if apiId = API_ID_AUTH then
        let st = on_handle (\<lambda>h. h\<lparr>msgRecvId := MSG_ID_AUTH\<rparr>) st
        in Some (if code = RESP_CODE_SUCCESS then on_event (authorizePassFlag_update (\<lambda>_. True)) st else st)
      else if apiId = API_ID_GET_UID then
        let st = on_handle (\<lambda>h. h\<lparr>msgRecvId := MSG_ID_GET_UID\<rparr>) st
        in case cJSON_GetObjectItem (Some json) (Some (bytes ''UID'')) of
             None \<Rightarrow> Some st
           | Some c \<Rightarrow>
               if code = RESP_CODE_SUCCESS then do {
                 s \<leftarrow> valuestring (jf c);
                 u \<leftarrow> wrs (uid st) 0 (takeWhile (\<lambda>b. b \<noteq> 0) s @ [0]);
                 Some (on_flags (UIDavailableFlag_update (\<lambda>_. True)) (st\<lparr>uid := u\<rparr>)) }
               else Some st
      else if apiId = API_ID_NOTIFY_PROGRAM_UID_RESULT then
        let st = on_handle (\<lambda>h. h\<lparr>msgRecvId := MSG_ID_NOTIFY\<rparr>) st
        in Some (if code = RESP_CODE_SUCCESS then on_flags (notifyDoneFlag_update (\<lambda>_. True)) st else st)
      else Some st)"

definition settle :: "net \<Rightarrow> net" where
  "settle st = (if msgSendId (msgHandle st) = msgRecvId (msgHandle st) \<and> recvRespCode (msgHandle st) = RESP_CODE_SUCCESS
     then on_handle (\<lambda>h. h\<lparr>msgSendId := MSG_ID_INVALID, msgRecvId := MSG_ID_INVALID, recvRespCode := RESP_CODE_DEFAULT\<rparr>) st
     else st)"

definition parseRecvMsgInfo :: "'d fp \<Rightarrow> u8 list \<Rightarrow> net \<Rightarrow> net option" where
  "parseRecvMsgInfo fp text st = do {
     (r, h) \<leftarrow> cJSON_Parse json_fuel fp text (jheap st);
     let st = st\<lparr>jheap := h\<rparr>;
     case r of
       None \<Rightarrow> Some st
     | Some json \<Rightarrow>
         (case (int_item json ''respCode'', int_item json ''apiId'') of
           (Some code, Some apiId) \<Rightarrow> do {
             st \<leftarrow> api_dispatch json code apiId (on_handle (\<lambda>h. h\<lparr>recvRespCode := code\<rparr>) st);
             Some (settle st) }
         | _ \<Rightarrow> Some st) }"

definition msgRecvHandle :: "'d fp \<Rightarrow> socket_io \<Rightarrow> net \<Rightarrow> net option" where
  "msgRecvHandle fp io st = do {
     let buf = replicate SOCKET_IN_BUFFER_SIZE 0;
     let (n, d) = receive_r io;
     if n > 0 then do {
       buf \<leftarrow> wrs buf 0 d;
       buf \<leftarrow> wr buf (nat n) 0;
       parseRecvMsgInfo fp buf (st\<lparr>inBuffer := buf\<rparr>) }
     else Some (st\<lparr>inBuffer := buf\<rparr>) }"

definition request :: "MSG_ID \<Rightarrow> (NETWORK_EVENT \<Rightarrow> NETWORK_EVENT) \<Rightarrow> socket_io \<Rightarrow> net \<Rightarrow> net option" where
  "request msgId clear io st = sendMsgHandle io msgId (on_event clear (on_handle (\<lambda>h. h\<lparr>msgSendId := msgId\<rparr>) st))"

definition msgTransceiverHandle :: "'d fp \<Rightarrow> socket_io \<Rightarrow> net \<Rightarrow> net option" where
  "msgTransceiverHandle fp io st =
     (if offlineFlag (networkEvent st) then Some st
      else do {
        st \<leftarrow> (if msgSendId (msgHandle st) \<noteq> MSG_ID_INVALID then
            (if systemTimer st - sendMsgTime st \<ge> MSG_RESEND_PERIOD_S
             then sendMsgHandle io (msgSendId (msgHandle st)) st else Some st)
          else if authorizeReqFlag (networkEvent st) then request MSG_ID_AUTH (authorizeReqFlag_update (\<lambda>_. False)) io st
          else if uidReqFlag (networkEvent st) then request MSG_ID_GET_UID (uidReqFlag_update (\<lambda>_. False)) io st
          else if notifyResultFlag (networkEvent st) then request MSG_ID_NOTIFY (notifyResultFlag_update (\<lambda>_. False)) io st
          else Some st);
        msgRecvHandle fp io st })"

section \<open>What the client keeps\<close>

lemma on_simps [simp]:
  "networkEvent (on_event f st) = f (networkEvent st)" "eventFlags (on_event f st) = eventFlags st"
  "msgHandle (on_event f st) = msgHandle st" "calls (on_event f st) = calls st" "uid (on_event f st) = uid st"
  "networkEvent (on_flags g st) = networkEvent st" "eventFlags (on_flags g st) = g (eventFlags st)"
  "msgHandle (on_flags g st) = msgHandle st" "calls (on_flags g st) = calls st" "uid (on_flags g st) = uid st"
  "networkEvent (on_handle h st) = networkEvent st" "eventFlags (on_handle h st) = eventFlags st"
  "msgHandle (on_handle h st) = h (msgHandle st)" "calls (on_handle h st) = calls st" "uid (on_handle h st) = uid st"
  "networkEvent (sock c st) = networkEvent st" "eventFlags (sock c st) = eventFlags st"
  "msgHandle (sock c st) = msgHandle st" "calls (sock c st) = calls st @ [c]" "uid (sock c st) = uid st"
  "jheap (on_event f st) = jheap st" "jheap (on_flags g st) = jheap st" "jheap (on_handle h st) = jheap st" "jheap (sock c st) = jheap st"
  by (simp_all add: on_event_def on_flags_def on_handle_def sock_def)

text \<open>The messages the client composes while online.\<close>

definition message :: "bool \<Rightarrow> u8 list \<Rightarrow> bool" where
  "message first t = ((\<exists>mac. t = REQ_AUTH API_ID_AUTH mac (\<not> first)) \<or> t = REQ_GET_UID API_ID_GET_UID customerCode
     \<or> (\<exists>u r. t = REQ_NOTIFY_RESULT API_ID_NOTIFY_PROGRAM_UID_RESULT u r) \<or> t = REQ_HEARTBEAT API_ID_HEARTBEAT)"

text \<open>The link flags stay, the authorisation can only be gained, and only messages go out.\<close>

definition net_kept :: "net \<Rightarrow> net \<Rightarrow> bool" where
  "net_kept st st' = (offlineFlag (networkEvent st') = offlineFlag (networkEvent st) \<and>
     firstConnectFlag (networkEvent st') = firstConnectFlag (networkEvent st) \<and>
     (\<exists>cs. calls st' = calls st @ cs \<and> (\<forall>c \<in> set cs. \<exists>t. c = Send t \<and> message (firstConnectFlag (networkEvent st)) t)))"

lemma net_kept_refl: "net_kept st st"
  by (simp add: net_kept_def)

lemma net_kept_trans: "net_kept a b \<Longrightarrow> net_kept b c \<Longrightarrow> net_kept a c"
  by (fastforce simp: net_kept_def)

lemma net_kept_quiet:
  "offlineFlag (networkEvent st') = offlineFlag (networkEvent st) \<Longrightarrow> firstConnectFlag (networkEvent st') = firstConnectFlag (networkEvent st) \<Longrightarrow>
   calls st' = calls st \<Longrightarrow> net_kept st st'"
  by (simp add: net_kept_def)

lemma message_text_message: "message_text m st = Some (Some t) \<Longrightarrow> message (firstConnectFlag (networkEvent st)) t"
  by (cases m) (auto simp: message_text_def message_def split: bind_splits)

lemma sendMsgHandle_kept: "sendMsgHandle io m st = Some st' \<Longrightarrow> net_kept st st'"
  using message_text_message [of m st]
  by (fastforce simp: sendMsgHandle_def net_kept_def Let_def split: bind_splits option.splits if_splits)

lemma request_kept:
  assumes "request m clear io st = Some st'"
    and "\<And>e. offlineFlag (clear e) = offlineFlag e" "\<And>e. firstConnectFlag (clear e) = firstConnectFlag e"
  shows "net_kept st st'"
proof -
  have "net_kept st (on_event clear (on_handle (\<lambda>h. h\<lparr>msgSendId := m\<rparr>) st))"
    by (rule net_kept_quiet) (simp_all add: assms)
  from net_kept_trans [OF this sendMsgHandle_kept] assms(1) show ?thesis by (simp add: request_def)
qed

lemma api_dispatch_kept: "api_dispatch json code a st = Some st' \<Longrightarrow> net_kept st st' \<and> jheap st' = jheap st"
  by (auto simp: api_dispatch_def Let_def intro!: net_kept_quiet split: if_splits option.splits bind_splits)

lemma settle_kept: "net_kept st (settle st)" "jheap (settle st) = jheap st"
  by (simp_all add: settle_def net_kept_quiet net_kept_refl)

lemma parseRecvMsgInfo_kept: "parseRecvMsgInfo fp t st = Some st' \<Longrightarrow> net_kept st st'"
proof -
  assume run: "parseRecvMsgInfo fp t st = Some st'"
  then obtain r h where p: "cJSON_Parse json_fuel fp t (jheap st) = Some (r, h)"
    by (auto simp: parseRecvMsgInfo_def split: bind_splits)
  have 1: "net_kept st (st\<lparr>jheap := h\<rparr>)" by (simp add: net_kept_quiet)
  have 2: "net_kept st (on_handle f (st\<lparr>jheap := h\<rparr>))" for f by (simp add: net_kept_quiet)
  show ?thesis
    using run p 1 net_kept_trans [OF net_kept_trans [OF 2 conjunct1 [OF api_dispatch_kept]] settle_kept(1)]
    by (auto simp: parseRecvMsgInfo_def Let_def split: bind_splits option.splits)
qed

lemma msgRecvHandle_kept: "msgRecvHandle fp io st = Some st' \<Longrightarrow> net_kept st st'"
proof -
  assume run: "msgRecvHandle fp io st = Some st'"
  have "net_kept st (st\<lparr>inBuffer := b\<rparr>)" for b by (simp add: net_kept_quiet)
  with run parseRecvMsgInfo_kept net_kept_trans show ?thesis
    by (fastforce simp: msgRecvHandle_def Let_def split: prod.splits if_splits bind_splits)
qed

lemma msgTransceiverHandle_kept: "msgTransceiverHandle fp io st = Some st' \<Longrightarrow> net_kept st st'"
proof -
  assume run: "msgTransceiverHandle fp io st = Some st'"
  show ?thesis
  proof (cases "offlineFlag (networkEvent st)")
    case True
    with run show ?thesis by (simp add: msgTransceiverHandle_def net_kept_refl)
  next
    case False
    with run obtain v where v: "msgRecvHandle fp io v = Some st'" and "net_kept st v"
      by (auto simp: msgTransceiverHandle_def net_kept_refl dest: sendMsgHandle_kept request_kept split: bind_splits if_splits)
    with msgRecvHandle_kept net_kept_trans show ?thesis by blast
  qed
qed

lemma msgTransceiverHandle_offline: "offlineFlag (networkEvent st) \<Longrightarrow> msgTransceiverHandle fp io st = Some st"
  by (simp add: msgTransceiverHandle_def)

section \<open>Answers of the server\<close>

text \<open>C33: The answer to the UID request.  A code other than 100 or an object without UID leaves the UID and the flags; with code
  100 the UID's text is stored and offered for programming, provided it has at most 35 bytes (a longer one
  overruns \<open>uid\<close>) and is a JSON string (anything else is a NULL dereference).\<close>

theorem UID_answer:
  fixes st :: net
  defines "got \<equiv> on_handle (\<lambda>h. h\<lparr>msgRecvId := MSG_ID_GET_UID\<rparr>) st"
  shows "(code \<noteq> RESP_CODE_SUCCESS \<longrightarrow> api_dispatch json code API_ID_GET_UID st = Some got) \<and>
    (cJSON_GetObjectItem (Some json) (Some (bytes ''UID'')) = None \<longrightarrow> api_dispatch json code API_ID_GET_UID st = Some got) \<and>
    (cJSON_GetObjectItem (Some json) (Some (bytes ''UID'')) = Some c \<and> code = RESP_CODE_SUCCESS \<and> 0 \<notin> set s \<and>
       valuestring (jf c) = Some s \<longrightarrow>
       api_dispatch json code API_ID_GET_UID st =
         (if length s < length (uid st)
          then Some (on_flags (UIDavailableFlag_update (\<lambda>_. True)) (got\<lparr>uid := s @ 0 # drop (Suc (length s)) (uid st)\<rparr>))
          else None)) \<and>
    (cJSON_GetObjectItem (Some json) (Some (bytes ''UID'')) = Some c \<and> code = RESP_CODE_SUCCESS \<and> valuestring (jf c) = None \<longrightarrow>
       api_dispatch json code API_ID_GET_UID st = None)"
proof -
  have api: "API_ID_GET_UID \<noteq> API_ID_AUTH" by (simp add: API_ID_GET_UID_def API_ID_AUTH_def)
  have t: "takeWhile (\<lambda>b. b \<noteq> 0) s = s" if "0 \<notin> set s" using that by (induction s) auto
  have w: "wrs (uid st) 0 (s @ [0]) = (if length s < length (uid st) then Some (s @ 0 # drop (Suc (length s)) (uid st)) else None)"
    using wrs_at [of 0 "s @ [0]" "uid st"] wrs_short [of "uid st" 0 "s @ [0]"] by auto
  show ?thesis
    using api w by (auto simp: api_dispatch_def got_def Let_def t simp del: bytes_simps split: option.splits)
qed


text \<open>A net in its power-on state, online.\<close>

definition idle_net :: net where
  "idle_net = \<lparr>eventFlags = \<lparr>binFileExsitFlag = False, boardConnectedFlag = False, startProgramFlag = False,
       resetDevStatusFlag = False, modeSwitchFlag = False, UIDavailableFlag = False, UIDProgramSuccessFlag = False, notifyDoneFlag = False\<rparr>,
     networkEvent = \<lparr>authorizeReqFlag = False, heartbeatFlag = False, uidReqFlag = False, notifyResultFlag = False,
       offlineFlag = False, firstConnectFlag = False, authorizePassFlag = False\<rparr>,
     msgHandle = \<lparr>msgSendId = MSG_ID_INVALID, msgRecvId = MSG_ID_INVALID, sendRespCode = 0, recvRespCode = 0\<rparr>,
     inBuffer = replicate 512 0, outBuffer = replicate 512 0, DevMAC = replicate 16 0, uid = replicate 36 0,
     sendMsgTime = 0, systemTimer = 0, jheap = fresh_jst, calls = []\<rparr>"

definition uid_item :: "u8 list option \<Rightarrow> int cJSON" where
  "uid_item v = Item \<lparr>jtype = 16, valuestring = v, valueint = 0, valuedouble = 0, jname = Some (bytes ''UID'')\<rparr> []"

definition uid_reply :: "u8 list option \<Rightarrow> int cJSON" where
  "uid_reply v = Item \<lparr>jtype = 64, valuestring = None, valueint = 0, valuedouble = 0, jname = None\<rparr> [uid_item v]"

lemma UID_answer_witness:
  "(\<exists>st. api_dispatch (uid_reply (Some [65, 66])) 100 10 idle_net = Some st \<and> take 3 (uid st) = [65, 66, 0]) \<and>
   api_dispatch (uid_reply (Some (replicate 36 65))) 100 10 idle_net = None \<and>
   api_dispatch (uid_reply None) 100 10 idle_net = None"
proof -
  have g: "cJSON_GetObjectItem (Some (uid_reply v)) (Some (bytes ''UID'')) = Some (uid_item v)" for v
    by (simp add: cJSON_GetObjectItem_def uid_reply_def uid_item_def cJSON_strcasecmp_def)
  have v: "valuestring (jf (uid_item v)) = v" for v by (simp add: uid_item_def)
  have c: "RESP_CODE_SUCCESS = 100" "API_ID_GET_UID = 10" by (simp_all add: RESP_CODE_SUCCESS_def API_ID_GET_UID_def)
  have u: "length (uid idle_net) = 36" by (simp add: idle_net_def)
  show ?thesis
    using UID_answer [of 100 "uid_reply (Some [65, 66])" idle_net "uid_item (Some [65, 66])" "[65, 66]"]
      UID_answer [of 100 "uid_reply (Some (replicate 36 65))" idle_net "uid_item (Some (replicate 36 65))" "replicate 36 65"]
      UID_answer [of 100 "uid_reply None" idle_net "uid_item None"]
    by (simp add: g c u v del: bytes_simps)
qed

text \<open>A message of 512 bytes.  The receiver asks for as many bytes as its buffer has and then terminates the text
  one behind the last one: a full buffer makes it write outside the array, whatever was received.\<close>

theorem full_message_overruns:
  assumes "length d = 512"
  shows "msgRecvHandle fp (io\<lparr>receive_r := (512, d)\<rparr>) st = None"
  using assms wrs_at [of 0 d "replicate 512 0"]
  by (simp add: msgRecvHandle_def SOCKET_IN_BUFFER_SIZE_def wr_def)

lemma full_message_overruns_witness:
  "msgRecvHandle fp0 \<lparr>connect_r = 0, beat_r = 0, send_r = 0, receive_r = (512, replicate 512 32)\<rparr> idle_net = None"
  using full_message_overruns [of "replicate 512 32" fp0 "\<lparr>connect_r = 0, beat_r = 0, send_r = 0, receive_r = (0, [])\<rparr>" idle_net]
  by simp

text \<open>The JSON tree of a message is never deleted: each message that parses keeps its blocks for good, at least one.\<close>

theorem message_leaks:
  assumes "cJSON_Parse json_fuel fp t (jheap st) = Some (Some json, h)" "parseRecvMsgInfo fp t st = Some st'"
  shows "blocks (jheap st') = blocks (jheap st) + owned json \<and> blocks (jheap st) < blocks (jheap st')"
proof -
  have h: "blocks h = blocks (jheap st) + owned json" using cJSON_Parse_blocks [OF assms(1)] by simp
  have "jheap st' = h"
    using assms settle_kept(2) by (auto simp: parseRecvMsgInfo_def Let_def dest!: api_dispatch_kept split: bind_splits option.splits)
  moreover have "0 < owned json" by (cases json) simp
  ultimately show ?thesis using h by simp
qed

lemma parse_null: "parse_value (Suc f) fp c (bytes ''null'' @ r) st = Some (set_type cJSON_NULL c, Some r, st)"
  by simp

lemma message_leaks_witness:
  "\<exists>st'. parseRecvMsgInfo fp0 (bytes ''null'' @ [0]) idle_net = Some st' \<and> 0 < blocks (jheap st')"
proof -
  have f: "json_fuel = Suc 512" by (simp add: json_fuel_def)
  have s: "skip (bytes ''null'' @ [0]) = Some (bytes ''null'' @ [0])" by simp
  obtain c h where p: "cJSON_Parse json_fuel fp0 (bytes ''null'' @ [0]) (jheap idle_net) = Some (Some c, h)" "child c = []"
    using parse_null [of 512 fp0]
    by (simp add: cJSON_Parse_def cJSON_ParseWithOpts_def cJSON_New_Item_def cJSON_malloc_def idle_net_def fresh_jst_def f s
      set_type_def zeroed_def del: parse_value.simps bytes_simps bytes_append)
  then have "parseRecvMsgInfo fp0 (bytes ''null'' @ [0]) idle_net = Some (idle_net\<lparr>jheap := h\<rparr>)"
    by (simp add: parseRecvMsgInfo_def int_item_def cJSON_GetObjectItem_def del: bytes_simps)
  with message_leaks [OF p(1) this] show ?thesis by auto
qed



lemma scan_mac_value:
  assumes "length mac = 6" "9 \<le> length stack"
  shows "scan_mac mac stack = Some (mac @ [0, 0, 0] @ drop 9 stack)"
proof -
  let ?g = "\<lambda>k. take k mac @ (if k = 0 then take 3 stack else [0, 0, 0]) @ drop (k + 3) stack"
  have "for_up 0 6 (\<lambda>i m. do { b \<leftarrow> rd mac i; wrs m i [b, 0, 0, 0] }) (?g 0) = Some (?g (0 + 6))"
  proof (rule for_up_determ)
    fix k :: nat assume k: "k < 0 + 6"
    have d: "drop (k + 3) stack = stack ! (k + 3) # drop (k + 4) stack" using assms(2) k Cons_nth_drop_Suc [of "k + 3" stack] by (simp add: add.commute)
    let ?ys = "(if k = 0 then take 3 stack else [0, 0, 0]) @ drop (k + 3) stack"
    have xs: "length (take k mac) = k" using assms(1) k by simp
    have ys: "4 \<le> length ?ys" "drop 4 ?ys = drop (k + 4) stack" using assms(2) k by (auto simp: d)
    have "wrs (?g k) (length (take k mac)) [mac ! k, 0, 0, 0] = Some (take k mac @ [mac ! k, 0, 0, 0] @ drop (length [mac ! k, 0, 0, 0]) ?ys)"
      by (rule wrs_append) (use ys in simp)
    also have "drop (length [mac ! k, 0, 0, 0]) ?ys = drop (k + 4) stack" using ys(2) by (simp add: numeral_eq_Suc)
    finally have w: "wrs (?g k) k [mac ! k, 0, 0, 0] = Some (take k mac @ [mac ! k, 0, 0, 0] @ drop (k + 4) stack)"
      by (simp only: xs)
    have "rd mac k = Some (mac ! k)" "?g (Suc k) = take k mac @ [mac ! k, 0, 0, 0] @ drop (k + 4) stack"
      using assms(1) k by (simp_all add: rd_def take_Suc_conv_app_nth add.commute)
    with w show "(do { b \<leftarrow> rd mac k; wrs (?g k) k [b, 0, 0, 0] }) = Some (?g (Suc k))" by (simp only: Option.bind.simps)
  qed
  then show ?thesis using assms by (simp add: scan_mac_def del: wrs.simps)
qed

lemma scan_mac_overrun:
  assumes "length stack < 9"
  shows "scan_mac mac stack = None"
proof (rule ccontr)
  assume "scan_mac mac stack \<noteq> None"
  then obtain t where t: "for_up 0 6 (\<lambda>i m. do { b \<leftarrow> rd mac i; wrs m i [b, 0, 0, 0] }) stack = Some t"
    by (auto simp: scan_mac_def)
  have "length t = length stack \<and> (0 < (0 :: nat) + 6 \<longrightarrow> 0 + 6 + 3 \<le> length stack)"
    by (rule for_up_partial [OF t, where P = "\<lambda>k t. length t = length stack \<and> (0 < k \<longrightarrow> k + 3 \<le> length stack)"])
      (auto split: bind_splits simp: wr_Some_iff)
  with assms show False by simp
qed

text \<open>The MAC address.  \<open>sscanf\<close> stores four bytes for every \<open>%02x\<close>: with three spare bytes behind the array of six the
  device name becomes the twelve hexadecimal digits, without them the stack is overwritten.\<close>

theorem initNetwork_mac:
  assumes "cstr zero = Some z" "ip \<noteq> z" "length mac = 6" "13 \<le> length (DevMAC st)"
  shows "initNetwork ip mac zero stack st =
    (if 9 \<le> length stack then Some (True, st\<lparr>DevMAC := concat (map fmt_02x mac) @ 0 # drop 13 (DevMAC st)\<rparr>) else None)"
proof -
  have l: "length (concat (map fmt_02x mac)) = 12"
    using assms(3) by (simp add: length_concat comp_def fmt_02x_def sum_list_triv)
  have t: "take 6 (mac @ [0, 0, 0] @ drop 9 stack) = mac" using assms(3) by simp
  show ?thesis
    using assms scan_mac_value [of mac stack] scan_mac_overrun [of stack mac] t l
      wrs_at [of 0 "concat (map fmt_02x mac) @ [0]" "DevMAC st"]
    by (simp add: initNetwork_def)
qed

lemma initNetwork_mac_witness:
  "initNetwork (bytes ''192.168.1.100'') [0, 1, 2, 3, 4, 255] [7, 0] (replicate 6 0) idle_net = None \<and>
   (\<exists>st. initNetwork (bytes ''192.168.1.100'') [0, 1, 2, 3, 4, 255] [7, 0] (replicate 9 0) idle_net = Some (True, st))"
  using initNetwork_mac [of "[7, 0]" "[7]" "bytes ''192.168.1.100''" "[0, 1, 2, 3, 4, 255]" idle_net "replicate 6 0"]
    initNetwork_mac [of "[7, 0]" "[7]" "bytes ''192.168.1.100''" "[0, 1, 2, 3, 4, 255]" idle_net "replicate 9 0"]
  by (simp add: idle_net_def)

end
