(* ===== verification/Device.thy ===== *)
theory Device
  imports ProgrammerUid ProgrammerFiles Network
begin

text \<open>
  The device: the buttons, the timer thread and the main thread of \<open>src/OnlineProgram.cpp\<close>, over the programmer
  (\<open>Programmer\<close>) and the server client (\<open>Network\<close>).

  The record \<open>world\<close> is the whole state.  What the code cannot know is the record \<open>env\<close>: the serial target, the
  files, the directory, uninitialised buffers, \<open>double\<close> arithmetic and whether the log has room.  The body of
  the main thread is cut into its phases (\<open>at\<close> is the next one): the two interrupts and the timer thread run
  between phases, so every order of their effects with the main thread's is an execution of the relation
  \<open>step\<close>.  Debug output is left out.
\<close>

section \<open>State\<close>

datatype MODE = MODE_PROGRAM_CODE | MODE_PROGRAM_UID

datatype DEV_STATUS = DEV_STATUS_BIN_NOT_FOUND | DEV_STATUS_DISCONNECTED | DEV_STATUS_CONNECTED
  | DEV_STATUS_PROGRAMING | DEV_STATUS_PROGRAM_SUCCESS | DEV_STATUS_PROGRAM_FAIL

datatype phase = Mode_check | Mode_reset | Mode_restart | Bin_check | Board_check | Network_turn | Status_turn

record 's world =
  prog :: "'s prog"
  net :: net
  devStatus :: DEV_STATUS
  deviceMode :: MODE
  binFilePath :: "u8 list"
  logFile :: "u8 list option"
  dirs :: nat
  phase_at :: phase

record ('s, 'd) env =
  board :: "'s target"
  disk :: "u8 list \<Rightarrow> bin_file option"
  sd :: "u8 list \<Rightarrow> u8 list list option"
  blk :: "u8 list"
  enc :: "u8 list"
  dbl :: "'d fp"
  room :: bool

abbreviation flags :: "'s world \<Rightarrow> EVENT_FLAGS" where "flags w \<equiv> eventFlags (net w)"
abbreviation event :: "'s world \<Rightarrow> NETWORK_EVENT" where "event w \<equiv> networkEvent (net w)"

definition set_flags :: "(EVENT_FLAGS \<Rightarrow> EVENT_FLAGS) \<Rightarrow> 's world \<Rightarrow> 's world" where
  "set_flags f w = w\<lparr>net := on_flags f (net w)\<rparr>"

definition set_event :: "(NETWORK_EVENT \<Rightarrow> NETWORK_EVENT) \<Rightarrow> 's world \<Rightarrow> 's world" where
  "set_event f w = w\<lparr>net := on_event f (net w)\<rparr>"

definition display :: "(leds \<Rightarrow> leds) \<Rightarrow> 's world \<Rightarrow> 's world" where
  "display f w = w\<lparr>prog := (prog w)\<lparr>led := f (led (prog w))\<rparr>\<rparr>"

definition go :: "DEV_STATUS \<Rightarrow> 's world \<Rightarrow> 's world" where
  "go s w = w\<lparr>devStatus := s\<rparr>"

definition HEARTBEAT_PERIOD_S :: u32 where "HEARTBEAT_PERIOD_S = 30"
definition UID_PROGRAM_ADDRESS :: u32 where "UID_PROGRAM_ADDRESS = 0xF000"
definition LOG_FILE_PATH :: "u8 list" where "LOG_FILE_PATH = bytes ''/sd/log.txt''"

text \<open>\<open>sprintf(logStr, ...)\<close> into 128 bytes, then \<open>printLog\<close>.\<close>

definition log_line :: "('s, 'd) env \<Rightarrow> u8 list \<Rightarrow> 's world \<Rightarrow> 's world option" where
  "log_line E t w = do {
     t \<leftarrow> sprintf_to 128 t;
     let (_, l) = printLog (logFile w) (room E) (Some LOG_FILE_PATH) (Some t);
     Some (w\<lparr>logFile := l\<rparr>) }"

section \<open>Buttons and timer\<close>

text \<open>One turn of \<open>sysTickThread\<close> after its second has passed.\<close>

definition sysTick :: "'s world \<Rightarrow> 's world" where
  "sysTick w = (let w = w\<lparr>net := (net w)\<lparr>systemTimer := systemTimer (net w) + 1\<rparr>\<rparr> in
     if deviceMode w = MODE_PROGRAM_UID \<and> systemTimer (net w) mod HEARTBEAT_PERIOD_S = 0 \<and> \<not> offlineFlag (event w)
     then set_event (heartbeatFlag_update (\<lambda>_. True)) w else w)"

text \<open>The interrupts; \<open>pin\<close> is the level read after 10 ms.\<close>

definition sw2_release :: "bool \<Rightarrow> 's world \<Rightarrow> 's world" where
  "sw2_release pin w =
     (if pin then
        let w = (if deviceMode w = MODE_PROGRAM_CODE then
                   (if devStatus w = DEV_STATUS_CONNECTED then set_flags (startProgramFlag_update (\<lambda>_. True)) w else w)
                 else (if devStatus w = DEV_STATUS_CONNECTED then set_event (uidReqFlag_update (\<lambda>_. True)) w else w))
        in if devStatus w = DEV_STATUS_PROGRAM_FAIL \<or> devStatus w = DEV_STATUS_PROGRAM_SUCCESS
           then set_flags (resetDevStatusFlag_update (\<lambda>_. True)) w else w
      else w)"

definition sw3_release :: "bool \<Rightarrow> 's world \<Rightarrow> 's world" where
  "sw3_release pin w =
     (if pin then
        display (\<lambda>l. l\<lparr>blue := \<not> blue l\<rparr>)
          (set_flags (modeSwitchFlag_update (\<lambda>_. True))
             (w\<lparr>deviceMode := (if deviceMode w = MODE_PROGRAM_CODE then MODE_PROGRAM_UID else MODE_PROGRAM_CODE)\<rparr>))
      else w)"

definition resetEventFlags :: "'s world \<Rightarrow> 's world" where
  "resetEventFlags = set_flags (\<lambda>f. f\<lparr>binFileExsitFlag := False, boardConnectedFlag := False, resetDevStatusFlag := False,
     startProgramFlag := False, modeSwitchFlag := False, UIDavailableFlag := False, UIDProgramSuccessFlag := False,
     notifyDoneFlag := False\<rparr>)"

section \<open>Device status\<close>

definition program_code :: "('s, 'd) env \<Rightarrow> 's world \<Rightarrow> 's world option" where
  "program_code E w = do {
     path \<leftarrow> cstr (binFilePath w);
     (r, p) \<leftarrow> programBinFileV1 (board E) (disk E) (blk E) (enc E) (Some path) (prog w);
     let w = w\<lparr>prog := p\<rparr>;
     if r = 0 then do {
       w \<leftarrow> log_line E (bytes ''Program code '' @ path @ bytes '' successfully'') w;
       Some (go DEV_STATUS_PROGRAM_SUCCESS w) }
     else do {
       w \<leftarrow> log_line E (bytes ''Program code '' @ path @ bytes '' failed'') w;
       Some (go DEV_STATUS_PROGRAM_FAIL w) } }"

definition program_uid :: "('s, 'd) env \<Rightarrow> 's world \<Rightarrow> 's world option" where
  "program_uid E w = do {
     u \<leftarrow> cstr (uid (net w));
     (r, p) \<leftarrow> programUID (board E) (enc E) UID_PROGRAM_ADDRESS (Some (uid (net w))) (of_nat (length u)) (prog w);
     let w = w\<lparr>prog := p\<rparr>;
     w \<leftarrow> (if r = 0 then
         log_line E (bytes ''program uid:'' @ u @ bytes '' at f000 successfully'')
           (set_flags (UIDProgramSuccessFlag_update (\<lambda>_. True)) (go DEV_STATUS_PROGRAM_SUCCESS w))
       else
         log_line E (bytes ''program uid:'' @ u @ bytes '' at f000 failed'')
           (set_flags (UIDProgramSuccessFlag_update (\<lambda>_. False)) (go DEV_STATUS_PROGRAM_FAIL w)));
     Some (set_event (notifyResultFlag_update (\<lambda>_. True)) w) }"

text \<open>The confirmation of a result, the same in \<open>DEV_STATUS_PROGRAM_SUCCESS\<close> and \<open>DEV_STATUS_PROGRAM_FAIL\<close>.\<close>

definition confirm :: "'s world \<Rightarrow> 's world" where
  "confirm w =
     (if resetDevStatusFlag (flags w) then
        if deviceMode w = MODE_PROGRAM_CODE then
          set_flags (resetDevStatusFlag_update (\<lambda>_. False)) (go DEV_STATUS_CONNECTED w)
        else if notifyDoneFlag (flags w) then
          set_flags (\<lambda>f. f\<lparr>resetDevStatusFlag := False, notifyDoneFlag := False\<rparr>) (go DEV_STATUS_CONNECTED w)
        else w
      else w)"

definition connected_turn :: "'s world \<Rightarrow> 's world" where
  "connected_turn w =
     (let w = (if \<not> boardConnectedFlag (flags w)
               then set_flags (startProgramFlag_update (\<lambda>_. False)) (go DEV_STATUS_DISCONNECTED w) else w);
          w = (if startProgramFlag (flags w)
               then set_flags (startProgramFlag_update (\<lambda>_. False)) (go DEV_STATUS_PROGRAMING w) else w)
      in if deviceMode w = MODE_PROGRAM_CODE then
           (if \<not> binFileExsitFlag (flags w)
            then set_flags (startProgramFlag_update (\<lambda>_. False)) (go DEV_STATUS_BIN_NOT_FOUND w) else w)
         else
           (if UIDavailableFlag (flags w)
            then set_flags (UIDavailableFlag_update (\<lambda>_. False)) (go DEV_STATUS_PROGRAMING w) else w))"

definition disconnected_turn :: "'s world \<Rightarrow> 's world" where
  "disconnected_turn w =
     (let w = (if boardConnectedFlag (flags w) then go DEV_STATUS_CONNECTED w else w)
      in if \<not> binFileExsitFlag (flags w) \<and> deviceMode w = MODE_PROGRAM_CODE then go DEV_STATUS_BIN_NOT_FOUND w else w)"

definition updateDeviceStatus :: "('s, 'd) env \<Rightarrow> 's world \<Rightarrow> 's world option" where
  "updateDeviceStatus E w = (case devStatus w of
     DEV_STATUS_BIN_NOT_FOUND \<Rightarrow>
       (let w = display Indicator_noBin w
        in Some (if binFileExsitFlag (flags w) then go DEV_STATUS_DISCONNECTED w else w))
   | DEV_STATUS_CONNECTED \<Rightarrow> Some (connected_turn (display Indicator_connected w))
   | DEV_STATUS_DISCONNECTED \<Rightarrow> Some (disconnected_turn (display Indicator_disconnected w))
   | DEV_STATUS_PROGRAMING \<Rightarrow> (if deviceMode w = MODE_PROGRAM_CODE then program_code E w else program_uid E w)
   | DEV_STATUS_PROGRAM_SUCCESS \<Rightarrow> Some (confirm (display Indicator_programDone w))
   | DEV_STATUS_PROGRAM_FAIL \<Rightarrow> Some (confirm (display Indicator_programFail w)))"

section \<open>The main thread\<close>

definition mode_number :: "MODE \<Rightarrow> u8 list" where
  "mode_number m = (case m of MODE_PROGRAM_CODE \<Rightarrow> bytes ''1'' | MODE_PROGRAM_UID \<Rightarrow> bytes ''2'')"

definition bin_check :: "('s, 'd) env \<Rightarrow> 's world \<Rightarrow> 's world option" where
  "bin_check E w =
     (if deviceMode w = MODE_PROGRAM_CODE then do {
        (r, path, d) \<leftarrow> detectFile (sd E) (Some SD_ROOT_DERECTORY) (Some (bytes ''.bin'')) (Some (binFilePath w)) (dirs w);
        let w = w\<lparr>binFilePath := (case path of None \<Rightarrow> binFilePath w | Some p \<Rightarrow> p), dirs := d\<rparr>;
        Some (set_flags (binFileExsitFlag_update (\<lambda>_. r = 0)) w) }
      else Some w)"

definition board_check :: "('s, 'd) env \<Rightarrow> 's world \<Rightarrow> 's world option" where
  "board_check E w = do {
     (r, p) \<leftarrow> ISP_syncBaudRate (board E) (port (prog w));
     Some (set_flags (boardConnectedFlag_update (\<lambda>_. r = RET_CODE_SUCCESS)) (w\<lparr>prog := (prog w)\<lparr>port := p\<rparr>\<rparr>)) }"

definition network_turn :: "('s, 'd) env \<Rightarrow> socket_io \<Rightarrow> 's world \<Rightarrow> 's world option" where
  "network_turn E io w =
     (if deviceMode w = MODE_PROGRAM_UID then do {
        n \<leftarrow> msgTransceiverHandle (dbl E) io (checkNetwork io (net w));
        Some (w\<lparr>net := n\<rparr>) }
      else Some w)"

definition status_turn :: "('s, 'd) env \<Rightarrow> 's world \<Rightarrow> 's world option" where
  "status_turn E w =
     (if deviceMode w = MODE_PROGRAM_UID \<and> authorizePassFlag (event w) \<or> deviceMode w = MODE_PROGRAM_CODE
      then updateDeviceStatus E w
      else Some (if offlineFlag (event w) then display Indicator_offline w else display Indicator_noAuth w))"

definition mode_restart :: "'s world \<Rightarrow> 's world" where
  "mode_restart w =
     (if deviceMode w = MODE_PROGRAM_UID then go DEV_STATUS_DISCONNECTED (w\<lparr>net := initNetworkEvent (net w)\<rparr>)
      else go DEV_STATUS_BIN_NOT_FOUND (w\<lparr>net := sock Close (net w)\<rparr>))"

definition next_at :: "phase \<Rightarrow> 's world \<Rightarrow> 's world" where
  "next_at p w = w\<lparr>phase_at := p\<rparr>"

definition main_phase :: "('s, 'd) env \<Rightarrow> socket_io \<Rightarrow> 's world \<Rightarrow> 's world option" where
  "main_phase E io w = (case phase_at w of
     Mode_check \<Rightarrow>
       (if modeSwitchFlag (flags w) then do {
          w \<leftarrow> log_line E (bytes ''switch to mode '' @ mode_number (deviceMode w)) w;
          Some (next_at Mode_reset (display (\<lambda>l. fst (Indicator_modeSwitch l)) w)) }
        else Some (next_at Bin_check w))
   | Mode_reset \<Rightarrow> Some (next_at Mode_restart (resetEventFlags w))
   | Mode_restart \<Rightarrow> Some (next_at Bin_check (mode_restart w))
   | Bin_check \<Rightarrow> map_option (next_at Board_check) (bin_check E w)
   | Board_check \<Rightarrow> map_option (next_at Network_turn) (board_check E w)
   | Network_turn \<Rightarrow> map_option (next_at Status_turn) (network_turn E io w)
   | Status_turn \<Rightarrow> map_option (next_at Mode_check) (status_turn E w))"

text \<open>One step of the device: a phase of the main thread, a second of the timer, a button.\<close>

inductive step :: "('s, 'd) env \<Rightarrow> 's world \<Rightarrow> 's world \<Rightarrow> bool" for E where
  main: "main_phase E io w = Some w' \<Longrightarrow> step E w w'"
| tick: "step E w (sysTick w)"
| sw2: "step E w (sw2_release pin w)"
| sw3: "step E w (sw3_release pin w)"

inductive steps :: "('s, 'd) env \<Rightarrow> 's world \<Rightarrow> 's world \<Rightarrow> bool" for E where
  refl: "steps E w w"
| trans: "steps E w v \<Longrightarrow> step E v u \<Longrightarrow> steps E w u"

text \<open>The state the threads start in, from the globals as they are loaded.\<close>

definition ready :: "'s world \<Rightarrow> 's world" where
  "ready w = (let w = resetEventFlags (display ledInit w); w = w\<lparr>net := initNetworkEvent (net w)\<rparr>
     in next_at Mode_check
          (go (if deviceMode w = MODE_PROGRAM_UID then DEV_STATUS_DISCONNECTED else DEV_STATUS_BIN_NOT_FOUND) w))"

section \<open>Projections\<close>

lemma world_simps [simp]:
  "net (display f w) = net w" "devStatus (display f w) = devStatus w" "deviceMode (display f w) = deviceMode w"
  "phase_at (display f w) = phase_at w" "binFilePath (display f w) = binFilePath w"
  "net (go s w) = net w" "devStatus (go s w) = s" "deviceMode (go s w) = deviceMode w" "phase_at (go s w) = phase_at w"
  "prog (go s w) = prog w" "binFilePath (go s w) = binFilePath w"
  "net (set_flags g w) = on_flags g (net w)" "devStatus (set_flags g w) = devStatus w" "deviceMode (set_flags g w) = deviceMode w"
  "phase_at (set_flags g w) = phase_at w" "prog (set_flags g w) = prog w" "binFilePath (set_flags g w) = binFilePath w"
  "net (set_event h w) = on_event h (net w)" "devStatus (set_event h w) = devStatus w" "deviceMode (set_event h w) = deviceMode w"
  "phase_at (set_event h w) = phase_at w" "prog (set_event h w) = prog w"
  "net (next_at p w) = net w" "devStatus (next_at p w) = devStatus w" "deviceMode (next_at p w) = deviceMode w" "phase_at (next_at p w) = p"
  by (simp_all add: display_def go_def set_flags_def set_event_def next_at_def)

lemma log_line_keeps:
  "log_line E t w = Some w' \<Longrightarrow> net w' = net w \<and> devStatus w' = devStatus w \<and> deviceMode w' = deviceMode w \<and>
     prog w' = prog w \<and> phase_at w' = phase_at w"
  by (auto simp: log_line_def Let_def split: bind_splits prod.splits)

section \<open>The status automaton\<close>

text \<open>What the device promises, mode and status alone: the allowed moves.\<close>

inductive spec_step :: "MODE \<times> DEV_STATUS \<Rightarrow> MODE \<times> DEV_STATUS \<Rightarrow> bool" where
  stay: "spec_step s s"
| switch: "spec_step (m, s) (m', s)"
| restart_uid: "spec_step (MODE_PROGRAM_UID, s) (MODE_PROGRAM_UID, DEV_STATUS_DISCONNECTED)"
| restart_code: "spec_step (MODE_PROGRAM_CODE, s) (MODE_PROGRAM_CODE, DEV_STATUS_BIN_NOT_FOUND)"
| bin_found: "spec_step (m, DEV_STATUS_BIN_NOT_FOUND) (m, DEV_STATUS_DISCONNECTED)"
| bin_lost: "s \<in> {DEV_STATUS_DISCONNECTED, DEV_STATUS_CONNECTED} \<Longrightarrow>
    spec_step (MODE_PROGRAM_CODE, s) (MODE_PROGRAM_CODE, DEV_STATUS_BIN_NOT_FOUND)"
| connect: "spec_step (m, DEV_STATUS_DISCONNECTED) (m, DEV_STATUS_CONNECTED)"
| disconnect: "spec_step (m, DEV_STATUS_CONNECTED) (m, DEV_STATUS_DISCONNECTED)"
| start: "spec_step (m, DEV_STATUS_CONNECTED) (m, DEV_STATUS_PROGRAMING)"
| done_ok: "spec_step (m, DEV_STATUS_PROGRAMING) (m, DEV_STATUS_PROGRAM_SUCCESS)"
| done_bad: "spec_step (m, DEV_STATUS_PROGRAMING) (m, DEV_STATUS_PROGRAM_FAIL)"
| confirm: "s \<in> {DEV_STATUS_PROGRAM_SUCCESS, DEV_STATUS_PROGRAM_FAIL} \<Longrightarrow> spec_step (m, s) (m, DEV_STATUS_CONNECTED)"

inductive_cases step_cases: "step E w w'"

definition status_of :: "'s world \<Rightarrow> MODE \<times> DEV_STATUS" where
  "status_of w = (deviceMode w, devStatus w)"

lemma bind_SomeE: "x \<bind> f = Some y \<Longrightarrow> (\<And>z. x = Some z \<Longrightarrow> f z = Some y \<Longrightarrow> P) \<Longrightarrow> P"
  by (cases x) auto

lemma program_code_result:
  assumes run: "program_code E w = Some w'"
  shows "\<exists>path r. cstr (binFilePath w) = Some path \<and>
     programBinFileV1 (board E) (disk E) (blk E) (enc E) (Some path) (prog w) = Some (r, prog w') \<and>
     devStatus w' = (if r = 0 then DEV_STATUS_PROGRAM_SUCCESS else DEV_STATUS_PROGRAM_FAIL) \<and>
     deviceMode w' = deviceMode w \<and> net w' = net w"
proof -
  from run obtain path r p where p: "cstr (binFilePath w) = Some path"
    "programBinFileV1 (board E) (disk E) (blk E) (enc E) (Some path) (prog w) = Some (r, p)"
    unfolding program_code_def by (auto elim!: bind_SomeE)
  define t where "t = bytes ''Program code '' @ path @ (if r = 0 then bytes '' successfully'' else bytes '' failed'')"
  have "program_code E w = log_line E t (w\<lparr>prog := p\<rparr>) \<bind>
      (\<lambda>w. Some (go (if r = 0 then DEV_STATUS_PROGRAM_SUCCESS else DEV_STATUS_PROGRAM_FAIL) w))"
    by (simp add: program_code_def p t_def Let_def del: bytes_simps)
  with run obtain v where v: "log_line E t (w\<lparr>prog := p\<rparr>) = Some v"
    "w' = go (if r = 0 then DEV_STATUS_PROGRAM_SUCCESS else DEV_STATUS_PROGRAM_FAIL) v" by (auto split: bind_splits)
  from log_line_keeps [OF v(1)] v(2) p show ?thesis by simp
qed

lemma program_uid_result:
  assumes run: "program_uid E w = Some w'"
  shows "\<exists>u r. cstr (uid (net w)) = Some u \<and>
     programUID (board E) (enc E) UID_PROGRAM_ADDRESS (Some (uid (net w))) (of_nat (length u)) (prog w) = Some (r, prog w') \<and>
     devStatus w' = (if r = 0 then DEV_STATUS_PROGRAM_SUCCESS else DEV_STATUS_PROGRAM_FAIL) \<and>
     deviceMode w' = deviceMode w \<and> calls (net w') = calls (net w) \<and> event w' = (event w)\<lparr>notifyResultFlag := True\<rparr> \<and>
     UIDProgramSuccessFlag (flags w') = (r = 0)"
proof -
  from run obtain u r p where p: "cstr (uid (net w)) = Some u"
    "programUID (board E) (enc E) UID_PROGRAM_ADDRESS (Some (uid (net w))) (of_nat (length u)) (prog w) = Some (r, p)"
    unfolding program_uid_def by (auto elim!: bind_SomeE)
  define t where "t = bytes ''program uid:'' @ u @ (if r = 0 then bytes '' at f000 successfully'' else bytes '' at f000 failed'')"
  define x where "x = set_flags (UIDProgramSuccessFlag_update (\<lambda>_. r = 0))
    (go (if r = 0 then DEV_STATUS_PROGRAM_SUCCESS else DEV_STATUS_PROGRAM_FAIL) (w\<lparr>prog := p\<rparr>))"
  have "program_uid E w = log_line E t x \<bind> (\<lambda>w. Some (set_event (notifyResultFlag_update (\<lambda>_. True)) w))"
    by (simp add: program_uid_def p t_def x_def Let_def del: bytes_simps)
  with run obtain v where v: "log_line E t x = Some v" "w' = set_event (notifyResultFlag_update (\<lambda>_. True)) v"
    by (auto split: bind_splits)
  have "prog (set_event f z) = prog z" for f z by (simp add: set_event_def)
  with log_line_keeps [OF v(1)] v(2) p show ?thesis by (simp add: x_def)
qed

lemma program_code_status:
  "program_code E w = Some w' \<Longrightarrow> deviceMode w' = deviceMode w \<and> net w' = net w \<and>
     (devStatus w' = DEV_STATUS_PROGRAM_SUCCESS \<or> devStatus w' = DEV_STATUS_PROGRAM_FAIL)"
  using program_code_result [of E w w'] by (auto split: if_splits)

lemma program_uid_status:
  "program_uid E w = Some w' \<Longrightarrow> deviceMode w' = deviceMode w \<and> calls (net w') = calls (net w) \<and>
     event w' = (event w)\<lparr>notifyResultFlag := True\<rparr> \<and>
     (devStatus w' = DEV_STATUS_PROGRAM_SUCCESS \<or> devStatus w' = DEV_STATUS_PROGRAM_FAIL)"
  using program_uid_result [of E w w'] by (auto split: if_splits)

lemma connected_turn_status:
  assumes "devStatus w = DEV_STATUS_CONNECTED"
  shows "spec_step (status_of w) (status_of (connected_turn w))"
  using assms by (auto simp: connected_turn_def Let_def status_of_def intro: spec_step.intros)

lemma disconnected_turn_status:
  assumes "devStatus w = DEV_STATUS_DISCONNECTED"
  shows "spec_step (status_of w) (status_of (disconnected_turn w))"
  using assms by (auto simp: disconnected_turn_def Let_def status_of_def intro: spec_step.intros)

lemma confirm_status:
  assumes "devStatus w \<in> {DEV_STATUS_PROGRAM_SUCCESS, DEV_STATUS_PROGRAM_FAIL}"
  shows "spec_step (status_of w) (status_of (confirm w))"
  using assms by (auto simp: confirm_def Let_def status_of_def intro: spec_step.intros)

lemma status_of_display [simp]: "status_of (display f w) = status_of w"
  by (simp add: status_of_def)

lemma updateDeviceStatus_status: "updateDeviceStatus E w = Some w' \<Longrightarrow> spec_step (status_of w) (status_of w')"
proof (cases "devStatus w")
  case DEV_STATUS_BIN_NOT_FOUND
  assume "updateDeviceStatus E w = Some w'"
  with DEV_STATUS_BIN_NOT_FOUND show ?thesis
    by (auto simp: updateDeviceStatus_def Let_def status_of_def intro: spec_step.intros split: if_splits)
next
  case DEV_STATUS_DISCONNECTED
  assume "updateDeviceStatus E w = Some w'"
  with DEV_STATUS_DISCONNECTED disconnected_turn_status [of "display Indicator_disconnected w"] show ?thesis
    by (auto simp: updateDeviceStatus_def)
next
  case DEV_STATUS_CONNECTED
  assume "updateDeviceStatus E w = Some w'"
  with DEV_STATUS_CONNECTED connected_turn_status [of "display Indicator_connected w"] show ?thesis
    by (auto simp: updateDeviceStatus_def)
next
  case DEV_STATUS_PROGRAMING
  assume "updateDeviceStatus E w = Some w'"
  with DEV_STATUS_PROGRAMING show ?thesis
    by (auto simp: updateDeviceStatus_def status_of_def intro: spec_step.intros split: if_splits
      dest!: program_code_status program_uid_status)
next
  case DEV_STATUS_PROGRAM_SUCCESS
  assume "updateDeviceStatus E w = Some w'"
  with DEV_STATUS_PROGRAM_SUCCESS confirm_status [of "display Indicator_programDone w"] show ?thesis
    by (auto simp: updateDeviceStatus_def)
next
  case DEV_STATUS_PROGRAM_FAIL
  assume "updateDeviceStatus E w = Some w'"
  with DEV_STATUS_PROGRAM_FAIL confirm_status [of "display Indicator_programFail w"] show ?thesis
    by (auto simp: updateDeviceStatus_def)
qed

lemma phases_keep_status:
  "bin_check E w = Some w' \<Longrightarrow> status_of w' = status_of w"
  "board_check E w = Some w' \<Longrightarrow> status_of w' = status_of w"
  "network_turn E io w = Some w' \<Longrightarrow> status_of w' = status_of w"
  by (auto simp: bin_check_def board_check_def network_turn_def status_of_def Let_def split: bind_splits if_splits)

lemma main_phase_status:
  assumes "main_phase E io w = Some w'"
  shows "spec_step (status_of w) (status_of w')"
proof (cases "phase_at w")
  case Mode_check
  with assms show ?thesis
    by (auto simp: main_phase_def status_of_def intro: spec_step.intros dest!: log_line_keeps split: if_splits bind_splits)
next
  case Mode_reset
  with assms show ?thesis by (auto simp: main_phase_def resetEventFlags_def status_of_def intro: spec_step.intros)
next
  case Mode_restart
  with assms show ?thesis
    by (cases "deviceMode w") (auto simp: main_phase_def mode_restart_def status_of_def intro: spec_step.intros)
next
  case Bin_check
  with assms phases_keep_status(1) show ?thesis by (fastforce simp: main_phase_def status_of_def intro: spec_step.intros)
next
  case Board_check
  with assms phases_keep_status(2) show ?thesis by (fastforce simp: main_phase_def status_of_def intro: spec_step.intros)
next
  case Network_turn
  with assms phases_keep_status(3) show ?thesis by (fastforce simp: main_phase_def status_of_def intro: spec_step.intros)
next
  case Status_turn
  with assms updateDeviceStatus_status show ?thesis
    by (fastforce simp: main_phase_def status_turn_def status_of_def intro: spec_step.intros split: if_splits)
qed

lemma status_refines: "step E w w' \<Longrightarrow> spec_step (status_of w) (status_of w')"
proof (erule step_cases)
  show "main_phase E io w = Some w' \<Longrightarrow> spec_step (status_of w) (status_of w')" for io by (rule main_phase_status)
  show "w' = sysTick w \<Longrightarrow> spec_step (status_of w) (status_of w')"
    by (auto simp: sysTick_def Let_def status_of_def intro: spec_step.intros)
  show "w' = sw2_release pin w \<Longrightarrow> spec_step (status_of w) (status_of w')" for pin
    by (auto simp: sw2_release_def Let_def status_of_def intro: spec_step.intros)
  show "w' = sw3_release pin w \<Longrightarrow> spec_step (status_of w) (status_of w')" for pin
    by (auto simp: sw3_release_def status_of_def intro: spec_step.intros)
qed

text \<open>The device refines its automaton step by step, and so over every execution.\<close>

inductive spec_steps :: "MODE \<times> DEV_STATUS \<Rightarrow> MODE \<times> DEV_STATUS \<Rightarrow> bool" where
  srefl: "spec_steps s s"
| strans: "spec_steps s t \<Longrightarrow> spec_step t u \<Longrightarrow> spec_steps s u"


section \<open>Results are true\<close>

lemma status_change:
  assumes "step E w w'" "devStatus w' \<noteq> devStatus w"
  shows "(phase_at w = Status_turn \<and> (\<exists>v. status_turn E w = Some v \<and> w' = next_at Mode_check v))
    \<or> (phase_at w = Mode_restart \<and> w' = next_at Bin_check (mode_restart w))"
proof -
  from assms obtain io where m: "main_phase E io w = Some w'"
    by (auto elim!: step_cases simp: sysTick_def sw2_release_def sw3_release_def Let_def split: if_splits)
  show ?thesis
  proof (cases "phase_at w")
    case Mode_check
    with m assms(2) show ?thesis by (auto simp: main_phase_def dest!: log_line_keeps split: if_splits bind_splits)
  next
    case Bin_check
    with m assms(2) phases_keep_status(1) [of E w] show ?thesis by (auto simp: main_phase_def status_of_def)
  next
    case Board_check
    with m assms(2) phases_keep_status(2) [of E w] show ?thesis by (auto simp: main_phase_def status_of_def)
  next
    case Network_turn
    with m assms(2) phases_keep_status(3) [of E io w] show ?thesis by (auto simp: main_phase_def status_of_def)
  qed (use m assms(2) in \<open>auto simp: main_phase_def resetEventFlags_def\<close>)
qed

text \<open>C14: Results are true.  The device turns to a result only from PROGRAMING, and then by a run of the programmer of its
  mode whose return value it shows: success exactly for 0; in UID mode the server is told that very result.\<close>

theorem results_are_true:
  assumes "step E w w'" "devStatus w' \<in> {DEV_STATUS_PROGRAM_SUCCESS, DEV_STATUS_PROGRAM_FAIL}" "devStatus w' \<noteq> devStatus w"
  shows "devStatus w = DEV_STATUS_PROGRAMING \<and>
    (if deviceMode w = MODE_PROGRAM_CODE
     then \<exists>path r. cstr (binFilePath w) = Some path \<and>
       programBinFileV1 (board E) (disk E) (blk E) (enc E) (Some path) (prog w) = Some (r, prog w') \<and>
       (devStatus w' = DEV_STATUS_PROGRAM_SUCCESS \<longleftrightarrow> r = 0)
     else \<exists>u r. cstr (uid (net w)) = Some u \<and>
       programUID (board E) (enc E) UID_PROGRAM_ADDRESS (Some (uid (net w))) (of_nat (length u)) (prog w) = Some (r, prog w') \<and>
       (devStatus w' = DEV_STATUS_PROGRAM_SUCCESS \<longleftrightarrow> r = 0) \<and>
       notifyResultFlag (event w') \<and> UIDProgramSuccessFlag (flags w') = (r = 0))"
proof -
  have fwd: "devStatus w = DEV_STATUS_PROGRAMING"
    using status_refines [OF assms(1)] assms(2,3) by (auto simp: status_of_def elim: spec_step.cases)
  obtain v where v: "status_turn E w = Some v" "w' = next_at Mode_check v"
    using status_change [OF assms(1,3)] assms(2) by (auto simp: mode_restart_def split: if_splits)
  then have u: "updateDeviceStatus E w = Some v"
    using assms(3) by (auto simp: status_turn_def split: if_splits)
  have p: "prog w' = prog v" using v(2) by (simp add: next_at_def)
  show ?thesis
  proof (cases "deviceMode w")
    case MODE_PROGRAM_CODE
    with u fwd have "program_code E w = Some v" by (simp add: updateDeviceStatus_def)
    from program_code_result [OF this] MODE_PROGRAM_CODE fwd v(2) p show ?thesis by auto
  next
    case MODE_PROGRAM_UID
    with u fwd have "program_uid E w = Some v" by (simp add: updateDeviceStatus_def)
    from program_uid_result [OF this] MODE_PROGRAM_UID fwd v(2) p show ?thesis by auto
  qed
qed


lemma uid_start_disconnected:
  assumes "phase_at w = Status_turn" "deviceMode w = MODE_PROGRAM_UID" "authorizePassFlag (event w)"
    "devStatus w = DEV_STATUS_CONNECTED" "UIDavailableFlag (flags w)" "\<not> boardConnectedFlag (flags w)"
  shows "\<exists>w'. step E w w' \<and> devStatus w' = DEV_STATUS_PROGRAMING \<and> \<not> boardConnectedFlag (flags w')"
proof -
  let ?w = "next_at Mode_check (connected_turn (display Indicator_connected w))"
  have "main_phase E io w = Some ?w" for io
    using assms by (simp add: main_phase_def status_turn_def updateDeviceStatus_def)
  then have "step E w ?w" by (rule step.main)
  moreover have "devStatus ?w = DEV_STATUS_PROGRAMING \<and> \<not> boardConnectedFlag (flags ?w)"
    using assms by (simp add: connected_turn_def Let_def)
  ultimately show ?thesis by blast
qed



definition idle_world :: "u8 list list world" where
  "idle_world = \<lparr>prog = idle_prog [], net = idle_net, devStatus = DEV_STATUS_DISCONNECTED, deviceMode = MODE_PROGRAM_CODE,
     binFilePath = replicate 36 0, logFile = Some [], dirs = 0, phase_at = Status_turn\<rparr>"

definition idle_env :: "(u8 list list, int) env" where
  "idle_env = \<lparr>board = scripted, disk = (\<lambda>_. None), sd = (\<lambda>_. None), blk = [], enc = [], dbl = fp0, room = True\<rparr>"


lemma results_are_true_witness:
  "\<exists>w' path r. step idle_env (go DEV_STATUS_PROGRAMING idle_world) w' \<and> devStatus w' = DEV_STATUS_PROGRAM_FAIL \<and>
     programBinFileV1 scripted (\<lambda>_. None) [] [] (Some path) (idle_prog []) = Some (r, prog w') \<and> r \<noteq> 0"
proof -
  let ?w = "go DEV_STATUS_PROGRAMING idle_world"
  have c: "cstr (binFilePath ?w) = Some []" by (simp add: idle_world_def numeral_eq_Suc)
  have p: "programBinFileV1 scripted (\<lambda>_. None) [] [] (Some []) (prog ?w) = Some (- 2, prog ?w)"
    by (simp add: programBinFileV1_def)
  have "\<exists>w'. program_code idle_env ?w = Some w' \<and> devStatus w' = DEV_STATUS_PROGRAM_FAIL"
    using c p by (simp add: program_code_def idle_env_def log_line_def sprintf_to_def case_prod_unfold Let_def)
  then obtain v where v: "program_code idle_env ?w = Some v" "devStatus v = DEV_STATUS_PROGRAM_FAIL" by blast
  then have "main_phase idle_env io ?w = Some (next_at Mode_check v)" for io
    by (simp add: main_phase_def status_turn_def updateDeviceStatus_def idle_world_def go_def)
  then have s: "step idle_env ?w (next_at Mode_check v)" by (rule step.main)
  have w: "deviceMode ?w = MODE_PROGRAM_CODE" "devStatus ?w = DEV_STATUS_PROGRAMING" "prog ?w = idle_prog []"
    by (simp_all add: idle_world_def)
  have v': "devStatus (next_at Mode_check v) = DEV_STATUS_PROGRAM_FAIL" using v(2) by simp
  with results_are_true [OF s] w obtain path r where
    "programBinFileV1 scripted (\<lambda>_. None) [] [] (Some path) (idle_prog []) = Some (r, prog (next_at Mode_check v))" "r \<noteq> 0"
    by (auto simp: idle_env_def simp del: world_simps)
  with s v' show ?thesis by blast
qed


section \<open>The link\<close>

text \<open>Online means connected before; authorised means online; and no authorisation request has ever claimed a first
  connection.\<close>

definition link_ok :: "net \<Rightarrow> bool" where
  "link_ok n = ((\<not> offlineFlag (networkEvent n) \<longrightarrow> \<not> firstConnectFlag (networkEvent n)) \<and>
     (authorizePassFlag (networkEvent n) \<longrightarrow> \<not> offlineFlag (networkEvent n)) \<and>
     (\<forall>mac. Send (REQ_AUTH API_ID_AUTH mac False) \<notin> set (calls n)))"

lemma dec_int_ids: "dec_int 1 = [49]" "dec_int 2 = [50]" "dec_int 10 = [49, 48]" "dec_int 20 = [50, 48]"
  by (simp_all add: dec_int_def dec_nat.simps)

lemma message_not_first: "message False t \<Longrightarrow> t \<noteq> REQ_AUTH API_ID_AUTH mac False"
proof
  assume m: "message False t" and t: "t = REQ_AUTH API_ID_AUTH mac False"
  note ids = API_ID_AUTH_def API_ID_GET_UID_def API_ID_NOTIFY_PROGRAM_UID_RESULT_def API_ID_HEARTBEAT_def dec_int_ids
  have l: "last (butlast (REQ_AUTH API_ID_AUTH mac b)) = (if b then 49 else 48)" for mac b
    by (simp add: REQ_AUTH_def fmt_bool_def butlast_append)
  have a: "REQ_AUTH API_ID_AUTH mac b ! 9 = 49" "REQ_AUTH API_ID_AUTH mac b ! 10 = 44" for mac b
    by (simp_all add: REQ_AUTH_def ids)
  have g: "REQ_GET_UID API_ID_GET_UID customerCode ! 10 = 48" by (simp add: REQ_GET_UID_def ids)
  have n: "REQ_NOTIFY_RESULT API_ID_NOTIFY_PROGRAM_UID_RESULT u r ! 9 = 50" for u r by (simp add: REQ_NOTIFY_RESULT_def ids)
  have h: "REQ_HEARTBEAT API_ID_HEARTBEAT ! 9 = 50" by (simp add: REQ_HEARTBEAT_def ids)
  from m t show False
    unfolding message_def
  proof (elim disjE exE)
    fix mac' assume "t = REQ_AUTH API_ID_AUTH mac' (\<not> False)"
    with t l [of mac' True] l [of mac False] show False by simp
  next
    assume "t = REQ_GET_UID API_ID_GET_UID customerCode"
    with t a(2) [of mac False] g show False by simp
  next
    fix u r assume "t = REQ_NOTIFY_RESULT API_ID_NOTIFY_PROGRAM_UID_RESULT u r"
    with t a(1) [of mac False] n [of u r] show False by simp
  next
    assume "t = REQ_HEARTBEAT API_ID_HEARTBEAT"
    with t a(1) [of mac False] h show False by simp
  qed
qed

lemma link_ok_cong:
  "offlineFlag (networkEvent n') = offlineFlag (networkEvent n) \<Longrightarrow> firstConnectFlag (networkEvent n') = firstConnectFlag (networkEvent n) \<Longrightarrow>
   authorizePassFlag (networkEvent n') = authorizePassFlag (networkEvent n) \<Longrightarrow> calls n' = calls n \<Longrightarrow> link_ok n' = link_ok n"
  by (simp add: link_ok_def)

lemma link_ok_simps [simp]:
  "link_ok (on_flags f n) = link_ok n" "link_ok (on_event (uidReqFlag_update g) n) = link_ok n"
  "link_ok (on_event (heartbeatFlag_update g) n) = link_ok n" "link_ok (n\<lparr>systemTimer := x\<rparr>) = link_ok n"
  by (simp_all add: link_ok_def)

lemma checkNetwork_link: "link_ok n \<Longrightarrow> link_ok (checkNetwork io n)"
  using not_sym [OF message_not_first [of "REQ_HEARTBEAT API_ID_HEARTBEAT"]]
  by (auto simp: checkNetwork_def link_ok_def Let_def message_def)

lemma msgTransceiverHandle_link:
  assumes "msgTransceiverHandle fp io n = Some n'" "link_ok n"
  shows "link_ok n'"
proof (cases "offlineFlag (networkEvent n)")
  case True
  with assms msgTransceiverHandle_offline [OF True, of fp io] show ?thesis by simp
next
  case False
  with assms(2) have f: "\<not> firstConnectFlag (networkEvent n)" by (simp add: link_ok_def)
  from msgTransceiverHandle_kept [OF assms(1)] obtain cs where cs: "calls n' = calls n @ cs"
    "\<forall>c \<in> set cs. \<exists>t. c = Send t \<and> message False t"
    and k: "offlineFlag (networkEvent n') = offlineFlag (networkEvent n)" "firstConnectFlag (networkEvent n') = firstConnectFlag (networkEvent n)"
    using f by (auto simp: net_kept_def)
  have "Send (REQ_AUTH API_ID_AUTH mac False) \<notin> set cs" for mac
    using cs(2) message_not_first by blast
  with assms(2) False f cs(1) k show ?thesis by (simp add: link_ok_def)
qed

lemma updateDeviceStatus_link:
  assumes "updateDeviceStatus E w = Some w'"
  shows "link_ok (net w') = link_ok (net w)"
proof (cases "devStatus w")
  case DEV_STATUS_PROGRAMING
  show ?thesis
  proof (cases "deviceMode w")
    case MODE_PROGRAM_CODE
    with assms DEV_STATUS_PROGRAMING program_code_status [of E w w'] show ?thesis by (simp add: updateDeviceStatus_def)
  next
    case MODE_PROGRAM_UID
    with assms DEV_STATUS_PROGRAMING program_uid_status [of E w w'] show ?thesis
      by (intro link_ok_cong) (simp_all add: updateDeviceStatus_def)
  qed
qed (use assms in \<open>auto simp: updateDeviceStatus_def Let_def connected_turn_def disconnected_turn_def confirm_def
    intro!: link_ok_cong split: if_splits\<close>)

lemma main_phase_link:
  assumes "main_phase E io w = Some w'" "link_ok (net w)"
  shows "link_ok (net w')"
proof (cases "phase_at w")
  case Mode_check
  with assms show ?thesis by (auto simp: main_phase_def dest!: log_line_keeps split: if_splits bind_splits)
next
  case Mode_reset
  with assms show ?thesis by (auto simp: main_phase_def resetEventFlags_def link_ok_def)
next
  case Mode_restart
  with assms show ?thesis
    by (cases "deviceMode w") (auto simp: main_phase_def mode_restart_def initNetworkEvent_def link_ok_def)
next
  case Bin_check
  with assms show ?thesis by (auto simp: main_phase_def bin_check_def Let_def link_ok_def split: if_splits bind_splits)
next
  case Board_check
  with assms show ?thesis by (auto simp: main_phase_def board_check_def Let_def link_ok_def split: if_splits bind_splits)
next
  case Network_turn
  with assms msgTransceiverHandle_link [OF _ checkNetwork_link] show ?thesis
    by (auto simp: main_phase_def network_turn_def split: if_splits bind_splits)
next
  case Status_turn
  with assms updateDeviceStatus_link [of E w] show ?thesis
    by (auto simp: main_phase_def status_turn_def split: if_splits)
qed

lemma step_link: "step E w w' \<Longrightarrow> link_ok (net w) \<Longrightarrow> link_ok (net w')"
  by (erule step_cases)
    (auto simp: sysTick_def sw2_release_def sw3_release_def Let_def intro: main_phase_link)

lemma steps_link: "steps E w w' \<Longrightarrow> link_ok (net w) \<Longrightarrow> link_ok (net w')"
  by (induction rule: steps.induct) (auto intro: step_link)

text \<open>C15: The link to the server, in every execution.  The device never counts as authorised while it is offline, and it never
  tells the server of a first connection: \<open>checkNetwork\<close> clears \<open>firstConnectFlag\<close> before the request is
  composed, so every authorisation request ever sent says \<open>"reconnect":1\<close>.\<close>

theorem link_invariant:
  assumes "steps E (ready w) w'" "calls (net w) = []"
  shows "(authorizePassFlag (event w') \<longrightarrow> \<not> offlineFlag (event w')) \<and>
    (\<forall>mac. Send (REQ_AUTH API_ID_AUTH mac False) \<notin> set (calls (net w')))"
proof -
  have "calls (net (ready w)) = []" "networkEvent (net (ready w)) = networkEvent (initNetworkEvent (net w))"
    using assms(2) by (simp_all add: ready_def Let_def resetEventFlags_def initNetworkEvent_def)
  then have "link_ok (net (ready w))" by (simp add: link_ok_def initNetworkEvent_def)
  from steps_link [OF assms(1) this] show ?thesis by (simp add: link_ok_def)
qed

lemma link_invariant_witness:
  "\<not> (authorizePassFlag (event (ready idle_world)) \<and> offlineFlag (event (ready idle_world)))"
  using link_invariant [OF steps.refl, of idle_world] by (simp add: idle_world_def idle_net_def)

end
