(* ===== verification/Config.thy ===== *)
theory Config
  imports Device
begin

text \<open>
  The configuration file: \<open>getISPCfg\<close>, \<open>test\<close> and the start of \<open>main\<close> in \<open>src/OnlineProgram.cpp\<close>, over the JSON
  reader.  \<open>malloc\<close> is the allocator of \<open>Json\<close>, so one count covers the text buffers and the tree; \<open>junk\<close> is the
  uninitialised text buffer.  After \<open>test\<close> the function \<open>main\<close> enters \<open>while(1){}\<close>: the code behind the loop, which
  sets up the network and starts the threads, is modelled by \<open>ready\<close> (\<open>Device\<close>) as if the loop were not there.
\<close>

record ISP_CONFIG =
  tragetIC :: "u8 list"
  encode :: "u8 list"
  baudrate :: u32
  flashStartAddress :: u32
  sectorSize :: u32
  sectorNum :: u32
  RAMStartAddress :: u32
  RAMSize :: u32

record cfg_state =
  config :: ISP_CONFIG
  cfg_files :: nat
  heap :: jst

definition CFG_FILE_SIZE_LIMIT :: nat where "CFG_FILE_SIZE_LIMIT = 1024"

definition jfree :: "jst \<Rightarrow> jst" where
  "jfree h = h\<lparr>blocks := blocks h - 1\<rparr>"

abbreviation (input) item_of :: "'d cJSON option \<Rightarrow> string \<Rightarrow> 'd cJSON option" where
  "item_of json name \<equiv> cJSON_GetObjectItem json (Some (bytes name))"

text \<open>\<open>sprintf(dst, "%s", c->valuestring)\<close>\<close>

definition string_into :: "u8 list \<Rightarrow> 'd cJSON \<Rightarrow> u8 list option" where
  "string_into dst c = do { s \<leftarrow> valuestring (jf c); wrs dst 0 (takeWhile (\<lambda>b. b \<noteq> 0) s @ [0]) }"

definition int_of_item :: "'d cJSON \<Rightarrow> u32" where
  "int_of_item c = word_of_int (valueint (jf c))"

text \<open>The items of the tree: the three sections, then the two strings and six numbers; \<open>None\<close> when one is missing.\<close>

definition cfg_items :: "'d cJSON \<Rightarrow> ('d cJSON \<times> 'd cJSON \<times> 'd cJSON list) option" where
  "cfg_items json = do {
     p \<leftarrow> item_of (Some json) ''platform'';
     m \<leftarrow> item_of (Some json) ''map'';
     s \<leftarrow> item_of (Some json) ''ISP_setting'';
     b \<leftarrow> item_of (Some s) ''baudrate'';
     e \<leftarrow> item_of (Some s) ''encode'';
     fa \<leftarrow> item_of (Some m) ''flash_start_address'';
     fs \<leftarrow> item_of (Some m) ''flash_sector_size'';
     fn \<leftarrow> item_of (Some m) ''flash_sector_num'';
     ra \<leftarrow> item_of (Some m) ''ram_start_address'';
     rs \<leftarrow> item_of (Some m) ''ram_size'';
     Some (p, e, [b, fa, fs, fn, ra, rs]) }"

definition fill_config :: "'d cJSON \<times> 'd cJSON \<times> 'd cJSON list \<Rightarrow> ISP_CONFIG \<Rightarrow> ISP_CONFIG option" where
  "fill_config items c = (case items of (p, e, ns) \<Rightarrow> do {
     ic \<leftarrow> string_into (tragetIC c) p;
     en \<leftarrow> string_into (encode c) e;
     Some (c\<lparr>tragetIC := ic, encode := en, baudrate := int_of_item (ns ! 0), flashStartAddress := int_of_item (ns ! 1),
       sectorSize := int_of_item (ns ! 2), sectorNum := int_of_item (ns ! 3), RAMStartAddress := int_of_item (ns ! 4),
       RAMSize := int_of_item (ns ! 5)\<rparr>) })"

definition cfg_exit :: "cfg_state \<Rightarrow> jst \<Rightarrow> cfg_state" where
  "cfg_exit st h = st\<lparr>cfg_files := cfg_files st - 1, heap := jfree h\<rparr>"

definition getISPCfg :: "'d fp \<Rightarrow> (u8 list \<Rightarrow> bin_file option) \<Rightarrow> u8 list \<Rightarrow> u8 list option \<Rightarrow> cfg_state \<Rightarrow> (int \<times> cfg_state) option" where
  "getISPCfg fp fopen junk path st =
     (case path of
       None \<Rightarrow> Some (- 1, st)
     | Some path \<Rightarrow>
     (case fopen path of
       None \<Rightarrow> Some (- 2, st)
     | Some file \<Rightarrow> do {
         let st = st\<lparr>cfg_files := Suc (cfg_files st)\<rparr>;
         let sz = nat (fsize file);
         if sz > CFG_FILE_SIZE_LIMIT then Some (- 3, st\<lparr>cfg_files := cfg_files st - 1\<rparr>)
         else do {
           let (ok, h) = cJSON_malloc (heap st);
           if \<not> ok then Some (- 4, st\<lparr>cfg_files := cfg_files st - 1, heap := h\<rparr>)
           else do {
             let (ok, h) = cJSON_malloc h;
             if \<not> ok then Some (- 4, st\<lparr>cfg_files := cfg_files st - 1, heap := h\<rparr>)
             else do {
               txt \<leftarrow> wrs junk 0 (fread file 0 sz);
               txt \<leftarrow> wr txt sz 0;
               (json, h) \<leftarrow> cJSON_Parse (CFG_FILE_SIZE_LIMIT + 1) fp txt h;
               (case json of
                 None \<Rightarrow> Some (- 5, cfg_exit st h)
               | Some json \<Rightarrow>
               (case cfg_items json of
                 None \<Rightarrow> Some (- 6, cfg_exit st h)
               | Some items \<Rightarrow> do {
                   c \<leftarrow> fill_config items (config st);
                   Some (0, st\<lparr>config := c, heap := h\<rparr>) })) } } } }))"

definition test :: "('s, 'd) env \<Rightarrow> u8 list \<Rightarrow> u8 list \<Rightarrow> cfg_state \<Rightarrow> (int option \<times> u8 list option \<times> cfg_state) option" where
  "test E junk cfgFilePath st = do {
     (r, p, _) \<leftarrow> detectFile (sd E) (Some SD_ROOT_DERECTORY) (Some (bytes ''.json'')) (Some cfgFilePath) 0;
     if r = 0 then do {
       path \<leftarrow> cstr (case p of None \<Rightarrow> [] | Some p \<Rightarrow> p);
       (r, st) \<leftarrow> getISPCfg (dbl E) (disk E) junk (Some path) st;
       Some (Some r, p, st) }
     else Some (None, p, st) }"

text \<open>\<open>main\<close> up to its endless loop.\<close>

definition main_start :: "('s, 'd) env \<Rightarrow> u8 list \<Rightarrow> u8 list \<Rightarrow> 's world \<Rightarrow> cfg_state \<Rightarrow> ('s world \<times> cfg_state) option" where
  "main_start E junk cfgFilePath w st = do {
     w \<leftarrow> log_line E (bytes ''system setup'') (resetEventFlags (display ledInit w));
     (_, _, st) \<leftarrow> test E junk cfgFilePath st;
     Some (w, st) }"

text \<open>What reading the configuration leaves behind.  Every path loses something after the two buffers are there: a text
  that is no JSON loses one block, a missing item one block and the tree, and a good configuration both
  buffers, the tree and the open file.\<close>

theorem getISPCfg_resources:
  fixes fp :: "'d fp"
  assumes "getISPCfg fp fopen junk path st = Some (r, st')"
  shows "r \<in> {- 1, - 2} \<and> st' = st
    \<or> r = - 3 \<and> st' = st
    \<or> r = - 4 \<and> cfg_files st' = cfg_files st \<and> blocks (heap st') \<le> blocks (heap st) + 1 \<and> config st' = config st
    \<or> r = - 5 \<and> cfg_files st' = cfg_files st \<and> blocks (heap st') = blocks (heap st) + 1 \<and> config st' = config st
    \<or> r = - 6 \<and> cfg_files st' = cfg_files st \<and> config st' = config st \<and>
        (\<exists>json :: 'd cJSON. blocks (heap st') = blocks (heap st) + 1 + owned json)
    \<or> r = 0 \<and> cfg_files st' = cfg_files st + 1 \<and> (\<exists>json :: 'd cJSON. blocks (heap st') = blocks (heap st) + 2 + owned json)"
proof (cases "\<exists>p fl. path = Some p \<and> fopen p = Some fl")
  case False
  with assms show ?thesis by (auto simp: getISPCfg_def split: option.splits)
next
  case True
  then obtain p fl where fl: "path = Some p" "fopen p = Some fl" by blast
  obtain ok1 h1 where m1: "cJSON_malloc (heap st) = (ok1, h1)" by fastforce
  obtain ok2 h2 where m2: "cJSON_malloc h1 = (ok2, h2)" by fastforce
  note b = malloc_blocks [OF m1] malloc_blocks [OF m2]
  let ?sz = "nat (fsize fl)"
  show ?thesis
  proof (cases "?sz \<le> CFG_FILE_SIZE_LIMIT \<and> ok1 \<and> ok2")
    case False
    with assms fl m1 m2 b show ?thesis by (auto simp: getISPCfg_def Let_def split: if_splits)
  next
    case True
    with assms fl m1 m2 obtain t0 t j h where t: "wrs junk 0 (fread fl 0 ?sz) = Some t0" "wr t0 ?sz 0 = Some t"
      "cJSON_Parse (CFG_FILE_SIZE_LIMIT + 1) fp t h2 = Some (j, h)"
      by (auto simp: getISPCfg_def Let_def split: bind_splits if_splits)
    note pb = cJSON_Parse_blocks [OF t(3)]
    note run = assms fl m1 m2 True t
    have o: "1 \<le> owned json" for json :: "'d cJSON" by (cases json) simp
    show ?thesis
    proof (cases j)
      case None
      with run pb b show ?thesis by (auto simp: getISPCfg_def Let_def cfg_exit_def jfree_def)
    next
      case (Some json)
      show ?thesis
      proof (cases "cfg_items json")
        case None
        with run Some pb b o [of json] show ?thesis
          by (auto simp: getISPCfg_def Let_def cfg_exit_def jfree_def intro: exI [of _ json])
      next
        case items: (Some it)
        with run Some obtain c where "fill_config it (config st) = Some c"
          by (auto simp: getISPCfg_def Let_def split: bind_splits)
        with run Some items pb b show ?thesis
          by (auto simp: getISPCfg_def Let_def intro: exI [of _ json])
      qed
    qed
  qed
qed

definition empty_config :: cfg_state where
  "empty_config = \<lparr>config = \<lparr>tragetIC = replicate 32 0, encode = replicate 16 0, baudrate = 0, flashStartAddress = 0, sectorSize = 0,
     sectorNum = 0, RAMStartAddress = 0, RAMSize = 0\<rparr>, cfg_files = 0, heap = fresh_jst\<rparr>"

lemma parse_bang: "parse_value (Suc f) fp c (33 # r) st = Some (c, None, st\<lparr>ep := Some (33 # r)\<rparr>)"
  by (simp add: rd_def)

lemma getISPCfg_resources_witness:
  "\<exists>st'. getISPCfg fp0 (\<lambda>_. Some (honest_file [33])) (replicate 1025 0) (Some []) empty_config = Some (- 5, st') \<and>
     blocks (heap st') = 1 \<and> cfg_files st' = 0"
proof -
  let ?t = "33 # replicate 1024 (0 :: u8)"
  have r: "replicate 1025 (0 :: u8) = 0 # 0 # replicate 1023 0" "replicate 1024 (0 :: u8) = 0 # replicate 1023 0"
    using replicate_Suc [of 1024 "0 :: u8"] replicate_Suc [of 1023 "0 :: u8"] by simp_all
  have w: "wrs (replicate 1025 0) 0 (fread (honest_file [33]) 0 (nat (fsize (honest_file [33])))) = Some ?t" "wr ?t 1 0 = Some ?t"
    by (simp_all add: honest_file_def r wr_def)
  have p: "\<exists>h. cJSON_Parse (Suc 1024) fp0 ?t (fresh_jst\<lparr>blocks := 2\<rparr>) = Some (None, h)"
    using parse_bang [of 1024 fp0]
    by (simp add: cJSON_Parse_def cJSON_ParseWithOpts_def cJSON_New_Item_def cJSON_malloc_def fresh_jst_def del: parse_value.simps)
  then obtain h where h: "cJSON_Parse (Suc 1024) fp0 ?t (fresh_jst\<lparr>blocks := 2\<rparr>) = Some (None, h)" by blast
  have m: "cJSON_malloc fresh_jst = (True, fresh_jst\<lparr>blocks := 1\<rparr>)"
    "cJSON_malloc (fresh_jst\<lparr>blocks := 1\<rparr>) = (True, fresh_jst\<lparr>blocks := 2\<rparr>)"
    by (simp_all add: cJSON_malloc_def fresh_jst_def numeral_2_eq_2)
  have sz: "nat (fsize (honest_file [33])) = 1" by (simp add: honest_file_def)
  have "\<exists>st'. getISPCfg fp0 (\<lambda>_. Some (honest_file [33])) (replicate 1025 0) (Some []) empty_config = Some (- 5, st')"
    using w m h sz by (simp add: getISPCfg_def empty_config_def CFG_FILE_SIZE_LIMIT_def)
  then obtain st' where "getISPCfg fp0 (\<lambda>_. Some (honest_file [33])) (replicate 1025 0) (Some []) empty_config = Some (- 5, st')" by blast
  from getISPCfg_resources [OF this] this show ?thesis by (simp add: empty_config_def fresh_jst_def)
qed

end
