(* ===== verification/JsonPrint.thy ===== *)
theory JsonPrint
  imports JsonParse
begin

text \<open>
  The JSON printer of \<open>src/cJSON/cJSON.cpp\<close>: \<open>print_number\<close>, \<open>print_string_ptr\<close>, \<open>print_value\<close>, \<open>print_array\<close>,
  \<open>print_object\<close> and the three entry points, once into blocks of its own (\<open>p\<close> is NULL) and once into a growing
  buffer (\<open>ensure\<close>, \<open>update\<close>).

  A leaf is printed from its \<open>form\<close>, the size asked for and the text, which both ways share.  A block that holds
  a string is that string without its NUL; that it fits the block is checked when it is written.  The
  buffer is the list of its bytes; \<open>junk n\<close> are the bytes of a fresh block of size \<open>n\<close>.  The floating point tests
  and the texts of \<open>sprintf\<close> for non-integers are the record \<open>fpr\<close>.
\<close>

unbundle bit_operations_syntax

section \<open>Leaves\<close>

record 'd fpr =
  d_zero :: "'d \<Rightarrow> bool"
  d_is :: "int \<Rightarrow> 'd \<Rightarrow> bool"
  d_bad :: "'d \<Rightarrow> bool"
  d_whole :: "'d \<Rightarrow> bool"
  d_extreme :: "'d \<Rightarrow> bool"
  d_f0 :: "'d \<Rightarrow> u8 list"
  d_e :: "'d \<Rightarrow> u8 list"
  d_f :: "'d \<Rightarrow> u8 list"

definition number_form :: "'d fpr \<Rightarrow> 'd jfields \<Rightarrow> nat \<times> u8 list" where
  "number_form P f = (let d = valuedouble f in
     if d_zero P d then (2, bytes ''0'')
     else if d_is P (valueint f) d then (21, dec_int (valueint f))
     else (64, if d_bad P d then bytes ''null'' else if d_whole P d then d_f0 P d else if d_extreme P d then d_e P d else d_f P d))"

text \<open>The characters that need an escape, the escapes, and the length the printer counts for them.\<close>

definition special :: "u8 \<Rightarrow> bool" where
  "special c = (0 < c \<and> c < 32 \<or> c = 34 \<or> c = 92)"

definition hex_lower :: "nat \<Rightarrow> u8" where
  "hex_lower n = of_nat (if n < 10 then 48 + n else 87 + n)"

definition escape_char :: "u8 \<Rightarrow> u8 list" where
  "escape_char c = (if c > 31 \<and> c \<noteq> 34 \<and> c \<noteq> 92 then [c]
     else if c = 92 then [92, 92] else if c = 34 then [92, 34] else if c = 8 then [92, 98] else if c = 12 then [92, 102]
     else if c = 10 then [92, 110] else if c = 13 then [92, 114] else if c = 9 then [92, 116]
     else [92, 117, 48, 48, hex_lower (unat c div 16), hex_lower (unat c mod 16)])"

definition escape_len :: "u8 \<Rightarrow> nat" where
  "escape_len c = (if c \<in> {34, 92, 8, 12, 10, 13, 9} then 2 else if c < 32 then 6 else 1)"

definition string_form :: "u8 list option \<Rightarrow> nat \<times> u8 list" where
  "string_form str = (case str of
     None \<Rightarrow> (3, [34, 34])
   | Some s \<Rightarrow> (let s = takeWhile (\<lambda>c. c \<noteq> 0) s in
       if \<not> (\<exists>c \<in> set s. special c) then (length s + 3, 34 # s @ [34])
       else (sum_list (map escape_len s) + 3, 34 # concat (map escape_char s) @ [34])))"

text \<open>The leaves of \<open>print_value\<close>: \<open>None\<close> for arrays, objects and unknown types.\<close>

definition leaf_form :: "'d fpr \<Rightarrow> 'd jfields \<Rightarrow> (nat \<times> u8 list) option" where
  "leaf_form P f = (let t = jtype f mod 256 in
     if t = cJSON_NULL then Some (5, bytes ''null'')
     else if t = cJSON_False then Some (6, bytes ''false'')
     else if t = cJSON_True then Some (5, bytes ''true'')
     else if t = cJSON_Number then Some (number_form P f)
     else if t = cJSON_String then Some (string_form (valuestring f))
     else None)"

section \<open>Printing into blocks\<close>

type_synonym printer = "nat \<Rightarrow> jst \<Rightarrow> (u8 list option \<times> jst) option"

definition block_with :: "nat \<Rightarrow> u8 list \<Rightarrow> jst \<Rightarrow> (u8 list option \<times> jst) option" where
  "block_with cap s st = (let (ok, st) = cJSON_malloc st in
     if \<not> ok then Some (None, st) else if length s < cap then Some (Some s, st) else None)"

definition free_blocks :: "nat \<Rightarrow> jst \<Rightarrow> jst" where
  "free_blocks n st = st\<lparr>blocks := blocks st - n\<rparr>"

text \<open>\<open>print_array\<close>: all entries first, then the text in one block; the flag tells that an entry failed.\<close>

fun print_entries :: "printer list \<Rightarrow> nat \<Rightarrow> jst \<Rightarrow> (u8 list list \<times> bool \<times> jst) option" where
  "print_entries [] depth st = Some ([], False, st)"
| "print_entries (p # ps) depth st = do {
     (r, st) \<leftarrow> p depth st;
     case r of
       None \<Rightarrow> Some ([], True, st)
     | Some t \<Rightarrow> do { (ts, fail, st) \<leftarrow> print_entries ps depth st; Some (t # ts, fail, st) } }"

fun join :: "u8 list \<Rightarrow> u8 list list \<Rightarrow> u8 list" where
  "join sep [] = []"
| "join sep [t] = t"
| "join sep (t # ts) = t @ sep @ join sep ts"

definition comma :: "bool \<Rightarrow> u8 list" where
  "comma fmt = (if fmt then [44, 32] else [44])"

definition array_len :: "bool \<Rightarrow> u8 list list \<Rightarrow> nat" where
  "array_len fmt ts = 5 + sum_list (map (\<lambda>t. length t + 2 + (if fmt then 1 else 0)) ts)"

definition print_array :: "bool \<Rightarrow> printer list \<Rightarrow> printer" where
  "print_array fmt ps depth st =
     (if ps = [] then block_with 3 [91, 93] st
      else let (ok, st) = cJSON_malloc st in
        if \<not> ok then Some (None, st)
        else do {
          (ts, fail, st) \<leftarrow> print_entries ps (depth + 1) st;
          let (ok, st) = (if fail then (False, st) else cJSON_malloc st);
          let st = free_blocks (length ts + 1) st;
          if \<not> ok then Some (None, st)
          else let s = 91 # join (comma fmt) ts @ [93]
            in if length s < array_len fmt ts then Some (Some s, st) else None })"

text \<open>\<open>print_object\<close>: names and values in turn; the last component counts the blocks of a half-printed member.\<close>

fun print_members :: "(u8 list option \<times> printer) list \<Rightarrow> nat \<Rightarrow> jst \<Rightarrow>
    ((u8 list \<times> u8 list) list \<times> bool \<times> nat \<times> jst) option" where
  "print_members [] depth st = Some ([], False, 0, st)"
| "print_members ((name, p) # ms) depth st = do {
     (s, st) \<leftarrow> (let (cap, s) = string_form name in block_with cap s st);
     (r, st) \<leftarrow> p depth st;
     case (s, r) of
       (Some s, Some t) \<Rightarrow> do {
         (ts, fail, half, st) \<leftarrow> print_members ms depth st;
         Some ((s, t) # ts, fail, half, st) }
     | _ \<Rightarrow> Some ([], True, (if s = None then 0 else 1) + (if r = None then 0 else 1), st) }"

definition object_len :: "bool \<Rightarrow> nat \<Rightarrow> (u8 list \<times> u8 list) list \<Rightarrow> nat" where
  "object_len fmt depth ts = 7 + (if fmt then depth else 0) +
     sum_list (map (\<lambda>(s, t). length t + length s + 2 + (if fmt then 2 + depth else 0)) ts)"

definition empty_object :: "bool \<Rightarrow> nat \<Rightarrow> nat \<times> u8 list" where
  "empty_object fmt depth = (if fmt then (depth + 4, [123, 10] @ replicate depth 9 @ [125]) else (3, [123, 125]))"

definition member_text :: "u8 list \<times> u8 list \<Rightarrow> u8 list" where
  "member_text m = fst m @ [58] @ snd m"

definition print_object :: "bool \<Rightarrow> (u8 list option \<times> printer) list \<Rightarrow> printer" where
  "print_object fmt ms depth st =
     (if ms = [] then (let (cap, s) = empty_object fmt depth in block_with cap s st)
      else let (ok, st) = cJSON_malloc st in
        if \<not> ok then Some (None, st)
        else let (ok, st) = cJSON_malloc st in
          if \<not> ok then Some (None, free_blocks 1 st)
          else do {
            (ts, fail, half, st) \<leftarrow> print_members ms (depth + 1) st;
            let (ok, st) = (if fail then (False, st) else cJSON_malloc st);
            let st = free_blocks (2 * length ts + half + 2) st;
            if \<not> ok then Some (None, st)
            else let s = 123 # join [44] (map member_text ts) @ [125]
              in if length s < object_len fmt (depth + 1) ts then Some (Some s, st) else None })"

definition print_node :: "'d fpr \<Rightarrow> bool \<Rightarrow> 'd jfields \<Rightarrow> u8 list option list \<Rightarrow> printer list \<Rightarrow> printer" where
  "print_node P fmt f names ps depth st = (case leaf_form P f of
     Some (cap, s) \<Rightarrow> block_with cap s st
   | None \<Rightarrow>
       if jtype f mod 256 = cJSON_Array then print_array fmt ps depth st
       else if jtype f mod 256 = cJSON_Object then print_object fmt (zip names ps) depth st
       else Some (None, st))"

primrec print_value :: "'d fpr \<Rightarrow> bool \<Rightarrow> 'd cJSON \<Rightarrow> printer" where
  "print_value P fmt (Item f cs) = print_node P fmt f (map (\<lambda>c. jname (jf c)) cs) (map (print_value P fmt) cs)"

definition cJSON_Print :: "'d fpr \<Rightarrow> 'd cJSON \<Rightarrow> jst \<Rightarrow> (u8 list option \<times> jst) option" where
  "cJSON_Print P item st = print_value P True item 0 st"

definition cJSON_PrintUnformatted :: "'d fpr \<Rightarrow> 'd cJSON \<Rightarrow> jst \<Rightarrow> (u8 list option \<times> jst) option" where
  "cJSON_PrintUnformatted P item st = print_value P False item 0 st"

section \<open>Printing into a buffer\<close>

definition pow2gt :: "u32 \<Rightarrow> u32" where
  "pow2gt x = (let x = x - 1; x = x OR signed_drop_bit 1 x; x = x OR signed_drop_bit 2 x; x = x OR signed_drop_bit 4 x;
     x = x OR signed_drop_bit 8 x; x = x OR signed_drop_bit 16 x in x + 1)"

record pbuf =
  pbuffer :: "u8 list option"
  poffset :: nat
  pst :: jst

type_synonym buffer_printer = "nat \<Rightarrow> pbuf \<Rightarrow> (bool \<times> pbuf) option"

definition ensure :: "(nat \<Rightarrow> u8 list) \<Rightarrow> nat \<Rightarrow> pbuf \<Rightarrow> (bool \<times> pbuf) option" where
  "ensure junk needed p = (case pbuffer p of
     None \<Rightarrow> Some (False, p)
   | Some b \<Rightarrow>
       let needed = needed + poffset p
       in if needed \<le> length b then Some (True, p)
          else let newsize = unat (pow2gt (of_nat needed)); (ok, st) = cJSON_malloc (pst p)
            in if \<not> ok then Some (False, p\<lparr>pbuffer := None, pst := free_blocks 1 st\<rparr>)
               else do {
                 newbuffer \<leftarrow> wrs (junk newsize) 0 b;
                 Some (True, p\<lparr>pbuffer := Some newbuffer, pst := free_blocks 1 st\<rparr>) })"

text \<open>Storing at the offset.\<close>

definition put :: "u8 list \<Rightarrow> pbuf \<Rightarrow> pbuf option" where
  "put s p = do { b \<leftarrow> pbuffer p; b \<leftarrow> wrs b (poffset p) s; Some (p\<lparr>pbuffer := Some b\<rparr>) }"

definition update :: "pbuf \<Rightarrow> nat option" where
  "update p = (case pbuffer p of None \<Rightarrow> Some 0
     | Some b \<Rightarrow> do { s \<leftarrow> cstr (drop (poffset p) b); Some (poffset p + length s) })"

text \<open>\<open>ptr = ensure(p, cap); if (!ptr) return 0;\<close> then a store and an advance of the offset.\<close>

definition emit :: "(nat \<Rightarrow> u8 list) \<Rightarrow> nat \<Rightarrow> u8 list \<Rightarrow> nat \<Rightarrow> pbuf \<Rightarrow> (bool \<times> pbuf) option" where
  "emit junk cap s adv p = do {
     (ok, p) \<leftarrow> ensure junk cap p;
     if \<not> ok then Some (False, p)
     else do { p \<leftarrow> put s p; Some (True, p\<lparr>poffset := poffset p + adv\<rparr>) } }"

definition put_form :: "(nat \<Rightarrow> u8 list) \<Rightarrow> nat \<times> u8 list \<Rightarrow> pbuf \<Rightarrow> (bool \<times> pbuf) option" where
  "put_form junk form p = emit junk (fst form) (snd form @ [0]) 0 p"

text \<open>\<open>print_value(child, ...); p->offset = update(p);\<close> the result of the call is ignored.\<close>

definition advance :: "buffer_printer \<Rightarrow> buffer_printer" where
  "advance q depth p = do {
     (_, p) \<leftarrow> q depth p;
     n \<leftarrow> update p;
     Some (True, p\<lparr>poffset := n\<rparr>) }"

fun buffer_items :: "(nat \<Rightarrow> u8 list) \<Rightarrow> bool \<Rightarrow> buffer_printer list \<Rightarrow> buffer_printer" where
  "buffer_items junk fmt [] depth p = Some (True, p)"
| "buffer_items junk fmt (q # qs) depth p = do {
     (_, p) \<leftarrow> advance q depth p;
     (ok, p) \<leftarrow> (if qs = [] then Some (True, p)
       else emit junk (length (comma fmt) + 1) (comma fmt @ [0]) (length (comma fmt)) p);
     if \<not> ok then Some (False, p) else buffer_items junk fmt qs depth p }"

definition buffer_array :: "(nat \<Rightarrow> u8 list) \<Rightarrow> bool \<Rightarrow> buffer_printer list \<Rightarrow> buffer_printer" where
  "buffer_array junk fmt qs depth p =
     (if qs = [] then put_form junk (3, [91, 93]) p
      else do {
        (ok, p) \<leftarrow> emit junk 1 [91] 1 p;
        if \<not> ok then Some (False, p)
        else do {
          (ok, p) \<leftarrow> buffer_items junk fmt qs (depth + 1) p;
          if \<not> ok then Some (False, p) else emit junk 2 [93, 0] 0 p } })"

text \<open>The members: \<open>depth\<close> bytes are skipped when formatting (the tabs are commented out, the advance is not), then
  name, colon, value, and room for a comma and a line feed that is commented out as well.\<close>

fun buffer_members :: "(nat \<Rightarrow> u8 list) \<Rightarrow> bool \<Rightarrow> (u8 list option \<times> buffer_printer) list \<Rightarrow> buffer_printer" where
  "buffer_members junk fmt [] depth p = Some (True, p)"
| "buffer_members junk fmt ((name, q) # ms) depth p = do {
     (ok, p) \<leftarrow> (if fmt then emit junk depth [] depth p else Some (True, p));
     if \<not> ok then Some (False, p)
     else do {
       (_, p) \<leftarrow> advance (\<lambda>_. put_form junk (string_form name)) depth p;
       (ok, p) \<leftarrow> emit junk (if fmt then 2 else 1) [58] (if fmt then 2 else 1) p;
       if \<not> ok then Some (False, p)
       else do {
         (_, p) \<leftarrow> advance q depth p;
         let len = (if fmt then 1 else 0) + (if ms \<noteq> [] then 1 else 0);
         (ok, p) \<leftarrow> emit junk (len + 1) (if ms \<noteq> [] then [44] else []) len p;
         if \<not> ok then Some (False, p) else buffer_members junk fmt ms depth p } } }"

definition buffer_object :: "(nat \<Rightarrow> u8 list) \<Rightarrow> bool \<Rightarrow> (u8 list option \<times> buffer_printer) list \<Rightarrow> buffer_printer" where
  "buffer_object junk fmt ms depth p =
     (if ms = [] then put_form junk (empty_object fmt depth) p
      else do {
        (ok, p) \<leftarrow> emit junk (if fmt then 3 else 2) [123, 0] (if fmt then 2 else 1) p;
        if \<not> ok then Some (False, p)
        else do {
          (ok, p) \<leftarrow> buffer_members junk fmt ms (depth + 1) p;
          if \<not> ok then Some (False, p) else emit junk (if fmt then depth + 2 else 2) [125, 0] 0 p } })"

definition buffer_node :: "(nat \<Rightarrow> u8 list) \<Rightarrow> 'd fpr \<Rightarrow> bool \<Rightarrow> 'd jfields \<Rightarrow> u8 list option list \<Rightarrow> buffer_printer list \<Rightarrow> buffer_printer" where
  "buffer_node junk P fmt f names qs depth p = (case leaf_form P f of
     Some form \<Rightarrow> put_form junk form p
   | None \<Rightarrow>
       if jtype f mod 256 = cJSON_Array then buffer_array junk fmt qs depth p
       else if jtype f mod 256 = cJSON_Object then buffer_object junk fmt (zip names qs) depth p
       else Some (False, p))"

primrec buffer_value :: "(nat \<Rightarrow> u8 list) \<Rightarrow> 'd fpr \<Rightarrow> bool \<Rightarrow> 'd cJSON \<Rightarrow> buffer_printer" where
  "buffer_value junk P fmt (Item f cs) =
     buffer_node junk P fmt f (map (\<lambda>c. jname (jf c)) cs) (map (buffer_value junk P fmt) cs)"

definition cJSON_PrintBuffered :: "(nat \<Rightarrow> u8 list) \<Rightarrow> 'd fpr \<Rightarrow> 'd cJSON \<Rightarrow> nat \<Rightarrow> bool \<Rightarrow> jst \<Rightarrow> (u8 list option \<times> jst) option" where
  "cJSON_PrintBuffered junk P item prebuffer fmt st = do {
     let (ok, st) = cJSON_malloc st;
     (ok, p) \<leftarrow> buffer_value junk P fmt item 0
       \<lparr>pbuffer = (if ok then Some (junk prebuffer) else None), poffset = 0, pst = st\<rparr>;
     Some (if ok then pbuffer p else None, pst p) }"

section \<open>What is printed\<close>

text \<open>The text of a tree, as a reference: no buffers, no capacities.\<close>

fun json_text :: "'d fpr \<Rightarrow> bool \<Rightarrow> nat \<Rightarrow> 'd cJSON \<Rightarrow> u8 list" where
  "json_text P fmt depth (Item f cs) = (case leaf_form P f of
     Some (_, s) \<Rightarrow> s
   | None \<Rightarrow>
       if jtype f mod 256 = cJSON_Array then 91 # join (comma fmt) (map (json_text P fmt (depth + 1)) cs) @ [93]
       else if cs = [] then snd (empty_object fmt depth)
       else 123 # join [44] (map (\<lambda>c. snd (string_form (jname (jf c))) @ [58] @ json_text P fmt (depth + 1) c) cs) @ [125])"

text \<open>Every node has one of the seven types.\<close>

fun printable :: "'d fpr \<Rightarrow> 'd cJSON \<Rightarrow> bool" where
  "printable P (Item f cs) = (leaf_form P f \<noteq> None \<or>
     (jtype f mod 256 = cJSON_Array \<or> jtype f mod 256 = cJSON_Object) \<and> list_all (printable P) cs)"

text \<open>What the capacities rely on: \<open>valueint\<close> is an \<open>int\<close>, and \<open>sprintf\<close> of a \<open>double\<close> makes a string of fewer than 64
  characters where the printer uses it.\<close>

fun int_fields :: "'d cJSON \<Rightarrow> bool" where
  "int_fields (Item f cs) = (- (2 ^ 31) \<le> valueint f \<and> valueint f < 2 ^ 31 \<and> list_all int_fields cs)"

definition c_text :: "u8 list \<Rightarrow> bool" where
  "c_text s = (length s < 64 \<and> 0 \<notin> set s)"

definition sprintf_fits :: "'d fpr \<Rightarrow> bool" where
  "sprintf_fits P = (\<forall>d. \<not> d_bad P d \<longrightarrow>
     (if d_whole P d then c_text (d_f0 P d) else if d_extreme P d then c_text (d_e P d) else c_text (d_f P d)))"

lemma length_dec_int: "- (2 ^ 31) \<le> i \<Longrightarrow> i < 2 ^ 31 \<Longrightarrow> length (dec_int i) \<le> 11"
  using length_dec_nat_le [of "nat (- i)" 10] length_dec_nat_le [of "nat i" 10] by (cases "i < 0") (fastforce simp: dec_int_def nat_less_iff)+

lemma number_form_fits:
  assumes "sprintf_fits P" "- (2 ^ 31) \<le> valueint f" "valueint f < 2 ^ 31"
  shows "length (snd (number_form P f)) < fst (number_form P f)"
proof -
  have "length (dec_int (valueint f)) < 21" using length_dec_int [OF assms(2,3)] by simp
  with assms(1) show ?thesis by (auto simp: number_form_def sprintf_fits_def c_text_def Let_def split: if_splits)
qed

lemma length_escape: "length (escape_char c) = escape_len c" if "c \<noteq> 0"
proof -
  have "c \<le> 31 \<longleftrightarrow> c < 32" by (simp add: word_le_nat_alt word_less_nat_alt, arith)
  then show ?thesis by (auto simp: escape_char_def escape_len_def not_le not_less)
qed

lemma takeWhile_nonzero: "c \<in> set (takeWhile (\<lambda>c. c \<noteq> 0) s) \<Longrightarrow> c \<noteq> (0 :: u8)"
  by (induction s) (auto split: if_splits)

lemma string_form_length: "fst (string_form s) = length (snd (string_form s)) + 1"
proof (cases s)
  case None
  then show ?thesis by (simp add: string_form_def)
next
  case (Some u)
  have "sum_list (map escape_len w) = length (concat (map escape_char w))" if "0 \<notin> set w" for w
    using that by (induction w) (auto simp: length_escape)
  from this [of "takeWhile (\<lambda>c. c \<noteq> 0) u"] Some takeWhile_nonzero [of 0 u] show ?thesis
    by (auto simp: string_form_def Let_def)
qed

lemma leaf_form_fits:
  assumes "leaf_form P f = Some (cap, s)" "sprintf_fits P" "- (2 ^ 31) \<le> valueint f" "valueint f < 2 ^ 31"
  shows "length s < cap"
  using assms(1) number_form_fits [OF assms(2-)] string_form_length [of "valuestring f"]
  by (auto simp: leaf_form_def Let_def split: if_splits)

section \<open>Printing into blocks is correct\<close>

text \<open>The contract of a printer at a depth: \<open>t\<close> is what it prints, \<open>None\<close> if it cannot.  It returns in every state of
  the allocator, with the text in one new block or with nothing allocated.\<close>

definition printed :: "jst \<Rightarrow> u8 list option \<Rightarrow> u8 list option \<times> jst \<Rightarrow> bool" where
  "printed st t = (\<lambda>(r, st'). blocks st' = blocks st + (if r = None then 0 else 1) \<and> (r \<noteq> None \<longrightarrow> r = t) \<and>
     (grants st = [] \<longrightarrow> grants st' = [] \<and> r = t))"

definition prints :: "printer \<Rightarrow> nat \<Rightarrow> u8 list option \<Rightarrow> bool" where
  "prints p depth t = (\<forall>st. case p depth st of None \<Rightarrow> False | Some x \<Rightarrow> printed st t x)"

lemma prints_iff: "prints p depth t \<longleftrightarrow> (\<forall>st. \<exists>r st'. p depth st = Some (r, st') \<and> printed st t (r, st'))"
  unfolding prints_def by (intro iff_allI) (auto split: option.splits)

lemma malloc_grants: "cJSON_malloc st = (ok, st') \<Longrightarrow> grants st = [] \<Longrightarrow> ok \<and> grants st' = []"
  by (auto simp: cJSON_malloc_def split: list.splits)

lemma free_blocks_simps [simp]: "blocks (free_blocks n st) = blocks st - n" "grants (free_blocks n st) = grants st"
  by (simp_all add: free_blocks_def)

lemma prints_block_with: "length s < cap \<Longrightarrow> prints (\<lambda>_. block_with cap s) depth (Some s)"
  by (auto simp: prints_def block_with_def printed_def split: prod.splits option.splits dest: malloc_grants malloc_blocks)

lemma print_entries_spec:
  assumes "list_all2 (\<lambda>p t. prints p depth t) ps ts"
  shows "\<exists>us fail st'. print_entries ps depth st = Some (us, fail, st') \<and> blocks st' = blocks st + length us \<and>
    (\<not> fail \<longrightarrow> map Some us = ts) \<and> (grants st = [] \<longrightarrow> grants st' = [] \<and> fail = (None \<in> set ts))"
  using assms
proof (induction arbitrary: st rule: list_all2_induct)
  case Nil
  show ?case by (intro exI [of _ "[]"] exI [of _ False]) simp
next
  case (Cons p ps t ts)
  from Cons.hyps(1) obtain r st1 where r: "p depth st = Some (r, st1)" "blocks st1 = blocks st + (if r = None then 0 else 1)"
    "r \<noteq> None \<longrightarrow> r = t" "grants st = [] \<longrightarrow> grants st1 = [] \<and> r = t"
    unfolding prints_iff printed_def by fast
  from Cons.IH [of st1] r show ?case by (cases r) auto
qed

lemma length_join: "length (join sep ts) + length sep \<le> sum_list (map (\<lambda>t. length t + length sep) ts) + length sep"
  by (induction sep ts rule: join.induct) auto

lemma array_fits: "ts \<noteq> [] \<Longrightarrow> length (91 # join (comma fmt) ts @ [93]) < array_len fmt ts"
proof -
  have "sum_list (map (\<lambda>t. length t + length (comma fmt)) ts) \<le> sum_list (map (\<lambda>t. length t + 2 + (if fmt then 1 else 0)) ts)"
    by (rule sum_list_mono) (auto simp: comma_def)
  with length_join [of "comma fmt" ts] show ?thesis by (simp add: array_len_def)
qed

lemma prints_array:
  assumes "list_all2 (\<lambda>p t. prints p (Suc depth) t) ps ts"
  shows "prints (print_array fmt ps) depth
    (if None \<in> set ts then None else Some (91 # join (comma fmt) (map the ts) @ [93]))"
proof (cases "ps = []")
  case True
  with assms prints_block_with [of "[91, 93]" 3] show ?thesis by (simp add: prints_def print_array_def)
next
  case False
  show ?thesis
    unfolding prints_iff
  proof
    fix st
    obtain ok1 st1 where m1: "cJSON_malloc st = (ok1, st1)" by fastforce
    obtain us fail st2 where e: "print_entries ps (Suc depth) st1 = Some (us, fail, st2)" "blocks st2 = blocks st1 + length us"
      "\<not> fail \<longrightarrow> map Some us = ts" "grants st1 = [] \<longrightarrow> grants st2 = [] \<and> fail = (None \<in> set ts)"
      using print_entries_spec [OF assms] by metis
    obtain ok2 st3 where m2: "cJSON_malloc st2 = (ok2, st3)" by fastforce
    note b = malloc_blocks [OF m1] malloc_grants [OF m1] malloc_blocks [OF m2] malloc_grants [OF m2]
    show "\<exists>r st'. print_array fmt ps depth st = Some (r, st') \<and> printed st
      (if None \<in> set ts then None else Some (91 # join (comma fmt) (map the ts) @ [93])) (r, st')"
    proof (cases "ok1 \<and> \<not> fail \<and> ok2")
      case True
      with e have us: "ts = map Some us" by auto
      with False assms have "us \<noteq> []" by auto
      from array_fits [OF this, of fmt] True False m1 e m2 b us show ?thesis
        by (auto simp: print_array_def Let_def comp_def printed_def)
    next
      case f: False
      with False m1 e m2 b show ?thesis by (cases ok1; cases fail; cases ok2) (auto simp: print_array_def Let_def printed_def)
    qed
  qed
qed

lemma block_with_string:
  "\<exists>r st'. (let (cap, s) = string_form name in block_with cap s st) = Some (r, st') \<and> printed st (Some (snd (string_form name))) (r, st')"
proof -
  obtain cap s where f: "string_form name = (cap, s)" by fastforce
  with string_form_length [of name] have "length s < cap" by simp
  from prints_block_with [OF this] f show ?thesis by (simp add: prints_iff)
qed

lemma print_members_spec:
  assumes "list_all2 (\<lambda>m t. prints (snd m) depth t) ms ts"
  shows "\<exists>us fail half st'. print_members ms depth st = Some (us, fail, half, st') \<and> blocks st' = blocks st + 2 * length us + half \<and>
    (\<not> fail \<longrightarrow> half = 0 \<and> map fst us = map (\<lambda>m. snd (string_form (fst m))) ms \<and> map (Some \<circ> snd) us = ts) \<and>
    (grants st = [] \<longrightarrow> grants st' = [] \<and> fail = (None \<in> set ts))"
  using assms
proof (induction arbitrary: st rule: list_all2_induct)
  case Nil
  show ?case by (intro exI [of _ "[]"] exI [of _ False] exI [of _ 0]) simp
next
  case (Cons m ms t ts)
  obtain name p where m: "m = (name, p)" by fastforce
  obtain s st1 where s: "(let (cap, s) = string_form name in block_with cap s st) = Some (s, st1)"
    "printed st (Some (snd (string_form name))) (s, st1)"
    using block_with_string by metis
  from Cons.hyps(1) m obtain r st2 where r: "p depth st1 = Some (r, st2)" "printed st1 t (r, st2)"
    unfolding prints_iff by fastforce
  obtain us fail half st3 where i: "print_members ms depth st2 = Some (us, fail, half, st3)"
    "blocks st3 = blocks st2 + 2 * length us + half"
    "\<not> fail \<longrightarrow> half = 0 \<and> map fst us = map (\<lambda>m. snd (string_form (fst m))) ms \<and> map (Some \<circ> snd) us = ts"
    "grants st2 = [] \<longrightarrow> grants st3 = [] \<and> fail = (None \<in> set ts)"
    using Cons.IH [of st2] by metis
  show ?case
  proof (cases s)
    case None
    with s r m show ?thesis by (cases r) (auto simp: printed_def)
  next
    case s': (Some u)
    show ?thesis
    proof (cases r)
      case None
      with s r m s' show ?thesis by (auto simp: printed_def)
    next
      case (Some v)
      with s r i m s' show ?thesis by (auto simp: printed_def)
    qed
  qed
qed

lemma object_fits: "ts \<noteq> [] \<Longrightarrow> length (123 # join [44] (map member_text ts) @ [125]) < object_len fmt depth ts"
proof -
  have "sum_list (map (\<lambda>t. length t + length [44::u8]) (map member_text ts)) =
      sum_list (map (\<lambda>(s, t). length t + length s + 2) ts)"
    by (auto simp: comp_def member_text_def intro!: arg_cong [of _ _ sum_list])
  also have "\<dots> \<le> sum_list (map (\<lambda>(s, t). length t + length s + 2 + (if fmt then 2 + depth else 0)) ts)"
    by (rule sum_list_mono) auto
  finally show ?thesis using length_join [of "[44]" "map member_text ts"] by (simp add: object_len_def)
qed

lemma map_member_text: "map fst us = map g ms \<Longrightarrow> map (Some \<circ> snd) us = ts \<Longrightarrow>
    map member_text us = map (\<lambda>(m, t). g m @ [58] @ the t) (zip ms ts)"
  by (induction us arbitrary: ms ts) (auto simp: member_text_def)

lemma prints_object:
  assumes "list_all2 (\<lambda>m t. prints (snd m) (Suc depth) t) ms ts"
  shows "prints (print_object fmt ms) depth
    (if None \<in> set ts then None else if ms = [] then Some (snd (empty_object fmt depth))
     else Some (123 # join [44] (map (\<lambda>(m, t). snd (string_form (fst m)) @ [58] @ the t) (zip ms ts)) @ [125]))"
    (is "prints _ _ ?t")
proof (cases "ms = []")
  case True
  have "length (snd (empty_object fmt depth)) < fst (empty_object fmt depth)" by (simp add: empty_object_def)
  with assms prints_block_with [OF this, of depth] True show ?thesis by (auto simp: prints_def print_object_def split: prod.splits)
next
  case False
  show ?thesis
    unfolding prints_iff
  proof
    fix st
    obtain ok1 st1 where m1: "cJSON_malloc st = (ok1, st1)" by fastforce
    obtain ok2 st2 where m2: "cJSON_malloc st1 = (ok2, st2)" by fastforce
    obtain us fail half st3 where e: "print_members ms (Suc depth) st2 = Some (us, fail, half, st3)"
      "blocks st3 = blocks st2 + 2 * length us + half"
      "\<not> fail \<longrightarrow> half = 0 \<and> map fst us = map (\<lambda>m. snd (string_form (fst m))) ms \<and> map (Some \<circ> snd) us = ts"
      "grants st2 = [] \<longrightarrow> grants st3 = [] \<and> fail = (None \<in> set ts)"
      using print_members_spec [OF assms] by metis
    obtain ok3 st4 where m3: "cJSON_malloc st3 = (ok3, st4)" by fastforce
    note b = malloc_blocks [OF m1] malloc_grants [OF m1] malloc_blocks [OF m2] malloc_grants [OF m2]
      malloc_blocks [OF m3] malloc_grants [OF m3]
    show "\<exists>r st'. print_object fmt ms depth st = Some (r, st') \<and> printed st ?t (r, st')"
    proof (cases "ok1 \<and> ok2 \<and> \<not> fail \<and> ok3")
      case True
      with e have us: "half = 0" "None \<notin> set ts" "us \<noteq> []" and mt: "map member_text us =
          map (\<lambda>(m, t). snd (string_form (fst m)) @ [58] @ the t) (zip ms ts)"
        using False map_member_text [of us "\<lambda>m. snd (string_form (fst m))" ms ts] by auto
      from object_fits [OF us(3), of fmt "Suc depth"] True False m1 m2 e m3 b us show ?thesis
        unfolding mt [symmetric] by (auto simp: print_object_def Let_def printed_def)
    next
      case f: False
      with False m1 m2 e m3 b show ?thesis
        by (cases ok1; cases ok2; cases fail; cases ok3) (auto simp: print_object_def Let_def printed_def)
    qed
  qed
qed

lemma prints_value:
  assumes "sprintf_fits P"
  shows "int_fields c \<Longrightarrow> prints (print_value P fmt c) depth (if printable P c then Some (json_text P fmt depth c) else None)"
proof (induction c arbitrary: depth)
  case (Item f cs)
  let ?ps = "map (print_value P fmt) cs"
  let ?ts = "map (\<lambda>c. if printable P c then Some (json_text P fmt (Suc depth) c) else None) cs"
  from Item have all: "\<forall>c \<in> set cs. prints (print_value P fmt c) (Suc depth) (if printable P c then Some (json_text P fmt (Suc depth) c) else None)"
    by (auto simp: list_all_iff)
  then have a: "list_all2 (\<lambda>p t. prints p (Suc depth) t) ?ps ?ts"
    by (auto simp: list_all2_conv_all_nth)
  from all have o: "list_all2 (\<lambda>m t. prints (snd m) (Suc depth) t) (zip (map (\<lambda>c. jname (jf c)) cs) ?ps) ?ts"
    by (auto simp: list_all2_conv_all_nth)
  have none: "None \<in> set ?ts \<longleftrightarrow> \<not> list_all (printable P) cs" by (auto simp: list_all_iff)
  show ?case
  proof (cases "leaf_form P f")
    case (Some a)
    obtain cap s where "a = (cap, s)" by fastforce
    with Some Item.prems assms have "length s < cap" by (intro leaf_form_fits [of P f]) auto
    from prints_block_with [OF this] Some \<open>a = (cap, s)\<close> show ?thesis by (simp add: prints_def print_node_def)
  next
    case None
    have at: "list_all (printable P) cs \<Longrightarrow> map the ?ts = map (json_text P fmt (Suc depth)) cs"
      by (auto simp: list_all_iff)
    have ot: "list_all (printable P) cs \<Longrightarrow>
      map (\<lambda>(m, t). snd (string_form (fst m)) @ [58] @ the t) (zip (zip (map (\<lambda>c. jname (jf c)) cs) ?ps) ?ts) =
      map (\<lambda>c. snd (string_form (jname (jf c))) @ [58] @ json_text P fmt (Suc depth) c) cs"
      by (auto simp: list_all_iff intro!: nth_equalityI)
    have pa: "prints (print_array fmt ?ps) depth
        (if list_all (printable P) cs then Some (91 # join (comma fmt) (map (json_text P fmt (Suc depth)) cs) @ [93]) else None)"
      using prints_array [OF a, of fmt] at unfolding none by (cases "list_all (printable P) cs") (simp_all only: if_True if_False simp_thms)
    have po: "prints (print_object fmt (zip (map (\<lambda>c. jname (jf c)) cs) ?ps)) depth
        (if list_all (printable P) cs then Some (if cs = [] then snd (empty_object fmt depth)
          else 123 # join [44] (map (\<lambda>c. snd (string_form (jname (jf c))) @ [58] @ json_text P fmt (Suc depth) c) cs) @ [125]) else None)"
      using prints_object [OF o, of fmt] ot unfolding none
      by (cases "list_all (printable P) cs"; cases "cs = []") (simp_all only: if_True if_False simp_thms zip_eq_Nil_iff map_is_Nil_conv)
    consider "jtype f mod 256 = 32" | "jtype f mod 256 = 64" | "jtype f mod 256 \<notin> {32, 64}" by blast
    then show ?thesis
    proof cases
      case 1
      with pa None show ?thesis by (cases "list_all (printable P) cs") (simp_all add: prints_def print_node_def)
    next
      case 2
      with po None show ?thesis by (cases "list_all (printable P) cs"; cases "cs = []") (auto simp: prints_def print_node_def)
    next
      case 3
      with None show ?thesis by (simp add: prints_def print_node_def printed_def)
    qed
  qed
qed

text \<open>Doubles that are integers, for the witnesses: beyond 60 digits they count as infinite.\<close>

definition fpr0 :: "int fpr" where
  "fpr0 = \<lparr>d_zero = (\<lambda>d. d = 0), d_is = (=), d_bad = (\<lambda>d. \<bar>d\<bar> \<ge> 10 ^ 60), d_whole = (\<lambda>d. True), d_extreme = (\<lambda>d. False),
     d_f0 = dec_int, d_e = dec_int, d_f = dec_int\<rparr>"

lemma fpr0_fits: "sprintf_fits fpr0"
proof -
  have "c_text (dec_int d)" if "\<bar>d\<bar> < 10 ^ 60" for d
  proof -
    have "nat \<bar>d\<bar> < 10 ^ 60" using that by (simp add: nat_less_iff)
    from length_dec_nat_le [OF this] have "length (dec_nat (nat \<bar>d\<bar>)) \<le> 60" by simp
    then show ?thesis by (cases "d < 0") (simp_all add: dec_int_def c_text_def dec_nat_no_NUL)
  qed
  then show ?thesis by (simp add: sprintf_fits_def fpr0_def del: One_nat_def)
qed

text \<open>C10: Printing is safe and complete.  Formatted or not, whatever the allocator does, the printer returns without
  writing behind any of its blocks, with the text of the tree in one new block or with NULL and every block given
  back; it prints exactly the trees whose nodes have known types (or whose unknown parts are not reached), and
  while allocation succeeds it prints all of those.\<close>

theorem cJSON_Print_text:
  assumes "sprintf_fits P" and "int_fields c"
  shows "\<exists>r st'. (if fmt then cJSON_Print P c st else cJSON_PrintUnformatted P c st) = Some (r, st') \<and>
    printed st (if printable P c then Some (json_text P fmt 0 c) else None) (r, st')"
  using prints_value [OF assms, of fmt 0] unfolding prints_iff cJSON_Print_def cJSON_PrintUnformatted_def by (cases fmt) simp_all

text \<open>The tree of \<open>[1]\<close>.\<close>

definition tree1 :: "int cJSON" where
  "tree1 = Item \<lparr>jtype = 32, valuestring = None, valueint = 0, valuedouble = 0, jname = None\<rparr>
     [Item \<lparr>jtype = 8, valuestring = None, valueint = 1, valuedouble = 1, jname = None\<rparr> []]"

lemma cJSON_Print_text_witness:
  "\<exists>st'. cJSON_Print fpr0 tree1 fresh_jst = Some (Some [91, 49, 93], st') \<and> blocks st' = 1"
proof -
  have i: "int_fields tree1" by (simp add: tree1_def)
  have t: "json_text fpr0 True 0 tree1 = [91, 49, 93]" "printable fpr0 tree1"
    by (simp_all add: tree1_def leaf_form_def number_form_def fpr0_def dec_int_def dec_nat.simps)
  from cJSON_Print_text [OF fpr0_fits i, of True fresh_jst] show ?thesis
    by (auto simp: t printed_def fresh_jst_def)
qed

end
