(* ===== verification/JsonRound.thy ===== *)
theory JsonRound
  imports JsonPrint
begin

text \<open>
  Printing and parsing are inverse: the reader of \<open>Json\<close> applied to the texts of the printer of \<open>JsonPrint\<close>.  The
  sections follow the reader: numbers, strings, values, the whole text.  Doubles are exact on integers
  (\<open>exact_ints\<close>), trees are \<open>canonical\<close>; \<open>reads\<close> is the contract each level shows for the next.
\<close>

unbundle bit_operations_syntax

section \<open>Numbers read back\<close>

text \<open>What is used of the arithmetic: \<open>double\<close> is exact on integers up to \<open>2 ^ 53\<close>.\<close>

definition exact_ints :: "'d fp \<Rightarrow> 'd fpr \<Rightarrow> bool" where
  "exact_ints fp P = (
     (\<forall>i j. 0 \<le> i \<and> 0 \<le> j \<and> i + j \<le> 2 ^ 53 \<longrightarrow> fp_add fp (fp_lit fp i) (fp_lit fp j) = fp_lit fp (i + j)) \<and>
     (\<forall>i j. (0 \<le> i \<and> 0 \<le> j \<or> i * j \<noteq> 0) \<and> \<bar>i * j\<bar> \<le> 2 ^ 53 \<longrightarrow> fp_mul fp (fp_lit fp i) (fp_lit fp j) = fp_lit fp (i * j)) \<and>
     fp_pow10 fp 0 = fp_lit fp 1 \<and>
     (\<forall>i. - (2 ^ 31) \<le> i \<and> i < 2 ^ 31 \<longrightarrow> fp_int fp (fp_lit fp i) = i \<and> d_zero P (fp_lit fp i) = (i = 0) \<and> d_is P i (fp_lit fp i)))"

lemma exact_intsD:
  assumes "exact_ints fp P"
  shows "0 \<le> i \<Longrightarrow> 0 \<le> j \<Longrightarrow> i + j \<le> 2 ^ 53 \<Longrightarrow> fp_add fp (fp_lit fp i) (fp_lit fp j) = fp_lit fp (i + j)"
    and "0 \<le> i \<and> 0 \<le> j \<or> i * j \<noteq> 0 \<Longrightarrow> \<bar>i * j\<bar> \<le> 2 ^ 53 \<Longrightarrow> fp_mul fp (fp_lit fp i) (fp_lit fp j) = fp_lit fp (i * j)"
    and "fp_pow10 fp 0 = fp_lit fp 1"
    and "- (2 ^ 31) \<le> i \<Longrightarrow> i < 2 ^ 31 \<Longrightarrow> fp_int fp (fp_lit fp i) = i \<and> d_zero P (fp_lit fp i) = (i = 0) \<and> d_is P i (fp_lit fp i)"
  using assms unfolding exact_ints_def by blast+

lemma dec_digits_ge: "\<forall>c \<in> set ds. digit c \<Longrightarrow> a \<le> dec_digits ds a"
proof (induction ds arbitrary: a)
  case (Cons c ds)
  from Cons.IH [of "10 * a + (unat c - 48)"] Cons.prems show ?case by simp
qed simp

lemma digits_exact:
  assumes "exact_ints fp P"
  shows "\<forall>c \<in> set ds. digit c \<Longrightarrow> r \<noteq> [] \<Longrightarrow> \<not> digit (hd r) \<Longrightarrow> dec_digits ds a \<le> 2 ^ 53 \<Longrightarrow>
    digits fp (fp_lit fp (int a)) k (ds @ r) = Some (fp_lit fp (int (dec_digits ds a)), k + length ds, r)"
proof (induction ds arbitrary: a k)
  case Nil
  then show ?case by (cases r) auto
next
  case (Cons c ds)
  let ?a = "10 * a + (unat c - 48)"
  have le: "?a \<le> dec_digits ds ?a" using Cons.prems by (intro dec_digits_ge) auto
  with Cons.prems have b: "int ?a \<le> 2 ^ 53" by simp
  from Cons.prems have c: "48 \<le> unat c" by (simp add: word_le_nat_alt)
  from Cons.prems have c': "48 \<le> uint c" by (simp add: word_le_def)
  with c have u: "uint c - 48 = int (unat c - 48)" "0 \<le> uint c - 48" by simp_all
  have "fp_mul fp (fp_lit fp (int a)) (fp_lit fp 10) = fp_lit fp (int a * 10)"
    using b by (intro exact_intsD [OF assms]) auto
  moreover have "fp_add fp (fp_lit fp (int a * 10)) (fp_lit fp (uint c - 48)) = fp_lit fp (int a * 10 + (uint c - 48))"
    using b u c by (intro exact_intsD [OF assms]) auto
  moreover have "int a * 10 + (uint c - 48) = int ?a" using u by simp
  ultimately show ?case using Cons.prems Cons.IH [of ?a "Suc k"] by simp
qed

lemma dec_nat_hd: "0 < n \<Longrightarrow> 49 \<le> hd (dec_nat n) \<and> hd (dec_nat n) \<le> 57"
proof (induction n rule: dec_nat.induct)
  case (1 n)
  show ?case
  proof (cases "n < 10")
    case True
    with 1 show ?thesis by (subst (1 2) dec_nat.simps) (simp add: word_le_nat_alt unat_of_nat_len del: of_nat_add)
  next
    case False
    with 1 show ?thesis by (subst (1 2) dec_nat.simps) simp
  qed
qed

definition ends_value :: "u8 list \<Rightarrow> bool" where
  "ends_value r = (r \<noteq> [] \<and> hd r \<in> {0, 44, 93, 125})"

lemma ends_valueE: "ends_value r \<Longrightarrow> (\<And>d r'. r = d # r' \<Longrightarrow> d \<in> {0, 44, 93, 125} \<Longrightarrow> Q) \<Longrightarrow> Q"
  by (cases r) (auto simp: ends_value_def)

lemma parse_number_dec_int:
  assumes e: "exact_ints fp P" and i: "- (2 ^ 31) \<le> i" "i < 2 ^ 31" and r: "ends_value r"
  shows "parse_number fp item (dec_int i @ r) =
    Some (Item ((jf item)\<lparr>valuedouble := fp_lit fp i, valueint := i, jtype := 8\<rparr>) (child item), r)"
proof -
  from r obtain d r' where r': "r = d # r'" and d: "d \<in> {0, 44, 93, 125}" by (rule ends_valueE)
  have nd: "\<not> digit d" "d \<noteq> 46" "d \<noteq> 101" "d \<noteq> 69" using d by auto
  let ?n = "nat \<bar>i\<bar>"
  have ds: "\<forall>c \<in> set (dec_nat ?n). digit c" using dec_nat_digits by blast
  have n53: "int ?n \<le> 2 ^ 53" using i by simp
  have dg: "digits fp (fp_lit fp 0) 0 (dec_nat ?n @ r) = Some (fp_lit fp \<bar>i\<bar>, length (dec_nat ?n), r)"
    using digits_exact [OF e ds, of r 0 0] dec_digits_dec_nat [of ?n] n53 r' nd by simp
  show ?thesis
  proof (cases "i = 0")
    case True
    have "fp_mul fp (fp_mul fp (fp_lit fp 1) (fp_lit fp 0)) (fp_pow10 fp 0) = fp_lit fp 0"
      using exact_intsD (2) [OF e, of 1 0] exact_intsD (2) [OF e, of 0 1] exact_intsD (3) [OF e] by simp
    with True r' nd exact_intsD (4) [OF e, of 0] show ?thesis
      by (simp add: parse_number_def parse_exponent_def rd_def dec_int_def Let_def dec_nat.simps [of 0])
  next
    case False
    then have h: "49 \<le> hd (dec_nat ?n)" "hd (dec_nat ?n) \<le> 57" using dec_nat_hd [of ?n] by auto
    obtain c cs where cs: "dec_nat ?n = c # cs" by (cases "dec_nat ?n") auto
    have m: "fp_mul fp (fp_mul fp (fp_lit fp (sgn i)) (fp_lit fp \<bar>i\<bar>)) (fp_pow10 fp 0) = fp_lit fp i"
      using exact_intsD (2) [OF e, of "sgn i" "\<bar>i\<bar>"] exact_intsD (2) [OF e, of i 1] exact_intsD (3) [OF e] False i by (simp add: sgn_mult_abs)
    have c: "49 \<le> c" "c \<le> 57" "c \<noteq> 45" "c \<noteq> 48" using h cs by auto
    have num: "\<not> (49 \<le> c \<and> c \<le> 57) = False" using c by blast
    note dg' = dg [unfolded cs append_Cons]
    have tail: "rd r 0 = Some d" "parse_exponent r = Some (0, 1, r)"
      using r' nd by (simp_all add: rd_def parse_exponent_def)
    have m0: "fp_mul fp (fp_mul fp (fp_lit fp (sgn i)) (fp_lit fp \<bar>i\<bar>)) (fp_pow10 fp (0 + sint ((0 :: u32) * 1))) = fp_lit fp i"
      using m by simp
    show ?thesis
    proof (cases "i < 0")
      case True
      then have t: "dec_int i @ r = 45 # c # (cs @ r)" "sgn i = - 1" using cs by (simp_all add: dec_int_def)
      show ?thesis
        unfolding parse_number_def t(1)
        by (simp add: rd_def [of "_ # _"] c dg' nd tail m [unfolded t(2)] exact_intsD (4) [OF e i] Let_def del: digits.simps)
    next
      case nn: False
      with False have t: "dec_int i @ r = c # (cs @ r)" "sgn i = 1" using cs by (simp_all add: dec_int_def)
      show ?thesis
        unfolding parse_number_def t(1)
        by (simp add: rd_def [of "_ # _"] c dg' nd tail m [unfolded t(2)] exact_intsD (4) [OF e i] Let_def del: digits.simps)
    qed
  qed
qed

section \<open>Strings read back\<close>

lemma parse_hex4_zero:
  "hex_val h = Some x \<Longrightarrow> hex_val k = Some y \<Longrightarrow> parse_hex4 (48 # 48 # h # k # s) = Some (push_bit 4 x + y)"
proof -
  assume h: "hex_val h = Some x" and k: "hex_val k = Some y"
  have z: "hex_val 48 = Some 0" by (simp add: hex_val_def)
  have "hex_digits (Suc (Suc (Suc (Suc 0)))) 0 (48 # 48 # h # k # s) = Some (push_bit 4 x + y)"
    using h k by (simp add: z)
  then show ?thesis by (simp add: parse_hex4_def eval_nat_numeral)
qed

lemma escape_cases:
  assumes "c \<noteq> 0"
  obtains (plain) "escape_char c = [c]" "c \<noteq> 34" "c \<noteq> 92"
    | (short) e where "escape_char c = [92, e]" "escape_code e = c" "e \<noteq> 117" "e \<noteq> 0"
    | (hex) h k where "escape_char c = [92, 117, 48, 48, h, k]" "parse_hex4 (48 # 48 # h # k # s) = Some (ucast c)"
        "c < 32" "h \<notin> {0, 34, 92}" "k \<notin> {0, 34, 92}"
proof (cases "c > 31 \<and> c \<noteq> 34 \<and> c \<noteq> 92")
  case True
  then show ?thesis using plain by (simp add: escape_char_def)
next
  case False
  show ?thesis
  proof (cases "c \<in> {34, 92, 8, 12, 10, 13, 9}")
    case True
    then show ?thesis using short by (auto simp: escape_char_def escape_code_def)
  next
    case ns: False
    with False have "\<not> 31 < c" by auto
    then have "unat c < 32" by (simp add: not_less word_le_nat_alt)
    moreover from assms have "unat c \<noteq> 0" by (simp add: unat_eq_0)
    ultimately have "unat c \<in> set [1..<32]" by simp
    moreover have "c = of_nat (unat c)" by simp
    ultimately have "c \<in> of_nat ` set [1..<32]" by blast
    then have "c \<in> {1,2,3,4,5,6,7,8,9,10,11,12,13,14,15,16,17,18,19,20,21,22,23,24,25,26,27,28,29,30,31}"
      by (simp add: upt_rec)
    with ns have "c \<in> {1,2,3,4,5,6,7,11,14,15,16,17,18,19,20,21,22,23,24,25,26,27,28,29,30,31}" by auto
    then have e: "escape_char c = [92, 117, 48, 48, hex_lower (unat c div 16), hex_lower (unat c mod 16)] \<and>
        c < 32 \<and> hex_lower (unat c div 16) \<notin> {0, 34, 92} \<and> hex_lower (unat c mod 16) \<notin> {0, 34, 92} \<and>
        (\<exists>x y. hex_val (hex_lower (unat c div 16)) = Some x \<and> hex_val (hex_lower (unat c mod 16)) = Some y \<and> push_bit 4 x + y = ucast c)"
      by (elim insertE emptyE) (simp_all add: escape_char_def hex_lower_def hex_val_def)
    then obtain x y where "hex_val (hex_lower (unat c div 16)) = Some x" "hex_val (hex_lower (unat c mod 16)) = Some y"
        "push_bit 4 x + y = ucast c" by blast
    with parse_hex4_zero [OF this(1,2), of s] e hex show ?thesis by simp
  qed
qed

lemma scan_escape:
  assumes "c \<noteq> 0" and "scan_end r = Some (p, l)"
  shows "\<exists>m. scan_end (escape_char c @ r) = Some (length (escape_char c) + p, l + m) \<and> 1 \<le> m"
proof (cases rule: escape_cases [where s = "[]", OF assms(1)])
  case 1
  with assms show ?thesis by (intro exI [of _ 1]) simp
next
  case (2 e)
  with assms show ?thesis by (intro exI [of _ 1]) simp
next
  case (3 h k)
  with assms show ?thesis by (intro exI [of _ 5]) simp
qed

lemma scan_escaped:
  assumes "0 \<notin> set s"
  shows "\<exists>l. scan_end (concat (map escape_char s) @ 34 # r) = Some (length (concat (map escape_char s)), l) \<and> length s \<le> l"
  using assms
proof (induction s)
  case (Cons c s)
  then obtain l where "scan_end (concat (map escape_char s) @ 34 # r) = Some (length (concat (map escape_char s)), l)" "length s \<le> l"
    by auto
  with scan_escape [OF _ this(1), of c] Cons.prems show ?case by fastforce
qed simp

lemma unat_ucast_32: "unat (ucast (c :: u8) :: u32) = unat c"
proof -
  have "unat c < 2 ^ 32" using unsigned_less [of c, where ?'a = nat] by simp
  then show ?thesis by (simp add: unsigned_ucast_eq take_bit_nat_eq_self)
qed

lemma utf8_ascii: "c < 32 \<Longrightarrow> utf8 (ucast (c :: u8)) = [c]"
proof -
  assume "c < 32"
  then have "ucast c < (0x80 :: u32)" by (simp add: word_less_nat_alt unat_ucast_32)
  moreover have "ucast (ucast c :: u32) = c" by (rule bit_word_eqI) (simp add: bit_simps)
  ultimately show ?thesis by (simp add: utf8_def utf8_len_def firstByteMark_def)
qed

lemma unescape_escape:
  assumes "c \<noteq> 0" "length out < cap"
  shows "unescape cap (length (escape_char c) + n) (escape_char c @ r) out = unescape cap n r (out @ [c])"
proof (cases rule: escape_cases [where s = r, OF assms(1)])
  case 1
  with assms(2) show ?thesis by (simp add: store_def)
next
  case (2 e)
  with assms(2) show ?thesis by (simp add: store_def)
next
  case (3 h k)
  have "unat (ucast c :: u32) < 32" using 3(3) by (simp add: word_less_nat_alt unat_ucast_32)
  moreover have "ucast c \<noteq> (0 :: u32)" using unat_ucast_32 [of c] assms(1) by (metis unat_0 unat_eq_zero)
  ultimately have "\<not> low_surrogate (ucast c)" "\<not> high_surrogate (ucast c)" "ucast c \<noteq> (0 :: u32)"
    using assms(1) by (auto simp: low_surrogate_def high_surrogate_def word_le_nat_alt)
  with 3 assms(2) utf8_ascii [OF 3(3)] show ?thesis by (simp add: store_def)
qed

lemma unescape_escaped:
  assumes "0 \<notin> set s" "length out + length s \<le> cap"
  shows "unescape cap (length (concat (map escape_char s))) (concat (map escape_char s) @ r) out = Some (out @ s, Some r)"
  using assms
proof (induction s arbitrary: out)
  case (Cons c s)
  have "unescape cap (length (escape_char c) + length (concat (map escape_char s))) (escape_char c @ concat (map escape_char s) @ r) out =
    unescape cap (length (concat (map escape_char s))) (concat (map escape_char s) @ r) (out @ [c])"
    using Cons.prems by (intro unescape_escape) auto
  with Cons show ?case by simp
qed simp

lemma takeWhile_id: "0 \<notin> set s \<Longrightarrow> takeWhile (\<lambda>c. c \<noteq> 0) s = (s :: u8 list)"
  by (auto simp: takeWhile_eq_all_conv)

lemma string_form_text:
  assumes "0 \<notin> set s"
  shows "snd (string_form (Some s)) = 34 # concat (map escape_char s) @ [34]"
proof (cases "\<exists>c \<in> set s. special c")
  case True
  with assms have "\<not> \<not> (\<exists>c \<in> set (takeWhile (\<lambda>c. c \<noteq> 0) s). special c)" by (simp add: takeWhile_id)
  then show ?thesis by (simp only: string_form_def option.case Let_def if_False snd_conv takeWhile_id [OF assms])
next
  case False
  have "escape_char c = [c]" if "c \<in> set s" for c
  proof -
    from that False assms have "\<not> special c" "c \<noteq> 0" by auto
    then have "\<not> c < 32" "c \<noteq> 34" "c \<noteq> 92" by (auto simp: special_def word_gt_0)
    then have "31 < c" by (simp add: word_less_nat_alt)
    with \<open>c \<noteq> 34\<close> \<open>c \<noteq> 92\<close> show ?thesis by (simp add: escape_char_def)
  qed
  then have "concat (map escape_char s) = s" by (induction s) auto
  with False assms show ?thesis by (simp add: string_form_def takeWhile_id Let_def)
qed

lemma malloc_total: "grants st = [] \<Longrightarrow> cJSON_malloc st = (True, st\<lparr>blocks := Suc (blocks st)\<rparr>)"
  by (simp add: cJSON_malloc_def)

lemma parse_string_printed:
  assumes "0 \<notin> set s" "grants st = []"
  shows "parse_string item (snd (string_form (Some s)) @ r) st =
    Some (Item ((jf item)\<lparr>valuestring := Some s, jtype := 16\<rparr>) (child item), Some r, st\<lparr>blocks := Suc (blocks st)\<rparr>)"
proof -
  obtain l where l: "scan_end (concat (map escape_char s) @ 34 # r) = Some (length (concat (map escape_char s)), l)" "length s \<le> l"
    using scan_escaped [OF assms(1)] by blast
  have "unescape (Suc l) (length (concat (map escape_char s))) (concat (map escape_char s) @ 34 # r) [] = Some (s, Some (34 # r))"
    using unescape_escaped [OF assms(1), of "[]" "Suc l"] l(2) by simp
  with l show ?thesis
    by (simp add: parse_string_def string_form_text assms rd_def malloc_total store_def)
qed

section \<open>Values read back\<close>

text \<open>The trees a round trip can keep: known types, integer numbers, strings without NUL, and the fields that the type
  does not use as the reader leaves them.\<close>

definition plain_name :: "u8 list option \<Rightarrow> bool" where
  "plain_name n = (case n of None \<Rightarrow> False | Some s \<Rightarrow> 0 \<notin> set s)"

fun canonical :: "'d fp \<Rightarrow> 'd cJSON \<Rightarrow> bool" where
  "canonical fp (Item f cs) = (
     jtype f \<in> {1, 2, 4, 8, 16, 32, 64} \<and>
     (jtype f \<notin> {32, 64} \<longrightarrow> cs = []) \<and>
     (if jtype f = 16 then plain_name (valuestring f) else valuestring f = None) \<and>
     (if jtype f = 8 then - (2 ^ 31) \<le> valueint f \<and> valueint f < 2 ^ 31 else valueint f = (if jtype f = 2 then 1 else 0)) \<and>
     valuedouble f = (if jtype f = 8 then fp_lit fp (valueint f) else fp_lit fp 0) \<and>
     list_all (\<lambda>c. canonical fp c \<and> (if jtype f = 64 then plain_name (jname (jf c)) else jname (jf c) = None)) cs)"

definition fresh_item :: "'d fp \<Rightarrow> u8 list option \<Rightarrow> 'd cJSON \<Rightarrow> bool" where
  "fresh_item fp n i = (valuestring (jf i) = None \<and> valueint (jf i) = 0 \<and> valuedouble (jf i) = fp_lit fp 0 \<and>
     jname (jf i) = n \<and> child i = [])"

text \<open>The contract: before the end of a value, the parser reads the text into a fresh item of the given name.\<close>

definition reads :: "'d fp \<Rightarrow> 'd item_parser \<Rightarrow> u8 list option \<Rightarrow> u8 list \<Rightarrow> 'd cJSON \<Rightarrow> bool" where
  "reads fp pv n t c = (t \<noteq> [] \<and> 32 < hd t \<and> hd t \<noteq> 93 \<and> hd t \<noteq> 125 \<and>
     (\<forall>i r st. fresh_item fp n i \<and> ends_value r \<and> grants st = [] \<longrightarrow>
        (\<exists>st'. pv i (t @ r) st = Some (Item ((jf c)\<lparr>jname := n\<rparr>) (child c), Some r, st') \<and> grants st' = [])))"

lemma readsI:
  assumes "t = h # t'" "32 < h" "h \<noteq> 93" "h \<noteq> 125"
    and "\<And>i r st. fresh_item fp n i \<Longrightarrow> ends_value r \<Longrightarrow> grants st = [] \<Longrightarrow>
      \<exists>st'. pv i (t @ r) st = Some (Item ((jf c)\<lparr>jname := n\<rparr>) (child c), Some r, st') \<and> grants st' = []"
  shows "reads fp pv n t c"
  using assms by (simp add: reads_def)

lemma skip_visible: "32 < hd s \<Longrightarrow> s \<noteq> [] \<Longrightarrow> skip s = Some s"
  by (cases s) (auto simp: not_le)

lemma skip_zero: "skip (0 # s) = Some (0 # s)"
  by simp

lemma skip_text: "t \<noteq> [] \<Longrightarrow> 32 < hd t \<Longrightarrow> skip (t @ r) = Some (t @ r)"
  by (rule skip_visible) auto

lemma ends_value_Cons: "d \<in> {0, 44, 93, 125} \<Longrightarrow> ends_value (d # r)"
  by (simp add: ends_value_def)

lemma zeroed_fresh: "fresh_item fp None (zeroed fp)"
  by (simp add: fresh_item_def zeroed_def)

lemma new_item_total:
  "grants st = [] \<Longrightarrow> cJSON_New_Item fp st = (Some (zeroed fp), st\<lparr>blocks := Suc (blocks st)\<rparr>)"
  by (simp add: cJSON_New_Item_def malloc_total)

text \<open>A chain of items, separated by commas (and a blank).\<close>

lemma array_items_reads:
  assumes "list_all2 (\<lambda>t c. reads_item t c) ts cs" "ts \<noteq> []" "length ts \<le> k" "grants st = []"
    and reads: "\<And>t c r st. reads_item t c \<Longrightarrow> ends_value r \<Longrightarrow> grants st = [] \<Longrightarrow> t \<noteq> [] \<and> 32 < hd t \<and>
      (\<exists>st'. pv (zeroed fp) (t @ r) st = Some (c, Some r, st') \<and> grants st' = [])"
    and cl: "cl \<in> {93, 125}" and v: "skip val = Some (join (comma fmt) ts @ cl # r)"
  shows "\<exists>st'. array_items k fp pv cs0 val st = Some (cs0 @ cs, Some (cl # r), st') \<and> grants st' = []"
  using assms(1-4) v
proof (induction ts cs arbitrary: k st cs0 val rule: list_all2_induct)
  case (Cons t ts c cs)
  from Cons.prems obtain k' where k: "k = Suc k'" by (cases k) auto
  let ?st = "st\<lparr>blocks := Suc (blocks st)\<rparr>"
  have g: "grants ?st = []" using Cons.prems by simp
  show ?case
  proof (cases ts)
    case Nil
    with Cons.hyps have "cs = []" by simp
    have e: "ends_value (cl # r)" using cl by (auto simp: ends_value_def)
    from Cons.hyps(1) reads [OF _ e g] obtain st' where
      "pv (zeroed fp) (t @ cl # r) ?st = Some (c, Some (cl # r), st')" "grants st' = []" by blast
    with Cons.prems Nil \<open>cs = []\<close> cl show ?thesis
      by (auto simp: k new_item_total rd_def)
  next
    case (Cons t2 ts2)
    let ?rest = "drop 1 (comma fmt) @ join (comma fmt) ts @ cl # r"
    have e: "ends_value (44 # ?rest)" by (simp add: ends_value_def)
    from Cons.hyps(1) reads [OF _ e g] obtain st' where
      p: "pv (zeroed fp) (t @ 44 # ?rest) ?st = Some (c, Some (44 # ?rest), st')" "grants st' = []" by blast
    have j: "join (comma fmt) (t # ts) @ cl # r = t @ 44 # ?rest" using Cons by (simp add: comma_def)
    from Cons.hyps(2) local.Cons obtain c2 where "reads_item t2 c2" by (auto simp: list_all2_Cons1)
    with reads [OF _ e g] have "t2 \<noteq> []" "32 < hd t2" by blast+
    then have "32 < hd (join (comma fmt) ts @ cl # r) \<and> join (comma fmt) ts @ cl # r \<noteq> []"
      unfolding local.Cons by (cases ts2) auto
    then have "skip (join (comma fmt) ts @ cl # r) = Some (join (comma fmt) ts @ cl # r)" by (intro skip_visible) auto
    then have s: "skip ?rest = Some (join (comma fmt) ts @ cl # r)" by (cases fmt) (simp_all add: comma_def)
    have "ts \<noteq> []" "length ts \<le> k'" using Cons.prems local.Cons k by auto
    from Cons.IH [OF this p(2) s, of "cs0 @ [c]"] show ?thesis
      using Cons.prems p j by (simp add: k new_item_total rd_def)
  qed
qed simp

lemma parse_chain_reads:
  assumes all: "list_all2 reads_item ts cs" "length ts \<le> k" "grants st = []"
    and reads: "\<And>t c r st. reads_item t c \<Longrightarrow> ends_value r \<Longrightarrow> grants st = [] \<Longrightarrow> t \<noteq> [] \<and> 32 < hd t \<and> hd t \<noteq> cl \<and>
      (\<exists>st'. pv (zeroed fp) (t @ r) st = Some (c, Some r, st') \<and> grants st' = [])"
    and cl: "cl \<in> {93, 125}" and i: "child i = []" and u: "skip u = Some (join (comma fmt) ts @ cl # r)"
  shows "\<exists>st'. parse_chain oc cl ty (array_items k fp pv) i (oc # u) st =
    Some (Item ((jf i)\<lparr>jtype := ty\<rparr>) cs, Some r, st') \<and> grants st' = []"
proof (cases ts)
  case Nil
  with all u i show ?thesis by (auto simp: parse_chain_def rd_def set_type_def)
next
  case (Cons t ts')
  with all(1) obtain c cs' where cs: "cs = c # cs'" "reads_item t c" by (auto simp: list_all2_Cons1)
  have t: "t \<noteq> []" "32 < hd t" "hd t \<noteq> cl" using reads [OF cs(2) ends_value_Cons [of 0 "[]"] all(3)] by auto
  have hd: "hd (join (comma fmt) ts @ cl # r) = hd t" using Cons t(1) by (cases ts') auto
  let ?s = "join (comma fmt) ts @ cl # r"
  have vis: "skip ?s = Some ?s" using hd t(2) by (intro skip_visible) auto
  obtain b s where s: "?s = b # s" "b \<noteq> cl" using hd t(3) by (cases ?s) auto
  from Cons have "ts \<noteq> []" by simp
  from array_items_reads [OF all(1) this all(2,3) _ cl vis, of pv fp "[]"] reads obtain st' where
    "array_items k fp pv [] ?s st = Some (cs, Some (cl # r), st')" "grants st' = []" by auto
  with u s show ?thesis by (auto simp: parse_chain_def rd_def set_type_def set_child_def)
qed

lemma object_item_reads:
  assumes "reads fp pv (Some s) vt c" "0 \<notin> set s" "jname (jf c) = Some s" "ends_value r" "grants st = []"
  shows "\<exists>st'. object_item fp pv (zeroed fp) (snd (string_form (Some s)) @ [58] @ vt @ r) st = Some (c, Some r, st') \<and> grants st' = []"
proof -
  let ?st = "st\<lparr>blocks := Suc (blocks st)\<rparr>"
  let ?i = "name_from_value (Item ((jf (zeroed fp))\<lparr>valuestring := Some s, jtype := 16\<rparr>) (child (zeroed fp)))"
  have i: "fresh_item fp (Some s) ?i" by (simp add: fresh_item_def name_from_value_def zeroed_def)
  have "grants ?st = []" using assms by simp
  with assms(1,4) i obtain st' where p: "pv ?i (vt @ r) ?st = Some (Item ((jf c)\<lparr>jname := Some s\<rparr>) (child c), Some r, st')" "grants st' = []"
    unfolding reads_def by blast
  have c: "Item ((jf c)\<lparr>jname := Some s\<rparr>) (child c) = c" using assms(3) by (cases c) simp
  have vt: "skip (vt @ r) = Some (vt @ r)" using assms(1) by (intro skip_text) (auto simp: reads_def)
  show ?thesis
    unfolding object_item_def using parse_string_printed [OF assms(2,5), of "zeroed fp" "[58] @ vt @ r"] p vt c
    by (simp add: rd_def)
qed

lemma strncmp_eq_append: "strncmp_eq ls (ls @ r) = Some True"
  by (induction ls) auto

lemma parse_value_other:
  assumes "c \<notin> {110, 102, 116}"
  shows "parse_value (Suc f) fp i (c # s) st =
    (if c = 34 then parse_string i (c # s) st
     else if c = 45 \<or> digit c then do { (i, r) \<leftarrow> parse_number fp i (c # s); Some (i, Some r, st) }
     else if c = 91 then parse_array f fp (parse_value f fp) i (c # s) st
     else if c = 123 then parse_object f fp (parse_value f fp) i (c # s) st
     else Some (i, None, st\<lparr>ep := Some (c # s)\<rparr>))"
  using assms by (simp add: rd_def)

lemma parse_value_literals:
  "parse_value (Suc f) fp i (bytes ''null'' @ r) st = Some (set_type 4 i, Some r, st)"
  "parse_value (Suc f) fp i (bytes ''false'' @ r) st = Some (set_type 1 i, Some r, st)"
  "parse_value (Suc f) fp i (bytes ''true'' @ r) st = Some (Item ((jf i)\<lparr>jtype := 2, valueint := 1\<rparr>) (child i), Some r, st)"
  by simp_all

lemma item_eqI: "jf i = jf j \<Longrightarrow> child i = child j \<Longrightarrow> i = j"
  by (cases i; cases j) simp

lemma fresh_item_fields:
  "fresh_item fp n i \<Longrightarrow> (jf i)\<lparr>jtype := t\<rparr> = \<lparr>jtype = t, valuestring = None, valueint = 0, valuedouble = fp_lit fp 0, jname = n\<rparr>"
  by (cases "jf i") (simp add: fresh_item_def)

lemma length_join_ge: "sum_list (map length ts) \<le> length (join sep ts)"
  by (induction sep ts rule: join.induct) auto

lemma length_join_mem: "t \<in> set ts \<Longrightarrow> length t \<le> length (join sep ts)"
  using length_join_ge [of ts sep] member_le_sum_list [of "length t" "map length ts"] by force

lemma length_join_count: "\<forall>t \<in> set ts. t \<noteq> [] \<Longrightarrow> length ts \<le> length (join sep ts)"
proof -
  assume ne: "\<forall>t \<in> set ts. t \<noteq> []"
  have "length t \<ge> 1" if "t \<in> set ts" for t using ne that by (cases t) auto
  then have "length ts \<le> sum_list (map length ts)"
  proof (induction ts)
    case (Cons t ts)
    from Cons.prems [of t] Cons.IH Cons.prems show ?case by fastforce
  qed simp
  with length_join_ge [of ts sep] show ?thesis by linarith
qed

lemma json_text_number:
  assumes "exact_ints fp P" "canonical fp (Item f cs)" "jtype f = 8"
  shows "json_text P fmt d (Item f cs) = dec_int (valueint f)"
proof -
  from assms(2,3) have v: "- (2 ^ 31) \<le> valueint f" "valueint f < 2 ^ 31" "valuedouble f = fp_lit fp (valueint f)" by auto
  with exact_intsD (4) [OF assms(1) v(1,2)] assms(3) show ?thesis
    by (auto simp: leaf_form_def number_form_def dec_int_def dec_nat.simps [of 0] Let_def)
qed

lemma dec_int_hd: "\<exists>h t. dec_int i = h # t \<and> (h = 45 \<or> digit h)"
proof (cases "i < 0")
  case False
  obtain h t where "dec_nat (nat i) = h # t" by (cases "dec_nat (nat i)") auto
  with dec_nat_digits [of h "nat i"] False show ?thesis by (auto simp: dec_int_def)
qed (simp add: dec_int_def)

lemma fresh_item_named:
  assumes "fresh_item fp n i" "valuestring f = vs" "valueint f = vi" "valuedouble f = vd" "jtype f = ty"
  shows "f\<lparr>jname := n\<rparr> = (jf i)\<lparr>jtype := ty, valuestring := vs, valueint := vi, valuedouble := vd\<rparr>"
  using assms by (intro jfields.equality) (simp_all add: fresh_item_def)

lemma fresh_item_update:
  assumes "fresh_item fp n i"
  shows "(jf i)\<lparr>valuestring := None\<rparr> = jf i" "(jf i)\<lparr>valueint := 0\<rparr> = jf i" "(jf i)\<lparr>valuedouble := fp_lit fp 0\<rparr> = jf i"
  using assms by (auto intro!: jfields.equality simp: fresh_item_def)

lemma skip_join: "\<forall>t \<in> set ts. t \<noteq> [] \<and> 32 < hd t \<Longrightarrow> 32 < cl \<Longrightarrow> skip (join sep ts @ cl # r) = Some (join sep ts @ cl # r)"
  by (rule skip_visible) (cases "(sep, ts)" rule: join.cases; auto)+

lemma readsD:
  assumes "reads fp pv n t c"
  shows "t \<noteq> []" "32 < hd t" "hd t \<noteq> 93" "hd t \<noteq> 125"
    "fresh_item fp n i \<Longrightarrow> ends_value r \<Longrightarrow> grants st = [] \<Longrightarrow>
      \<exists>st'. pv i (t @ r) st = Some (Item ((jf c)\<lparr>jname := n\<rparr>) (child c), Some r, st') \<and> grants st' = []"
  using assms by (auto simp: reads_def)

lemma item_rename: "jname (jf c) = n \<Longrightarrow> Item ((jf c)\<lparr>jname := n\<rparr>) (child c) = c"
  by (cases c) auto

lemma reads_leaf:
  assumes e: "exact_ints fp P" and c: "canonical fp (Item f cs)" and t: "jtype f \<notin> {32, 64}"
  shows "reads fp (parse_value (Suc k) fp) n (json_text P fmt d (Item f cs)) (Item f cs)"
proof -
  have cs: "cs = []" using c t by auto
  have f: "f\<lparr>jname := n\<rparr> = \<lparr>jtype = jtype f, valuestring = valuestring f, valueint = valueint f, valuedouble = valuedouble f, jname = n\<rparr>"
    by (cases f) simp
  consider "jtype f = 1" | "jtype f = 2" | "jtype f = 4" | "jtype f = 8" | "jtype f = 16" using c t by auto
  then show ?thesis
  proof cases
    case 1
    then have w: "json_text P fmt d (Item f cs) = bytes ''false''" by (simp add: leaf_form_def)
    show ?thesis
      unfolding w
    proof (rule readsI [of _ 102 "[97, 108, 115, 101]"], goal_cases)
      case (5 i r st)
      with 1 c cs show ?case by (simp only: parse_value_literals(2) set_type_def) (auto simp: fresh_item_def intro!: jfields.equality)
    qed simp_all
  next
    case 2
    then have w: "json_text P fmt d (Item f cs) = bytes ''true''" by (simp add: leaf_form_def)
    show ?thesis
      unfolding w
    proof (rule readsI [of _ 116 "[114, 117, 101]"], goal_cases)
      case (5 i r st)
      with 2 c cs show ?case by (simp only: parse_value_literals(3) set_type_def) (auto simp: fresh_item_def intro!: jfields.equality)
    qed simp_all
  next
    case 3
    then have w: "json_text P fmt d (Item f cs) = bytes ''null''" by (simp add: leaf_form_def)
    show ?thesis
      unfolding w
    proof (rule readsI [of _ 110 "[117, 108, 108]"], goal_cases)
      case (5 i r st)
      with 3 c cs show ?case by (simp only: parse_value_literals(1) set_type_def) (auto simp: fresh_item_def intro!: jfields.equality)
    qed simp_all
  next
    case 4
    note w = json_text_number [OF e c 4]
    obtain h u where h: "dec_int (valueint f) = h # u" "h = 45 \<or> digit h" using dec_int_hd by blast
    have h': "32 < h" "h \<notin> {110, 102, 116, 34, 93, 125}" using h(2) less_le_trans [of 32 48 h] by auto
    show ?thesis
      unfolding w
    proof (rule readsI [OF h(1)], goal_cases)
      case (4 i r st)
      have "parse_value (Suc k) fp i (dec_int (valueint f) @ r) st =
          do { (i, r) \<leftarrow> parse_number fp i (dec_int (valueint f) @ r); Some (i, Some r, st) }"
        using h h' by (simp add: parse_value_other del: parse_value.simps)
      moreover have "- (2 ^ 31) \<le> valueint f" "valueint f < 2 ^ 31" using c \<open>jtype f = 8\<close> by auto
      note parse_number_dec_int [OF e this 4(2), of i]
      ultimately show ?case using 4 c cs \<open>jtype f = 8\<close> by (auto simp: fresh_item_def intro!: jfields.equality)
    qed (use h' in auto)
  next
    case 5
    with c obtain s where s: "valuestring f = Some s" "0 \<notin> set s" by (auto simp: plain_name_def split: option.splits)
    with 5 have w: "json_text P fmt d (Item f cs) = snd (string_form (Some s))" by (simp add: leaf_form_def split: prod.split)
    note w' = string_form_text [OF s(2)]
    show ?thesis
      unfolding w
    proof (rule readsI [OF w'], goal_cases)
      case (4 i r st)
      have "parse_value (Suc k) fp i (snd (string_form (Some s)) @ r) st = parse_string i (snd (string_form (Some s)) @ r) st"
        by (simp add: w' parse_value_other del: parse_value.simps)
      with parse_string_printed [OF s(2) 4(3), of i r] 4 c cs s \<open>jtype f = 16\<close> show ?case
        by (auto simp: fresh_item_def intro!: jfields.equality)
    qed simp_all
  qed
qed

lemma reads_value:
  assumes e: "exact_ints fp P"
  shows "canonical fp c \<Longrightarrow> length (json_text P fmt d c) < k \<Longrightarrow> reads fp (parse_value k fp) n (json_text P fmt d c) c"
proof (induction c arbitrary: d k n)
  case (Item f cs)
  from Item.prems(2) obtain k' where k: "k = Suc k'" by (cases k) auto
  show ?case
  proof (cases "jtype f \<in> {32, 64}")
    case False
    show ?thesis unfolding k by (rule reads_leaf [OF e Item.prems(1) False])
  next
    case True
    have f: "f\<lparr>jname := n\<rparr> = \<lparr>jtype = jtype f, valuestring = valuestring f, valueint = valueint f, valuedouble = valuedouble f, jname = n\<rparr>"
      by (cases f) simp
    let ?ts = "map (json_text P fmt (Suc d)) cs"
    have reads: "reads fp (parse_value k' fp) m (json_text P fmt (Suc d) c) c" if "c \<in> set cs" "length (json_text P fmt (Suc d) c) < k'" for c m
      using Item.IH [OF that(1) _ that(2)] Item.prems(1) that(1) by (auto simp: list_all_iff)
    consider (array) "jtype f = 32" | (obj) "jtype f = 64" using True by auto
    then show ?thesis
    proof cases
      case array
      then have w: "json_text P fmt d (Item f cs) = 91 # join (comma fmt) ?ts @ [93]" by (simp add: leaf_form_def)
      let ?ok = "\<lambda>t c. t = json_text P fmt (Suc d) c \<and> c \<in> set cs"
      have len: "length (json_text P fmt (Suc d) c) < k'" if "c \<in> set cs" for c
        using Item.prems(2) that length_join_mem [of "json_text P fmt (Suc d) c" ?ts "comma fmt"] unfolding w k by simp
      have all: "list_all2 ?ok ?ts cs" by (auto simp: list_all2_conv_all_nth)
      have "\<forall>t \<in> set ?ts. t \<noteq> []" using reads [OF _ len] by (auto simp: reads_def)
      from length_join_count [OF this, of "comma fmt"] Item.prems(2) have cnt: "length ?ts \<le> k'" unfolding w k by simp
      show ?thesis
        unfolding w k
      proof (rule readsI [of _ 91], goal_cases)
        case (5 i r st)
        have r: "?ok t c \<Longrightarrow> ends_value r \<Longrightarrow> grants st = [] \<Longrightarrow> t \<noteq> [] \<and> 32 < hd t \<and> hd t \<noteq> 93 \<and>
          (\<exists>st'. parse_value k' fp (zeroed fp) (t @ r) st = Some (c, Some r, st') \<and> grants st' = [])" for t c r st
        proof -
          assume ok: "?ok t c" and e: "ends_value r" "grants st = []"
          note rd = readsD [OF reads [OF _ len, of c None]]
          have "jname (jf c) = None" using Item.prems(1) ok array by (auto simp: list_all_iff)
          note item_rename [OF this]
          with ok rd(1-3) rd(5) [OF _ _ zeroed_fresh e] show ?thesis by simp
        qed
        have v: "skip (join (comma fmt) ?ts @ 93 # r) = Some (join (comma fmt) ?ts @ 93 # r)"
          using reads [OF _ len] by (intro skip_join) (auto simp: reads_def)
        have ch: "child i = []" using 5(1) by (simp add: fresh_item_def)
        from parse_chain_reads [where reads_item = ?ok and cl = 93 and fp = fp and fmt = fmt and ts = "?ts" and pv = "parse_value k' fp" and r = r
            and i = i and oc = 91 and ty = 32, OF all cnt 5(3) r _ ch v] obtain st' where
          p: "parse_chain 91 93 32 (array_items k' fp (parse_value k' fp)) i (91 # join (comma fmt) ?ts @ 93 # r) st =
            Some (Item ((jf i)\<lparr>jtype := 32\<rparr>) cs, Some r, st')" "grants st' = []" by auto
        have eq: "f\<lparr>jname := n\<rparr> = (jf i)\<lparr>jtype := 32\<rparr>"
          using 5(1) Item.prems(1) array by (intro jfields.equality) (auto simp: fresh_item_def)
        show ?case using p by (simp add: parse_value_other parse_array_def eq del: parse_value.simps)
      qed simp_all
    next
      case obj
      let ?str = "\<lambda>c. snd (string_form (jname (jf c)))"
      let ?ms = "map (\<lambda>c. ?str c @ [58] @ json_text P fmt (Suc d) c) cs"
      have w: "json_text P fmt d (Item f cs) = (if cs = [] then snd (empty_object fmt d) else 123 # join [44] ?ms @ [125])"
        using obj by (simp add: leaf_form_def)
      let ?ok = "\<lambda>t c. t = ?str c @ [58] @ json_text P fmt (Suc d) c \<and> c \<in> set cs"
      have len: "length (json_text P fmt (Suc d) c) < k'" if "c \<in> set cs" for c
      proof -
        from that have "cs \<noteq> []" by auto
        then show ?thesis
          using Item.prems(2) that length_join_mem [of "?str c @ [58] @ json_text P fmt (Suc d) c" ?ms "[44]"] unfolding w k by force
      qed
      have nm: "\<exists>s. jname (jf c) = Some s \<and> 0 \<notin> set s" if "c \<in> set cs" for c
        using Item.prems(1) obj that by (auto simp: list_all_iff plain_name_def split: option.splits)
      have hd: "\<exists>u. ?str c = 34 # u" if "c \<in> set cs" for c
        using nm [OF that] string_form_text by fastforce
      have all: "list_all2 ?ok ?ms cs" by (auto simp: list_all2_conv_all_nth)
      have r: "?ok t c \<Longrightarrow> ends_value r \<Longrightarrow> grants st = [] \<Longrightarrow> t \<noteq> [] \<and> 32 < hd t \<and> hd t \<noteq> 125 \<and>
        (\<exists>st'. object_item fp (parse_value k' fp) (zeroed fp) (t @ r) st = Some (c, Some r, st') \<and> grants st' = [])" for t c r st
      proof -
        assume ok: "?ok t c" and e: "ends_value r" "grants st = []"
        from ok nm obtain s where s: "jname (jf c) = Some s" "0 \<notin> set s" by blast
        from object_item_reads [OF reads [OF _ len] s(2,1) e] ok s hd [of c] show ?thesis by auto
      qed
      show ?thesis
      proof (cases "cs = []")
        case True
        let ?tl = "tl (snd (empty_object fmt d))"
        have w0: "json_text P fmt d (Item f cs) = 123 # ?tl" unfolding w using True by (simp add: empty_object_def)
        show ?thesis
          unfolding w0 k
        proof (rule readsI [of _ 123], goal_cases)
          case (5 i r st)
          let ?tail = "?tl @ r"
          have ws: "skip (replicate m 9 @ 125 # u) = Some (125 # u)" for m and u :: "u8 list" by (induction m) auto
          have v: "skip ?tail = Some (join (comma fmt) [] @ 125 # r)" by (simp add: empty_object_def ws)
          have ch: "child i = []" using 5(1) by (simp add: fresh_item_def)
          from parse_chain_reads [where reads_item = ?ok and cl = 125 and fp = fp and fmt = fmt and ts = "[]" and pv = "object_item fp (parse_value k' fp)" and r = r
              and i = i and oc = 123 and ty = 64, OF _ _ 5(3) r _ ch v, of "[]" k'] obtain st' where
            p: "parse_chain 123 125 64 (array_items k' fp (object_item fp (parse_value k' fp))) i (123 # ?tail) st =
              Some (Item ((jf i)\<lparr>jtype := 64\<rparr>) cs, Some r, st')" "grants st' = []" using True by auto
          have eq: "f\<lparr>jname := n\<rparr> = (jf i)\<lparr>jtype := 64\<rparr>"
            using 5(1) Item.prems(1) obj by (intro jfields.equality) (auto simp: fresh_item_def)
          show ?case using p by (simp add: parse_value_other parse_object_def object_items_def eq True del: parse_value.simps)
        qed simp_all
      next
        case False
        then have w': "json_text P fmt d (Item f cs) = 123 # join (comma False) ?ms @ [125]" using w by (simp add: comma_def)
        have "\<forall>t \<in> set ?ms. t \<noteq> []" by simp
        from length_join_count [OF this, of "[44]"] Item.prems(2) False have cnt: "length ?ms \<le> k'" unfolding w k by simp
        show ?thesis
          unfolding w' k
        proof (rule readsI [of _ 123], goal_cases)
          case (5 i r st)
          have v: "skip (join (comma False) ?ms @ 125 # r) = Some (join (comma False) ?ms @ 125 # r)"
            using hd by (intro skip_join) fastforce+
          have ch: "child i = []" using 5(1) by (simp add: fresh_item_def)
          from parse_chain_reads [where reads_item = ?ok and cl = 125 and fp = fp and fmt = False and ts = "?ms" and pv = "object_item fp (parse_value k' fp)" and r = r
              and i = i and oc = 123 and ty = 64, OF all cnt 5(3) r _ ch v] obtain st' where
            p: "parse_chain 123 125 64 (array_items k' fp (object_item fp (parse_value k' fp))) i (123 # join (comma False) ?ms @ 125 # r) st =
              Some (Item ((jf i)\<lparr>jtype := 64\<rparr>) cs, Some r, st')" "grants st' = []" by auto
          have eq: "f\<lparr>jname := n\<rparr> = (jf i)\<lparr>jtype := 64\<rparr>"
            using 5(1) Item.prems(1) obj by (intro jfields.equality) (auto simp: fresh_item_def)
          show ?case using p by (simp add: parse_value_other parse_object_def object_items_def eq del: parse_value.simps)
        qed simp_all
      qed
    qed
  qed
qed

section \<open>The round trip\<close>

lemma canonical_int_fields: "canonical fp c \<Longrightarrow> int_fields c"
  by (induction c) (auto simp: list_all_iff split: if_splits)

lemma canonical_printable: "exact_ints fp P \<Longrightarrow> canonical fp c \<Longrightarrow> printable P c"
  by (induction c) (auto simp: list_all_iff leaf_form_def)

lemma prints_result: "prints p d t \<Longrightarrow> p d st = Some (r, st') \<Longrightarrow> printed st t (r, st')"
  unfolding prints_def by (drule spec [of _ st]) simp

lemma prints_run: "prints p d (Some t) \<Longrightarrow> grants st = [] \<Longrightarrow> \<exists>st'. p d st = Some (Some t, st')"
  unfolding prints_iff printed_def by (drule spec [of _ st]) auto

lemma Parse_of_text:
  assumes "exact_ints fp P" "canonical fp c" "jname (jf c) = None" "length (json_text P fmt d c) < f" "grants st = []"
  shows "\<exists>st'. cJSON_Parse f fp (json_text P fmt d c @ 0 # rest) st = Some (Some c, st')"
proof -
  let ?t = "json_text P fmt d c"
  note rd = readsD [OF reads_value [OF assms(1,2,4), of None]]
  let ?st = "st\<lparr>blocks := Suc (blocks st), ep := None\<rparr>"
  have "grants ?st = []" using assms(5) by simp
  from rd(5) [OF zeroed_fresh ends_value_Cons this, of 0 rest] obtain st' where
    "parse_value f fp (zeroed fp) (?t @ 0 # rest) ?st = Some (Item ((jf c)\<lparr>jname := None\<rparr>) (child c), Some (0 # rest), st')" by auto
  with item_rename [OF assms(3)] skip_text [OF rd(1,2)] show ?thesis
    by (simp add: cJSON_Parse_def cJSON_ParseWithOpts_def new_item_total [OF assms(5)])
qed

text \<open>C8: Printing and parsing are inverse.  For every tree of known types with integer numbers and NUL-free strings,
  and \<open>double\<close>s that are exact on integers: whatever \<open>cJSON_Print\<close> or \<open>cJSON_PrintUnformatted\<close> returns, followed by its
  terminator and anything, parses to the tree it was printed from, escapes, nesting and names included.\<close>

theorem print_parse_roundtrip:
  assumes "sprintf_fits P" and "exact_ints fp P" and "canonical fp c" and "jname (jf c) = None"
    and "(if fmt then cJSON_Print P c st else cJSON_PrintUnformatted P c st) = Some (Some t, st1)"
    and "length t < f" and "grants st2 = []"
  shows "\<exists>st3. cJSON_Parse f fp (t @ 0 # rest) st2 = Some (Some c, st3)"
proof -
  have "print_value P fmt c 0 st = Some (Some t, st1)"
    using assms(5) by (cases fmt) (simp_all add: cJSON_Print_def cJSON_PrintUnformatted_def)
  from prints_result [OF prints_value [OF assms(1) canonical_int_fields [OF assms(3)]] this] canonical_printable [OF assms(2,3)]
  have "t = json_text P fmt 0 c" by (simp add: printed_def)
  with Parse_of_text [OF assms(2,3,4) _ assms(7), where d = 0] assms(6) show ?thesis by blast
qed

text \<open>The tree of an object with the member \<open>a\<close>, -5.\<close>

definition tree2 :: "int cJSON" where
  "tree2 = Item \<lparr>jtype = 64, valuestring = None, valueint = 0, valuedouble = 0, jname = None\<rparr>
     [Item \<lparr>jtype = 8, valuestring = None, valueint = -5, valuedouble = -5, jname = Some [97]\<rparr> []]"

lemma exact_fp0: "exact_ints fp0 fpr0"
  by (auto simp: exact_ints_def fp0_def fpr0_def)

lemma print_parse_roundtrip_witness:
  "\<exists>st3. cJSON_Parse 9 fp0 ([123, 34, 97, 34, 58, 45, 53, 125] @ 0 # [33]) fresh_jst = Some (Some tree2, st3)"
proof -
  have c: "canonical fp0 tree2" by (simp add: tree2_def fp0_def plain_name_def)
  have t: "json_text fpr0 False 0 tree2 = [123, 34, 97, 34, 58, 45, 53, 125]" "printable fpr0 tree2"
    by (simp_all add: tree2_def leaf_form_def number_form_def fpr0_def dec_int_def dec_nat.simps string_form_def special_def)
  have "grants fresh_jst = []" by (simp add: fresh_jst_def)
  with prints_run prints_value [OF fpr0_fits canonical_int_fields [OF c], of False 0, unfolded t if_P [OF t(2)]]
  obtain st1 where "cJSON_PrintUnformatted fpr0 tree2 fresh_jst = Some (Some [123, 34, 97, 34, 58, 45, 53, 125], st1)"
    unfolding cJSON_PrintUnformatted_def by fastforce
  then show ?thesis
    by (intro print_parse_roundtrip [OF fpr0_fits exact_fp0 c, where fmt = False]) (simp_all add: tree2_def fresh_jst_def)
qed

end
