(* ===== verification/JsonBuffer.thy ===== *)
theory JsonBuffer
  imports JsonPrint
begin

text \<open>
  Printing into a buffer (\<open>cJSON_PrintBuffered\<close>): \<open>pow2gt\<close> is the next power of two, so \<open>ensure\<close> makes room; without
  formatting the buffer ends up with the text the block printer makes (contract \<open>puts\<close>, composed by \<open>goes_seq\<close>); with
  formatting every object comes out as \<open>{\<close> (\<open>keeps\<close>: what stands before the offset stays).
\<close>

unbundle bit_operations_syntax

section \<open>The next power of two\<close>

text \<open>Each step doubles the reach of the highest bit.\<close>

lemma smear_step:
  fixes x y :: "'a :: len word"
  assumes "\<And>i. bit x i = (\<exists>j < n. bit y (i + j))" and "\<not> bit y (LENGTH('a) - 1)" and m: "m = n + n"
  shows "bit (x OR signed_drop_bit n x) i = (\<exists>j < m. bit y (i + j))"
proof -
  have len: "bit y k \<Longrightarrow> k < LENGTH('a) - 1" for k
    using assms(2) bit_imp_le_length [of y k] by (cases "k = LENGTH('a) - 1") auto
  have top: "\<not> bit x k" if "LENGTH('a) - 1 \<le> k" for k
    using assms(1) [of k] len that by fastforce
  have d: "bit (signed_drop_bit n x) i = bit x (n + i)" for i
  proof (cases "LENGTH('a) - n \<le> i \<and> i < LENGTH('a)")
    case True
    then have "LENGTH('a) - 1 \<le> n + i" by arith
    with True top show ?thesis by (simp add: bit_signed_drop_bit_iff)
  qed (auto simp: bit_signed_drop_bit_iff)
  have "(\<exists>j < n + n. bit y (i + j)) = ((\<exists>j < n. bit y (i + j)) \<or> (\<exists>j < n. bit y (n + i + j)))" for i
  proof
    assume "\<exists>j < n + n. bit y (i + j)"
    then obtain j where j: "j < n + n" "bit y (i + j)" by blast
    show "(\<exists>j < n. bit y (i + j)) \<or> (\<exists>j < n. bit y (n + i + j))"
    proof (cases "j < n")
      case False
      then have "i + j = n + i + (j - n)" "j - n < n" using j(1) by auto
      with j(2) show ?thesis by metis
    qed (use j in blast)
  next
    assume "(\<exists>j < n. bit y (i + j)) \<or> (\<exists>j < n. bit y (n + i + j))"
    then show "\<exists>j < n + n. bit y (i + j)"
    proof
      assume "\<exists>j < n. bit y (n + i + j)"
      then obtain j where "j < n" "bit y (n + i + j)" by blast
      then show ?thesis by (intro exI [of _ "n + j"]) (simp add: ac_simps)
    qed (meson trans_less_add1)
  qed
  with d assms(1) show ?thesis by (simp add: bit_or_iff m)
qed

lemma pow2gt_bits:
  assumes "\<not> bit (x - 1) 31"
  shows "\<exists>z. pow2gt x = z + 1 \<and> (\<forall>i. bit z i = (\<exists>j < 32. bit (x - 1) (i + j)))"
proof -
  define y where "y = x - 1"
  define y1 where "y1 = (y OR signed_drop_bit 1 y)"
  define y2 where "y2 = (y1 OR signed_drop_bit 2 y1)"
  define y4 where "y4 = (y2 OR signed_drop_bit 4 y2)"
  define y8 where "y8 = (y4 OR signed_drop_bit 8 y4)"
  define z where "z = (y8 OR signed_drop_bit 16 y8)"
  have m: "\<not> bit y (LENGTH(32) - 1)" using assms by (simp add: y_def)
  have "bit y i = (\<exists>j < 1. bit y (i + j))" for i by simp
  from smear_step [OF this m, of 2] have "bit y1 i = (\<exists>j < 2. bit y (i + j))" for i by (simp add: y1_def)
  from smear_step [OF this m, of 4] have "bit y2 i = (\<exists>j < 4. bit y (i + j))" for i by (simp add: y2_def)
  from smear_step [OF this m, of 8] have "bit y4 i = (\<exists>j < 8. bit y (i + j))" for i by (simp add: y4_def)
  from smear_step [OF this m, of 16] have "bit y8 i = (\<exists>j < 16. bit y (i + j))" for i by (simp add: y8_def)
  from smear_step [OF this m, of 32] have "bit z i = (\<exists>j < 32. bit y (i + j))" for i by (simp add: z_def)
  moreover have "pow2gt x = z + 1" by (simp add: pow2gt_def Let_def z_def y8_def y4_def y2_def y1_def y_def)
  ultimately show ?thesis unfolding y_def by blast
qed

lemma bit_le_unat: "bit (y :: 'a :: len word) m \<Longrightarrow> 2 ^ m \<le> unat y"
proof (rule ccontr)
  assume "bit y m" "\<not> 2 ^ m \<le> unat y"
  moreover from this have "bit (unat y) m" by (simp add: bit_unsigned_iff bit_imp_le_length)
  ultimately show False by (simp add: bit_iff_odd)
qed

lemma pow2gt_power:
  assumes "0 < x" "x \<le> 2 ^ 30"
  shows "\<exists>k \<le> 30. unat (pow2gt x) = 2 ^ k \<and> unat x \<le> 2 ^ k \<and> 2 ^ k < 2 * unat x"
proof -
  define y where "y = x - 1"
  have ux: "unat x \<le> 2 ^ 30" "0 < unat x" using assms by (simp_all add: word_le_nat_alt word_less_nat_alt)
  have "x \<noteq> 0" using assms(1) by auto
  then have uy: "unat y = unat x - 1" unfolding y_def by (rule unat_minus_one)
  have top: "i < 30" if "bit y i" for i
  proof (rule ccontr)
    assume "\<not> i < 30"
    then have "(2 :: nat) ^ 30 \<le> 2 ^ i" by (intro power_increasing) auto
    with bit_le_unat [OF that] uy ux show False by linarith
  qed
  obtain z where z: "pow2gt x = z + 1" "\<And>i. bit z i = (\<exists>j < 32. bit y (i + j))"
    using pow2gt_bits [of x] top [of 31] unfolding y_def by auto
  show ?thesis
  proof (cases "y = 0")
    case True
    then have "x = 1" by (simp add: y_def)
    moreover have "z = 0" using z(2) True by (intro bit_word_eqI) simp
    ultimately show ?thesis using z(1) by (intro exI [of _ 0]) simp
  next
    case False
    let ?m = "Max {i. bit y i}"
    have fin: "finite {i. bit y i}" by (rule finite_subset [of _ "{..<30}"]) (use top in blast, simp)
    have ne: "{i. bit y i} \<noteq> {}" using False by (auto simp: bit_eq_iff [of y 0])
    have m: "bit y ?m" "\<And>i. bit y i \<Longrightarrow> i \<le> ?m" using Max_in [OF fin ne] Max_ge [OF fin] by blast+
    have m30: "?m < 30" by (rule top [OF m(1)])
    have "z = mask (Suc ?m)"
    proof (rule bit_word_eqI)
      fix i assume "i < LENGTH(32)"
      have "bit z i \<longleftrightarrow> i \<le> ?m"
      proof
        assume "bit z i"
        with z(2) m(2) show "i \<le> ?m" by (meson add_leD1)
      next
        assume "i \<le> ?m"
        with m30 m(1) show "bit z i" unfolding z(2) by (intro exI [of _ "?m - i"]) simp
      qed
      with m30 show "bit z i \<longleftrightarrow> bit (mask (Suc ?m) :: u32) i" by (auto simp: bit_mask_iff)
    qed
    then have p: "pow2gt x = 2 ^ Suc ?m" unfolding z(1) mask_eq_exp_minus_1 by simp
    have u: "unat (2 ^ Suc ?m :: u32) = 2 ^ Suc ?m" proof -
      have "(2 :: nat) ^ Suc ?m < 2 ^ 32" using m30 by (intro power_strict_increasing) auto
      then show ?thesis using unat_of_nat_len [of "2 ^ Suc ?m", where 'a = 32] by (simp del: power_Suc)
    qed
    have "y = take_bit (Suc ?m) y" using m(2) by (intro bit_word_eqI) (auto simp: bit_take_bit_iff less_Suc_eq_le)
    then have "unat y < 2 ^ Suc ?m" by (metis unsigned_take_bit_eq take_bit_nat_less_exp)
    with bit_le_unat [OF m(1)] uy ux m30 show ?thesis unfolding p u by (intro exI [of _ "Suc ?m"]) auto
  qed
qed

section \<open>The contract of a buffer printer\<close>

text \<open>Without a buffer every operation leaves the state as it is.\<close>

definition noop :: "(pbuf \<Rightarrow> (bool \<times> pbuf) option) \<Rightarrow> bool" where
  "noop q = (\<forall>p. pbuffer p = None \<longrightarrow> (case q p of None \<Rightarrow> False | Some (_, p') \<Rightarrow> pbuffer p' = None \<and> pst p' = pst p))"

lemma noopD:
  assumes "noop q" "pbuffer p = None"
  obtains ok p' where "q p = Some (ok, p')" "pbuffer p' = None" "pst p' = pst p"
proof -
  from assms have "case q p of None \<Rightarrow> False | Some (_, p') \<Rightarrow> pbuffer p' = None \<and> pst p' = pst p" unfolding noop_def by blast
  with that show ?thesis by (auto split: option.splits)
qed

lemma noopI:
  assumes "\<And>p. pbuffer p = None \<Longrightarrow> \<exists>ok p'. q p = Some (ok, p') \<and> pbuffer p' = None \<and> pst p' = pst p"
  shows "noop q"
  unfolding noop_def
proof (intro allI impI)
  fix p :: pbuf assume "pbuffer p = None"
  from assms [OF this] show "case q p of None \<Rightarrow> False | Some (_, p') \<Rightarrow> pbuffer p' = None \<and> pst p' = pst p" by auto
qed

text \<open>\<open>lost\<close>: an allocation failed and the buffer is gone.  \<open>goes\<close>: the operation returns, either with the buffer lost or
  with the same number of blocks and \<open>Q\<close>.\<close>

definition lost :: "pbuf \<Rightarrow> pbuf \<Rightarrow> bool" where
  "lost p p' = (pbuffer p' = None \<and> blocks (pst p') = blocks (pst p) - 1 \<and> grants (pst p) \<noteq> [])"

definition kept :: "pbuf \<Rightarrow> pbuf \<Rightarrow> bool" where
  "kept p p' = (blocks (pst p') = blocks (pst p) \<and> (grants (pst p) = [] \<longrightarrow> grants (pst p') = []))"

definition goes :: "pbuf \<Rightarrow> (pbuf \<Rightarrow> bool) \<Rightarrow> (bool \<times> pbuf) option \<Rightarrow> bool" where
  "goes p Q r = (\<exists>ok p'. r = Some (ok, p') \<and> (lost p p' \<or> ok \<and> kept p p' \<and> Q p'))"

lemma goes_okI: "r = Some (True, p') \<Longrightarrow> kept p p' \<Longrightarrow> Q p' \<Longrightarrow> goes p Q r"
  unfolding goes_def by blast

lemma goes_lostI: "r = Some (ok, p') \<Longrightarrow> lost p p' \<Longrightarrow> goes p Q r"
  unfolding goes_def by blast

lemma goes_weaken: "goes p Q r \<Longrightarrow> (\<And>p'. Q p' \<Longrightarrow> Q' p') \<Longrightarrow> goes p Q' r"
  unfolding goes_def by blast

lemma goes_chain: "kept p p1 \<Longrightarrow> goes p1 Q r \<Longrightarrow> goes p Q r"
  unfolding goes_def lost_def kept_def by auto

lemma lost_noop: "lost p p1 \<Longrightarrow> noop q \<Longrightarrow> goes p Q (q p1)"
  by (rule noopD [of q p1]) (auto simp: lost_def goes_def)

lemma goes_seq:
  assumes "goes p Q r" "\<And>p1. kept p p1 \<Longrightarrow> Q p1 \<Longrightarrow> goes p1 Q' (q p1)" "noop q"
  shows "goes p Q' (do { (ok, p) \<leftarrow> r; if \<not> ok then Some (False, p) else q p })" (is ?seq)
    and "goes p Q' (do { (_, p) \<leftarrow> r; q p })" (is ?any)
proof -
  from assms(1) obtain ok p1 where r: "r = Some (ok, p1)" "lost p p1 \<or> ok \<and> kept p p1 \<and> Q p1"
    unfolding goes_def by blast
  from r(2) show ?seq
  proof
    assume l: "lost p p1"
    with lost_noop [OF this assms(3), of Q'] show ?thesis by (cases ok) (auto simp: r goes_def)
  next
    assume "ok \<and> kept p p1 \<and> Q p1"
    with goes_chain [OF _ assms(2)] show ?thesis by (simp add: r)
  qed
  from r(2) show ?any
  proof
    assume l: "lost p p1"
    with lost_noop [OF this assms(3), of Q'] show ?thesis by (simp add: r)
  next
    assume "ok \<and> kept p p1 \<and> Q p1"
    with goes_chain [OF _ assms(2)] show ?thesis by (simp add: r)
  qed
qed

lemma noop_seq:
  assumes "noop a" "noop q"
  shows "noop (\<lambda>p. do { (ok, p) \<leftarrow> a p; if \<not> ok then Some (False, p) else q p })"
    and "noop (\<lambda>p. do { (_, p) \<leftarrow> a p; q p })"
proof -
  show "noop (\<lambda>p. do { (ok, p) \<leftarrow> a p; if \<not> ok then Some (False, p) else q p })"
  proof (rule noopI)
    fix p :: pbuf assume "pbuffer p = None"
    from noopD [OF assms(1) this] obtain ok p1 where 1: "a p = Some (ok, p1)" "pbuffer p1 = None" "pst p1 = pst p" .
    from noopD [OF assms(2) 1(2)] obtain ok2 p2 where "q p1 = Some (ok2, p2)" "pbuffer p2 = None" "pst p2 = pst p1" .
    with 1 show "\<exists>ok p'. (do { (ok, p) \<leftarrow> a p; if \<not> ok then Some (False, p) else q p }) = Some (ok, p') \<and>
      pbuffer p' = None \<and> pst p' = pst p" by (cases ok) auto
  qed
  show "noop (\<lambda>p. do { (_, p) \<leftarrow> a p; q p })"
  proof (rule noopI)
    fix p :: pbuf assume "pbuffer p = None"
    from noopD [OF assms(1) this] obtain ok p1 where 1: "a p = Some (ok, p1)" "pbuffer p1 = None" "pst p1 = pst p" .
    from noopD [OF assms(2) 1(2)] obtain ok2 p2 where "q p1 = Some (ok2, p2)" "pbuffer p2 = None" "pst p2 = pst p1" .
    with 1 show "\<exists>ok p'. (do { (_, p) \<leftarrow> a p; q p }) = Some (ok, p') \<and> pbuffer p' = None \<and> pst p' = pst p" by auto
  qed
qed

lemma noop_return: "noop (\<lambda>p. Some (ok, p))"
  by (simp add: noop_def)

section \<open>Storing\<close>

text \<open>\<open>at p s\<close>: the text \<open>s\<close> stands before the offset.  \<open>wrote p s t\<close>: behind \<open>s\<close> stands the string \<open>t\<close> with its terminator,
  the offset somewhere in it.\<close>

definition at :: "pbuf \<Rightarrow> u8 list \<Rightarrow> bool" where
  "at p s = (\<exists>r. pbuffer p = Some (s @ r) \<and> poffset p = length s)"

definition wrote :: "u8 list \<Rightarrow> u8 list \<Rightarrow> pbuf \<Rightarrow> bool" where
  "wrote s t p = (\<exists>r. pbuffer p = Some (s @ t @ 0 # r) \<and> length s \<le> poffset p \<and> poffset p \<le> length s + length t)"

text \<open>A store leaves \<open>bs\<close> behind \<open>s\<close>.\<close>

definition stored :: "u8 list \<Rightarrow> u8 list \<Rightarrow> nat \<Rightarrow> pbuf \<Rightarrow> bool" where
  "stored s bs adv p = (\<exists>r. pbuffer p = Some (s @ bs @ r) \<and> poffset p = length s + adv)"

lemma ensure_cases:
  assumes "\<And>n. length (junk n) = n" "at p s" "0 < cap" "length s + cap \<le> 2 ^ 30"
  obtains p' where "ensure junk cap p = Some (False, p')" "lost p p'"
    | p' r where "ensure junk cap p = Some (True, p')" "kept p p'" "pbuffer p' = Some (s @ r)" "poffset p' = length s"
        "cap \<le> length r"
proof -
  from assms(2) obtain r where b: "pbuffer p = Some (s @ r)" "poffset p = length s" unfolding at_def by blast
  let ?b = "s @ r"
  let ?n = "cap + length s"
  have w: "unat (of_nat ?n :: u32) = ?n" using assms(4) by (intro unat_of_nat_len) simp
  have "(0 :: u32) < of_nat ?n" "(of_nat ?n :: u32) \<le> 2 ^ 30"
    unfolding word_less_nat_alt word_le_nat_alt w using assms(3,4) by simp_all
  from pow2gt_power [OF this] have big: "?n \<le> unat (pow2gt (of_nat ?n))" unfolding w by auto
  let ?N = "unat (pow2gt (of_nat ?n))"
  obtain ok st where m: "cJSON_malloc (pst p) = (ok, st)" by fastforce
  show ?thesis
  proof (cases "?n \<le> length ?b")
    case True
    with b show ?thesis by (intro that(2) [of p r]) (auto simp: ensure_def kept_def)
  next
    case False
    show ?thesis
    proof (cases ok)
      case True
      from False big have "length ?b \<le> ?N" by linarith
      then have c: "wrs (junk ?N) 0 ?b = Some (?b @ drop (length ?b) (junk ?N))"
        using wrs_at [of 0 ?b "junk ?N"] assms(1) by simp
      have "ensure junk cap p = Some (True, p\<lparr>pbuffer := Some (s @ r @ drop (length ?b) (junk ?N)), pst := free_blocks 1 st\<rparr>)"
        using b False m c True by (simp add: ensure_def Let_def)
      then show ?thesis
        by (rule that(2) [of _ "r @ drop (length ?b) (junk ?N)"])
          (use b False big assms(1) malloc_blocks [OF m] malloc_grants [OF m] True in \<open>auto simp: kept_def\<close>)
    next
      case no: False
      have "ensure junk cap p = Some (False, p\<lparr>pbuffer := None, pst := free_blocks 1 st\<rparr>)"
        using b False m no by (simp add: ensure_def Let_def)
      then show ?thesis
        by (rule that(1)) (use malloc_blocks [OF m] malloc_grants [OF m] no in \<open>auto simp: lost_def\<close>)
    qed
  qed
qed

lemma emit_goes:
  assumes "\<And>n. length (junk n) = n" "at p s" "0 < cap" "length s + cap \<le> 2 ^ 30" "length bs \<le> cap"
  shows "goes p (stored s bs adv) (emit junk cap bs adv p)"
proof (cases rule: ensure_cases [OF assms(1-4)])
  case (1 p')
  then show ?thesis by (intro goes_lostI [of _ False p']) (simp_all add: emit_def)
next
  case (2 p' r)
  have w: "wrs (s @ r) (length s) bs = Some (s @ bs @ drop (length bs) r)"
    using wrs_append [of bs r s] 2 assms(5) by simp
  have "emit junk cap bs adv p = Some (True, p'\<lparr>pbuffer := Some (s @ bs @ drop (length bs) r), poffset := length s + adv\<rparr>)"
    using 2 w by (simp add: emit_def put_def)
  then show ?thesis by (rule goes_okI) (use 2 in \<open>auto simp: kept_def stored_def\<close>)
qed

lemma stored_at: "stored s (bs @ x) (length bs) p \<Longrightarrow> at p (s @ bs)"
  unfolding stored_def at_def by auto

lemma stored_wrote: "stored (s @ u) (v @ [0]) adv p \<Longrightarrow> adv \<le> length v \<Longrightarrow> wrote s (u @ v) p"
  unfolding stored_def wrote_def by auto

lemma noop_ensure: "noop (ensure junk cap)"
  by (simp add: noop_def ensure_def)

lemma noop_emit: "noop (emit junk cap bs adv)"
  by (simp add: noop_def emit_def ensure_def)

lemma noop_put_form: "noop (put_form junk form)"
  using noop_emit [of junk "fst form" "snd form @ [0]" 0] by (simp add: put_form_def noop_def)

lemma put_form_goes:
  assumes "\<And>n. length (junk n) = n" "at p s" "length t < cap" "length s + cap \<le> 2 ^ 30"
  shows "goes p (wrote s t) (put_form junk (cap, t) p)"
proof -
  have "goes p (stored (s @ []) (t @ [0]) 0) (emit junk cap (t @ [0]) 0 p)"
    using assms by (auto intro: emit_goes)
  then have "goes p (wrote s t) (emit junk cap (t @ [0]) 0 p)"
    by (rule goes_weaken) (use stored_wrote [of s "[]"] in auto)
  then show ?thesis by (simp add: put_form_def)
qed

lemma noop_advance: "noop (q depth) \<Longrightarrow> noop (advance q depth)"
proof (rule noopI)
  fix p :: pbuf assume n: "noop (q depth)" "pbuffer p = None"
  from noopD [OF this] obtain ok p1 where "q depth p = Some (ok, p1)" "pbuffer p1 = None" "pst p1 = pst p" .
  then show "\<exists>ok p'. advance q depth p = Some (ok, p') \<and> pbuffer p' = None \<and> pst p' = pst p"
    by (auto simp: advance_def update_def)
qed

lemma advance_goes:
  assumes "goes p (wrote s t) (q depth p)" "0 \<notin> set t"
  shows "goes p (\<lambda>p'. at p' (s @ t)) (advance q depth p)"
proof -
  from assms obtain ok p1 where r: "q depth p = Some (ok, p1)" "lost p p1 \<or> ok \<and> kept p p1 \<and> wrote s t p1"
    unfolding goes_def by blast
  from r(2) show ?thesis
  proof
    assume "lost p p1"
    then show ?thesis by (intro goes_lostI) (auto simp: advance_def r update_def lost_def)
  next
    assume k: "ok \<and> kept p p1 \<and> wrote s t p1"
    then obtain b where b: "pbuffer p1 = Some (s @ t @ 0 # b)" "length s \<le> poffset p1" "poffset p1 \<le> length s + length t"
      unfolding wrote_def by blast
    have "0 \<notin> set (drop (poffset p1 - length s) t)" using assms(2) in_set_dropD by fastforce
    with b have u: "update p1 = Some (length s + length t)" by (simp add: update_def cstr_append_NUL)
    with r(1) k b show ?thesis
      by (intro goes_okI [of _ "p1\<lparr>poffset := length s + length t\<rparr>"]) (auto simp: advance_def kept_def at_def)
  qed
qed

section \<open>Arrays and objects\<close>

text \<open>The contract of \<open>q\<close> at a depth, for the text \<open>t\<close> and buffers that stay below \<open>2 ^ 30\<close> bytes.\<close>

definition puts :: "buffer_printer \<Rightarrow> nat \<Rightarrow> u8 list \<Rightarrow> bool" where
  "puts q depth t = (noop (q depth) \<and> 0 \<notin> set t \<and>
     (\<forall>p s. at p s \<and> length s + length t + 64 \<le> 2 ^ 30 \<longrightarrow> goes p (wrote s t) (q depth p)))"

lemma puts_advance:
  assumes "puts q depth t" "at p s" "length s + length t + 64 \<le> 2 ^ 30"
  shows "goes p (\<lambda>p'. at p' (s @ t)) (advance q depth p)"
  using assms by (intro advance_goes) (auto simp: puts_def)

lemma buffer_items_noop: "list_all (\<lambda>q. noop (q depth)) qs \<Longrightarrow> noop (buffer_items junk fmt qs depth)"
proof (induction qs)
  case Nil
  show ?case by (simp add: noop_def)
next
  case (Cons q qs)
  have "noop (\<lambda>p. if qs = [] then Some (True, p) else emit junk (length (comma fmt) + 1) (comma fmt @ [0]) (length (comma fmt)) p)"
    using noop_return noop_emit by (cases "qs = []") simp_all
  from noop_seq (1) [OF this] Cons have "noop (\<lambda>p. do { (ok, p) \<leftarrow> (if qs = [] then Some (True, p)
      else emit junk (length (comma fmt) + 1) (comma fmt @ [0]) (length (comma fmt)) p);
    if \<not> ok then Some (False, p) else buffer_items junk fmt qs depth p })" by simp
  from noop_seq (2) [OF noop_advance this] Cons.prems show ?case by simp
qed

lemma goes_return: "Q p \<Longrightarrow> goes p Q (Some (True, p))"
  by (rule goes_okI) (simp_all add: kept_def)

lemma buffer_items_goes:
  assumes junk: "\<And>n. length (junk n) = n"
  shows "list_all2 (\<lambda>q t. puts q depth t) qs ts \<Longrightarrow> at p s \<Longrightarrow> length s + length (join (comma fmt) ts) + 64 \<le> 2 ^ 30 \<Longrightarrow>
    goes p (\<lambda>p'. at p' (s @ join (comma fmt) ts)) (buffer_items junk fmt qs depth p)"
proof (induction qs ts arbitrary: p s rule: list_all2_induct)
  case Nil
  then show ?case by (auto intro: goes_return)
next
  case (Cons q qs t ts)
  have tl: "length t \<le> length (join (comma fmt) (t # ts))" by (cases ts) auto
  have nr: "list_all (\<lambda>q. noop (q depth)) qs"
    using Cons.hyps(2) by (auto simp: list_all_length list_all2_conv_all_nth puts_def)
  have n1: "noop (\<lambda>p. if qs = [] then Some (True, p) else emit junk (length (comma fmt) + 1) (comma fmt @ [0]) (length (comma fmt)) p)"
    using noop_return noop_emit by (cases "qs = []") simp_all
  have a: "goes p (\<lambda>p'. at p' (s @ t)) (advance q depth p)"
    using Cons.hyps(1) Cons.prems tl by (intro puts_advance) auto
  show ?case
  proof (cases ts)
    case Nil
    with Cons.hyps(2) have "qs = []" by simp
    have "goes p (\<lambda>p'. at p' (s @ t)) (do { (_, p) \<leftarrow> advance q depth p; Some (True, p) })"
      by (rule goes_seq (2) [OF a]) (auto intro: goes_return noop_return)
    with Nil \<open>qs = []\<close> show ?thesis by simp
  next
    case (Cons t2 ts2)
    with Cons.hyps(2) have ne: "qs \<noteq> []" by auto
    have j: "join (comma fmt) (t # ts) = t @ comma fmt @ join (comma fmt) ts" using local.Cons by simp
    have c: "length (comma fmt) \<le> 2" by (simp add: comma_def)
    have "goes p1 (\<lambda>p'. at p' (s @ join (comma fmt) (t # ts)))
      (do { (ok, p) \<leftarrow> emit junk (length (comma fmt) + 1) (comma fmt @ [0]) (length (comma fmt)) p1;
        if \<not> ok then Some (False, p) else buffer_items junk fmt qs depth p })" if "at p1 (s @ t)" for p1
    proof (rule goes_seq (1) [where Q = "\<lambda>p. at p ((s @ t) @ comma fmt)"])
      have "goes p1 (stored (s @ t) (comma fmt @ [0]) (length (comma fmt)))
          (emit junk (length (comma fmt) + 1) (comma fmt @ [0]) (length (comma fmt)) p1)"
        using Cons.prems j by (intro emit_goes junk that) auto
      then show "goes p1 (\<lambda>p. at p ((s @ t) @ comma fmt)) (emit junk (length (comma fmt) + 1) (comma fmt @ [0]) (length (comma fmt)) p1)"
        by (rule goes_weaken) (rule stored_at)
    next
      fix p2 assume "at p2 ((s @ t) @ comma fmt)"
      from Cons.IH [OF this] show "goes p2 (\<lambda>p'. at p' (s @ join (comma fmt) (t # ts))) (buffer_items junk fmt qs depth p2)"
        using Cons.prems j by simp
    qed (rule buffer_items_noop [OF nr])
    then have "goes p (\<lambda>p'. at p' (s @ join (comma fmt) (t # ts))) (do { (_, p) \<leftarrow> advance q depth p;
        do { (ok, p) \<leftarrow> emit junk (length (comma fmt) + 1) (comma fmt @ [0]) (length (comma fmt)) p;
          if \<not> ok then Some (False, p) else buffer_items junk fmt qs depth p } })"
      by (intro goes_seq (2) [OF a] noop_seq (1) noop_emit buffer_items_noop nr)
    then show ?thesis using ne by simp
  qed
qed

lemma puts_array:
  assumes junk: "\<And>n. length (junk n) = n" and all: "list_all2 (\<lambda>q t. puts q (Suc depth) t) qs ts"
  shows "puts (buffer_array junk fmt qs) depth (91 # join (comma fmt) ts @ [93])"
proof -
  have nr: "list_all (\<lambda>q. noop (q (Suc depth))) qs" and nul: "0 \<notin> set (join (comma fmt) ts)"
  proof -
    show "list_all (\<lambda>q. noop (q (Suc depth))) qs"
      using all by (auto simp: list_all_length list_all2_conv_all_nth puts_def)
    have "\<forall>t \<in> set ts. 0 \<notin> set t" using all by (auto simp: list_all2_conv_all_nth puts_def in_set_conv_nth)
    then show "0 \<notin> set (join (comma fmt) ts)" by (induction "comma fmt" ts rule: join.induct) (auto simp: comma_def)
  qed
  have n: "noop (buffer_array junk fmt qs depth)"
    unfolding buffer_array_def
    by (cases "qs = []") (simp_all add: noop_put_form noop_seq (1) noop_emit buffer_items_noop nr)
  have "goes p (wrote s (91 # join (comma fmt) ts @ [93])) (buffer_array junk fmt qs depth p)"
    if p: "at p s" and len: "length s + length (91 # join (comma fmt) ts @ [93]) + 64 \<le> 2 ^ 30" for p s
  proof (cases "qs = []")
    case True
    with all have "ts = []" by simp
    with put_form_goes [OF junk p, of "[91, 93]" 3] len True show ?thesis by (simp add: buffer_array_def)
  next
    case False
    have "goes p (wrote s (91 # join (comma fmt) ts @ [93]))
      (do { (ok, p) \<leftarrow> emit junk 1 [91] 1 p;
        if \<not> ok then Some (False, p)
        else do { (ok, p) \<leftarrow> buffer_items junk fmt qs (Suc depth) p;
          if \<not> ok then Some (False, p) else emit junk 2 [93, 0] 0 p } })"
    proof (rule goes_seq (1) [where Q = "\<lambda>p. at p (s @ [91])"])
      have "goes p (stored s [91] 1) (emit junk 1 [91] 1 p)" using len by (intro emit_goes junk p) auto
      then show "goes p (\<lambda>p. at p (s @ [91])) (emit junk 1 [91] 1 p)" by (rule goes_weaken) (use stored_at [of s "[91]" "[]"] in auto)
    next
      fix p1 assume p1: "at p1 (s @ [91])"
      show "goes p1 (wrote s (91 # join (comma fmt) ts @ [93])) (do { (ok, p) \<leftarrow> buffer_items junk fmt qs (Suc depth) p1;
          if \<not> ok then Some (False, p) else emit junk 2 [93, 0] 0 p })"
      proof (rule goes_seq (1) [OF buffer_items_goes [OF junk all p1, of fmt]])
        fix p2 assume p2: "at p2 ((s @ [91]) @ join (comma fmt) ts)"
        have "goes p2 (stored ((s @ [91]) @ join (comma fmt) ts) [93, 0] 0) (emit junk 2 [93, 0] 0 p2)"
          using len by (intro emit_goes junk p2) auto
        then show "goes p2 (wrote s (91 # join (comma fmt) ts @ [93])) (emit junk 2 [93, 0] 0 p2)"
          by (rule goes_weaken) (use stored_wrote [of s "91 # join (comma fmt) ts" "[93]" 0] in auto)
      qed (use len in \<open>auto intro: noop_emit\<close>)
    qed (intro noop_seq (1) buffer_items_noop nr noop_emit)
    with False show ?thesis unfolding buffer_array_def Suc_eq_plus1 by (simp only: if_False)
  qed
  with n nul show ?thesis by (auto simp: puts_def)
qed

lemma string_form_no_NUL: "0 \<notin> set (snd (string_form str))"
proof (cases str)
  case (Some u)
  have e: "c \<noteq> 0 \<Longrightarrow> 0 \<notin> set (escape_char c)" for c
    by (cases "c < 32") (auto simp: escape_char_def hex_lower_def word_less_nat_alt unat_of_nat_len not_less
      dest!: arg_cong [of _ _ unat] simp del: of_nat_add)
  then have "0 \<notin> set (concat (map escape_char (takeWhile (\<lambda>c. c \<noteq> 0) u)))"
    using takeWhile_nonzero [of _ u] by auto
  with Some takeWhile_nonzero [of 0 u] show ?thesis by (auto simp: string_form_def Let_def)
qed (simp add: string_form_def)

lemma puts_string: "(\<And>n. length (junk n) = n) \<Longrightarrow> puts (\<lambda>_. put_form junk (string_form name)) depth (snd (string_form name))"
  unfolding puts_def
proof (intro conjI allI impI noop_put_form string_form_no_NUL)
  fix p s assume j: "\<And>n. length (junk n) = n" and "at p s \<and> length s + length (snd (string_form name)) + 64 \<le> 2 ^ 30"
  moreover obtain cap t where f: "string_form name = (cap, t)" by fastforce
  moreover from string_form_length [of name] f have "cap = length t + 1" by simp
  ultimately show "goes p (wrote s (snd (string_form name))) (put_form junk (string_form name) p)"
    using put_form_goes [OF j, of p s t cap] by simp
qed

lemma buffer_members_False:
  "buffer_members junk False ((name, q) # ms) depth p = do {
     (_, p) \<leftarrow> advance (\<lambda>_. put_form junk (string_form name)) depth p;
     (ok, p) \<leftarrow> emit junk 1 [58] 1 p;
     if \<not> ok then Some (False, p)
     else do {
       (_, p) \<leftarrow> advance q depth p;
       (ok, p) \<leftarrow> emit junk (length (if ms \<noteq> [] then [44::u8] else []) + 1) (if ms \<noteq> [] then [44] else [])
          (length (if ms \<noteq> [] then [44::u8] else [])) p;
       if \<not> ok then Some (False, p) else buffer_members junk False ms depth p } }"
  by (cases ms) (simp_all add: Let_def cong: if_cong)

lemma buffer_members_noop: "list_all (\<lambda>m. noop (snd m depth)) ms \<Longrightarrow> noop (buffer_members junk False ms depth)"
proof (induction ms)
  case Nil
  show ?case by (simp add: noop_def)
next
  case (Cons m ms)
  obtain name q where "m = (name, q)" by fastforce
  with Cons show ?case unfolding \<open>m = (name, q)\<close> buffer_members_False
    by (intro noop_seq noop_advance noop_put_form noop_emit) simp_all
qed

lemma buffer_members_goes:
  assumes junk: "\<And>n. length (junk n) = n"
  shows "list_all2 (\<lambda>m t. puts (snd m) depth t) ms ts \<Longrightarrow> at p s \<Longrightarrow>
    length s + length (join [44] (map (\<lambda>(m, t). snd (string_form (fst m)) @ [58] @ t) (zip ms ts))) + 64 \<le> 2 ^ 30 \<Longrightarrow>
    goes p (\<lambda>p'. at p' (s @ join [44] (map (\<lambda>(m, t). snd (string_form (fst m)) @ [58] @ t) (zip ms ts))))
      (buffer_members junk False ms depth p)"
proof (induction ms ts arbitrary: p s rule: list_all2_induct)
  case Nil
  then show ?case by (auto intro: goes_return)
next
  case (Cons m ms t ts)
  obtain name q where m: "m = (name, q)" by fastforce
  let ?str = "snd (string_form name)"
  let ?texts = "map (\<lambda>(m, t). snd (string_form (fst m)) @ [58] @ t) (zip ms ts)"
  let ?sep = "if ms \<noteq> [] then [44::u8] else []"
  have nr: "list_all (\<lambda>m. noop (snd m depth)) ms" and nq: "noop (q depth)"
    using Cons.hyps m by (auto simp: list_all_length list_all2_conv_all_nth puts_def)
  have "?texts = [] \<longleftrightarrow> ms = []" using Cons.hyps(2) by auto
  then have j: "join [44] (map (\<lambda>(m, t). snd (string_form (fst m)) @ [58] @ t) (zip (m # ms) (t # ts))) =
      ?str @ [58] @ t @ ?sep @ join [44] ?texts"
    by (cases ?texts) (auto simp: m)
  have len: "length s + length ?str + 1 + length t + length ?sep + length (join [44] ?texts) + 64 \<le> 2 ^ 30"
    using Cons.prems(2) unfolding j by simp
  have "goes p (\<lambda>p'. at p' (s @ ?str @ [58] @ t @ ?sep @ join [44] ?texts)) (buffer_members junk False ((name, q) # ms) depth p)"
    unfolding buffer_members_False
  proof (rule goes_seq (2) [OF puts_advance [OF puts_string Cons.prems(1)]], goal_cases)
    case (3 p1)
    show ?case
    proof (rule goes_seq (1) [where Q = "\<lambda>p. at p ((s @ ?str) @ [58])"], goal_cases)
      case 1
      have "goes p1 (stored (s @ ?str) ([58] @ []) 1) (emit junk 1 [58] 1 p1)"
        using emit_goes [OF junk 3(2), of 1 "[58]" 1] len by simp
      then show ?case by (rule goes_weaken) (use stored_at [of "s @ ?str" "[58]" "[]"] in auto)
    next
      case (2 p2)
      show ?case
      proof (rule goes_seq (2) [OF puts_advance [of q _ t _ "(s @ ?str) @ [58]"]], goal_cases)
        case (4 p3)
        show ?case
        proof (rule goes_seq (1) [where Q = "\<lambda>p. at p ((((s @ ?str) @ [58]) @ t) @ ?sep)"], goal_cases)
          case 1
          have "goes p3 (stored (((s @ ?str) @ [58]) @ t) (?sep @ []) (length ?sep)) (emit junk (length ?sep + 1) ?sep (length ?sep) p3)"
            using emit_goes [OF junk 4(2), of "length ?sep + 1" ?sep "length ?sep"] len by simp
          then show ?case by (rule goes_weaken) (rule stored_at)
        next
          case (2 p4)
          from Cons.IH [OF 2(2)] len show ?case by simp
        qed (rule buffer_members_noop [OF nr])
      qed (use Cons.hyps(1) m 2 len in \<open>auto intro!: noop_seq(1) noop_emit buffer_members_noop nr\<close>)
    qed (intro noop_seq noop_advance nq noop_emit buffer_members_noop nr)
  qed (use junk len in \<open>auto intro!: noop_seq noop_advance nq noop_emit buffer_members_noop nr\<close>)
  then show ?case unfolding m j [unfolded m] by simp
qed

lemma puts_object:
  assumes junk: "\<And>n. length (junk n) = n" and all: "list_all2 (\<lambda>m t. puts (snd m) (Suc depth) t) ms ts"
  shows "puts (buffer_object junk False ms) depth
    (if ms = [] then snd (empty_object False depth)
     else 123 # join [44] (map (\<lambda>(m, t). snd (string_form (fst m)) @ [58] @ t) (zip ms ts)) @ [125])"
proof -
  let ?body = "join [44] (map (\<lambda>(m, t). snd (string_form (fst m)) @ [58] @ t) (zip ms ts))"
  have nr: "list_all (\<lambda>m. noop (snd m (Suc depth))) ms"
    using all by (auto simp: list_all_length list_all2_conv_all_nth puts_def)
  have "\<forall>t \<in> set (map (\<lambda>(m, t). snd (string_form (fst m)) @ [58] @ t) (zip ms ts)). 0 \<notin> set t"
    using all string_form_no_NUL by (fastforce simp: list_all2_iff puts_def dest: set_zip_rightD)
  moreover have "0 \<notin> set (join [44] us)" if "\<forall>t \<in> set us. 0 \<notin> set t" for us :: "u8 list list"
    using that by (induction "[44 :: u8]" us rule: join.induct) auto
  ultimately have nul: "0 \<notin> set ?body" by blast
  show ?thesis
  proof (cases "ms = []")
    case True
    have "goes p (wrote s [123, 125]) (put_form junk (3, [123, 125]) p)" if "at p s" "length s + 66 \<le> 2 ^ 30" for p s
      using put_form_goes [OF junk that(1), of "[123, 125]" 3] that(2) by simp
    with True show ?thesis
      by (simp add: puts_def buffer_object_def empty_object_def noop_def noop_put_form [unfolded noop_def, simplified])
  next
    case False
    have "noop (buffer_object junk False ms depth)"
      unfolding buffer_object_def
      using False by (simp add: noop_seq (1) noop_emit buffer_members_noop nr)
    moreover have "goes p (wrote s (123 # ?body @ [125])) (buffer_object junk False ms depth p)"
      if p: "at p s" and len: "length s + length (123 # ?body @ [125]) + 64 \<le> 2 ^ 30" for p s
    proof -
      have "goes p (wrote s (123 # ?body @ [125]))
        (do { (ok, p) \<leftarrow> emit junk 2 [123, 0] 1 p;
          if \<not> ok then Some (False, p)
          else do { (ok, p) \<leftarrow> buffer_members junk False ms (Suc depth) p;
            if \<not> ok then Some (False, p) else emit junk 2 [125, 0] 0 p } })"
      proof (rule goes_seq (1) [where Q = "\<lambda>p. at p (s @ [123])"], goal_cases)
        case 1
        have "goes p (stored s [123, 0] 1) (emit junk 2 [123, 0] 1 p)" using len by (intro emit_goes junk p) auto
        then show ?case by (rule goes_weaken) (use stored_at [of s "[123]" "[0]"] in auto)
      next
        case (2 p1)
        show ?case
        proof (rule goes_seq (1) [OF buffer_members_goes [OF junk all 2(2)]], goal_cases)
          case (2 p2)
          have "goes p2 (stored ((s @ [123]) @ ?body) ([125] @ [0]) 0) (emit junk 2 [125, 0] 0 p2)"
            using emit_goes [OF junk 2(2), of 2 "[125, 0]" 0] len by simp
          then show ?case by (rule goes_weaken) (use stored_wrote [of s "123 # ?body" "[125]" 0] in auto)
        qed (use len in \<open>auto intro: noop_emit\<close>)
      qed (intro noop_seq (1) buffer_members_noop nr noop_emit)
      with False show ?thesis unfolding buffer_object_def Suc_eq_plus1 by (simp cong: if_cong)
    qed
    ultimately show ?thesis using False nul by (auto simp: puts_def)
  qed
qed

lemma leaf_form_no_NUL:
  assumes "leaf_form P f = Some (cap, t)" "sprintf_fits P"
  shows "0 \<notin> set t"
proof -
  have d: "0 \<notin> set (dec_int i)" for i by (auto simp: dec_int_def dec_nat_no_NUL)
  have "0 \<notin> set (snd (number_form P f))"
    using assms(2) d by (auto simp: number_form_def sprintf_fits_def c_text_def Let_def split: if_splits)
  with assms(1) string_form_no_NUL [of "valuestring f"] show ?thesis by (auto simp: leaf_form_def Let_def split: if_splits)
qed

text \<open>Room asked for beyond the text: at most 64 bytes.\<close>

lemma leaf_form_cap:
  assumes "leaf_form P f = Some (cap, t)"
  shows "cap \<le> length t + 64"
  using assms string_form_length [of "valuestring f"] by (auto simp: leaf_form_def number_form_def Let_def split: if_splits)

lemma puts_value:
  assumes junk: "\<And>n. length (junk n) = n" and fits: "sprintf_fits P"
  shows "int_fields c \<Longrightarrow> printable P c \<Longrightarrow> puts (buffer_value junk P False c) depth (json_text P False depth c)"
proof (induction c arbitrary: depth)
  case (Item f cs)
  let ?qs = "map (buffer_value junk P False) cs"
  let ?ts = "map (json_text P False (Suc depth)) cs"
  show ?case
  proof (cases "leaf_form P f")
    case (Some a)
    obtain cap t where a: "a = (cap, t)" by fastforce
    with Some Item.prems fits have "length t < cap" by (intro leaf_form_fits [of P f]) auto
    moreover have "0 \<notin> set t" "cap \<le> length t + 64"
      using leaf_form_no_NUL leaf_form_cap Some a fits by auto
    ultimately have "puts (\<lambda>_. put_form junk (cap, t)) depth t"
      using put_form_goes [OF junk, of _ _ t cap] by (auto simp: puts_def noop_put_form)
    with Some a show ?thesis by (simp add: puts_def buffer_node_def)
  next
    case None
    with Item.prems have "\<forall>c \<in> set cs. puts (buffer_value junk P False c) (Suc depth) (json_text P False (Suc depth) c)"
      by (auto simp: list_all_iff intro: Item.IH)
    then have a: "list_all2 (\<lambda>q t. puts q (Suc depth) t) ?qs ?ts"
      and o: "list_all2 (\<lambda>m t. puts (snd m) (Suc depth) t) (zip (map (\<lambda>c. jname (jf c)) cs) ?qs) ?ts"
      by (auto simp: list_all2_conv_all_nth)
    have ot: "map (\<lambda>(m, t). snd (string_form (fst m)) @ [58] @ t) (zip (zip (map (\<lambda>c. jname (jf c)) cs) ?qs) ?ts) =
      map (\<lambda>c. snd (string_form (jname (jf c))) @ [58] @ json_text P False (Suc depth) c) cs"
      by (auto intro!: nth_equalityI)
    have pa: "puts (buffer_array junk False ?qs) depth (91 # join (comma False) ?ts @ [93])"
      by (rule puts_array [OF junk a])
    have po: "puts (buffer_object junk False (zip (map (\<lambda>c. jname (jf c)) cs) ?qs)) depth
        (if cs = [] then snd (empty_object False depth) else 123 #
          join [44] (map (\<lambda>c. snd (string_form (jname (jf c))) @ [58] @ json_text P False (Suc depth) c) cs) @ [125])"
      using puts_object [OF junk o] unfolding ot by simp
    from None Item.prems(2) consider "jtype f mod 256 = 32" | "jtype f mod 256 = 64" by auto
    then show ?thesis
    proof cases
      case 1
      with pa None show ?thesis by (simp add: puts_def buffer_node_def)
    next
      case 2
      with po None show ?thesis by (cases "cs = []") (simp_all add: puts_def buffer_node_def)
    qed
  qed
qed

text \<open>C9: The two ways of printing agree.  Whatever \<open>cJSON_PrintUnformatted\<close> prints, \<open>cJSON_PrintBuffered\<close> without
  formatting prints too, from every initial size and in every state of the allocator, as the string at the start of
  its buffer: no store leaves the buffer while it grows, the offset bookkeeping with \<open>update\<close> loses nothing, and a
  failed allocation gives NULL with every block returned.\<close>

theorem cJSON_PrintBuffered_unformatted:
  assumes "\<And>n. length (junk n) = n" and "sprintf_fits P" and "int_fields c"
    and "cJSON_PrintUnformatted P c st0 = Some (Some t, st1)" and "length t + 64 \<le> 2 ^ 30"
  shows "\<exists>r st'. cJSON_PrintBuffered junk P c prebuffer False st = Some (r, st') \<and>
    blocks st' = blocks st + (if r = None then 0 else 1) \<and>
    (\<forall>b. r = Some b \<longrightarrow> cstr b = Some t) \<and> (grants st = [] \<longrightarrow> r \<noteq> None)"
proof -
  have "prints (print_value P False c) 0 (if printable P c then Some (json_text P False 0 c) else None)"
    by (rule prints_value [OF assms(2,3)])
  with assms(4) have t: "printable P c" "t = json_text P False 0 c"
    by (auto simp: cJSON_PrintUnformatted_def prints_def printed_def dest!: spec [of _ st0] split: if_splits)
  note q = puts_value [OF assms(1,2,3) t(1), of 0, folded t(2)]
  then have nul: "0 \<notin> set t" by (simp add: puts_def)
  obtain ok sta where m: "cJSON_malloc st = (ok, sta)" by fastforce
  note mb = malloc_blocks [OF m] malloc_grants [OF m]
  show ?thesis
  proof (cases ok)
    case False
    let ?p = "\<lparr>pbuffer = None, poffset = 0, pst = sta\<rparr>"
    from q have "noop (buffer_value junk P False c 0)" by (simp add: puts_def)
    then obtain ok' p' where "buffer_value junk P False c 0 ?p = Some (ok', p')" "pbuffer p' = None" "pst p' = pst ?p"
      by (rule noopD [of _ ?p]) simp_all
    with False m mb show ?thesis by (auto simp: cJSON_PrintBuffered_def)
  next
    case True
    let ?p = "\<lparr>pbuffer = Some (junk prebuffer), poffset = 0, pst = sta\<rparr>"
    have "at ?p []" by (simp add: at_def)
    with q assms(5) have "goes ?p (wrote [] t) (buffer_value junk P False c 0 ?p)" by (simp add: puts_def)
    then obtain ok' p' where r: "buffer_value junk P False c 0 ?p = Some (ok', p')"
      "lost ?p p' \<or> ok' \<and> kept ?p p' \<and> wrote [] t p'" unfolding goes_def by blast
    from r(2) show ?thesis
    proof
      assume "lost ?p p'"
      with True m mb r(1) show ?thesis by (auto simp: cJSON_PrintBuffered_def lost_def)
    next
      assume "ok' \<and> kept ?p p' \<and> wrote [] t p'"
      with True m mb r(1) nul show ?thesis by (auto simp: cJSON_PrintBuffered_def kept_def wrote_def cstr_append_NUL)
    qed
  qed
qed

definition junk0 :: "nat \<Rightarrow> u8 list" where
  "junk0 n = replicate n 165"

lemma cJSON_PrintBuffered_unformatted_witness:
  "\<exists>b st'. cJSON_PrintBuffered junk0 fpr0 tree1 2 False fresh_jst = Some (Some b, st') \<and> cstr b = Some [91, 49, 93]"
proof -
  have i: "int_fields tree1" by (simp add: tree1_def)
  have t: "json_text fpr0 False 0 tree1 = [91, 49, 93]" "printable fpr0 tree1"
    by (simp_all add: tree1_def leaf_form_def number_form_def fpr0_def dec_int_def dec_nat.simps)
  have "prints (print_value fpr0 False tree1) 0 (Some [91, 49, 93])"
    using prints_value [OF fpr0_fits i, of False 0] t by simp
  then obtain st1 where "cJSON_PrintUnformatted fpr0 tree1 fresh_jst = Some (Some [91, 49, 93], st1)"
    by (auto simp: cJSON_PrintUnformatted_def prints_def printed_def fresh_jst_def dest!: spec [of _ fresh_jst] split: option.splits)
  from cJSON_PrintBuffered_unformatted [OF _ fpr0_fits i this, of junk0 2 fresh_jst] show ?thesis
    by (auto simp: junk0_def fresh_jst_def)
qed

section \<open>Formatting into a buffer\<close>

text \<open>What stands before the offset stays.\<close>

definition behind :: "u8 list \<Rightarrow> pbuf \<Rightarrow> bool" where
  "behind s p = (pbuffer p = None \<or> (\<exists>r. pbuffer p = Some (s @ r) \<and> length s \<le> poffset p))"

definition keeps :: "u8 list \<Rightarrow> (pbuf \<Rightarrow> (bool \<times> pbuf) option) \<Rightarrow> bool" where
  "keeps s q = (\<forall>p ok p'. behind s p \<longrightarrow> q p = Some (ok, p') \<longrightarrow> behind s p')"

lemma keepsD: "keeps s q \<Longrightarrow> q p = Some (ok, p') \<Longrightarrow> behind s p \<Longrightarrow> behind s p'"
  unfolding keeps_def by blast

lemma keeps_return: "keeps s (\<lambda>p. Some (ok, p))"
  by (simp add: keeps_def)

lemma keeps_seq:
  assumes "keeps s a" "keeps s q"
  shows "keeps s (\<lambda>p. do { (ok, p) \<leftarrow> a p; if \<not> ok then Some (False, p) else q p })"
    and "keeps s (\<lambda>p. do { (_, p) \<leftarrow> a p; q p })"
  unfolding keeps_def
  by (auto split: bind_splits if_splits dest!: keepsD [OF assms(1)] intro: keepsD [OF assms(2)])

lemma keeps_ensure: "keeps s (ensure junk cap)"
proof -
  have w: "wrs j 0 (s @ r) = Some b \<Longrightarrow> \<exists>r'. b = s @ r'" for j b r
    using wrs_at [of 0 "s @ r" j] wrs_short [of j 0 "s @ r"] by (cases "length (s @ r) \<le> length j"; cases "s @ r = []") auto
  show ?thesis
    unfolding keeps_def
  proof (intro allI impI)
    fix p :: pbuf and ok p' assume b: "behind s p" and r: "ensure junk cap p = Some (ok, p')"
    show "behind s p'"
    proof (cases "pbuffer p")
      case None
      with b r show ?thesis by (simp add: ensure_def)
    next
      case (Some q)
      with b obtain r' where "q = s @ r'" "length s \<le> poffset p" by (auto simp: behind_def)
      with Some r w show ?thesis by (auto simp: ensure_def behind_def Let_def split: if_splits prod.splits bind_splits)
    qed
  qed
qed

lemma put_behind: "put bs p = Some p' \<Longrightarrow> behind s p \<Longrightarrow> behind s p'"
proof -
  assume p: "put bs p = Some p'" and "behind s p"
  then obtain r b where r: "pbuffer p = Some (s @ r)" "length s \<le> poffset p" "wrs (s @ r) (poffset p) bs = Some b"
    "p' = p\<lparr>pbuffer := Some b\<rparr>" by (auto simp: put_def behind_def split: bind_splits)
  have "wrs q i bs = Some b \<Longrightarrow> length s \<le> i \<Longrightarrow> q = s @ r \<Longrightarrow> \<exists>r'. b = s @ r'" for q i r
  proof (induction q i bs arbitrary: r rule: wrs.induct)
    case (2 q i c bs)
    from 2(2) obtain q' where q': "wr q i c = Some q'" "wrs q' (Suc i) bs = Some b" by (auto split: bind_splits)
    with 2(3,4) have "q' = s @ r[i - length s := c]" by (auto simp: wr_Some_iff list_update_append)
    from 2(1) [OF q' _ this] 2(3) show ?case by simp
  qed auto
  from this [OF r(3,2) refl] r show "behind s p'" by (auto simp: behind_def)
qed

lemma keeps_emit: "keeps s (emit junk cap bs adv)"
  unfolding keeps_def emit_def
  by (auto split: bind_splits if_splits dest!: keepsD [OF keeps_ensure] dest: put_behind) (auto simp: behind_def dest!: put_behind)

lemma keeps_advance:
  assumes "keeps s (q depth)"
  shows "keeps s (advance q depth)"
  unfolding keeps_def
proof (intro allI impI)
  fix p :: pbuf and ok p' assume "behind s p" "advance q depth p = Some (ok, p')"
  then obtain o1 p1 n where 1: "q depth p = Some (o1, p1)" "update p1 = Some n" "p' = p1\<lparr>poffset := n\<rparr>"
    by (auto simp: advance_def split: bind_splits)
  have "behind s p1" by (rule keepsD [OF assms 1(1)]) fact
  with 1(2,3) show "behind s p'" by (auto simp: behind_def update_def split: option.splits bind_splits)
qed

lemma keeps_put_form: "keeps s (put_form junk form)"
  using keeps_emit unfolding put_form_def keeps_def by blast

lemma keeps_guard: "keeps s q \<Longrightarrow> keeps s (\<lambda>p. if b then Some (True, p) else q p)"
  by (cases b) (simp_all add: keeps_return)

lemma keeps_guard': "keeps s q \<Longrightarrow> keeps s (\<lambda>p. if b then q p else Some (True, p))"
  by (cases b) (simp_all add: keeps_return)

lemma keeps_items: "list_all (\<lambda>q. \<forall>d. keeps s (q d)) qs \<Longrightarrow> keeps s (buffer_items junk fmt qs depth)"
proof (induction qs)
  case Nil
  show ?case by (simp add: keeps_def)
next
  case (Cons q qs)
  then have "keeps s (q depth)" "keeps s (buffer_items junk fmt qs depth)" by auto
  then show ?case
    unfolding buffer_items.simps
    by (intro keeps_seq keeps_advance keeps_guard keeps_emit)
qed

lemma keeps_members: "list_all (\<lambda>m. \<forall>d. keeps s (snd m d)) ms \<Longrightarrow> keeps s (buffer_members junk fmt ms depth)"
proof (induction ms)
  case Nil
  show ?case by (simp add: keeps_def)
next
  case (Cons m ms)
  obtain name q where m: "m = (name, q)" by fastforce
  with Cons have "keeps s (q depth)" "keeps s (buffer_members junk fmt ms depth)" by auto
  then show ?case
    unfolding m buffer_members.simps Let_def
    by (intro keeps_seq keeps_advance keeps_guard' keeps_emit keeps_put_form)
qed

lemma keeps_object: "list_all (\<lambda>m. \<forall>d. keeps s (snd m d)) ms \<Longrightarrow> keeps s (buffer_object junk fmt ms depth)"
proof (cases "ms = []")
  case True
  then show ?thesis using keeps_put_form by (simp add: buffer_object_def [abs_def])
next
  case False
  moreover assume "list_all (\<lambda>m. \<forall>d. keeps s (snd m d)) ms"
  ultimately show ?thesis
    unfolding buffer_object_def if_not_P [OF False] by (intro keeps_seq keeps_emit keeps_members)
qed

lemma keeps_array: "list_all (\<lambda>q. \<forall>d. keeps s (q d)) qs \<Longrightarrow> keeps s (buffer_array junk fmt qs depth)"
proof (cases "qs = []")
  case True
  then show ?thesis using keeps_put_form by (simp add: buffer_array_def [abs_def])
next
  case False
  moreover assume "list_all (\<lambda>q. \<forall>d. keeps s (q d)) qs"
  ultimately show ?thesis
    unfolding buffer_array_def if_not_P [OF False] by (intro keeps_seq keeps_emit keeps_items)
qed

lemma keeps_value: "keeps s (buffer_value junk P fmt c depth)"
proof (induction c arbitrary: depth)
  case (Item f cs)
  then have all: "list_all (\<lambda>q. \<forall>d. keeps s (q d)) (map (buffer_value junk P fmt) cs)"
    and all': "list_all (\<lambda>m. \<forall>d. keeps s (snd m d)) (zip (map (\<lambda>c. jname (jf c)) cs) (map (buffer_value junk P fmt) cs))"
    by (auto simp: list_all_length)
  show ?case
  proof (cases "leaf_form P f")
    case None
    with keeps_array [OF all, of junk fmt depth] keeps_object [OF all', of junk fmt depth] keeps_return [of s False]
    show ?thesis
      by (cases "jtype f mod 256 = 32"; cases "jtype f mod 256 = 64") (simp_all add: buffer_node_def [abs_def])
  next
    case (Some form)
    with keeps_put_form [of s junk form] show ?thesis by (simp add: buffer_node_def [abs_def])
  qed
qed

lemma seq_True: "do { (ok, p) \<leftarrow> a; if \<not> ok then Some (False, p) else q p } = Some (True, p') \<Longrightarrow>
    \<exists>p1. a = Some (True, p1) \<and> q p1 = Some (True, p')"
  by (auto split: bind_splits if_splits)

text \<open>C27: A defect of the printer into a buffer: with formatting, a non-empty object always comes out as the single
  character \<open>{\<close>.  The offset is moved past the line feed and the tabs although the statements that store them are
  commented out, so the terminator written behind the brace is never overwritten.\<close>

theorem cJSON_PrintBuffered_formatted:
  assumes "jtype f = cJSON_Object" and "cs \<noteq> []"
    and "cJSON_PrintBuffered junk P (Item f cs) prebuffer True st = Some (Some b, st')"
  shows "cstr b = Some [123]"
proof -
  let ?ms = "zip (map (\<lambda>c. jname (jf c)) cs) (map (buffer_value junk P True) cs)"
  have ms: "?ms \<noteq> []" using assms(2) by auto
  have leaf: "leaf_form P f = None" using assms(1) by (simp add: leaf_form_def)
  from assms(3) obtain ok sta p' where m: "cJSON_malloc st = (ok, sta)" and
    r: "buffer_value junk P True (Item f cs) 0 \<lparr>pbuffer = (if ok then Some (junk prebuffer) else None), poffset = 0, pst = sta\<rparr> = Some (True, p')"
    and b: "pbuffer p' = Some b"
    by (auto simp: cJSON_PrintBuffered_def split: prod.splits bind_splits if_splits)
  let ?p = "\<lparr>pbuffer = (if ok then Some (junk prebuffer) else None), poffset = 0, pst = sta\<rparr>"
  from r have "buffer_object junk True ?ms 0 ?p = Some (True, p')"
    using leaf assms(1) by (simp add: buffer_node_def)
  then have "do { (ok, p) \<leftarrow> emit junk 3 [123, 0] 2 ?p; if \<not> ok then Some (False, p) else
      do { (ok, p) \<leftarrow> buffer_members junk True ?ms (0 + 1) p; if \<not> ok then Some (False, p) else emit junk (0 + 2) [125, 0] 0 p } } = Some (True, p')"
    unfolding buffer_object_def if_not_P [OF ms] if_P [OF TrueI] .
  from seq_True [OF this] obtain p1 where 1: "emit junk 3 [123, 0] 2 ?p = Some (True, p1)"
    and rest: "do { (ok, p) \<leftarrow> buffer_members junk True ?ms (0 + 1) p1; if \<not> ok then Some (False, p) else emit junk (0 + 2) [125, 0] 0 p } = Some (True, p')"
    by blast
  have "behind [123, 0] p1"
  proof -
    from 1 obtain p0 where 0: "ensure junk 3 ?p = Some (True, p0)" "do { p \<leftarrow> put [123, 0] p0; Some (True, p\<lparr>poffset := poffset p + 2\<rparr>) } = Some (True, p1)"
      by (auto simp: emit_def split: bind_splits if_splits)
    have "poffset p0 = 0" using 0(1) by (auto simp: ensure_def Let_def split: option.splits if_splits prod.splits bind_splits)
    with 0(2) obtain q where "pbuffer p1 = Some q" "poffset p1 = 2" "\<exists>c. pbuffer p0 = Some c \<and> wrs c 0 [123, 0] = Some q"
      by (auto simp: put_def split: bind_splits)
    then obtain c where c: "wrs c 0 [123, 0] = Some q" by blast
    then have "2 \<le> length c" by (auto simp: wr_Some_iff split: bind_splits)
    then have "wrs c 0 [123, 0] = Some (take 0 c @ [123, 0] @ drop (0 + length [123, 0 :: u8]) c)" by (intro wrs_at) simp
    with c have "q = [123, 0] @ drop (0 + length [123, 0 :: u8]) c" by (simp del: wrs.simps)
    with \<open>pbuffer p1 = Some q\<close> \<open>poffset p1 = 2\<close> show ?thesis by (simp add: behind_def)
  qed
  moreover have "keeps [123, 0] (\<lambda>p. do { (ok, p) \<leftarrow> buffer_members junk True ?ms (0 + 1) p; if \<not> ok then Some (False, p) else emit junk (0 + 2) [125, 0] 0 p })"
    by (intro keeps_seq keeps_members keeps_emit) (simp add: list_all_length keeps_value)
  ultimately have "behind [123, 0] p'" using rest unfolding keeps_def by blast
  with b show ?thesis by (auto simp: behind_def)
qed


definition member0 :: "int cJSON" where
  "member0 = Item \<lparr>jtype = 4, valuestring = None, valueint = 0, valuedouble = 0, jname = Some []\<rparr> []"

lemma replicate_16: "replicate 16 x = [x, x, x, x, x, x, x, x, x, x, x, x, x, x, x, x]"
  by (simp add: numeral_eq_Suc)

lemma formatted_run:
  assumes "f = \<lparr>jtype = 64, valuestring = None, valueint = 0, valuedouble = 0, jname = None\<rparr>"
  shows "\<exists>b st'. cJSON_PrintBuffered junk0 fpr0 (Item f [member0]) 16 True fresh_jst = Some (Some b, st')"
  by (simp add: assms cJSON_PrintBuffered_def member0_def buffer_node_def leaf_form_def buffer_object_def emit_def ensure_def put_def
    wr_def advance_def put_form_def string_form_def update_def cJSON_malloc_def fresh_jst_def junk0_def Let_def replicate_16 cong: if_cong)

lemma cJSON_PrintBuffered_formatted_witness:
  "\<exists>b st'. cJSON_PrintBuffered junk0 fpr0 (Item \<lparr>jtype = 64, valuestring = None, valueint = 0, valuedouble = 0, jname = None\<rparr> [member0])
     16 True fresh_jst = Some (Some b, st') \<and> cstr b = Some [123]"
proof -
  obtain b st' where run: "cJSON_PrintBuffered junk0 fpr0 (Item \<lparr>jtype = 64, valuestring = None, valueint = 0, valuedouble = 0, jname = None\<rparr> [member0])
     16 True fresh_jst = Some (Some b, st')" using formatted_run [OF refl] by blast
  from cJSON_PrintBuffered_formatted [OF _ _ this] run show ?thesis by auto
qed

end
