(* ===== verification/JsonMinify.thy ===== *)
theory JsonMinify
  imports JsonBuffer
begin

text \<open>
  \<open>cJSON_Minify\<close> of \<open>src/cJSON/cJSON.cpp\<close>: white space and comments are taken out of a text in place.  The buffer is the
  list of its bytes, \<open>w\<close> and \<open>r\<close> are the positions of \<open>into\<close> and \<open>json\<close>; a read or a write outside the buffer is
  \<open>None\<close>.  The reference \<open>strip\<close> works on the text alone; the loops never let \<open>into\<close> overtake \<open>json\<close>, so both agree.
\<close>

section \<open>The code\<close>

text \<open>\<open>*into++=*json++\<close>\<close>

definition copy1 :: "u8 list \<Rightarrow> nat \<Rightarrow> nat \<Rightarrow> u8 list option" where
  "copy1 b w r = do { c \<leftarrow> rd b r; wr b w c }"

partial_function (option) skip_line :: "u8 list \<Rightarrow> nat \<Rightarrow> nat option" where
  "skip_line b r = do { c \<leftarrow> rd b r; if c \<noteq> 0 \<and> c \<noteq> 10 then skip_line b (r + 1) else Some r }"

partial_function (option) skip_comment :: "u8 list \<Rightarrow> nat \<Rightarrow> nat option" where
  "skip_comment b r = do {
     c \<leftarrow> rd b r;
     if c = 0 then Some r
     else do {
       d \<leftarrow> (if c = 42 then rd b (r + 1) else Some 0);
       if c = 42 \<and> d = 47 then Some r else skip_comment b (r + 1) } }"

partial_function (option) copy_string :: "u8 list \<Rightarrow> nat \<Rightarrow> nat \<Rightarrow> (u8 list \<times> nat \<times> nat) option" where
  "copy_string b w r = do {
     c \<leftarrow> rd b r;
     if c \<noteq> 0 \<and> c \<noteq> 34 then do {
       (b, w, r) \<leftarrow> (if c = 92 then do { b \<leftarrow> copy1 b w r; Some (b, w + 1, r + 1) } else Some (b, w, r));
       b \<leftarrow> copy1 b w r;
       copy_string b (w + 1) (r + 1) }
     else Some (b, w, r) }"

partial_function (option) minify_loop :: "u8 list \<Rightarrow> nat \<Rightarrow> nat \<Rightarrow> (u8 list \<times> nat) option" where
  "minify_loop b w r = do {
     c \<leftarrow> rd b r;
     if c = 0 then Some (b, w)
     else if c = 32 then minify_loop b w (r + 1)
     else if c = 9 then minify_loop b w (r + 1)
     else if c = 13 then minify_loop b w (r + 1)
     else if c = 10 then minify_loop b w (r + 1)
     else do {
       d \<leftarrow> (if c = 47 then rd b (r + 1) else Some 0);
       if c = 47 \<and> d = 47 then do { r \<leftarrow> skip_line b r; minify_loop b w r }
       else if c = 47 \<and> d = 42 then do { r \<leftarrow> skip_comment b r; minify_loop b w (r + 2) }
       else if c = 34 then do {
         b \<leftarrow> copy1 b w r;
         (b, w, r) \<leftarrow> copy_string b (w + 1) (r + 1);
         b \<leftarrow> copy1 b w r;
         minify_loop b (w + 1) (r + 1) }
       else do { b \<leftarrow> copy1 b w r; minify_loop b (w + 1) (r + 1) } } }"

definition cJSON_Minify :: "u8 list \<Rightarrow> u8 list option" where
  "cJSON_Minify b = do { (b, w) \<leftarrow> minify_loop b 0 0; wr b w 0 }"

section \<open>The reference\<close>

fun lit :: "u8 list \<Rightarrow> (u8 list \<times> u8 list) option" where
  "lit [] = None"
| "lit (c # s) = (if c = 34 then Some ([c], s)
     else if c = 92 then (case s of [] \<Rightarrow> None | d # s \<Rightarrow> map_option (\<lambda>(q, t). (c # d # q, t)) (lit s))
     else map_option (\<lambda>(q, t). (c # q, t)) (lit s))"

fun comment_end :: "u8 list \<Rightarrow> u8 list option" where
  "comment_end [] = None"
| "comment_end [c] = None"
| "comment_end (c # d # s) = (if c = 42 \<and> d = 47 then Some s else comment_end (d # s))"

lemma lit_append: "lit s = Some (q, t) \<Longrightarrow> s = q @ t \<and> q \<noteq> []"
  by (induction s arbitrary: q t rule: lit.induct) (force split: if_splits list.splits)+

lemma comment_end_append: "comment_end s = Some t \<Longrightarrow> \<exists>p. s = p @ 42 # 47 # t"
  by (induction s rule: comment_end.induct) (auto split: if_splits intro: exI [of _ "[]"] exI [of _ "_ # _"])

function strip :: "u8 list \<Rightarrow> u8 list option" where
  "strip [] = Some []"
| "strip (c # s) =
     (if c = 32 \<or> c = 9 \<or> c = 13 \<or> c = 10 then strip s
      else if c = 47 \<and> s \<noteq> [] \<and> hd s = 47 then strip (dropWhile (\<lambda>d. d \<noteq> 10) s)
      else if c = 47 \<and> s \<noteq> [] \<and> hd s = 42 then (case comment_end s of None \<Rightarrow> None | Some t \<Rightarrow> strip t)
      else if c = 34 then (case lit s of None \<Rightarrow> None | Some (q, t) \<Rightarrow> map_option (\<lambda>z. c # q @ z) (strip t))
      else map_option ((#) c) (strip s))"
  by pat_completeness auto
termination
proof (relation "measure length")
  show "(dropWhile (\<lambda>d. d \<noteq> 10) s, c # s) \<in> measure length" for c :: u8 and s by (simp add: le_imp_less_Suc length_dropWhile_le)
  show "(t, c # s) \<in> measure length" if "comment_end s = Some t" for c s t using comment_end_append [OF that] by auto
  show "(t, c # s) \<in> measure length" if "lit s = Some x" "(q, t) = x" for c s t q x
    using lit_append [of s q t] that by auto
qed simp_all

section \<open>The code meets the reference\<close>

text \<open>The buffer while the loop runs: what is written, what lies between \<open>into\<close> and \<open>json\<close>, what is unread.\<close>

definition img :: "u8 list \<Rightarrow> u8 list \<Rightarrow> u8 list \<Rightarrow> u8 list" where
  "img o' g s = o' @ g @ s @ [0]"

lemma length_img [simp]: "length (img out g s) = length out + length g + length s + 1"
  by (simp add: img_def)

lemma rd_img [simp]: "rd (img out g (c # s)) (length out + length g) = Some c" "rd (img out g []) (length out + length g) = Some 0"
  by (simp_all add: rd_def img_def nth_append)

lemma rd_img1 [simp]: "rd (img out g (c # s)) (Suc (length out + length g)) = Some (hd (s @ [0]))"
  by (cases s) (simp_all add: rd_def img_def nth_append)

lemma img_read [simp]: "img out (g @ [c]) s = img out g (c # s)"
  by (simp add: img_def)

lemma copy1_img [simp]: "copy1 (img out g (c # s)) (length out) (length out + length g) = Some (img (out @ [c]) (tl (g @ [c])) s)"
proof -
  have "wr (img out g (c # s)) (length out) c = Some (img (out @ [c]) (tl (g @ [c])) s)"
    by (cases g) (simp_all add: img_def wr_def list_update_append)
  then show ?thesis by (simp add: copy1_def)
qed

lemma length_tl_snoc [simp]: "length (tl (g @ [c])) = length g"
  by simp

lemma skip_line_img: "0 \<notin> set s \<Longrightarrow> skip_line (img out g s) (length out + length g)
    = Some (length out + length (g @ takeWhile (\<lambda>d. d \<noteq> 10) s))"
proof (induction s arbitrary: g)
  case Nil
  then show ?case by (subst skip_line.simps) simp
next
  case (Cons c s)
  show ?case
  proof (cases "c = 10")
    case True
    then show ?thesis by (subst skip_line.simps) simp
  next
    case False
    with Cons.IH [of "g @ [c]"] Cons.prems show ?thesis by (subst skip_line.simps) simp
  qed
qed

lemma skip_comment_img: "0 \<notin> set s \<Longrightarrow> case comment_end s of
    Some t \<Rightarrow> \<exists>g'. skip_comment (img out g s) (length out + length g) = Some (length out + length g') \<and> img out g s = img out (g' @ [42, 47]) t
  | None \<Rightarrow> skip_comment (img out g s) (length out + length g) = Some (length out + length g + length s)"
proof (induction s arbitrary: g rule: comment_end.induct)
  case (3 c d s)
  show ?case
  proof (cases "c = 42 \<and> d = 47")
    case True
    then have "skip_comment (img out g (c # d # s)) (length out + length g) = Some (length out + length g)" by (subst skip_comment.simps) simp
    then show ?thesis using True by (auto simp: img_def)
  next
    case False
    then have "skip_comment (img out g (c # d # s)) (length out + length g) = skip_comment (img out (g @ [c]) (d # s)) (length out + length (g @ [c]))"
      using "3.prems" by (subst skip_comment.simps) auto
    then show ?thesis using "3.IH" [of "g @ [c]"] False "3.prems" by (auto simp del: append.simps split: option.splits)
  qed
next
  case 1
  then show ?case by (subst skip_comment.simps) simp
next
  case (2 c)
  have "skip_comment (img out g [c]) (Suc (length out + length g)) = Some (Suc (length out + length g))"
    using rd_img(2) [of out "g @ [c]"] by (subst skip_comment.simps) simp
  then show ?case using 2 by (subst skip_comment.simps) auto
qed

lemma copy1_length: "copy1 b w r = Some b' \<Longrightarrow> length b' = length b"
  by (auto simp: copy1_def wr_length split: bind_splits)

lemma copy_string_end: "length b \<le> r \<Longrightarrow> copy_string b w r = None"
  by (subst copy_string.simps) (simp add: rd_out)

lemma copy_string_img: "0 \<notin> set s \<Longrightarrow> case lit s of
    Some (q, t) \<Rightarrow> \<exists>q' g'. q = q' @ [34] \<and> length g' = length g
      \<and> copy_string (img out g s) (length out) (length out + length g) = Some (img (out @ q') g' (34 # t), length (out @ q'), length (out @ q') + length g')
  | None \<Rightarrow> copy_string (img out g s) (length out) (length out + length g) = None
      \<or> (\<exists>b' w'. copy_string (img out g s) (length out) (length out + length g) = Some (b', w', length out + length g + length s) \<and> length b' = length (img out g s))"
proof (induction s arbitrary: out g rule: lit.induct)
  case 1
  then show ?case by (subst (1 2) copy_string.simps) simp
next
  case (2 c s)
  consider "c = 34" | "c = 92" "s = []" | d s' where "c = 92" "s = d # s'" | "c \<noteq> 34" "c \<noteq> 92" by (cases s) auto
  then show ?case
  proof cases
    case 1
    then have "copy_string (img out g (c # s)) (length out) (length out + length g) = Some (img out g (34 # s), length out, length out + length g)"
      by (subst copy_string.simps) simp
    then show ?thesis using 1 by auto
  next
    case 2
    have "copy1 (img (out @ [c]) (tl (g @ [c])) []) (Suc (length out)) (Suc (length out + length g)) \<bind>
        (\<lambda>b. copy_string b (Suc (Suc (length out))) (Suc (Suc (length out + length g)))) = None"
      (is "?x \<bind> _ = None")
      by (cases ?x) (auto intro: copy_string_end dest!: copy1_length)
    then have "copy_string (img out g (c # s)) (length out) (length out + length g) = None"
      using 2 by (subst copy_string.simps) simp
    then show ?thesis using 2 by simp
  next
    case 3
    let ?g = "tl (tl (g @ [c]) @ [d])"
    have g: "length ?g = length g" by simp
    have st: "copy_string (img out g (c # s)) (length out) (length out + length g)
      = copy_string (img (out @ [c, d]) ?g s') (length (out @ [c, d])) (length (out @ [c, d]) + length ?g)"
      using 3 copy1_img [of "out @ [c]" "tl (g @ [c])" d s'] by (subst copy_string.simps) simp
    have ih: "case lit s' of Some (q, t) \<Rightarrow> \<exists>q' g'. q = q' @ [34] \<and> length g' = length g
        \<and> copy_string (img (out @ [c, d]) ?g s') (length (out @ [c, d])) (length (out @ [c, d]) + length ?g) = Some (img (out @ c # d # q') g' (34 # t), length (out @ c # d # q'), length (out @ c # d # q') + length g')
      | None \<Rightarrow> copy_string (img (out @ [c, d]) ?g s') (length (out @ [c, d])) (length (out @ [c, d]) + length ?g) = None
        \<or> (\<exists>b' w'. copy_string (img (out @ [c, d]) ?g s') (length (out @ [c, d])) (length (out @ [c, d]) + length ?g) = Some (b', w', length out + length g + length (c # s)) \<and> length b' = length (img out g (c # s)))"
      using "2.IH"(1) [of d s' "out @ [c, d]" ?g] 3 "2.prems" by (auto split: option.splits)
    show ?thesis
    proof (cases "lit s'")
      case (Some qt)
      obtain q t where qt: "qt = (q, t)" by fastforce
      obtain q' g' where "q = q' @ [34]" "length g' = length g"
        "copy_string (img out g (c # s)) (length out) (length out + length g) = Some (img (out @ c # d # q') g' (34 # t), length (out @ c # d # q'), length (out @ c # d # q') + length g')"
        using st ih Some qt by auto
      then show ?thesis using 3 Some qt by (auto intro!: exI [of _ "c # d # q'"] exI [of _ g'])
    qed (use st ih 3 in auto)
  next
    case 4
    let ?g = "tl (g @ [c])"
    have st: "copy_string (img out g (c # s)) (length out) (length out + length g)
      = copy_string (img (out @ [c]) ?g s) (length (out @ [c])) (length (out @ [c]) + length ?g)"
      using 4 "2.prems" by (subst copy_string.simps) simp
    have ih: "case lit s of Some (q, t) \<Rightarrow> \<exists>q' g'. q = q' @ [34] \<and> length g' = length g
        \<and> copy_string (img (out @ [c]) ?g s) (length (out @ [c])) (length (out @ [c]) + length ?g) = Some (img (out @ c # q') g' (34 # t), length (out @ c # q'), length (out @ c # q') + length g')
      | None \<Rightarrow> copy_string (img (out @ [c]) ?g s) (length (out @ [c])) (length (out @ [c]) + length ?g) = None
        \<or> (\<exists>b' w'. copy_string (img (out @ [c]) ?g s) (length (out @ [c])) (length (out @ [c]) + length ?g) = Some (b', w', length out + length g + length (c # s)) \<and> length b' = length (img out g (c # s)))"
      using "2.IH"(2) [of "out @ [c]" ?g] 4 "2.prems" by (auto split: option.splits)
    show ?thesis
    proof (cases "lit s")
      case (Some qt)
      obtain q t where qt: "qt = (q, t)" by fastforce
      obtain q' g' where "q = q' @ [34]" "length g' = length g"
        "copy_string (img out g (c # s)) (length out) (length out + length g) = Some (img (out @ c # q') g' (34 # t), length (out @ c # q'), length (out @ c # q') + length g')"
        using st ih Some qt by auto
      then show ?thesis using 4 Some qt by (auto intro!: exI [of _ "c # q'"] exI [of _ g'])
    qed (use st ih 4 in auto)
  qed
qed

lemma minify_loop_end: "length b \<le> r \<Longrightarrow> minify_loop b w r = None"
  by (subst minify_loop.simps) (simp add: rd_out)

text \<open>What the loop still has to do: the text goes behind what is written, or the buffer is left.\<close>

definition minified :: "(u8 list \<times> nat) option \<Rightarrow> u8 list \<Rightarrow> nat \<Rightarrow> u8 list option \<Rightarrow> bool" where
  "minified x out n t \<longleftrightarrow> (case t of None \<Rightarrow> x = None
     | Some t \<Rightarrow> \<exists>rest. x = Some (out @ t @ rest, length (out @ t)) \<and> rest \<noteq> [] \<and> length (out @ t @ rest) = n)"

lemma minified_Cons: "minified x (out @ [c]) n t \<Longrightarrow> minified x out n (map_option ((#) c) t)"
  by (auto simp: minified_def split: option.splits)

lemma minify_loop_img: "0 \<notin> set s \<Longrightarrow>
   minified (minify_loop (img out g s) (length out) (length out + length g)) out (length (img out g s)) (strip s)"
proof (induction s arbitrary: out g rule: strip.induct)
  case 1
  have "minify_loop (img out g []) (length out) (length out + length g) = Some (img out g [], length out)" by (subst minify_loop.simps) simp
  then show ?case by (simp add: minified_def img_def)
next
  case (2 c s)
  let ?l = "\<lambda>out g s. minify_loop (img out g s) (length out) (length out + length g)"
  have z: "c \<noteq> 0" "0 \<notin> set s" using "2.prems" by auto
  consider "c = 32 \<or> c = 9 \<or> c = 13 \<or> c = 10" | "c = 47" "s \<noteq> []" "hd s = 47" | "c = 47" "s \<noteq> []" "hd s = 42" | "c = 34"
    | "\<not> (c = 32 \<or> c = 9 \<or> c = 13 \<or> c = 10)" "\<not> (c = 47 \<and> s \<noteq> [] \<and> (hd s = 47 \<or> hd s = 42))" "c \<noteq> 34" by blast
  then show ?case
  proof cases
    case 1
    then have "?l out g (c # s) = ?l out (g @ [c]) s" using z by (subst (1) minify_loop.simps) auto
    then show ?thesis using "2.IH"(1) [of out "g @ [c]"] 1 z by simp
  next
    case 2
    let ?a = "takeWhile (\<lambda>d. d \<noteq> 10) s" and ?b = "dropWhile (\<lambda>d. d \<noteq> 10) s"
    have im: "img out g (c # s) = img out (g @ c # ?a) ?b" by (simp add: img_def)
    have sk: "skip_line (img out g (c # s)) (length out + length g) = Some (length out + length (g @ c # ?a))"
      using skip_line_img [of "c # s" out g] 2 z by simp
    have "?l out g (c # s) = minify_loop (img out g (c # s)) (length out) (length out + length (g @ c # ?a))"
      using 2 sk by (subst (1) minify_loop.simps) simp
    then have "?l out g (c # s) = ?l out (g @ c # ?a) ?b" by (simp only: im)
    moreover have "0 \<notin> set ?b" using z by (auto dest: set_dropWhileD)
    ultimately show ?thesis using "2.IH"(2) [of out "g @ c # ?a"] 2 unfolding im by simp
  next
    case 3
    have loop: "?l out g (c # s) = skip_comment (img out g (c # s)) (length out + length g) \<bind> (\<lambda>r. minify_loop (img out g (c # s)) (length out) (r + 2))"
      using 3 by (subst (1) minify_loop.simps) simp
    obtain d s' where s: "s = d # s'" using 3 by (cases s) auto
    have ce: "comment_end (c # s) = comment_end s" using 3 s by simp
    show ?thesis
    proof (cases "comment_end s")
      case None
      then have "skip_comment (img out g (c # s)) (length out + length g) = Some (length out + length g + length (c # s))"
        using skip_comment_img [of "c # s" out g] z unfolding ce by simp
      then show ?thesis using loop None 3 by (simp add: minified_def minify_loop_end)
    next
      case (Some t)
      then obtain g' where g': "skip_comment (img out g (c # s)) (length out + length g) = Some (length out + length g')"
        "img out g (c # s) = img out (g' @ [42, 47]) t"
        using skip_comment_img [of "c # s" out g] z unfolding ce by auto
      then have "?l out g (c # s) = ?l out (g' @ [42, 47]) t" unfolding loop by simp
      moreover have "0 \<notin> set t" using comment_end_append [OF Some] z by auto
      ultimately show ?thesis using "2.IH"(3) [of t out "g' @ [42, 47]"] Some 3 g'(2) by simp
    qed
  next
    case 4
    let ?g = "tl (g @ [c])"
    have loop: "?l out g (c # s) = copy_string (img (out @ [c]) ?g s) (length (out @ [c])) (length (out @ [c]) + length ?g)
        \<bind> (\<lambda>(b, w, r). copy1 b w r \<bind> (\<lambda>b. minify_loop b (w + 1) (r + 1)))"
      using 4 by (subst (1) minify_loop.simps) simp
    show ?thesis
    proof (cases "lit s")
      case None
      let ?x = "copy_string (img (out @ [c]) ?g s) (length (out @ [c])) (length (out @ [c]) + length ?g)"
      have "?x = None \<or> (\<exists>b' w'. ?x = Some (b', w', length (out @ [c]) + length ?g + length s) \<and> length b' = length (img (out @ [c]) ?g s))"
        using copy_string_img [of s "out @ [c]" ?g] z None by simp
      then have "?l out g (c # s) = None"
      proof (elim disjE exE conjE)
        fix b' w' assume x: "?x = Some (b', w', length (out @ [c]) + length ?g + length s)" "length b' = length (img (out @ [c]) ?g s)"
        show ?thesis unfolding loop x(1)
          by (cases "copy1 b' w' (length (out @ [c]) + length ?g + length s)") (use x(2) in \<open>auto intro: minify_loop_end dest!: copy1_length\<close>)
      qed (simp add: loop)
      then show ?thesis using None 4 by (simp add: minified_def)
    next
      case (Some qt)
      obtain q t where qt: "qt = (q, t)" by fastforce
      obtain q' g' where q: "q = q' @ [34]" "length g' = length ?g"
        "copy_string (img (out @ [c]) ?g s) (length (out @ [c])) (length (out @ [c]) + length ?g)
          = Some (img (out @ c # q') g' (34 # t), length (out @ c # q'), length (out @ c # q') + length g')"
        using copy_string_img [of s "out @ [c]" ?g] Some qt z by auto
      have "?l out g (c # s) = ?l (out @ c # q) (tl (g' @ [34])) t"
        unfolding loop q(3) using copy1_img [of "out @ c # q'" g' 34 t] q(1) by simp
      moreover have t: "0 \<notin> set t" "length (img (out @ c # q) (tl (g' @ [34])) t) = length (img out g (c # s))"
        using lit_append [of s q t] Some qt z q(2) by auto
      moreover have "minified (?l (out @ c # q) (tl (g' @ [34])) t) (out @ c # q) (length (img (out @ c # q) (tl (g' @ [34])) t)) (strip t)"
        by (rule "2.IH"(4) [OF _ _ _ _ Some qt [symmetric] t(1)]) (use 4 in simp_all)
      ultimately have "minified (?l out g (c # s)) (out @ c # q) (length (img out g (c # s))) (strip t)" by (simp only:)
      then show ?thesis using Some qt 4 by (auto simp: minified_def split: option.splits)
    qed
  next
    case 5
    then have "?l out g (c # s) = ?l (out @ [c]) (tl (g @ [c])) s" using z by (subst (1) minify_loop.simps) (cases s; simp)
    moreover have "length (img (out @ [c]) (tl (g @ [c])) s) = length (img out g (c # s))" by simp
    ultimately have "minified (?l out g (c # s)) (out @ [c]) (length (img out g (c # s))) (strip s)"
      using "2.IH"(5) [of "out @ [c]" "tl (g @ [c])"] 5 z by (metis (no_types, lifting))
    then have "minified (?l out g (c # s)) out (length (img out g (c # s))) (map_option ((#) c) (strip s))" by (rule minified_Cons)
    then show ?thesis using 5 by auto
  qed
qed

lemma cJSON_Minify_strip:
  assumes "0 \<notin> set s"
  shows "case strip s of None \<Rightarrow> cJSON_Minify (s @ [0]) = None
    | Some t \<Rightarrow> \<exists>rest. cJSON_Minify (s @ [0]) = Some (t @ 0 # rest) \<and> length (t @ 0 # rest) = length (s @ [0])"
proof -
  have m: "minified (minify_loop (s @ [0]) 0 0) [] (length s + 1) (strip s)"
    using minify_loop_img [OF assms, of "[]" "[]"] by (simp add: img_def)
  show ?thesis
  proof (cases "strip s")
    case None
    then show ?thesis using m by (simp add: minified_def cJSON_Minify_def)
  next
    case (Some t)
    then obtain x rest where "minify_loop (s @ [0]) 0 0 = Some (t @ x # rest, length t)" "length (t @ x # rest) = length s + 1"
      using m by (auto simp: minified_def neq_Nil_conv)
    then show ?thesis using Some by (simp add: cJSON_Minify_def)
  qed
qed

section \<open>Texts that are reduced piece by piece\<close>

definition reduces :: "u8 list \<Rightarrow> u8 list \<Rightarrow> bool" where
  "reduces x x' \<longleftrightarrow> (\<forall>y. strip (x @ y) = map_option ((@) x') (strip y))"

lemma reduces_Nil [simp]: "reduces [] []"
  by (simp add: reduces_def option.map_ident_strong)

lemma map_option_append: "map_option ((@) (x @ y)) z = map_option ((@) x) (map_option ((@) y) z)" "map_option ((@) (c # y)) z = map_option ((#) c) (map_option ((@) y) z)"
  by (cases z; simp)+

lemma reduces_append: "reduces x x' \<Longrightarrow> reduces y y' \<Longrightarrow> reduces (x @ y) (x' @ y')"
  unfolding reduces_def append_assoc map_option_append by simp

definition plain :: "u8 \<Rightarrow> bool" where
  "plain c \<longleftrightarrow> c \<notin> {32, 9, 13, 10, 47, 34}"

lemma reduces_plain: "plain c \<Longrightarrow> reduces y y' \<Longrightarrow> reduces (c # y) (c # y')"
  unfolding reduces_def map_option_append by (auto simp: plain_def)

lemma reduces_space: "c \<in> {32, 9, 13, 10} \<Longrightarrow> reduces y y' \<Longrightarrow> reduces (c # y) y'"
  by (auto simp: reduces_def)

lemma reduces_plains: "\<forall>c\<in>set x. plain c \<Longrightarrow> reduces x x"
  by (induction x) (simp_all add: reduces_plain)

lemma reduces_join:
  assumes "reduces sep sep'" "\<And>x. x \<in> set xs \<Longrightarrow> reduces (f x) (g x)"
  shows "reduces (join sep (map f xs)) (join sep' (map g xs))"
  using assms(2)
proof (induction xs rule: induct_list012)
  case (3 a b xs)
  then show ?case using assms(1) by (auto intro!: reduces_append)
qed auto

lemma hex_lower_plain: "n < 16 \<Longrightarrow> hex_lower n \<noteq> 34 \<and> hex_lower n \<noteq> 92"
proof -
  assume "n < 16"
  then have "unat (hex_lower n) = (if n < 10 then 48 + n else 87 + n)" unfolding hex_lower_def by (subst unat_of_nat_len) auto
  then show ?thesis using \<open>n < 16\<close> by (auto split: if_splits)
qed

lemma lit_escape: "c \<noteq> 0 \<Longrightarrow> lit (escape_char c @ s) = map_option (\<lambda>(q, t). (escape_char c @ q, t)) (lit s)"
  using hex_lower_plain [of "unat c div 16"] hex_lower_plain [of "unat c mod 16"]
  by (cases "31 < c") (auto simp: escape_char_def option.map_comp comp_def case_prod_unfold word_less_nat_alt)

lemma lit_escapes: "0 \<notin> set s \<Longrightarrow> lit (concat (map escape_char s) @ 34 # y) = Some (concat (map escape_char s) @ [34], y)"
  by (induction s) (auto simp: lit_escape)

lemma lit_plain: "(\<And>c. c \<in> set s \<Longrightarrow> c \<noteq> 34 \<and> c \<noteq> 92) \<Longrightarrow> lit (s @ 34 # y) = Some (s @ [34], y)"
  by (induction s) auto

lemma reduces_lit: "(\<And>y. lit (q @ y) = Some (q, y)) \<Longrightarrow> reduces (34 # q) (34 # q)"
  unfolding reduces_def by (auto simp: option.map_comp comp_def intro: option.map_cong)

lemma reduces_string: "reduces (snd (string_form str)) (snd (string_form str))"
proof (cases str)
  case None
  then show ?thesis using reduces_lit [of "[34]"] by (simp add: string_form_def)
next
  case (Some s)
  let ?s = "takeWhile (\<lambda>c. c \<noteq> 0) s"
  have z: "0 \<notin> set ?s" by (auto dest: set_takeWhileD)
  show ?thesis
  proof (cases "\<exists>c\<in>set ?s. special c")
    case True
    have "lit ((concat (map escape_char ?s) @ [34]) @ y) = Some (concat (map escape_char ?s) @ [34], y)" for y
      using lit_escapes [OF z] by simp
    then show ?thesis using reduces_lit [of "concat (map escape_char ?s) @ [34]"] Some True by (auto simp: string_form_def Let_def)
  next
    case False
    have "lit ((?s @ [34]) @ y) = Some (?s @ [34], y)" for y
      using lit_plain [of ?s y] False by (auto simp: special_def)
    then show ?thesis using reduces_lit [of "?s @ [34]"] Some False by (simp add: string_form_def Let_def)
  qed
qed

text \<open>What \<open>sprintf\<close> prints for a number has no white space, slash or quote.\<close>

definition plain_numbers :: "'d fpr \<Rightarrow> bool" where
  "plain_numbers P \<longleftrightarrow> (\<forall>d. \<forall>c\<in>set (d_f0 P d) \<union> set (d_e P d) \<union> set (d_f P d). plain c)"

lemma dec_nat_plain: "c \<in> set (dec_nat n) \<Longrightarrow> plain c"
proof -
  assume "c \<in> set (dec_nat n)"
  then have "48 \<le> c \<and> c \<le> 57" by (rule dec_nat_digits)
  then show ?thesis by (auto simp: plain_def)
qed

lemma leaf_reduces: "plain_numbers P \<Longrightarrow> leaf_form P f = Some (n, s) \<Longrightarrow> reduces s s"
proof -
  assume P: "plain_numbers P" and l: "leaf_form P f = Some (n, s)"
  have "\<forall>c\<in>set (snd (number_form P f)). plain c"
    using P dec_nat_plain by (auto simp: number_form_def Let_def plain_numbers_def bytes_def dec_int_def plain_def)
  then have "reduces (snd (number_form P f)) (snd (number_form P f))" by (rule reduces_plains)
  moreover have "reduces (bytes t) (bytes t)" if "t \<in> {''null'', ''false'', ''true''}" for t
    using that by (intro reduces_plains) (auto simp: bytes_def plain_def)
  moreover have "s = snd (number_form P f) \<or> s = snd (string_form (valuestring f)) \<or> s \<in> {bytes ''null'', bytes ''false'', bytes ''true''}"
    using l by (auto simp: leaf_form_def Let_def split: if_splits)
  ultimately show ?thesis using reduces_string by (elim disjE insertE emptyE) (simp_all only: insert_iff simp_thms)
qed

lemma json_text_reduces: "plain_numbers P \<Longrightarrow> reduces (json_text P True d c) (json_text P False d' c)"
proof (induction c arbitrary: d d')
  case (Item f cs)
  show ?case
  proof (cases "leaf_form P f")
    case (Some l)
    then show ?thesis using leaf_reduces [OF Item.prems] by (cases l) simp
  next
    case None
    have cm: "reduces (comma True) (comma False)" by (simp add: comma_def reduces_plain reduces_space plain_def)
    have br: "plain 91" "plain 93" "plain 123" "plain 125" "plain 58" "plain 44" by (simp_all add: plain_def)
    show ?thesis
    proof (cases "jtype f mod 256 = cJSON_Array")
      case True
      have "reduces (join (comma True) (map (json_text P True (d + 1)) cs)) (join (comma False) (map (json_text P False (d' + 1)) cs))"
        using Item by (intro reduces_join cm) blast
      then show ?thesis using None True br by (auto intro!: reduces_plain reduces_append)
    next
      case False
      have "reduces (replicate d 9 @ [125]) [125]" using br
        by (induction d) (auto intro: reduces_plain reduces_space)
      then have "reduces (snd (empty_object True d)) (snd (empty_object False d'))"
        using reduces_plain [OF br(3) reduces_space [of 10 "replicate d 9 @ [125]" "[125]"]] by (simp add: empty_object_def)
      moreover have "reduces (join [44] (map (\<lambda>c. snd (string_form (jname (jf c))) @ [58] @ json_text P True (d + 1) c) cs))
          (join [44] (map (\<lambda>c. snd (string_form (jname (jf c))) @ [58] @ json_text P False (d' + 1) c) cs))"
        by (intro reduces_join) (use Item br in \<open>auto intro!: reduces_append reduces_plain reduces_string\<close>)
      ultimately show ?thesis using None False br by (auto intro!: reduces_plain reduces_append)
    qed
  qed
qed

lemma strip_json_text: "plain_numbers P \<Longrightarrow> strip (json_text P True 0 c) = Some (json_text P False 0 c)"
  using json_text_reduces [of P 0 c 0] unfolding reduces_def by (metis append.right_neutral option.simps(9) strip.simps(1))

lemma join_no_NUL: "0 \<notin> set sep \<Longrightarrow> (\<And>x. x \<in> set xs \<Longrightarrow> (0 :: u8) \<notin> set x) \<Longrightarrow> 0 \<notin> set (join sep xs)"
  by (induction xs rule: induct_list012) auto

lemma json_text_no_NUL: "sprintf_fits P \<Longrightarrow> 0 \<notin> set (json_text P fmt d c)"
proof (induction c arbitrary: d)
  case (Item f cs)
  show ?case
  proof (cases "leaf_form P f")
    case (Some l)
    then show ?thesis using leaf_form_no_NUL [OF _ Item.prems, of f] by (cases l) simp
  next
    case None
    have "0 \<notin> set (join (comma fmt) (map (json_text P fmt (d + 1)) cs))"
      by (rule join_no_NUL) (use Item in \<open>auto simp: comma_def\<close>)
    moreover have "0 \<notin> set (join [44] (map (\<lambda>c. snd (string_form (jname (jf c))) @ [58] @ json_text P fmt (d + 1) c) cs))"
      by (rule join_no_NUL) (use Item string_form_no_NUL in auto)
    ultimately show ?thesis using None by (auto simp: empty_object_def)
  qed
qed

lemma strip_subset: "strip s = Some t \<Longrightarrow> set t \<subseteq> set s"
proof (induction s arbitrary: t rule: strip.induct)
  case (2 c s)
  consider "c = 32 \<or> c = 9 \<or> c = 13 \<or> c = 10" | "c = 47" "s \<noteq> []" "hd s = 47" | "c = 47" "s \<noteq> []" "hd s = 42" | "c = 34"
    | "\<not> (c = 32 \<or> c = 9 \<or> c = 13 \<or> c = 10)" "\<not> (c = 47 \<and> s \<noteq> [] \<and> (hd s = 47 \<or> hd s = 42))" "c \<noteq> 34" by blast
  then show ?case
  proof cases
    case 1
    then show ?thesis using "2.IH"(1) "2.prems" by auto
  next
    case 2
    then have "set t \<subseteq> set (dropWhile (\<lambda>d. d \<noteq> 10) s)" using "2.IH"(2) "2.prems" by simp
    then show ?thesis by (auto dest: set_dropWhileD)
  next
    case 3
    then obtain u where u: "comment_end s = Some u" "strip u = Some t" using "2.prems" by (auto split: option.splits)
    have "set t \<subseteq> set u" by (rule "2.IH"(3) [OF _ _ _ u]) (use 3 in simp_all)
    then show ?thesis using comment_end_append [OF u(1)] by auto
  next
    case 4
    then obtain q u z where u: "lit s = Some (q, u)" "strip u = Some z" "t = c # q @ z" using "2.prems" by (auto split: option.splits)
    have "set z \<subseteq> set u" by (rule "2.IH"(4) [OF _ _ _ _ u(1) refl u(2)]) (use 4 in simp_all)
    then show ?thesis using lit_append [OF u(1)] u(3) by auto
  next
    case 5
    then obtain z where "strip s = Some z" "t = c # z" using "2.prems" by auto
    then show ?thesis using "2.IH"(5) [of z] 5 by auto
  qed
qed simp

lemma prints_fresh: "prints p d (Some t) \<Longrightarrow> \<exists>st. p d fresh_jst = Some (Some t, st)"
proof -
  assume "prints p d (Some t)"
  then have "\<exists>r st. p d fresh_jst = Some (r, st) \<and> printed fresh_jst (Some t) (r, st)" unfolding prints_iff by (rule spec)
  then obtain r st where "p d fresh_jst = Some (r, st)" "printed fresh_jst (Some t) (r, st)" by (elim exE conjE)
  moreover have "grants fresh_jst = []" by (simp add: fresh_jst_def)
  ultimately have "r = Some t" unfolding printed_def by blast
  then show ?thesis using \<open>p d fresh_jst = Some (r, st)\<close> by blast
qed

section \<open>Properties\<close>

text \<open>C28: \<open>cJSON_Minify\<close> works in place as the reference does on the text: when every string and every comment of the text is
  closed it returns, without leaving the buffer, and the text in the buffer is the one without comments and white space;
  when one is not closed it reads behind the terminator.\<close>

theorem cJSON_Minify_in_place:
  assumes "0 \<notin> set s"
  shows "case strip s of
      None \<Rightarrow> cJSON_Minify (s @ [0]) = None
    | Some t \<Rightarrow> \<exists>b. cJSON_Minify (s @ [0]) = Some b \<and> length b = length s + 1 \<and> cstr b = Some t"
proof (cases "strip s")
  case (Some t)
  then have "0 \<notin> set t" using strip_subset assms by blast
  then show ?thesis using cJSON_Minify_strip [OF assms] Some by (auto simp: cstr_append_NUL)
qed (use cJSON_Minify_strip [OF assms] in simp)

theorem cJSON_Minify_in_place_witness:
  "(\<exists>b. cJSON_Minify (bytes ''[1, /*2*/ 3]'' @ [0]) = Some b \<and> cstr b = Some (bytes ''[1,3]'')) \<and> cJSON_Minify (bytes ''[1/*'' @ [0]) = None"
proof -
  have "strip (bytes ''[1, /*2*/ 3]'') = Some (bytes ''[1,3]'')" "strip (bytes ''[1/*'') = None"
    by (simp_all add: bytes_def)
  then show ?thesis
    using cJSON_Minify_in_place [of "bytes ''[1, /*2*/ 3]''"] cJSON_Minify_in_place [of "bytes ''[1/*''"] by (auto simp: bytes_def)
qed

text \<open>C29: Minifying what \<open>cJSON_Print\<close> has printed gives what \<open>cJSON_PrintUnformatted\<close> prints: white space outside strings is
  all that formatting adds, and the strings survive, whatever they hold.\<close>

theorem cJSON_Minify_unformats:
  assumes "sprintf_fits P" "plain_numbers P" "int_fields c"
    "cJSON_Print P c st = Some (Some s, st1)" "cJSON_PrintUnformatted P c st' = Some (Some u, st2)"
  shows "\<exists>b. cJSON_Minify (s @ [0]) = Some b \<and> length b = length s + 1 \<and> cstr b = Some u"
proof -
  have pr: "prints (print_value P fmt c) 0 (if printable P c then Some (json_text P fmt 0 c) else None)" for fmt
    by (rule prints_value [OF assms(1,3)])
  obtain r r' where r: "print_value P True c 0 st = Some r" "printed st (if printable P c then Some (json_text P True 0 c) else None) r"
    and r': "print_value P False c 0 st' = Some r'" "printed st' (if printable P c then Some (json_text P False 0 c) else None) r'"
    using pr [of True] pr [of False] unfolding prints_iff by meson
  have "r = (Some s, st1)" "r' = (Some u, st2)" using r(1) r'(1) assms(4,5) by (simp_all add: cJSON_Print_def cJSON_PrintUnformatted_def)
  then have "s = json_text P True 0 c" "u = json_text P False 0 c" using r(2) r'(2) by (simp_all add: printed_def split: if_splits)
  then show ?thesis using cJSON_Minify_strip [of s] json_text_no_NUL [OF assms(1), of True 0 c] json_text_no_NUL [OF assms(1), of False 0 c] strip_json_text [OF assms(2), of c]
    by (auto simp: cstr_append_NUL)
qed

definition tree11 :: "int cJSON" where
  "tree11 = Item \<lparr>jtype = 32, valuestring = None, valueint = 0, valuedouble = 0, jname = None\<rparr>
     (replicate 2 (Item \<lparr>jtype = 8, valuestring = None, valueint = 1, valuedouble = 1, jname = None\<rparr> []))"

theorem cJSON_Minify_unformats_witness:
  "(\<exists>st. cJSON_Print fpr0 tree11 fresh_jst = Some (Some (bytes ''[1, 1]''), st)) \<and> (\<exists>b. cJSON_Minify (bytes ''[1, 1]'' @ [0]) = Some b \<and> cstr b = Some (bytes ''[1,1]''))"
proof -
  have i: "int_fields tree11" by (simp add: tree11_def numeral_2_eq_2)
  have t: "json_text fpr0 True 0 tree11 = bytes ''[1, 1]''" "json_text fpr0 False 0 tree11 = bytes ''[1,1]''" "printable fpr0 tree11"
    by (simp_all add: tree11_def numeral_2_eq_2 leaf_form_def number_form_def fpr0_def dec_int_def dec_nat.simps comma_def bytes_def)
  have p: "plain_numbers fpr0" using dec_nat_plain by (auto simp: plain_numbers_def fpr0_def dec_int_def plain_def)
  have "prints (print_value fpr0 True tree11) 0 (Some (bytes ''[1, 1]''))" "prints (print_value fpr0 False tree11) 0 (Some (bytes ''[1,1]''))"
    using prints_value [OF fpr0_fits i, of True 0] prints_value [OF fpr0_fits i, of False 0] t by simp_all
  from prints_fresh [OF this(1)] prints_fresh [OF this(2)] obtain st1 st2
    where "cJSON_Print fpr0 tree11 fresh_jst = Some (Some (bytes ''[1, 1]''), st1)"
      "cJSON_PrintUnformatted fpr0 tree11 fresh_jst = Some (Some (bytes ''[1,1]''), st2)"
    unfolding cJSON_Print_def cJSON_PrintUnformatted_def by blast
  with cJSON_Minify_unformats [OF fpr0_fits p i this] show ?thesis by blast
qed

end
