(* ===== verification/JsonBuild.thy ===== *)
theory JsonBuild
  imports JsonBuffer
begin

text \<open>
  Building trees: the \<open>cJSON_Create\<close> functions and \<open>cJSON_Duplicate\<close> of \<open>src/cJSON/cJSON.cpp\<close>.  They make new items only, so
  the trees of \<open>Json\<close> are enough; lists are edited in place in \<open>JsonList\<close>.
\<close>

unbundle bit_operations_syntax

section \<open>The allocator in use\<close>

text \<open>\<open>cJSON_InitHooks\<close> selects the pair that \<open>cJSON_malloc\<close> and \<open>cJSON_free\<close> stand for; \<open>malloc\<close> and \<open>free\<close> are the defaults.\<close>

definition cJSON_InitHooks :: "'m \<Rightarrow> 'f \<Rightarrow> ('m option \<times> 'f option) option \<Rightarrow> 'm \<times> 'f" where
  "cJSON_InitHooks malloc free hooks = (case hooks of
     None \<Rightarrow> (malloc, free)
   | Some (malloc_fn, free_fn) \<Rightarrow> (case malloc_fn of Some m \<Rightarrow> m | None \<Rightarrow> malloc, case free_fn of Some f \<Rightarrow> f | None \<Rightarrow> free))"

definition cJSON_GetErrorPtr :: "jst \<Rightarrow> u8 list option" where
  "cJSON_GetErrorPtr st = ep st"

section \<open>Items\<close>

text \<open>A string ends at its first NUL.\<close>

definition c_string :: "u8 list \<Rightarrow> u8 list" where
  "c_string s = takeWhile (\<lambda>c. c \<noteq> 0) s"

definition cJSON_strdup :: "u8 list \<Rightarrow> jst \<Rightarrow> u8 list option \<times> jst" where
  "cJSON_strdup str st = (let (ok, st) = cJSON_malloc st in (if ok then Some (c_string str) else None, st))"

definition create_type :: "nat \<Rightarrow> 'd fp \<Rightarrow> jst \<Rightarrow> 'd cJSON option \<times> jst" where
  "create_type t fp st = (case cJSON_New_Item fp st of
     (Some item, st) \<Rightarrow> (Some (set_type t item), st)
   | (None, st) \<Rightarrow> (None, st))"

definition cJSON_CreateNull :: "'d fp \<Rightarrow> jst \<Rightarrow> 'd cJSON option \<times> jst" where "cJSON_CreateNull = create_type cJSON_NULL"
definition cJSON_CreateTrue :: "'d fp \<Rightarrow> jst \<Rightarrow> 'd cJSON option \<times> jst" where "cJSON_CreateTrue = create_type cJSON_True"
definition cJSON_CreateFalse :: "'d fp \<Rightarrow> jst \<Rightarrow> 'd cJSON option \<times> jst" where "cJSON_CreateFalse = create_type cJSON_False"
definition cJSON_CreateBool :: "bool \<Rightarrow> 'd fp \<Rightarrow> jst \<Rightarrow> 'd cJSON option \<times> jst" where
  "cJSON_CreateBool b = create_type (if b then cJSON_True else cJSON_False)"
definition cJSON_CreateArray :: "'d fp \<Rightarrow> jst \<Rightarrow> 'd cJSON option \<times> jst" where "cJSON_CreateArray = create_type cJSON_Array"
definition cJSON_CreateObject :: "'d fp \<Rightarrow> jst \<Rightarrow> 'd cJSON option \<times> jst" where "cJSON_CreateObject = create_type cJSON_Object"

definition cJSON_CreateNumber :: "'d fp \<Rightarrow> 'd \<Rightarrow> jst \<Rightarrow> 'd cJSON option \<times> jst" where
  "cJSON_CreateNumber fp num st = (case cJSON_New_Item fp st of
     (Some item, st) \<Rightarrow> (Some (Item ((jf item)\<lparr>jtype := cJSON_Number, valuedouble := num, valueint := fp_int fp num\<rparr>) (child item)), st)
   | (None, st) \<Rightarrow> (None, st))"

definition cJSON_CreateString :: "'d fp \<Rightarrow> u8 list \<Rightarrow> jst \<Rightarrow> 'd cJSON option \<times> jst" where
  "cJSON_CreateString fp string st = (case cJSON_New_Item fp st of
     (Some item, st) \<Rightarrow>
       (case cJSON_strdup string st of
         (Some s, st) \<Rightarrow> (Some (Item ((jf item)\<lparr>jtype := cJSON_String, valuestring := Some s\<rparr>) (child item)), st)
       | (None, st) \<Rightarrow> (None, cJSON_Delete (set_type cJSON_String item) st))
   | (None, st) \<Rightarrow> (None, st))"

section \<open>Arrays\<close>

text \<open>The loops of \<open>cJSON_CreateIntArray\<close>, \<open>cJSON_CreateFloatArray\<close>, \<open>cJSON_CreateDoubleArray\<close> and \<open>cJSON_CreateStringArray\<close>:
  \<open>mk\<close> makes the item of an element; more elements than the argument has is undefined.\<close>

definition append_child :: "'d cJSON \<Rightarrow> 'd cJSON \<Rightarrow> 'd cJSON" where
  "append_child a n = Item (jf a) (child a @ [n])"

fun create_items :: "('x \<Rightarrow> jst \<Rightarrow> 'd cJSON option \<times> jst) \<Rightarrow> nat \<Rightarrow> 'x list \<Rightarrow> 'd cJSON \<Rightarrow> jst \<Rightarrow> ('d cJSON option \<times> jst) option" where
  "create_items mk 0 xs a st = Some (Some a, st)"
| "create_items mk (Suc k) [] a st = None"
| "create_items mk (Suc k) (x # xs) a st = (case mk x st of
     (None, st) \<Rightarrow> Some (None, cJSON_Delete a st)
   | (Some n, st) \<Rightarrow> create_items mk k xs (append_child a n) st)"

definition create_array :: "'d fp \<Rightarrow> ('x \<Rightarrow> jst \<Rightarrow> 'd cJSON option \<times> jst) \<Rightarrow> 'x list \<Rightarrow> int \<Rightarrow> jst \<Rightarrow> ('d cJSON option \<times> jst) option" where
  "create_array fp mk xs count st = (case cJSON_CreateArray fp st of
     (None, st) \<Rightarrow> Some (None, st)
   | (Some a, st) \<Rightarrow> create_items mk (nat count) xs a st)"

definition cJSON_CreateIntArray :: "'d fp \<Rightarrow> int list \<Rightarrow> int \<Rightarrow> jst \<Rightarrow> ('d cJSON option \<times> jst) option" where
  "cJSON_CreateIntArray fp = create_array fp (\<lambda>i. cJSON_CreateNumber fp (fp_lit fp i))"

definition cJSON_CreateDoubleArray :: "'d fp \<Rightarrow> 'd list \<Rightarrow> int \<Rightarrow> jst \<Rightarrow> ('d cJSON option \<times> jst) option" where
  "cJSON_CreateDoubleArray fp = create_array fp (cJSON_CreateNumber fp)"

text \<open>\<open>widen\<close> is the conversion from \<open>float\<close> to \<open>double\<close>.\<close>

definition cJSON_CreateFloatArray :: "('f \<Rightarrow> 'd) \<Rightarrow> 'd fp \<Rightarrow> 'f list \<Rightarrow> int \<Rightarrow> jst \<Rightarrow> ('d cJSON option \<times> jst) option" where
  "cJSON_CreateFloatArray widen fp = create_array fp (\<lambda>x. cJSON_CreateNumber fp (widen x))"

definition cJSON_CreateStringArray :: "'d fp \<Rightarrow> u8 list list \<Rightarrow> int \<Rightarrow> jst \<Rightarrow> ('d cJSON option \<times> jst) option" where
  "cJSON_CreateStringArray fp = create_array fp (cJSON_CreateString fp)"

section \<open>Duplication\<close>

text \<open>\<open>if (item->valuestring) {newitem->valuestring = cJSON_strdup(...); if (!newitem->valuestring) {cJSON_Delete(newitem); return 0;}}\<close>\<close>

definition copy_string_of :: "u8 list option \<Rightarrow> (u8 list option \<Rightarrow> 'd cJSON) \<Rightarrow> jst \<Rightarrow> 'd cJSON option \<times> jst" where
  "copy_string_of s setter st = (case s of
     None \<Rightarrow> (Some (setter None), st)
   | Some s \<Rightarrow> (case cJSON_strdup s st of
       (Some t, st) \<Rightarrow> (Some (setter (Some t)), st)
     | (None, st) \<Rightarrow> (None, cJSON_Delete (setter None) st)))"

definition set_valuestring :: "'d cJSON \<Rightarrow> u8 list option \<Rightarrow> 'd cJSON" where
  "set_valuestring c s = Item ((jf c)\<lparr>valuestring := s\<rparr>) (child c)"

definition set_string :: "'d cJSON \<Rightarrow> u8 list option \<Rightarrow> 'd cJSON" where
  "set_string c s = Item ((jf c)\<lparr>jname := s\<rparr>) (child c)"

fun cJSON_Duplicate :: "'d fp \<Rightarrow> 'd cJSON \<Rightarrow> bool \<Rightarrow> jst \<Rightarrow> 'd cJSON option \<times> jst"
  and duplicate_children :: "'d fp \<Rightarrow> 'd cJSON list \<Rightarrow> 'd cJSON \<Rightarrow> jst \<Rightarrow> 'd cJSON option \<times> jst" where
  "cJSON_Duplicate fp (Item f cs) recurse st = (case cJSON_New_Item fp st of
     (None, st) \<Rightarrow> (None, st)
   | (Some n, st) \<Rightarrow>
       let n = Item ((jf n)\<lparr>jtype := unset_bit 8 (jtype f), valueint := valueint f, valuedouble := valuedouble f\<rparr>) (child n)
       in (case copy_string_of (valuestring f) (set_valuestring n) st of
         (None, st) \<Rightarrow> (None, st)
       | (Some n, st) \<Rightarrow>
           (case copy_string_of (jname f) (set_string n) st of
             (None, st) \<Rightarrow> (None, st)
           | (Some n, st) \<Rightarrow> if \<not> recurse then (Some n, st) else duplicate_children fp cs n st)))"
| "duplicate_children fp [] n st = (Some n, st)"
| "duplicate_children fp (c # cs) n st = (case cJSON_Duplicate fp c True st of
     (None, st) \<Rightarrow> (None, cJSON_Delete n st)
   | (Some d, st) \<Rightarrow> duplicate_children fp cs (append_child n d) st)"

section \<open>What a duplicate is\<close>

fun copy :: "'d cJSON \<Rightarrow> 'd cJSON" where
  "copy (Item f cs) = Item (f\<lparr>jtype := unset_bit 8 (jtype f), valuestring := map_option c_string (valuestring f),
     jname := map_option c_string (jname f)\<rparr>) (map copy cs)"

text \<open>The names that \<open>cJSON_Delete\<close> leaves alone because the item calls them constant.\<close>

fun const_names :: "'d cJSON \<Rightarrow> nat" where
  "const_names (Item f cs) = (if bit (jtype f) 9 \<and> jname f \<noteq> None then 1 else 0) + sum_list (map const_names cs)"


definition top_only :: "'d cJSON \<Rightarrow> 'd cJSON" where
  "top_only c = Item (jf c) []"

text \<open>The outcome of a constructor: a tree whose blocks, with \<open>k\<close> more, are those that were added, or NULL with at most \<open>k\<close>
  blocks lost, which happens only when an allocation failed.\<close>

definition makes :: "nat \<Rightarrow> 'd cJSON \<Rightarrow> nat \<Rightarrow> bool \<Rightarrow> 'd cJSON option \<times> jst \<Rightarrow> bool" where
  "makes k t b g r \<longleftrightarrow> (case r of
     (Some d, st') \<Rightarrow> d = t \<and> blocks st' = b + owned t + k \<and> (g \<longrightarrow> grants st' = [])
   | (None, st') \<Rightarrow> b \<le> blocks st' \<and> blocks st' \<le> b + k \<and> \<not> g)"

lemma malloc_cases:
  obtains st' where "cJSON_malloc st = (True, st')" "blocks st' = Suc (blocks st)" "grants st = [] \<longrightarrow> grants st' = []"
  | st' where "cJSON_malloc st = (False, st')" "blocks st' = blocks st" "grants st \<noteq> []"
proof (cases "grants st")
  case Nil
  then show thesis by (intro that(1) [of "st\<lparr>blocks := Suc (blocks st)\<rparr>"]) (simp_all add: cJSON_malloc_def)
next
  case (Cons g gs)
  show thesis
  proof (cases g)
    case True
    then show thesis using Cons by (intro that(1) [of "st\<lparr>grants := gs, blocks := Suc (blocks st)\<rparr>"]) (simp_all add: cJSON_malloc_def)
  next
    case False
    then show thesis using Cons by (intro that(2) [of "st\<lparr>grants := gs\<rparr>"]) (simp_all add: cJSON_malloc_def)
  qed
qed

lemma new_item_cases:
  obtains st' where "cJSON_New_Item fp st = (Some (zeroed fp), st')" "blocks st' = Suc (blocks st)" "grants st = [] \<longrightarrow> grants st' = []"
  | st' where "cJSON_New_Item fp st = (None, st')" "blocks st' = blocks st" "grants st \<noteq> []"
  by (cases rule: malloc_cases [of st]) (simp_all add: cJSON_New_Item_def)

lemma strdup_cases:
  obtains st' where "cJSON_strdup s st = (Some (c_string s), st')" "blocks st' = Suc (blocks st)" "grants st = [] \<longrightarrow> grants st' = []"
  | st' where "cJSON_strdup s st = (None, st')" "blocks st' = blocks st" "grants st \<noteq> []"
  by (cases rule: malloc_cases [of st]) (simp_all add: cJSON_strdup_def)

lemma create_type_makes: "\<not> bit t 8 \<Longrightarrow> makes 0 (set_type t (zeroed fp)) (blocks st) (grants st = []) (create_type t fp st)"
  by (cases rule: new_item_cases [of fp st]) (simp_all add: create_type_def makes_def zeroed_def set_type_def)

lemma create_number_makes:
  "makes 0 (Item \<lparr>jtype = 8, valuestring = None, valueint = fp_int fp x, valuedouble = x, jname = None\<rparr> []) (blocks st) (grants st = []) (cJSON_CreateNumber fp x st)"
  by (cases rule: new_item_cases [of fp st]) (simp_all add: cJSON_CreateNumber_def makes_def zeroed_def)

lemma create_string_makes:
  "makes 0 (Item \<lparr>jtype = 16, valuestring = Some (c_string s), valueint = 0, valuedouble = fp_lit fp 0, jname = None\<rparr> [])
    (blocks st) (grants st = []) (cJSON_CreateString fp s st)"
proof (cases rule: new_item_cases [of fp st])
  case (1 st1)
  then show ?thesis
    by (cases rule: strdup_cases [of s st1]) (auto simp: cJSON_CreateString_def makes_def zeroed_def cJSON_Delete_def set_type_def bit_simps)
qed (simp add: cJSON_CreateString_def makes_def)

lemma owned_append_child: "\<not> bit (jtype (jf a)) 8 \<Longrightarrow> owned (append_child a n) = owned a + owned n"
  by (cases a) (simp add: append_child_def)

lemma create_items_makes:
  assumes "\<And>x st. makes 0 (t x) (blocks st) (grants st = []) (mk x st)" "\<not> bit (jtype (jf a)) 8" "n \<le> length xs"
    "blocks st = b + owned a" "g \<longrightarrow> grants st = []"
  shows "\<exists>r. create_items mk n xs a st = Some r \<and> makes 0 (Item (jf a) (child a @ map t (take n xs))) b g r"
  using assms(2-)
proof (induction xs arbitrary: n a st)
  case Nil
  then show ?case by (simp add: makes_def)
next
  case (Cons x xs n a st)
  show ?case
  proof (cases n)
    case 0
    then show ?thesis using Cons.prems by (simp add: makes_def)
  next
    case (Suc k)
    obtain r st' where mk: "mk x st = (r, st')" by fastforce
    note m = assms(1) [of x st, unfolded mk]
    show ?thesis
    proof (cases r)
      case None
      then show ?thesis using m mk Suc Cons.prems by (auto simp: makes_def cJSON_Delete_def)
    next
      case (Some d)
      have "blocks st' = b + owned (append_child a (t x))" "g \<longrightarrow> grants st' = []" "d = t x"
        using m Some Cons.prems owned_append_child [of a] by (auto simp: makes_def)
      then show ?thesis using Cons.IH [of "append_child a (t x)" k st'] Cons.prems mk Some Suc by (simp add: append_child_def)
    qed
  qed
qed

lemma create_array_makes:
  assumes "\<And>x st. makes 0 (t x) (blocks st) (grants st = []) (mk x st)" "count \<le> int (length xs)"
  shows "\<exists>r. create_array fp mk xs count st = Some r
    \<and> makes 0 (Item \<lparr>jtype = 32, valuestring = None, valueint = 0, valuedouble = fp_lit fp 0, jname = None\<rparr> (map t (take (nat count) xs))) (blocks st) (grants st = []) r"
proof -
  obtain r st' where r: "create_type cJSON_Array fp st = (r, st')" by fastforce
  have "\<not> bit (32 :: nat) 8" by (simp add: bit_iff_odd)
  from create_type_makes [OF this, of fp st] have m: "makes 0 (set_type cJSON_Array (zeroed fp)) (blocks st) (grants st = []) (r, st')" by (simp add: r)
  show ?thesis
  proof (cases r)
    case None
    then show ?thesis using r m by (auto simp: create_array_def cJSON_CreateArray_def makes_def)
  next
    case (Some a)
    then have a: "a = set_type cJSON_Array (zeroed fp)" "blocks st' = blocks st + owned a" "grants st = [] \<longrightarrow> grants st' = []" using m by (auto simp: makes_def)
    have "\<exists>r. create_items mk (nat count) xs a st' = Some r \<and> makes 0 (Item (jf a) (child a @ map t (take (nat count) xs))) (blocks st) (grants st = []) r"
      by (rule create_items_makes [OF assms(1)]) (use a assms(2) \<open>\<not> bit 32 8\<close> in \<open>auto simp: set_type_def\<close>)
    then show ?thesis using r Some a by (simp add: create_array_def cJSON_CreateArray_def set_type_def zeroed_def)
  qed
qed

section \<open>Duplicates\<close>

lemma bit_unset [simp]: "bit (unset_bit 8 n) 9 = bit (n :: nat) 9" "\<not> bit (unset_bit 8 n) 8"
  by (simp_all add: bit_unset_bit_iff)

lemma copy_string_of_makes:
  assumes "blocks st = b + owned (setter None) + k" "g \<longrightarrow> grants st = []" "\<And>t. owned (setter (Some t)) + e = owned (setter None) + 1"
  shows "makes (k + (if s = None then 0 else e)) (setter (map_option c_string s)) b g (copy_string_of s setter st)"
proof (cases s)
  case None
  then show ?thesis using assms(1,2) by (simp add: copy_string_of_def makes_def)
next
  case (Some t)
  show ?thesis
  proof (cases rule: strdup_cases [of t st])
    case (1 st')
    then show ?thesis using Some assms(1,2) assms(3) [of "c_string t"] by (simp add: copy_string_of_def makes_def)
  next
    case (2 st')
    then show ?thesis using Some assms(1,2) by (auto simp: copy_string_of_def makes_def cJSON_Delete_def)
  qed
qed

lemma duplicate_makes:
  "\<And>b g. b = blocks st \<Longrightarrow> g = (grants st = []) \<Longrightarrow>
    makes (const_names (if recurse then c else top_only c)) (if recurse then copy c else top_only (copy c)) b g (cJSON_Duplicate fp c recurse st)"
  "\<And>b g k. blocks st = b + owned n + k \<Longrightarrow> (g \<longrightarrow> grants st = []) \<Longrightarrow> \<not> bit (jtype (jf n)) 8 \<Longrightarrow>
    makes (k + sum_list (map const_names cs)) (Item (jf n) (child n @ map copy cs)) b g (duplicate_children fp cs n st)"
proof (induction fp c recurse st and fp cs n st rule: cJSON_Duplicate_duplicate_children.induct)
  case (1 fp f cs recurse st)
  let ?u = "unset_bit 8 (jtype f)" and ?v = "map_option c_string (valuestring f)" and ?w = "map_option c_string (jname f)"
  let ?n = "Item \<lparr>jtype = ?u, valuestring = None, valueint = valueint f, valuedouble = valuedouble f, jname = None\<rparr> []"
  let ?k = "if jname f = None then 0 else if bit (jtype f) 9 then 1 else 0 :: nat"
  have k: "?k = (if bit (jtype f) 9 \<and> jname f \<noteq> None then 1 else 0)" by simp
  show ?case
  proof (cases rule: new_item_cases [of fp st])
    case (1 st1)
    let ?r1 = "copy_string_of (valuestring f) (set_valuestring ?n) st1"
    obtain r1 st2 where r1: "?r1 = (r1, st2)" by fastforce
    have m1: "makes 0 (set_valuestring ?n ?v) b g (r1, st2)"
      using copy_string_of_makes [of st1 b "set_valuestring ?n" 0 g 0 "valuestring f"] 1 "1.prems" by (simp add: r1 set_valuestring_def)
    show ?thesis
    proof (cases r1)
      case None
      then show ?thesis using 1 m1 r1 by (simp add: zeroed_def Let_def makes_def)
    next
      case (Some n2)
      then have n2: "n2 = set_valuestring ?n ?v" "blocks st2 = b + owned (set_string n2 None) + 0" "g \<longrightarrow> grants st2 = []"
        using m1 by (auto simp: makes_def set_string_def set_valuestring_def)
      obtain r2 st3 where r2: "copy_string_of (jname f) (set_string n2) st2 = (r2, st3)" by fastforce
      have "makes (0 + ?k) (set_string n2 ?w) b g (copy_string_of (jname f) (set_string n2) st2)"
        by (rule copy_string_of_makes [where setter = "set_string n2", OF n2(2,3)]) (simp add: n2(1) set_string_def set_valuestring_def)
      then have m2: "makes ?k (set_string n2 ?w) b g (r2, st3)" by (simp only: r2 add_0)
      have run: "cJSON_Duplicate fp (Item f cs) recurse st = (case r2 of None \<Rightarrow> (None, st3)
          | Some n \<Rightarrow> if \<not> recurse then (Some n, st3) else duplicate_children fp cs n st3)"
        using 1 r1 r2 Some by (simp add: zeroed_def Let_def split: option.splits)
      show ?thesis
      proof (cases r2)
        case None
        then show ?thesis using m2 unfolding run k by (auto simp: makes_def top_only_def)
      next
        case (Some n3)
        then have n3: "n3 = set_string n2 ?w" "blocks st3 = b + owned n3 + ?k" "g \<longrightarrow> grants st3 = []" using m2 by (auto simp: makes_def)
        have jn: "jf n3 = f\<lparr>jtype := ?u, valuestring := ?v, jname := ?w\<rparr>" "child n3 = []"
          by (simp_all add: n3(1) n2(1) set_string_def set_valuestring_def)
        show ?thesis
        proof (cases recurse)
          case False
          have "n3 = Item (jf n3) (child n3)" by simp
          then have "n3 = top_only (copy (Item f cs))" unfolding jn by (simp add: top_only_def)
          then show ?thesis using Some n3(2,3) False unfolding run by (simp add: makes_def top_only_def k)
        next
          case True
          have q1: "(Some n2, st2) = copy_string_of (valuestring f) (set_valuestring (Item ((jf (zeroed fp))\<lparr>jtype := ?u,
              valueint := valueint f, valuedouble := valuedouble f\<rparr>) (child (zeroed fp)))) st1"
            using r1 \<open>r1 = Some n2\<close> by (simp add: zeroed_def)
          have q2: "(Some n3, st3) = copy_string_of (jname f) (set_string n2) st2" using r2 Some by simp
          have "makes (?k + sum_list (map const_names cs)) (Item (jf n3) (child n3 @ map copy cs)) b g (duplicate_children fp cs n3 st3)"
            by (rule "1.IH" [OF 1(1) [symmetric] refl refl q1 refl q2 refl _ n3(2,3)]) (use True in \<open>simp_all add: jn\<close>)
          then show ?thesis using Some True unfolding run k jn by simp
        qed
      qed
    qed
  qed (use "1.prems" in \<open>simp add: makes_def\<close>)
next
  case (2 fp n st)
  then show ?case by (simp add: makes_def)
next
  case (3 fp c cs n st)
  obtain r st' where r: "cJSON_Duplicate fp c True st = (r, st')" by fastforce
  have m: "makes (const_names c) (copy c) (blocks st) (grants st = []) (r, st')" using "3.IH"(1) [OF refl refl] r by simp
  show ?case
  proof (cases r)
    case None
    then show ?thesis using m r "3.prems" by (auto simp: makes_def cJSON_Delete_def)
  next
    case (Some d)
    then have d: "d = copy c" "blocks st' = b + owned (append_child n d) + (k + const_names c)" "g \<longrightarrow> grants st' = []"
      using m "3.prems" owned_append_child [of n d] by (auto simp: makes_def)
    have "makes (k + const_names c + sum_list (map const_names cs)) (Item (jf (append_child n d)) (child (append_child n d) @ map copy cs)) b g (duplicate_children fp cs (append_child n d) st')"
      by (rule "3.IH"(2) [OF r [symmetric] Some d(2,3)]) (use "3.prems" in \<open>simp add: append_child_def\<close>)
    then show ?thesis using r Some d(1) by (simp add: append_child_def add.assoc)
  qed
qed

lemma create_int_array_makes:
  "count \<le> int (length xs) \<Longrightarrow> \<exists>r. cJSON_CreateIntArray fp xs count st = Some r
    \<and> makes 0 (Item \<lparr>jtype = 32, valuestring = None, valueint = 0, valuedouble = fp_lit fp 0, jname = None\<rparr>
      (map (\<lambda>i. Item \<lparr>jtype = 8, valuestring = None, valueint = fp_int fp (fp_lit fp i), valuedouble = fp_lit fp i, jname = None\<rparr> []) (take (nat count) xs)))
      (blocks st) (grants st = []) r"
  unfolding cJSON_CreateIntArray_def by (rule create_array_makes [OF create_number_makes])

lemma create_string_array_makes:
  "count \<le> int (length xs) \<Longrightarrow> \<exists>r. cJSON_CreateStringArray fp xs count st = Some r
    \<and> makes 0 (Item \<lparr>jtype = 32, valuestring = None, valueint = 0, valuedouble = fp_lit fp 0, jname = None\<rparr>
      (map (\<lambda>s. Item \<lparr>jtype = 16, valuestring = Some (c_string s), valueint = 0, valuedouble = fp_lit fp 0, jname = None\<rparr> []) (take (nat count) xs)))
      (blocks st) (grants st = []) r"
  unfolding cJSON_CreateStringArray_def by (rule create_array_makes [OF create_string_makes])

lemma unset_bit_mod: "unset_bit 8 n mod 256 = (n :: nat) mod 256"
  using take_bit_unset_bit_eq [of 8 8 n] by (simp add: take_bit_eq_mod)

lemma string_form_c_string: "string_form (map_option c_string s) = string_form s"
  by (cases s) (simp_all add: string_form_def c_string_def takeWhile_takeWhile)

lemma leaf_form_copy: "leaf_form P (f\<lparr>jtype := unset_bit 8 (jtype f), valuestring := map_option c_string (valuestring f), jname := s\<rparr>) = leaf_form P f"
  by (simp add: leaf_form_def unset_bit_mod number_form_def string_form_c_string Let_def)

lemma json_text_copy: "json_text P fmt depth (copy c) = json_text P fmt depth c"
proof (induction c arbitrary: depth)
  case (Item f cs)
  have n: "string_form (jname (jf (copy c))) = string_form (jname (jf c))" for c :: "'a cJSON" by (cases c) (simp add: string_form_c_string)
  have "map (json_text P fmt (depth + 1)) (map copy cs) = map (json_text P fmt (depth + 1)) cs"
    "map (\<lambda>c. snd (string_form (jname (jf c))) @ [58] @ json_text P fmt (depth + 1) c) (map copy cs)
      = map (\<lambda>c. snd (string_form (jname (jf c))) @ [58] @ json_text P fmt (depth + 1) c) cs"
    using Item n by simp_all
  moreover have "jtype (f\<lparr>jtype := unset_bit 8 (jtype f), valuestring := map_option c_string (valuestring f), jname := map_option c_string (jname f)\<rparr>) mod 256
      = jtype f mod 256" by (simp add: unset_bit_mod)
  ultimately show ?case by (simp only: copy.simps json_text.simps leaf_form_copy map_is_Nil_conv)
qed

text \<open>C30: \<open>cJSON_Duplicate\<close> makes a copy of a tree in blocks of its own, that prints as the original does, or returns NULL with
  what it had allocated given back.  The exception are names that the original calls constant: the copy keeps the mark, so its
  own copies of these names are never freed: each is a block that stays in use when the duplicate is deleted.\<close>

theorem cJSON_Duplicate_copies:
  "(case cJSON_Duplicate fp c recurse st of
      (Some d, st') \<Rightarrow> d = (if recurse then copy c else top_only (copy c))
        \<and> blocks (cJSON_Delete d st') = blocks st + const_names (if recurse then c else top_only c)
    | (None, st') \<Rightarrow> grants st \<noteq> [] \<and> blocks st \<le> blocks st' \<and> blocks st' \<le> blocks st + const_names (if recurse then c else top_only c))
   \<and> json_text P fmt depth (copy c) = json_text P fmt depth c"
  using duplicate_makes(1) [OF refl refl, of recurse c st fp] json_text_copy [of P fmt depth c]
  by (auto simp: makes_def cJSON_Delete_def split: prod.splits option.splits)

end
