(* ===== verification/JsonList.thy ===== *)
theory JsonList
  imports Json
begin

text \<open>
  List editing in \<open>src/cJSON/cJSON.cpp\<close>, on the pointers: items are nodes of a heap with \<open>next\<close>, \<open>prev\<close> and \<open>child\<close>, strings
  are blocks of their own, and constant strings lie outside the heap (\<open>rom\<close>).  \<open>None\<close> as a result is an access through NULL
  or to a block that is not allocated, or \<open>free\<close> of one.  The fields \<open>valueint\<close> and \<open>valuedouble\<close> play no part here.
\<close>

unbundle bit_operations_syntax

section \<open>Blocks\<close>

record node =
  nxt :: "nat option"
  prv :: "nat option"
  chd :: "nat option"
  ntype :: nat
  nval :: "nat option"
  nname :: "nat option"

datatype block = Node node | Text "u8 list"

text \<open>\<open>top\<close> is the address of the next block, \<open>oks\<close> are the outcomes of the coming allocations (empty: they succeed).\<close>

record heap =
  cells :: "nat \<Rightarrow> block option"
  rom :: "nat \<Rightarrow> u8 list option"
  top :: nat
  oks :: "bool list"

definition node_at :: "heap \<Rightarrow> nat \<Rightarrow> node option" where
  "node_at h p = (case cells h p of Some (Node n) \<Rightarrow> Some n | _ \<Rightarrow> None)"

definition text_at :: "heap \<Rightarrow> nat \<Rightarrow> u8 list option" where
  "text_at h p = (case cells h p of Some (Text s) \<Rightarrow> Some s | Some (Node n) \<Rightarrow> None | None \<Rightarrow> rom h p)"

definition put_block :: "nat \<Rightarrow> block \<Rightarrow> heap \<Rightarrow> heap" where
  "put_block p b h = h\<lparr>cells := (cells h)(p \<mapsto> b)\<rparr>"

definition modify :: "nat \<Rightarrow> (node \<Rightarrow> node) \<Rightarrow> heap \<Rightarrow> heap option" where
  "modify p f h = do { n \<leftarrow> node_at h p; Some (put_block p (Node (f n)) h) }"

definition free_block :: "nat \<Rightarrow> heap \<Rightarrow> heap option" where
  "free_block p h = (if cells h p = None then None else Some (h\<lparr>cells := (cells h)(p := None)\<rparr>))"

definition new_block :: "block \<Rightarrow> heap \<Rightarrow> nat option \<times> heap" where
  "new_block b h = (if oks h = [] \<or> hd (oks h)
     then (Some (top h), (put_block (top h) b h)\<lparr>top := top h + 1, oks := tl (oks h)\<rparr>)
     else (None, h\<lparr>oks := tl (oks h)\<rparr>))"

definition zero_node :: node where
  "zero_node = \<lparr>nxt = None, prv = None, chd = None, ntype = 0, nval = None, nname = None\<rparr>"

definition strdup_block :: "nat \<Rightarrow> heap \<Rightarrow> (nat option \<times> heap) option" where
  "strdup_block s h = do { t \<leftarrow> text_at h s; Some (new_block (Text t) h) }"

section \<open>Deletion\<close>

text \<open>The fields of an item are read before the first of its blocks is freed; nothing writes to them in between.\<close>

partial_function (option) delete_items :: "nat option \<Rightarrow> heap \<Rightarrow> heap option" where
  "delete_items c h = (case c of None \<Rightarrow> Some h
   | Some p \<Rightarrow> do {
       n \<leftarrow> node_at h p;
       h \<leftarrow> (if \<not> bit (ntype n) 8 \<and> chd n \<noteq> None then delete_items (chd n) h else Some h);
       h \<leftarrow> (if \<not> bit (ntype n) 8 \<and> nval n \<noteq> None then free_block (the (nval n)) h else Some h);
       h \<leftarrow> (if \<not> bit (ntype n) 9 \<and> nname n \<noteq> None then free_block (the (nname n)) h else Some h);
       h \<leftarrow> free_block p h;
       delete_items (nxt n) h })"

section \<open>Adding\<close>

definition suffix_object :: "nat \<Rightarrow> nat \<Rightarrow> heap \<Rightarrow> heap option" where
  "suffix_object prev item h = do { h \<leftarrow> modify prev (nxt_update (\<lambda>_. Some item)) h; modify item (prv_update (\<lambda>_. Some prev)) h }"

partial_function (option) last_item :: "heap \<Rightarrow> nat \<Rightarrow> nat option" where
  "last_item h c = do { n \<leftarrow> node_at h c; case nxt n of None \<Rightarrow> Some c | Some d \<Rightarrow> last_item h d }"

definition cJSON_AddItemToArray :: "nat \<Rightarrow> nat option \<Rightarrow> heap \<Rightarrow> heap option" where
  "cJSON_AddItemToArray array item h = do {
     a \<leftarrow> node_at h array;
     case item of
       None \<Rightarrow> Some h
     | Some item \<Rightarrow>
         (case chd a of
           None \<Rightarrow> modify array (chd_update (\<lambda>_. Some item)) h
         | Some c \<Rightarrow> do { c \<leftarrow> last_item h c; suffix_object c item h }) }"

definition free_name :: "nat option \<Rightarrow> heap \<Rightarrow> heap option" where
  "free_name s h = (case s of None \<Rightarrow> Some h | Some s \<Rightarrow> free_block s h)"

definition cJSON_AddItemToObject :: "nat \<Rightarrow> nat \<Rightarrow> nat option \<Rightarrow> heap \<Rightarrow> heap option" where
  "cJSON_AddItemToObject object string item h = (case item of None \<Rightarrow> Some h
   | Some i \<Rightarrow> do {
       n \<leftarrow> node_at h i;
       h \<leftarrow> free_name (nname n) h;
       (s, h) \<leftarrow> strdup_block string h;
       h \<leftarrow> modify i (nname_update (\<lambda>_. s)) h;
       cJSON_AddItemToArray object item h })"

definition cJSON_AddItemToObjectCS :: "nat \<Rightarrow> nat \<Rightarrow> nat option \<Rightarrow> heap \<Rightarrow> heap option" where
  "cJSON_AddItemToObjectCS object string item h = (case item of None \<Rightarrow> Some h
   | Some i \<Rightarrow> do {
       n \<leftarrow> node_at h i;
       h \<leftarrow> (if \<not> bit (ntype n) 9 then free_name (nname n) h else Some h);
       h \<leftarrow> modify i (\<lambda>n. n\<lparr>nname := Some string, ntype := set_bit 9 (ntype n)\<rparr>) h;
       cJSON_AddItemToArray object item h })"

text \<open>\<open>memcpy(ref,item,sizeof(cJSON))\<close> reads the item only when the allocation has succeeded.\<close>

definition create_reference :: "nat option \<Rightarrow> heap \<Rightarrow> (nat option \<times> heap) option" where
  "create_reference item h = (case new_block (Node zero_node) h of
     (None, h) \<Rightarrow> Some (None, h)
   | (Some r, h) \<Rightarrow> do {
       i \<leftarrow> item;
       n \<leftarrow> node_at h i;
       Some (Some r, put_block r (Node (n\<lparr>nname := None, ntype := set_bit 8 (ntype n), nxt := None, prv := None\<rparr>)) h) })"

definition cJSON_AddItemReferenceToArray :: "nat \<Rightarrow> nat option \<Rightarrow> heap \<Rightarrow> heap option" where
  "cJSON_AddItemReferenceToArray array item h = do { (r, h) \<leftarrow> create_reference item h; cJSON_AddItemToArray array r h }"

definition cJSON_AddItemReferenceToObject :: "nat \<Rightarrow> nat \<Rightarrow> nat option \<Rightarrow> heap \<Rightarrow> heap option" where
  "cJSON_AddItemReferenceToObject object string item h = do { (r, h) \<leftarrow> create_reference item h; cJSON_AddItemToObject object string r h }"

section \<open>Detaching, inserting, replacing\<close>

text \<open>\<open>while (c && which>0) c=c->next,which--;\<close>\<close>

fun nth_item :: "heap \<Rightarrow> nat option \<Rightarrow> nat \<Rightarrow> nat option option" where
  "nth_item h c 0 = Some c"
| "nth_item h None (Suc k) = Some None"
| "nth_item h (Some p) (Suc k) = do { n \<leftarrow> node_at h p; nth_item h (nxt n) k }"

definition when_some :: "nat option \<Rightarrow> (nat \<Rightarrow> heap \<Rightarrow> heap option) \<Rightarrow> heap \<Rightarrow> heap option" where
  "when_some p f h = (case p of None \<Rightarrow> Some h | Some q \<Rightarrow> f q h)"

text \<open>\<open>if (c->prev) c->prev->next=c->next; if (c->next) c->next->prev=c->prev; if (c==array->child) array->child=c->next; c->prev=c->next=0;\<close>\<close>

definition unlink :: "nat \<Rightarrow> nat \<Rightarrow> heap \<Rightarrow> heap option" where
  "unlink array c h = do {
     n \<leftarrow> node_at h c;
     h \<leftarrow> when_some (prv n) (\<lambda>p. modify p (nxt_update (\<lambda>_. nxt n))) h;
     n \<leftarrow> node_at h c;
     h \<leftarrow> when_some (nxt n) (\<lambda>q. modify q (prv_update (\<lambda>_. prv n))) h;
     a \<leftarrow> node_at h array;
     n \<leftarrow> node_at h c;
     h \<leftarrow> (if chd a = Some c then modify array (chd_update (\<lambda>_. nxt n)) h else Some h);
     modify c (\<lambda>n. n\<lparr>prv := None, nxt := None\<rparr>) h }"

definition cJSON_DetachItemFromArray :: "nat \<Rightarrow> int \<Rightarrow> heap \<Rightarrow> (nat option \<times> heap) option" where
  "cJSON_DetachItemFromArray array which h = do {
     a \<leftarrow> node_at h array;
     c \<leftarrow> nth_item h (chd a) (nat which);
     case c of None \<Rightarrow> Some (None, h) | Some c \<Rightarrow> do { h \<leftarrow> unlink array c h; Some (Some c, h) } }"

definition cJSON_DeleteItemFromArray :: "nat \<Rightarrow> int \<Rightarrow> heap \<Rightarrow> heap option" where
  "cJSON_DeleteItemFromArray array which h = do { (c, h) \<leftarrow> cJSON_DetachItemFromArray array which h; delete_items c h }"

text \<open>\<open>while (c && cJSON_strcasecmp(c->string,string)) i++,c=c->next;\<close> gives the index, when there is such an item.\<close>

definition name_text :: "nat option \<Rightarrow> heap \<Rightarrow> u8 list option option" where
  "name_text s h = (case s of None \<Rightarrow> Some None | Some s \<Rightarrow> map_option Some (text_at h s))"

partial_function (option) find_name :: "heap \<Rightarrow> nat \<Rightarrow> nat option \<Rightarrow> nat \<Rightarrow> nat option option" where
  "find_name h string c i = (case c of None \<Rightarrow> Some None
   | Some p \<Rightarrow> do {
       n \<leftarrow> node_at h p;
       s \<leftarrow> name_text (nname n) h;
       same \<leftarrow> (case s of None \<Rightarrow> Some False
         | Some s \<Rightarrow> map_option (\<lambda>t. cJSON_strcasecmp (Some s) (Some t) = 0) (text_at h string));
       if same then Some (Some i) else find_name h string (nxt n) (i + 1) })"

definition cJSON_DetachItemFromObject :: "nat \<Rightarrow> nat \<Rightarrow> heap \<Rightarrow> (nat option \<times> heap) option" where
  "cJSON_DetachItemFromObject object string h = do {
     ob \<leftarrow> node_at h object;
     i \<leftarrow> find_name h string (chd ob) 0;
     case i of None \<Rightarrow> Some (None, h) | Some i \<Rightarrow> cJSON_DetachItemFromArray object (int i) h }"

definition cJSON_DeleteItemFromObject :: "nat \<Rightarrow> nat \<Rightarrow> heap \<Rightarrow> heap option" where
  "cJSON_DeleteItemFromObject object string h = do { (c, h) \<leftarrow> cJSON_DetachItemFromObject object string h; delete_items c h }"

definition cJSON_InsertItemInArray :: "nat \<Rightarrow> int \<Rightarrow> nat \<Rightarrow> heap \<Rightarrow> heap option" where
  "cJSON_InsertItemInArray array which newitem h = do {
     a \<leftarrow> node_at h array;
     c \<leftarrow> nth_item h (chd a) (nat which);
     case c of
       None \<Rightarrow> cJSON_AddItemToArray array (Some newitem) h
     | Some c \<Rightarrow> do {
         h \<leftarrow> modify newitem (nxt_update (\<lambda>_. Some c)) h;
         n \<leftarrow> node_at h c;
         h \<leftarrow> modify newitem (prv_update (\<lambda>_. prv n)) h;
         h \<leftarrow> modify c (prv_update (\<lambda>_. Some newitem)) h;
         a \<leftarrow> node_at h array;
         if chd a = Some c then modify array (chd_update (\<lambda>_. Some newitem)) h
         else do { m \<leftarrow> node_at h newitem; p \<leftarrow> prv m; modify p (nxt_update (\<lambda>_. Some newitem)) h } } }"

definition cJSON_ReplaceItemInArray :: "nat \<Rightarrow> int \<Rightarrow> nat \<Rightarrow> heap \<Rightarrow> heap option" where
  "cJSON_ReplaceItemInArray array which newitem h = do {
     a \<leftarrow> node_at h array;
     c \<leftarrow> nth_item h (chd a) (nat which);
     case c of
       None \<Rightarrow> Some h
     | Some c \<Rightarrow> do {
         n \<leftarrow> node_at h c;
         h \<leftarrow> modify newitem (\<lambda>m. m\<lparr>nxt := nxt n, prv := prv n\<rparr>) h;
         m \<leftarrow> node_at h newitem;
         h \<leftarrow> when_some (nxt m) (\<lambda>q. modify q (prv_update (\<lambda>_. Some newitem))) h;
         a \<leftarrow> node_at h array;
         h \<leftarrow> (if chd a = Some c then modify array (chd_update (\<lambda>_. Some newitem)) h
           else do { m \<leftarrow> node_at h newitem; p \<leftarrow> prv m; modify p (nxt_update (\<lambda>_. Some newitem)) h });
         h \<leftarrow> modify c (\<lambda>n. n\<lparr>nxt := None, prv := None\<rparr>) h;
         delete_items (Some c) h } }"

definition cJSON_ReplaceItemInObject :: "nat \<Rightarrow> nat \<Rightarrow> nat \<Rightarrow> heap \<Rightarrow> heap option" where
  "cJSON_ReplaceItemInObject object string newitem h = do {
     ob \<leftarrow> node_at h object;
     i \<leftarrow> find_name h string (chd ob) 0;
     case i of
       None \<Rightarrow> Some h
     | Some i \<Rightarrow> do {
         (t, h) \<leftarrow> strdup_block string h;
         h \<leftarrow> modify newitem (nname_update (\<lambda>_. t)) h;
         cJSON_ReplaceItemInArray object (int i) newitem h } }"

section \<open>Children as a list\<close>

lemma node_at_put [simp]: "node_at (put_block p (Node n) h) q = (if q = p then Some n else node_at h q)"
  by (simp add: node_at_def put_block_def)

lemma modify_some [simp]: "node_at h p = Some n \<Longrightarrow> modify p f h = Some (put_block p (Node (f n)) h)"
  by (simp add: modify_def)

definition hd_or :: "nat list \<Rightarrow> nat option \<Rightarrow> nat option" where
  "hd_or xs q = (case xs of [] \<Rightarrow> q | x # _ \<Rightarrow> Some x)"

definition last_or :: "nat option \<Rightarrow> nat list \<Rightarrow> nat option" where
  "last_or p xs = (if xs = [] then p else Some (last xs))"

lemma hd_or_simps [simp]: "hd_or [] q = q" "hd_or (x # xs) q = Some x" "hd_or (xs @ ys) q = hd_or xs (hd_or ys q)"
  by (simp_all add: hd_or_def split: list.splits)

lemma last_or_simps [simp]: "last_or p [] = p" "last_or p (x # xs) = last_or (Some x) xs" "last_or p (xs @ ys) = last_or (last_or p xs) ys"
  by (auto simp: last_or_def)

text \<open>A piece of a doubly linked list, between the item \<open>p\<close> before it and \<open>q\<close> behind it.\<close>

fun piece :: "heap \<Rightarrow> nat option \<Rightarrow> nat list \<Rightarrow> nat option \<Rightarrow> bool" where
  "piece h p [] q = True"
| "piece h p (x # xs) q = ((\<exists>n. node_at h x = Some n \<and> prv n = p \<and> nxt n = hd_or xs q) \<and> piece h (Some x) xs q)"

lemma piece_append: "piece h p (xs @ ys) q \<longleftrightarrow> piece h p xs (hd_or ys q) \<and> piece h (last_or p xs) ys q"
  by (induction xs arbitrary: p) auto

lemma piece_frame: "(\<And>x. x \<in> set xs \<Longrightarrow> node_at h' x = node_at h x) \<Longrightarrow> piece h' p xs q = piece h p xs q"
  by (induction xs arbitrary: p) auto

lemma piece_put [simp]: "x \<notin> set xs \<Longrightarrow> piece (put_block x (Node n) h) p xs q = piece h p xs q"
  by (rule piece_frame) auto

definition children :: "heap \<Rightarrow> nat \<Rightarrow> nat list \<Rightarrow> bool" where
  "children h a xs \<longleftrightarrow> (\<exists>n. node_at h a = Some n \<and> chd n = hd_or xs None) \<and> piece h None xs None \<and> distinct (a # xs)"

definition single :: "heap \<Rightarrow> nat \<Rightarrow> bool" where
  "single h i \<longleftrightarrow> (\<exists>n. node_at h i = Some n \<and> nxt n = None \<and> prv n = None)"

lemma last_item_piece: "piece h p (x # xs) None \<Longrightarrow> last_item h x = Some (last (x # xs))"
proof (induction xs arbitrary: x p)
  case Nil
  then show ?case by (subst last_item.simps) auto
next
  case (Cons y xs)
  then have "last_item h x = last_item h y" by (subst last_item.simps) auto
  then show ?case using Cons.IH [of "Some x" y] Cons.prems by simp
qed

lemma nth_item_piece: "piece h p xs None \<Longrightarrow> nth_item h (hd_or xs None) k = Some (if k < length xs then Some (xs ! k) else None)"
proof (induction xs arbitrary: p k)
  case Nil
  then show ?case by (cases k) auto
next
  case (Cons x xs)
  then show ?case by (cases k) auto
qed

text \<open>What an edit leaves alone: every block but the links of the items involved.\<close>

definition same_but_links :: "nat set \<Rightarrow> heap \<Rightarrow> heap \<Rightarrow> bool" where
  "same_but_links A h h' \<longleftrightarrow> rom h' = rom h \<and> top h' = top h \<and> oks h' = oks h \<and> (\<forall>x. x \<notin> A \<longrightarrow> cells h' x = cells h x)
    \<and> (\<forall>x\<in>A. \<forall>n. node_at h x = Some n \<longrightarrow> (\<exists>m. node_at h' x = Some m \<and> ntype m = ntype n \<and> nval m = nval n \<and> nname m = nname n))"

lemma same_refl [simp]: "same_but_links A h h"
  by (auto simp: same_but_links_def)

lemma same_put:
  "same_but_links A h h' \<Longrightarrow> node_at h' x = Some n \<Longrightarrow> ntype m = ntype n \<Longrightarrow> nval m = nval n \<Longrightarrow> nname m = nname n \<Longrightarrow> x \<in> A \<Longrightarrow>
   same_but_links A h (put_block x (Node m) h')"
  by (fastforce simp: same_but_links_def put_block_def node_at_def)

lemma add_ok:
  assumes "children h a xs" "single h i" "i \<notin> set (a # xs)"
  shows "\<exists>h'. cJSON_AddItemToArray a (Some i) h = Some h' \<and> children h' a (xs @ [i]) \<and> same_but_links (set (a # i # xs)) h h'"
proof -
  obtain n m where n: "node_at h a = Some n" "chd n = hd_or xs None" and m: "node_at h i = Some m" "nxt m = None" "prv m = None"
    using assms by (auto simp: children_def single_def)
  show ?thesis
  proof (cases xs rule: rev_cases)
    case Nil
    then show ?thesis using n m assms by (auto simp: cJSON_AddItemToArray_def children_def intro!: same_put)
  next
    case (snoc ys y)
    have p: "piece h None (ys @ [y]) None" using assms(1) snoc by (simp add: children_def)
    then obtain k where k: "node_at h y = Some k" "nxt k = None" by (auto simp: piece_append)
    obtain z zs where z: "ys @ [y] = z # zs" by (cases ys) auto
    have l: "last_item h z = Some y" using last_item_piece [of h None z zs] p z by (metis last_snoc)
    have "chd n = Some z" using n(2) snoc z by (metis hd_or_simps(2))
    then have run: "cJSON_AddItemToArray a (Some i) h = Some (put_block i (Node (m\<lparr>prv := Some y\<rparr>)) (put_block y (Node (k\<lparr>nxt := Some i\<rparr>)) h))" (is "_ = Some ?h")
      using n m k l assms snoc by (simp add: cJSON_AddItemToArray_def suffix_object_def)
    have "children ?h a (xs @ [i])" using assms snoc n m k p by (auto simp: children_def piece_append)
    moreover have "same_but_links (set (a # i # xs)) h ?h" using assms snoc m k by (auto intro!: same_put)
    ultimately show ?thesis using run by blast
  qed
qed

text \<open>The items around a place in the list.\<close>

lemma children_split:
  assumes "children h a (pre @ y # post)"
  obtains n m where "node_at h a = Some n" "chd n = hd_or pre (Some y)" "node_at h y = Some m" "prv m = last_or None pre" "nxt m = hd_or post None"
    "piece h None pre (Some y)" "piece h (Some y) post None" "distinct (a # pre @ y # post)"
  using assms by (auto simp: children_def piece_append)

lemma unlink_ok:
  assumes "children h a (pre @ y # post)"
  shows "\<exists>h'. unlink a y h = Some h' \<and> children h' a (pre @ post) \<and> single h' y \<and> same_but_links (set (a # pre @ y # post)) h h'"
proof (cases rule: children_split [OF assms])
  case (1 n m)
  show ?thesis
  proof (cases pre rule: rev_cases)
    case Nil
    show ?thesis
    proof (cases post)
      case Nil
      then show ?thesis using 1 \<open>pre = []\<close> by (auto simp: unlink_def when_some_def children_def single_def intro!: same_put)
    next
      case (Cons v vs)
      then obtain k where k: "node_at h v = Some k" "prv k = Some y" "nxt k = hd_or vs None" "piece h (Some v) vs None" using 1 by auto
      let ?h = "put_block y (Node (m\<lparr>prv := None, nxt := None\<rparr>)) (put_block a (Node (n\<lparr>chd := nxt m\<rparr>)) (put_block v (Node (k\<lparr>prv := prv m\<rparr>)) h))"
      have "unlink a y h = Some ?h" using 1 k Cons \<open>pre = []\<close> by (simp add: unlink_def when_some_def)
      moreover have "children ?h a (pre @ post)" "single ?h y" using 1 k Cons \<open>pre = []\<close> by (auto simp: children_def single_def)
      moreover have "same_but_links (set (a # pre @ y # post)) h ?h" using 1 k Cons \<open>pre = []\<close> by (auto intro!: same_put)
      ultimately show ?thesis by blast
    qed
  next
    case (snoc us u)
    then obtain l where l: "node_at h u = Some l" "prv l = last_or None us" "nxt l = Some y" "piece h None us (Some u)" using 1 by (auto simp: piece_append)
    have c: "chd n \<noteq> Some y" using 1 snoc by (cases us) auto
    show ?thesis
    proof (cases post)
      case Nil
      let ?h = "put_block y (Node (m\<lparr>prv := None, nxt := None\<rparr>)) (put_block u (Node (l\<lparr>nxt := nxt m\<rparr>)) h)"
      have "unlink a y h = Some ?h" using 1 l c Nil snoc by (simp add: unlink_def when_some_def)
      moreover have "children ?h a (pre @ post)" "single ?h y" using 1 l Nil snoc by (auto simp: children_def single_def piece_append)
      moreover have "same_but_links (set (a # pre @ y # post)) h ?h" using 1 l Nil snoc by (auto intro!: same_put)
      ultimately show ?thesis by blast
    next
      case (Cons v vs)
      then obtain k where k: "node_at h v = Some k" "prv k = Some y" "nxt k = hd_or vs None" "piece h (Some v) vs None" using 1 by auto
      let ?h = "put_block y (Node (m\<lparr>prv := None, nxt := None\<rparr>)) (put_block v (Node (k\<lparr>prv := prv m\<rparr>)) (put_block u (Node (l\<lparr>nxt := nxt m\<rparr>)) h))"
      have "unlink a y h = Some ?h" using 1 k l c Cons snoc by (simp add: unlink_def when_some_def)
      moreover have "children ?h a (pre @ post)" "single ?h y" using 1 k l Cons snoc by (auto simp: children_def single_def piece_append)
      moreover have "same_but_links (set (a # pre @ y # post)) h ?h" using 1 k l Cons snoc by (auto intro!: same_put)
      ultimately show ?thesis by blast
    qed
  qed
qed

lemma insert_ok:
  assumes "children h a (pre @ y # post)" "single h i" "i \<notin> set (a # pre @ y # post)" "nat which = length pre"
  shows "\<exists>h'. cJSON_InsertItemInArray a which i h = Some h' \<and> children h' a (pre @ i # y # post)
    \<and> same_but_links (set (a # i # pre @ y # post)) h h'"
proof (cases rule: children_split [OF assms(1)])
  case (1 n m)
  obtain e where e: "node_at h i = Some e" using assms(2) by (auto simp: single_def)
  have nth: "nth_item h (chd n) (length pre) = Some (Some y)"
    using nth_item_piece [of h None "pre @ y # post" "length pre"] assms(1) 1 by (auto simp: children_def)
  show ?thesis
  proof (cases pre rule: rev_cases)
    case Nil
    let ?h = "put_block a (Node (n\<lparr>chd := Some i\<rparr>)) (put_block y (Node (m\<lparr>prv := Some i\<rparr>)) (put_block i (Node (e\<lparr>nxt := Some y, prv := prv m\<rparr>)) (put_block i (Node (e\<lparr>nxt := Some y\<rparr>)) h)))"
    have "cJSON_InsertItemInArray a which i h = Some ?h" using 1 nth e assms(3,4) Nil by (auto simp: cJSON_InsertItemInArray_def)
    moreover have "children ?h a (pre @ i # y # post)" using 1 assms(3) Nil by (auto simp: children_def)
    moreover have "same_but_links (set (a # i # pre @ y # post)) h ?h" using 1 e assms(3) Nil by (auto intro!: same_put)
    ultimately show ?thesis by blast
  next
    case (snoc us u)
    then obtain l where l: "node_at h u = Some l" "prv l = last_or None us" "nxt l = Some y" "piece h None us (Some u)" using 1 by (auto simp: piece_append)
    have c: "chd n \<noteq> Some y" using 1 snoc by (cases us) auto
    let ?h = "put_block u (Node (l\<lparr>nxt := Some i\<rparr>)) (put_block y (Node (m\<lparr>prv := Some i\<rparr>)) (put_block i (Node (e\<lparr>nxt := Some y, prv := prv m\<rparr>)) (put_block i (Node (e\<lparr>nxt := Some y\<rparr>)) h)))"
    have "cJSON_InsertItemInArray a which i h = Some ?h" using 1 l c nth e assms(3,4) snoc by (auto simp: cJSON_InsertItemInArray_def)
    moreover have "children ?h a (pre @ i # y # post)" using 1 l assms(3) snoc by (auto simp: children_def piece_append)
    moreover have "same_but_links (set (a # i # pre @ y # post)) h ?h" using 1 l e assms(3) snoc by (auto intro!: same_put)
    ultimately show ?thesis by blast
  qed
qed


lemma insert_end:
  assumes "children h a xs" "length xs \<le> nat which"
  shows "cJSON_InsertItemInArray a which i h = cJSON_AddItemToArray a (Some i) h"
  using assms nth_item_piece [of h None xs "nat which"] by (auto simp: cJSON_InsertItemInArray_def children_def)

lemma detach_ok:
  assumes "children h a xs"
  shows "if nat which < length xs
    then \<exists>h'. cJSON_DetachItemFromArray a which h = Some (Some (xs ! nat which), h') \<and> children h' a (take (nat which) xs @ drop (Suc (nat which)) xs)
      \<and> single h' (xs ! nat which) \<and> same_but_links (set (a # xs)) h h'
    else cJSON_DetachItemFromArray a which h = Some (None, h)"
proof (cases "nat which < length xs")
  case True
  let ?k = "nat which"
  have xs: "xs = take ?k xs @ xs ! ?k # drop (Suc ?k) xs" using True by (rule id_take_nth_drop)
  obtain h' where h': "unlink a (xs ! ?k) h = Some h'" "children h' a (take ?k xs @ drop (Suc ?k) xs)" "single h' (xs ! ?k)"
    "same_but_links (set (a # take ?k xs @ xs ! ?k # drop (Suc ?k) xs)) h h'"
    using unlink_ok [of h a "take ?k xs" "xs ! ?k" "drop (Suc ?k) xs"] assms xs by auto
  have s: "same_but_links (set (a # xs)) h h'" using h'(4) xs by (metis list.simps(15))
  have "cJSON_DetachItemFromArray a which h = Some (Some (xs ! ?k), h')"
    using assms nth_item_piece [of h None xs ?k] h'(1) True by (auto simp: cJSON_DetachItemFromArray_def children_def)
  then show ?thesis using h' s True by auto
next
  case False
  then show ?thesis using assms nth_item_piece [of h None xs "nat which"] by (auto simp: cJSON_DetachItemFromArray_def children_def)
qed

section \<open>Trees of blocks\<close>

text \<open>An item with the blocks \<open>cJSON_Delete\<close> frees with it: its value, its name, the items of its children.\<close>

datatype shape = Shape nat "nat option" "nat option" "shape list"

fun footprint :: "shape \<Rightarrow> nat list" where
  "footprint (Shape p v s cs) = (case v of None \<Rightarrow> [] | Some x \<Rightarrow> [x]) @ (case s of None \<Rightarrow> [] | Some x \<Rightarrow> [x]) @ p # concat (map footprint cs)"

definition footprints :: "shape list \<Rightarrow> nat list" where
  "footprints ss = concat (map footprint ss)"

fun forest :: "heap \<Rightarrow> nat option \<Rightarrow> shape list \<Rightarrow> bool" where
  "forest h p [] = (p = None)"
| "forest h p (Shape x v s cs # ss) = (p = Some x \<and> (\<exists>n. node_at h x = Some n
     \<and> v = (if bit (ntype n) 8 then None else nval n) \<and> s = (if bit (ntype n) 9 then None else nname n)
     \<and> (if bit (ntype n) 8 then cs = [] else forest h (chd n) cs) \<and> forest h (nxt n) ss))"

definition cut :: "nat set \<Rightarrow> heap \<Rightarrow> heap" where
  "cut A h = h\<lparr>cells := (\<lambda>x. if x \<in> A then None else cells h x)\<rparr>"

lemma cut_simps [simp]: "cut {} h = h" "cut A (cut B h) = cut (A \<union> B) h" "cells (cut A h) x = (if x \<in> A then None else cells h x)"
  "node_at (cut A h) x = (if x \<in> A then None else node_at h x)"
  by (auto simp: cut_def node_at_def fun_eq_iff intro!: heap.equality)

lemma free_block_cut: "cells h p \<noteq> None \<Longrightarrow> free_block p h = Some (cut {p} h)"
  by (auto simp: free_block_def cut_def fun_eq_iff intro!: heap.equality)

lemma forest_frame: "(\<And>x. x \<in> set (footprints ss) \<Longrightarrow> cells h' x = cells h x) \<Longrightarrow> forest h' p ss = forest h p ss"
proof (induction h p ss rule: forest.induct)
  case (2 h p x v s cs ss)
  have "node_at h' x = node_at h x" using "2.prems" [of x] by (simp add: footprints_def node_at_def)
  moreover have "forest h' (chd n) cs = forest h (chd n) cs" if "\<not> bit (ntype n) 8" for n :: node
    by (rule "2.IH"(1) [OF that]) (use "2.prems" in \<open>simp add: footprints_def\<close>)
  moreover have "forest h' (nxt n) ss = forest h (nxt n) ss" for n :: node
    by (rule "2.IH"(2)) (use "2.prems" in \<open>simp add: footprints_def\<close>)
  ultimately show ?case by auto
qed simp


lemma delete_ok:
  assumes "forest h p ss" "distinct (footprints ss)" "\<And>x. x \<in> set (footprints ss) \<Longrightarrow> cells h x \<noteq> None"
  shows "delete_items p h = Some (cut (set (footprints ss)) h)"
  using assms
proof (induction ss arbitrary: h p rule: measure_induct_rule [where f = "size_list size"])
  case (less ss)
  show ?case
  proof (cases ss)
    case Nil
    then show ?thesis using less.prems(1) by (subst delete_items.simps) (simp add: footprints_def)
  next
    case (Cons sh rest)
    obtain x v s cs where sh: "sh = Shape x v s cs" by (cases sh)
    obtain n where p: "p = Some x" and n: "node_at h x = Some n" "v = (if bit (ntype n) 8 then None else nval n)"
      "s = (if bit (ntype n) 9 then None else nname n)" "if bit (ntype n) 8 then cs = [] else forest h (chd n) cs" "forest h (nxt n) rest"
      using less.prems(1) Cons sh by auto
    let ?V = "case v of None \<Rightarrow> {} | Some a \<Rightarrow> {a}" and ?S = "case s of None \<Rightarrow> {} | Some a \<Rightarrow> {a}"
    have fp: "set (footprints ss) = ?V \<union> ?S \<union> {x} \<union> set (footprints cs) \<union> set (footprints rest)"
      by (auto simp: Cons sh footprints_def split: option.splits)
    have dj: "distinct (footprints cs)" "distinct (footprints rest)" "?V \<inter> ?S = {}" "x \<notin> ?V \<union> ?S" "set (footprints cs) \<inter> (?V \<union> ?S \<union> {x}) = {}"
      "set (footprints rest) \<inter> (?V \<union> ?S \<union> {x} \<union> set (footprints cs)) = {}"
      using less.prems(2) by (auto simp: Cons sh footprints_def split: option.splits)
    have al: "cells h y \<noteq> None" if "y \<in> ?V \<union> ?S \<union> {x} \<union> set (footprints cs) \<union> set (footprints rest)" for y
      using less.prems(3) [of y] that unfolding fp by blast
    let ?h1 = "cut (set (footprints cs)) h" let ?h2 = "cut ?V ?h1" let ?h3 = "cut ?S ?h2" let ?h4 = "cut {x} ?h3"
    have d1: "(if \<not> bit (ntype n) 8 \<and> chd n \<noteq> None then delete_items (chd n) h else Some h) = Some ?h1"
    proof (cases "\<not> bit (ntype n) 8 \<and> chd n \<noteq> None")
      case True
      have "delete_items (chd n) h = Some ?h1" by (rule less.IH) (use Cons sh True n(4) dj(1) al in \<open>auto\<close>)
      then show ?thesis using True by simp
    next
      case False
      then have "cs = []" using n(4) by (cases cs rule: list.exhaust) (auto split: if_splits elim: forest.elims)
      then show ?thesis using False by (auto simp: footprints_def)
    qed
    have d2: "(if \<not> bit (ntype n) 8 \<and> nval n \<noteq> None then free_block (the (nval n)) ?h1 else Some ?h1) = Some ?h2"
      using n(2) dj(5) al by (cases v) (auto simp: free_block_cut split: if_splits)
    have d3: "(if \<not> bit (ntype n) 9 \<and> nname n \<noteq> None then free_block (the (nname n)) ?h2 else Some ?h2) = Some ?h3"
      using n(3) dj(3,5) al by (cases s) (auto simp: free_block_cut split: if_splits)
    have d4: "free_block x ?h3 = Some ?h4" using dj(4,5) al by (intro free_block_cut) auto
    have "forest ?h4 (nxt n) rest = forest h (nxt n) rest"
      by (rule forest_frame) (use dj(6) in auto)
    then have "delete_items (nxt n) ?h4 = Some (cut (set (footprints rest)) ?h4)"
      by (intro less.IH) (use Cons dj(2,6) n(5) al in auto)
    moreover have "delete_items p h = delete_items (nxt n) ?h4" unfolding p
      by (subst delete_items.simps) (simp only: option.case n(1) d1 d2 d3 d4 bind.bind_lunit Option.bind.simps)
    moreover have "cut (set (footprints rest)) ?h4 = cut (set (footprints ss)) h" unfolding fp by (simp add: Un_ac)
    ultimately show ?thesis by simp
  qed
qed

section \<open>Replacing\<close>

text \<open>What hangs from an item, wherever it is linked.\<close>

fun hangs :: "heap \<Rightarrow> shape \<Rightarrow> bool" where
  "hangs h (Shape x v s cs) = (\<exists>n. node_at h x = Some n \<and> v = (if bit (ntype n) 8 then None else nval n)
     \<and> s = (if bit (ntype n) 9 then None else nname n) \<and> (if bit (ntype n) 8 then cs = [] else forest h (chd n) cs))"

fun root :: "shape \<Rightarrow> nat" where
  "root (Shape x v s cs) = x"

definition links :: "nat \<Rightarrow> nat \<Rightarrow> nat \<Rightarrow> heap \<Rightarrow> heap option" where
  "links array c newitem h = do {
     n \<leftarrow> node_at h c;
     h \<leftarrow> modify newitem (\<lambda>m. m\<lparr>nxt := nxt n, prv := prv n\<rparr>) h;
     m \<leftarrow> node_at h newitem;
     h \<leftarrow> when_some (nxt m) (\<lambda>q. modify q (prv_update (\<lambda>_. Some newitem))) h;
     a \<leftarrow> node_at h array;
     h \<leftarrow> (if chd a = Some c then modify array (chd_update (\<lambda>_. Some newitem)) h
       else do { m \<leftarrow> node_at h newitem; p \<leftarrow> prv m; modify p (nxt_update (\<lambda>_. Some newitem)) h });
     modify c (\<lambda>n. n\<lparr>nxt := None, prv := None\<rparr>) h }"

lemma links_ok:
  assumes "children h a (pre @ y # post)" "node_at h i = Some e" "i \<notin> set (a # pre @ y # post)"
  shows "\<exists>h' m. links a y i h = Some h' \<and> children h' a (pre @ i # post) \<and> node_at h y = Some m \<and> node_at h' y = Some (m\<lparr>nxt := None, prv := None\<rparr>)
    \<and> same_but_links (set (a # i # pre @ y # post)) h h'"
proof (cases rule: children_split [OF assms(1)])
  case (1 n m)
  let ?i = "put_block i (Node (e\<lparr>nxt := nxt m, prv := prv m\<rparr>)) h"
  let ?y = "\<lambda>h. put_block y (Node (m\<lparr>nxt := None, prv := None\<rparr>)) h"
  show ?thesis
  proof (cases pre rule: rev_cases)
    case Nil
    show ?thesis
    proof (cases post)
      case Nil
      let ?h = "?y (put_block a (Node (n\<lparr>chd := Some i\<rparr>)) ?i)"
      have "links a y i h = Some ?h" using 1 assms(2,3) Nil \<open>pre = []\<close> by (auto simp: links_def when_some_def)
      moreover have "children ?h a (pre @ i # post)" using 1 assms(3) Nil \<open>pre = []\<close> by (auto simp: children_def)
      moreover have "same_but_links (set (a # i # pre @ y # post)) h ?h" using 1 assms(2,3) Nil \<open>pre = []\<close> by (auto intro!: same_put)
      ultimately show ?thesis using 1 by (intro exI [of _ ?h] exI [of _ m]) simp
    next
      case (Cons v vs)
      then obtain k where k: "node_at h v = Some k" "prv k = Some y" "nxt k = hd_or vs None" "piece h (Some v) vs None" using 1 by auto
      let ?h = "?y (put_block a (Node (n\<lparr>chd := Some i\<rparr>)) (put_block v (Node (k\<lparr>prv := Some i\<rparr>)) ?i))"
      have "links a y i h = Some ?h" using 1 k assms(2,3) Cons \<open>pre = []\<close> by (auto simp: links_def when_some_def)
      moreover have "children ?h a (pre @ i # post)" using 1 k assms(3) Cons \<open>pre = []\<close> by (auto simp: children_def)
      moreover have "same_but_links (set (a # i # pre @ y # post)) h ?h" using 1 k assms(2,3) Cons \<open>pre = []\<close> by (auto intro!: same_put)
      ultimately show ?thesis using 1 by (intro exI [of _ ?h] exI [of _ m]) simp
    qed
  next
    case (snoc us u)
    then obtain l where l: "node_at h u = Some l" "prv l = last_or None us" "nxt l = Some y" "piece h None us (Some u)" using 1 by (auto simp: piece_append)
    have c: "chd n \<noteq> Some y" using 1 snoc by (cases us) auto
    show ?thesis
    proof (cases post)
      case Nil
      let ?h = "?y (put_block u (Node (l\<lparr>nxt := Some i\<rparr>)) ?i)"
      have "links a y i h = Some ?h" using 1 l c assms(2,3) Nil snoc by (auto simp: links_def when_some_def)
      moreover have "children ?h a (pre @ i # post)" using 1 l assms(3) Nil snoc by (auto simp: children_def piece_append)
      moreover have "same_but_links (set (a # i # pre @ y # post)) h ?h" using 1 l assms(2,3) Nil snoc by (auto intro!: same_put)
      ultimately show ?thesis using 1 by (intro exI [of _ ?h] exI [of _ m]) simp
    next
      case (Cons v vs)
      then obtain k where k: "node_at h v = Some k" "prv k = Some y" "nxt k = hd_or vs None" "piece h (Some v) vs None" using 1 by auto
      let ?h = "?y (put_block u (Node (l\<lparr>nxt := Some i\<rparr>)) (put_block v (Node (k\<lparr>prv := Some i\<rparr>)) ?i))"
      have "links a y i h = Some ?h" using 1 k l c assms(2,3) Cons snoc by (auto simp: links_def when_some_def)
      moreover have "children ?h a (pre @ i # post)" using 1 k l assms(3) Cons snoc by (auto simp: children_def piece_append)
      moreover have "same_but_links (set (a # i # pre @ y # post)) h ?h" using 1 k l assms(2,3) Cons snoc by (auto intro!: same_put)
      ultimately show ?thesis using 1 by (intro exI [of _ ?h] exI [of _ m]) simp
    qed
  qed
qed

lemma children_cut: "children h a xs \<Longrightarrow> A \<inter> set (a # xs) = {} \<Longrightarrow> children (cut A h) a xs"
proof -
  assume c: "children h a xs" "A \<inter> set (a # xs) = {}"
  then have "piece (cut A h) None xs None = piece h None xs None" by (intro piece_frame) auto
  then show ?thesis using c by (auto simp: children_def)
qed

lemma other_items:
  "distinct (a # pre @ y # post) \<Longrightarrow> i \<notin> set (a # pre @ y # post) \<Longrightarrow> y \<notin> set (a # pre @ i # post) \<and> set (a # pre @ i # post) \<subseteq> set (a # i # pre @ y # post)"
  by auto

lemma replace_ok:
  assumes c: "children h a xs" "node_at h i = Some e" "i \<notin> set (a # xs)" and k: "nat which < length xs"
    and S: "hangs h S" "root S = xs ! nat which" "distinct (footprint S)" "\<And>x. x \<in> set (footprint S) \<Longrightarrow> cells h x \<noteq> None"
      "set (footprint S) \<inter> (set (a # i # xs) - {root S}) = {}"
  shows "\<exists>h'. cJSON_ReplaceItemInArray a which i h = Some h' \<and> children h' a (xs[nat which := i])
    \<and> same_but_links (set (a # i # xs) - {root S}) (cut (set (footprint S)) h) h'"
proof -
  let ?k = "nat which" let ?pre = "take ?k xs" let ?post = "drop (Suc ?k) xs" let ?y = "xs ! ?k"
  have xs: "xs = ?pre @ ?y # ?post" using k by (rule id_take_nth_drop)
  have new: "xs[?k := i] = ?pre @ i # ?post" using k by (rule upd_conv_take_nth_drop)
  have dist: "distinct (a # ?pre @ ?y # ?post)" using c(1) xs by (metis children_def)
  obtain h1 m where h1: "links a ?y i h = Some h1" "children h1 a (?pre @ i # ?post)" "node_at h ?y = Some m" "node_at h1 ?y = Some (m\<lparr>nxt := None, prv := None\<rparr>)"
    "same_but_links (set (a # i # ?pre @ ?y # ?post)) h h1"
    using links_ok [of h a ?pre ?y ?post i e] c xs by auto
  have set: "set (a # i # ?pre @ ?y # ?post) = set (a # i # xs)" using xs by (metis list.simps(15))
  obtain v s cs where Sh: "S = Shape ?y v s cs" using S(2) by (cases S) auto
  have same: "cells h1 x = cells h x" if "x \<notin> set (a # i # xs)" for x using h1(5) that unfolding set same_but_links_def by blast
  have out: "x \<notin> set (a # i # xs)" if "x \<in> set (footprint S)" "x \<noteq> ?y" for x using S(2,5) that by auto
  have ny: "?y \<notin> set (footprints cs)" using S(3) by (auto simp: Sh footprints_def)
  have "forest h1 q cs = forest h q cs" for q
    by (rule forest_frame) (use ny out same in \<open>auto simp: Sh footprints_def\<close>)
  then have "forest h1 (Some ?y) [S]" using S(1) h1(3,4) by (auto simp: Sh)
  moreover have "cells h1 ?y \<noteq> None" using h1(4) by (cases "cells h1 ?y") (auto simp: node_at_def)
  then have "cells h1 x \<noteq> None" if "x \<in> set (footprint S)" for x
    using S(4) [OF that] out [OF that] same by (cases "x = ?y") auto
  ultimately have del: "delete_items (Some ?y) h1 = Some (cut (set (footprint S)) h1)"
    using delete_ok [of h1 "Some ?y" "[S]"] S(3) by (simp add: footprints_def)
  obtain n where n: "node_at h a = Some n" "chd n = hd_or xs None" "piece h None xs None" using c(1) by (auto simp: children_def)
  have "cJSON_ReplaceItemInArray a which i h = links a ?y i h \<bind> delete_items (Some ?y)"
    using n nth_item_piece [OF n(3), of ?k] k by (simp add: cJSON_ReplaceItemInArray_def links_def)
  then have "cJSON_ReplaceItemInArray a which i h = Some (cut (set (footprint S)) h1)" using h1(1) del by simp
  moreover have "set (footprint S) \<inter> set (a # ?pre @ i # ?post) = {}"
  proof -
    have oth: "?y \<notin> set (a # ?pre @ i # ?post) \<and> set (a # ?pre @ i # ?post) \<subseteq> set (a # i # ?pre @ ?y # ?post)"
      by (rule other_items [OF dist]) (use c(3) in \<open>simp only: xs [symmetric] not_False_eq_True\<close>)
    note y = conjunct1 [OF oth] and sub = conjunct2 [OF oth, unfolded set]
    show ?thesis
    proof (rule ccontr)
      assume "set (footprint S) \<inter> set (a # ?pre @ i # ?post) \<noteq> {}"
      then obtain x where x: "x \<in> set (footprint S)" "x \<in> set (a # ?pre @ i # ?post)" by (auto simp only: disjoint_iff)
      then have "x \<noteq> root S" using y S(2) by metis
      moreover have "x \<in> set (a # i # xs)" using x(2) sub by (rule rev_subsetD)
      ultimately show False using x(1) S(5) by blast
    qed
  qed
  then have "children (cut (set (footprint S)) h1) a (xs[?k := i])" unfolding new by (rule children_cut [OF h1(2)])
  moreover have "same_but_links (set (a # i # xs) - {root S}) (cut (set (footprint S)) h) (cut (set (footprint S)) h1)"
    unfolding same_but_links_def
  proof (intro conjI allI impI ballI)
    fix x assume "x \<notin> set (a # i # xs) - {root S}"
    then have "x \<in> set (footprint S) \<or> cells h1 x = cells h x" using same [of x] by (auto simp: Sh)
    then show "cells (cut (set (footprint S)) h1) x = cells (cut (set (footprint S)) h) x" by auto
  next
    fix x n assume x: "x \<in> set (a # i # xs) - {root S}" "node_at (cut (set (footprint S)) h) x = Some n"
    then have "x \<notin> set (footprint S)" "node_at h x = Some n" using S(5) by (auto split: if_splits)
    moreover have "\<exists>m. node_at h1 x = Some m \<and> ntype m = ntype n \<and> nval m = nval n \<and> nname m = nname n"
      using h1(5) x(1) calculation(2) unfolding set same_but_links_def by blast
    ultimately show "\<exists>m. node_at (cut (set (footprint S)) h1) x = Some m \<and> ntype m = ntype n \<and> nval m = nval n \<and> nname m = nname n" by simp
  qed (use h1(5) in \<open>simp_all add: same_but_links_def cut_def\<close>)
  ultimately show ?thesis by blast
qed

section \<open>Properties\<close>

lemma add_const_name:
  assumes "node_at h i = Some n" "nname n = Some s" "cells h s = None"
  shows "cJSON_AddItemToObject ob string (Some i) h = None"
  using assms by (simp add: cJSON_AddItemToObject_def free_name_def free_block_def)

text \<open>An array at 1 with the items 2, 3, 4, a new item at 5; item 3 has a name and a child.\<close>

definition item0 :: node where
  "item0 = \<lparr>nxt = None, prv = None, chd = None, ntype = 4, nval = None, nname = None\<rparr>"

definition list_demo :: heap where
  "list_demo = \<lparr>cells = [1 \<mapsto> Node (item0\<lparr>chd := Some 2\<rparr>), 2 \<mapsto> Node (item0\<lparr>nxt := Some 3\<rparr>),
      3 \<mapsto> Node (item0\<lparr>nxt := Some 4, prv := Some 2, chd := Some 6, nname := Some 7\<rparr>), 4 \<mapsto> Node (item0\<lparr>prv := Some 3\<rparr>), 5 \<mapsto> Node item0,
      6 \<mapsto> Node item0, 7 \<mapsto> Text [97]],
    rom = Map.empty, top = 8, oks = []\<rparr>"

lemma demo_nodes:
  "node_at list_demo 1 = Some (item0\<lparr>chd := Some 2\<rparr>)" "node_at list_demo 2 = Some (item0\<lparr>nxt := Some 3\<rparr>)"
  "node_at list_demo 3 = Some (item0\<lparr>nxt := Some 4, prv := Some 2, chd := Some 6, nname := Some 7\<rparr>)"
  "node_at list_demo 4 = Some (item0\<lparr>prv := Some 3\<rparr>)" "node_at list_demo 5 = Some item0" "node_at list_demo 6 = Some item0"
  by (simp_all add: node_at_def list_demo_def)

lemma demo_children: "children list_demo 1 [2, 3, 4]" "single list_demo 5"
  by (simp_all add: children_def single_def demo_nodes item0_def del: One_nat_def)

text \<open>C11: The children of an array or object are a list: with \<open>xs\<close> the items linked from it in both directions and \<open>i\<close> an item
  outside, adding gives \<open>xs @ [i]\<close>, inserting at an index puts \<open>i\<close> there (at the front for a negative one, at the end for one past
  the last), detaching returns the item at the index unlinked and leaves the others in order, or returns NULL past the end.
  Every link is kept in both directions and nothing but links is written.\<close>

theorem cJSON_list_editing:
  assumes "children h a xs" "single h i" "i \<notin> set (a # xs)"
  shows "(\<exists>h'. cJSON_AddItemToArray a (Some i) h = Some h' \<and> children h' a (xs @ [i]) \<and> same_but_links (set (a # i # xs)) h h')
    \<and> (\<exists>h'. cJSON_InsertItemInArray a which i h = Some h' \<and> children h' a (take (nat which) xs @ i # drop (nat which) xs) \<and> same_but_links (set (a # i # xs)) h h')
    \<and> (if nat which < length xs
        then \<exists>h'. cJSON_DetachItemFromArray a which h = Some (Some (xs ! nat which), h') \<and> children h' a (take (nat which) xs @ drop (Suc (nat which)) xs)
          \<and> single h' (xs ! nat which) \<and> same_but_links (set (a # xs)) h h'
        else cJSON_DetachItemFromArray a which h = Some (None, h))"
proof (intro conjI)
  show "\<exists>h'. cJSON_InsertItemInArray a which i h = Some h' \<and> children h' a (take (nat which) xs @ i # drop (nat which) xs) \<and> same_but_links (set (a # i # xs)) h h'"
  proof (cases "nat which < length xs")
    case True
    have xs: "xs = take (nat which) xs @ xs ! nat which # drop (Suc (nat which)) xs" using True by (rule id_take_nth_drop)
    have d: "drop (nat which) xs = xs ! nat which # drop (Suc (nat which)) xs" using True by (rule Cons_nth_drop_Suc [symmetric])
    show ?thesis
      using insert_ok [of h a "take (nat which) xs" "xs ! nat which" "drop (Suc (nat which)) xs" i which] assms True xs [symmetric] d by simp
  next
    case False
    then show ?thesis using insert_end [of h a xs which i] add_ok [OF assms] assms(1) by simp
  qed
qed (rule add_ok [OF assms], rule detach_ok [OF assms(1)])

theorem cJSON_list_editing_witness:
  "\<exists>h1 h2 h3. cJSON_AddItemToArray 1 (Some 5) list_demo = Some h1 \<and> children h1 1 [2, 3, 4, 5]
    \<and> cJSON_InsertItemInArray 1 1 5 list_demo = Some h2 \<and> children h2 1 [2, 5, 3, 4]
    \<and> cJSON_DetachItemFromArray 1 1 list_demo = Some (Some 3, h3) \<and> children h3 1 [2, 4]"
  using cJSON_list_editing [OF demo_children, of 1] by auto

text \<open>C31: Replacing the item at an index puts the new item in its place and deletes the old one: of the old item, its strings and
  everything below it each block is freed, once; no other block is freed and nothing but links is written.\<close>

theorem cJSON_ReplaceItemInArray_replaces:
  assumes "children h a xs" "node_at h i = Some e" "i \<notin> set (a # xs)" "nat which < length xs"
    "hangs h S" "root S = xs ! nat which" "distinct (footprint S)" "\<And>x. x \<in> set (footprint S) \<Longrightarrow> cells h x \<noteq> None"
    "set (footprint S) \<inter> (set (a # i # xs) - {root S}) = {}"
  shows "\<exists>h'. cJSON_ReplaceItemInArray a which i h = Some h' \<and> children h' a (xs[nat which := i])
    \<and> same_but_links (set (a # i # xs) - {root S}) (cut (set (footprint S)) h) h'"
  using replace_ok [OF assms] .

theorem cJSON_ReplaceItemInArray_replaces_witness:
  "\<exists>h'. cJSON_ReplaceItemInArray 1 1 5 list_demo = Some h' \<and> children h' 1 [2, 5, 4] \<and> cells h' 3 = None \<and> cells h' 6 = None \<and> cells h' 7 = None"
proof -
  let ?S = "Shape 3 None (Some 7) [Shape 6 None None []]"
  have S: "hangs list_demo ?S" "distinct (footprint ?S)" by (simp_all add: demo_nodes item0_def bit_iff_odd)
  have "cells list_demo x \<noteq> None" if "x \<in> set (footprint ?S)" for x using that by (auto simp: list_demo_def)
  then show ?thesis
    using cJSON_ReplaceItemInArray_replaces [OF demo_children(1) demo_nodes(5) _ _ S(1) _ S(2), of 1] by (auto simp: same_but_links_def)
qed

end
