(* ===== verification/Iap.thy ===== *)
theory Iap
  imports Prelude
begin

text \<open>
  The flash driver \<open>src/FreeScaleIAP/FreescaleIAP.cpp\<close>, as compiled for the K64F (\<open>USE_ProgramPhrase\<close>).  The flash
  controller is a parameter: it takes the command registers FCCOB0 to FCCOBB and its state when \<open>run_command\<close>
  starts it, and gives the status register FSTAT once CCIF is set, or \<open>None\<close> if it never is.  \<open>conforms\<close> states what
  the reference manual says of the three commands; \<open>ftfe_controller\<close> is one that does.
\<close>

unbundle bit_operations_syntax

section \<open>Data\<close>

datatype IAPCode = BoundaryError | AlignError | ProtectionError | AccessError | CollisionError | LengthError | RuntimeError | EraseError | Success

definition iap_code :: "IAPCode \<Rightarrow> int" where
  "iap_code c = (case c of BoundaryError \<Rightarrow> -99 | AlignError \<Rightarrow> -98 | ProtectionError \<Rightarrow> -97 | AccessError \<Rightarrow> -96
     | CollisionError \<Rightarrow> -95 | LengthError \<Rightarrow> -94 | RuntimeError \<Rightarrow> -93 | EraseError \<Rightarrow> -92 | Success \<Rightarrow> 0)"

datatype FCMD = Read1s | ProgramCheck | ReadResource | ProgramLongword | ProgramPhrase | EraseSector | Read1sBlock
  | ReadOnce | ProgramOnce | EraseAll | VerifyBackdoor

definition fcmd :: "FCMD \<Rightarrow> u8" where
  "fcmd c = (case c of Read1s \<Rightarrow> 0x01 | ProgramCheck \<Rightarrow> 0x02 | ReadResource \<Rightarrow> 0x03 | ProgramLongword \<Rightarrow> 0x06
     | ProgramPhrase \<Rightarrow> 0x07 | EraseSector \<Rightarrow> 0x09 | Read1sBlock \<Rightarrow> 0x40 | ReadOnce \<Rightarrow> 0x41 | ProgramOnce \<Rightarrow> 0x43
     | EraseAll \<Rightarrow> 0x44 | VerifyBackdoor \<Rightarrow> 0x45)"

definition SECTOR_SIZE :: int where "SECTOR_SIZE = 4096"

record 'f ftfe =
  fccob :: "nat \<Rightarrow> u8"
  fstat :: u8
  flash :: 'f

type_synonym 'f controller = "(nat \<Rightarrow> u8) \<Rightarrow> 'f \<Rightarrow> (u8 \<times> 'f) option"

section \<open>Operations\<close>

definition set_regs :: "(nat \<times> u8) list \<Rightarrow> 'f ftfe \<Rightarrow> 'f ftfe" where
  "set_regs rs s = s\<lparr>fccob := fold (\<lambda>(i, v) r. r(i := v)) rs (fccob s)\<rparr>"

definition address_regs :: "u32 \<Rightarrow> (nat \<times> u8) list" where
  "address_regs address = [(1, ucast (drop_bit 16 address AND 0xFF)), (2, ucast (drop_bit 8 address AND 0xFF)), (3, ucast (address AND 0xFF))]"

definition run_command :: "'f controller \<Rightarrow> 'f ftfe \<Rightarrow> 'f ftfe option" where
  "run_command C s = do { (st, f) \<leftarrow> C (fccob s) (flash s); Some (s\<lparr>fstat := st, flash := f\<rparr>) }"

definition check_error :: "'f ftfe \<Rightarrow> IAPCode" where
  "check_error s = (if fstat s AND 0x10 \<noteq> 0 then ProtectionError else if fstat s AND 0x20 \<noteq> 0 then AccessError
     else if fstat s AND 0x40 \<noteq> 0 then CollisionError else if fstat s AND 0x01 \<noteq> 0 then RuntimeError else Success)"

definition check_align :: "u32 \<Rightarrow> bool" where
  "check_align address = (address AND 0x03 \<noteq> 0)"

text \<open>Division of an \<open>int\<close> rounds towards 0; \<open>address + length - 1\<close> is computed unsigned.\<close>

definition check_boundary :: "u32 \<Rightarrow> u32 \<Rightarrow> bool" where
  "check_boundary address len = (let temp = uint (address + len - 1) div SECTOR_SIZE;
     address = (if sint address < 0 then - (- sint address div SECTOR_SIZE) else sint address div SECTOR_SIZE)
     in address \<noteq> temp)"

definition erase_sector :: "'f controller \<Rightarrow> u32 \<Rightarrow> 'f ftfe \<Rightarrow> (IAPCode \<times> 'f ftfe) option" where
  "erase_sector C address s =
     (if check_align address then Some (AlignError, s)
      else do {
        s \<leftarrow> run_command C (set_regs ((0, fcmd EraseSector) # address_regs address) s);
        Some (check_error s, s) })"

definition verify_erased :: "'f controller \<Rightarrow> u32 \<Rightarrow> u32 \<Rightarrow> 'f ftfe \<Rightarrow> (IAPCode \<times> 'f ftfe) option" where
  "verify_erased C address len s =
     (if check_align address then Some (AlignError, s)
      else let len = drop_bit 4 (len + 15) in do {
        s \<leftarrow> run_command C (set_regs ((0, fcmd Read1s) # address_regs address @
          [(4, ucast (drop_bit 8 len AND 0xFF)), (5, ucast (len AND 0xFF)), (6, 0)]) s);
        let retval = check_error s;
        Some (if retval = RuntimeError then EraseError else retval, s) })"

text \<open>\<open>data\<close> is the memory behind the pointer; reading behind its end is \<open>None\<close>.\<close>

definition program_word :: "'f controller \<Rightarrow> u32 \<Rightarrow> u8 list \<Rightarrow> 'f ftfe \<Rightarrow> (IAPCode \<times> 'f ftfe) option" where
  "program_word C address data s =
     (if check_align address then Some (AlignError, s)
      else do {
        d3 \<leftarrow> rd data 3; d2 \<leftarrow> rd data 2; d1 \<leftarrow> rd data 1; d0 \<leftarrow> rd data 0;
        d7 \<leftarrow> rd data 7; d6 \<leftarrow> rd data 6; d5 \<leftarrow> rd data 5; d4 \<leftarrow> rd data 4;
        s \<leftarrow> run_command C (set_regs ((0, fcmd ProgramPhrase) # address_regs address @
          [(4, d3), (5, d2), (6, d1), (7, d0), (8, d7), (9, d6), (10, d5), (11, d4)]) s);
        Some (check_error s, s) })"

function program_loop :: "'f controller \<Rightarrow> u32 \<Rightarrow> u8 list \<Rightarrow> nat \<Rightarrow> nat \<Rightarrow> 'f ftfe \<Rightarrow> (IAPCode \<times> 'f ftfe) option" where
  "program_loop C address data len i s =
     (if i < len then do {
        (progResult, s) \<leftarrow> program_word C (address + of_nat i) (drop i data) s;
        if progResult \<noteq> Success then Some (progResult, s) else program_loop C address data len (i + 8) s }
      else Some (Success, s))"
  by pat_completeness auto
termination by (relation "measure (\<lambda>(C, address, data, len, i, s). len - i)") auto

declare program_loop.simps [simp del]

definition program_flash :: "'f controller \<Rightarrow> u32 \<Rightarrow> u8 list \<Rightarrow> u32 \<Rightarrow> 'f ftfe \<Rightarrow> (IAPCode \<times> 'f ftfe) option" where
  "program_flash C address data len s =
     (if check_align address then Some (AlignError, s)
      else do {
        (eraseCheck, s) \<leftarrow> verify_erased C address len s;
        if eraseCheck \<noteq> Success then Some (eraseCheck, s) else program_loop C address data (unat len) 0 s })"

text \<open>\<open>SIM_FCFG2\<close>: the size fields of the two program flash banks, in units of 8 KB.\<close>

definition flash_size :: "u32 \<Rightarrow> u32" where
  "flash_size FCFG2 = (let retval = drop_bit (24 - 13) (FCFG2 AND 0x7F000000)
     in if FCFG2 AND push_bit 23 1 \<noteq> 0 then retval + drop_bit (16 - 13) (FCFG2 AND 0x007F0000) else retval)"

section \<open>What the controller does\<close>

text \<open>The address and the count of a command, and the eight bytes of a phrase in memory order.\<close>

definition cmd_address :: "(nat \<Rightarrow> u8) \<Rightarrow> nat" where
  "cmd_address r = unat (r 1) * 65536 + unat (r 2) * 256 + unat (r 3)"

definition cmd_count :: "(nat \<Rightarrow> u8) \<Rightarrow> nat" where
  "cmd_count r = unat (r 4) * 256 + unat (r 5)"

definition phrase :: "(nat \<Rightarrow> u8) \<Rightarrow> u8 list" where
  "phrase r = [r 7, r 6, r 5, r 4, r 11, r 10, r 9, r 8]"

definition store_phrase :: "nat \<Rightarrow> u8 list \<Rightarrow> (nat \<Rightarrow> u8) \<Rightarrow> nat \<Rightarrow> u8" where
  "store_phrase a ds m = (\<lambda>x. if a \<le> x \<and> x < a + length ds then ds ! (x - a) else m x)"

definition erase_mem :: "nat \<Rightarrow> (nat \<Rightarrow> u8) \<Rightarrow> nat \<Rightarrow> u8" where
  "erase_mem a m = (\<lambda>x. if a div 4096 = x div 4096 then 0xFF else m x)"

text \<open>Reference manual of the FTFE: Read 1s Section needs a 16-byte aligned address and reports a byte that is not
  erased in MGSTAT0; Program Phrase needs an 8-byte aligned address and erased bytes; Erase Sector a 16-byte aligned
  address.  A misaligned command sets ACCERR and does nothing.\<close>

definition conforms :: "'f controller \<Rightarrow> ('f \<Rightarrow> nat \<Rightarrow> u8) \<Rightarrow> bool" where
  "conforms C mem = (\<forall>r f.
     (r 0 = 0x01 \<longrightarrow> (\<exists>f'. mem f' = mem f \<and> C r f = Some (
        if cmd_address r mod 16 \<noteq> 0 then 0xA0
        else if \<forall>x < 16 * cmd_count r. mem f (cmd_address r + x) = 0xFF then 0x80 else 0x81, f'))) \<and>
     (r 0 = 0x07 \<longrightarrow>
        (if cmd_address r mod 8 \<noteq> 0 then \<exists>f'. mem f' = mem f \<and> C r f = Some (0xA0, f')
         else (\<forall>x < 8. mem f (cmd_address r + x) = 0xFF) \<longrightarrow>
           (\<exists>f'. mem f' = store_phrase (cmd_address r) (phrase r) (mem f) \<and> C r f = Some (0x80, f')))) \<and>
     (r 0 = 0x09 \<longrightarrow>
        (if cmd_address r mod 16 \<noteq> 0 then \<exists>f'. mem f' = mem f \<and> C r f = Some (0xA0, f')
         else \<exists>f'. mem f' = erase_mem (cmd_address r) (mem f) \<and> C r f = Some (0x80, f'))))"

definition ftfe_controller :: "(nat \<Rightarrow> u8) controller" where
  "ftfe_controller r m = (let a = cmd_address r in
     if r 0 = 0x01 then Some (if a mod 16 \<noteq> 0 then 0xA0 else if list_all (\<lambda>x. m (a + x) = 0xFF) [0..<16 * cmd_count r] then 0x80 else 0x81, m)
     else if r 0 = 0x07 then Some (if a mod 8 \<noteq> 0 then (0xA0, m) else (0x80, store_phrase a (phrase r) m))
     else if r 0 = 0x09 then Some (if a mod 16 \<noteq> 0 then (0xA0, m) else (0x80, erase_mem a m))
     else Some (0xA0, m))"

lemma ftfe_controller_conforms: "conforms ftfe_controller (\<lambda>m. m)"
  by (auto simp: conforms_def ftfe_controller_def Let_def list_all_iff)

lemma conforms_read:
  assumes "conforms C mem" "r 0 = 0x01"
  obtains f' where "mem f' = mem f" "C r f = Some (if cmd_address r mod 16 \<noteq> 0 then 0xA0
    else if \<forall>x < 16 * cmd_count r. mem f (cmd_address r + x) = 0xFF then 0x80 else 0x81, f')"
  using assms unfolding conforms_def by blast

lemma conforms_phrase:
  assumes "conforms C mem" "r 0 = 0x07" "cmd_address r mod 8 = 0" "\<forall>x < 8. mem f (cmd_address r + x) = 0xFF"
  obtains f' where "mem f' = store_phrase (cmd_address r) (phrase r) (mem f)" "C r f = Some (0x80, f')"
  using assms unfolding conforms_def by meson

lemma conforms_misaligned:
  assumes "conforms C mem" "r 0 = 0x07" "cmd_address r mod 8 \<noteq> 0"
  obtains f' where "mem f' = mem f" "C r f = Some (0xA0, f')"
proof -
  have "r 0 = 0x07 \<longrightarrow> (if cmd_address r mod 8 \<noteq> 0 then \<exists>f'. mem f' = mem f \<and> C r f = Some (0xA0, f')
    else (\<forall>x < 8. mem f (cmd_address r + x) = 0xFF) \<longrightarrow>
      (\<exists>f'. mem f' = store_phrase (cmd_address r) (phrase r) (mem f) \<and> C r f = Some (0x80, f')))"
    using assms(1) unfolding conforms_def by blast
  with assms(2,3) that show ?thesis by auto
qed

lemma conforms_erase:
  assumes "conforms C mem" "r 0 = 0x09" "cmd_address r mod 16 = 0"
  obtains f' where "mem f' = erase_mem (cmd_address r) (mem f)" "C r f = Some (0x80, f')"
  using assms unfolding conforms_def by meson

section \<open>Registers\<close>

lemma unat_byte: "unat (ucast (drop_bit n a AND 0xFF) :: u8) = unat (a :: u32) div 2 ^ n mod 256"
proof -
  have m: "(0xFF :: u32) = mask 8" by (simp add: mask_numeral)
  have "unat (ucast (drop_bit n a AND 0xFF) :: u8) = take_bit 8 (unat (drop_bit n a AND 0xFF))"
    by (simp add: unsigned_ucast_eq)
  also have "\<dots> = take_bit 8 (unat (drop_bit n a))"
    unfolding m take_bit_eq_mask [symmetric] by (simp add: unsigned_take_bit_eq)
  also have "unat (drop_bit n a) = unat a div 2 ^ n" by (rule trans [OF unat_drop_bit_eq drop_bit_eq_div])
  finally have e: "unat (ucast (drop_bit n a AND 0xFF) :: u8) = unat a div 2 ^ n mod 2 ^ 8" unfolding take_bit_eq_mod .
  have "(2 :: nat) ^ 8 = 256" by simp
  from e [unfolded this] show ?thesis .
qed

lemma unat_byte0: "unat (ucast (a AND 0xFF) :: u8) = unat (a :: u32) mod 256"
  using unat_byte [of 0 a] by simp

lemma bytes_of_address: "n < 2 ^ 24 \<Longrightarrow> n div 65536 mod 256 * 65536 + n div 256 mod 256 * 256 + n mod 256 = (n :: nat)"
proof -
  assume "n < 2 ^ 24"
  then have "n div 65536 < 256" by simp
  moreover have "n mod (256 * 256) = 256 * (n div 256 mod 256) + n mod 256" by (rule mod_mult2_eq)
  moreover have "n = n div 65536 * 65536 + n mod 65536" by simp
  ultimately show ?thesis by simp
qed

lemma cmd_address_regs:
  assumes "unat a < 2 ^ 24" "\<forall>i \<in> set (map fst rs). 3 < i"
  shows "cmd_address (fccob (set_regs ((0, c) # address_regs a @ rs) s)) = unat a"
proof -
  have f: "i \<notin> set (map fst rs) \<Longrightarrow> fold (\<lambda>(i, v) r. r(i := v)) rs g i = g i" for i and g :: "nat \<Rightarrow> u8"
    by (induction rs arbitrary: g) auto
  have "fold (\<lambda>(i, v) r. r(i := v)) rs g i = g i" if "i \<le> 3" for i and g :: "nat \<Rightarrow> u8"
    by (rule f) (use assms(2) that in auto)
  then have r: "fccob (set_regs ((0, c) # address_regs a @ rs) s) 1 = ucast (drop_bit 16 a AND 0xFF)"
    "fccob (set_regs ((0, c) # address_regs a @ rs) s) 2 = ucast (drop_bit 8 a AND 0xFF)"
    "fccob (set_regs ((0, c) # address_regs a @ rs) s) 3 = ucast (a AND 0xFF)"
    by (simp_all add: set_regs_def address_regs_def)
  have p: "(2 :: nat) ^ 16 = 65536" "(2 :: nat) ^ 8 = 256" by simp_all
  show ?thesis unfolding cmd_address_def r unat_byte [of 16 a] unat_byte [of 8 a] unat_byte0 [of a] p by (rule bytes_of_address [OF assms(1)])
qed

lemma check_align_iff: "check_align a \<longleftrightarrow> unat a mod 4 \<noteq> 0"
proof -
  have "a AND 3 = take_bit 2 a" by (simp add: take_bit_eq_mask mask_numeral)
  then have "unat (a AND 3) = take_bit 2 (unat a)" by (simp only: unsigned_take_bit_eq)
  then have "unat (a AND 3) = unat a mod 4" by (simp add: take_bit_eq_mod)
  then show ?thesis by (metis check_align_def unat_eq_zero unat_0)
qed

lemma check_error_codes [simp]:
  "check_error (s\<lparr>fstat := 0x80, flash := f\<rparr>) = Success"
  "check_error (s\<lparr>fstat := 0x81, flash := f\<rparr>) = RuntimeError"
  "check_error (s\<lparr>fstat := 0xA0, flash := f\<rparr>) = AccessError"
  by (simp_all add: check_error_def)

lemma set_regs_flash [simp]: "flash (set_regs rs s) = flash s"
  by (simp add: set_regs_def)

lemma set_regs_0: "\<forall>i \<in> set (map fst rs). 3 < i \<Longrightarrow> fccob (set_regs ((0, c) # address_regs a @ rs) s) 0 = c"
proof -
  assume a: "\<forall>i \<in> set (map fst rs). 3 < i"
  have "0 \<notin> set (map fst rs) \<Longrightarrow> fold (\<lambda>(i, v) r. r(i := v)) rs g 0 = g 0" for g :: "nat \<Rightarrow> u8"
    by (induction rs arbitrary: g) auto
  moreover have "0 \<notin> set (map fst rs)" using a by auto
  ultimately show ?thesis by (simp add: set_regs_def address_regs_def del: set_map)
qed

lemma erase_sector_ok:
  assumes "conforms C mem" "unat a < 2 ^ 24" "unat a mod 16 = 0"
  shows "\<exists>s'. erase_sector C a s = Some (Success, s') \<and> mem (flash s') = erase_mem (unat a) (mem (flash s))"
proof -
  let ?s = "set_regs ((0, fcmd EraseSector) # address_regs a @ []) s"
  have a: "cmd_address (fccob ?s) = unat a" by (rule cmd_address_regs [OF assms(2)]) simp
  have "fccob ?s 0 = 0x09" by (subst set_regs_0) (simp_all add: fcmd_def)
  then obtain f' where f: "mem f' = erase_mem (unat a) (mem (flash s))" "C (fccob ?s) (flash s) = Some (0x80, f')"
    using conforms_erase [OF assms(1), of "fccob ?s" "flash s"] a assms(3) by auto
  have "unat a mod 4 = 0" using assms(3) by presburger
  with f show ?thesis by (auto simp: erase_sector_def check_align_iff run_command_def)
qed

lemma program_word_ok:
  assumes "conforms C mem" "unat a < 2 ^ 24" "unat a mod 8 = 0" "8 \<le> length data" "\<forall>x < 8. mem (flash s) (unat a + x) = 0xFF"
  shows "\<exists>s'. program_word C a data s = Some (Success, s') \<and> mem (flash s') = store_phrase (unat a) (take 8 data) (mem (flash s))"
proof -
  let ?rs = "[(4, data ! 3), (5, data ! 2), (6, data ! 1), (7, data ! 0), (8, data ! 7), (9, data ! 6), (10, data ! 5), (11, data ! 4)]"
  let ?s = "set_regs ((0, fcmd ProgramPhrase) # address_regs a @ ?rs) s"
  have a: "cmd_address (fccob ?s) = unat a" by (rule cmd_address_regs [OF assms(2)]) simp
  have 0: "fccob ?s 0 = 0x07" by (subst set_regs_0) (simp_all add: fcmd_def)
  have p: "phrase (fccob ?s) = take 8 data"
  proof -
    have "phrase (fccob ?s) = [data ! 0, data ! 1, data ! 2, data ! 3, data ! 4, data ! 5, data ! 6, data ! 7]"
      by (simp add: phrase_def set_regs_def address_regs_def)
    also have "\<dots> = map ((!) data) [0..<8]" by (simp add: upt_rec numeral_eq_Suc)
    also have "map ((!) data) [0..<8] = take 8 data" using assms(4) by (intro nth_equalityI) auto
    finally show ?thesis .
  qed
  from conforms_phrase [where C = C and mem = mem and r = "fccob ?s" and f = "flash s", OF assms(1) 0] assms(3,5) a p
  obtain f' where f: "mem f' = store_phrase (unat a) (take 8 data) (mem (flash s))" "C (fccob ?s) (flash s) = Some (0x80, f')"
    by (auto simp: a)
  have "unat a mod 4 = 0" using assms(3) by presburger
  moreover have "rd data 0 = Some (data ! 0)" using assms(4) by (intro rd_in) linarith
  ultimately show ?thesis using f assms(4) by (auto simp: program_word_def check_align_iff run_command_def rd_in)
qed

lemma program_word_misaligned:
  assumes "conforms C mem" "unat a < 2 ^ 24" "unat a mod 8 = 4" "8 \<le> length data"
  shows "\<exists>s'. program_word C a data s = Some (AccessError, s') \<and> mem (flash s') = mem (flash s)"
proof -
  let ?rs = "[(4, data ! 3), (5, data ! 2), (6, data ! 1), (7, data ! 0), (8, data ! 7), (9, data ! 6), (10, data ! 5), (11, data ! 4)]"
  let ?s = "set_regs ((0, fcmd ProgramPhrase) # address_regs a @ ?rs) s"
  have a: "cmd_address (fccob ?s) = unat a" by (rule cmd_address_regs [OF assms(2)]) simp
  have 0: "fccob ?s 0 = 0x07" by (subst set_regs_0) (simp_all add: fcmd_def)
  have "cmd_address (fccob ?s) mod 8 \<noteq> 0" unfolding a using assms(3) by simp
  then obtain f' where "mem f' = mem (flash s)" "C (fccob ?s) (flash s) = Some (0xA0, f')"
    by (rule conforms_misaligned [where r = "fccob ?s" and f = "flash s", OF assms(1) 0])
  moreover have "unat a mod 4 = 0" using assms(3) by presburger
  moreover have "rd data 0 = Some (data ! 0)" using assms(4) by (intro rd_in) linarith
  ultimately show ?thesis using assms(4) by (auto simp: program_word_def check_align_iff run_command_def rd_in)
qed

lemma store_phrase_append: "store_phrase (a + length xs) ys (store_phrase a xs m) = store_phrase a (xs @ ys) m"
  by (auto simp: store_phrase_def fun_eq_iff nth_append)

lemma program_loop_ok:
  assumes "conforms C mem" "unat a mod 8 = 0" "unat a + n \<le> 2 ^ 24" "n \<le> length data" "n mod 8 = 0"
  shows "i mod 8 = 0 \<Longrightarrow> i \<le> n \<Longrightarrow> \<forall>x. i \<le> x \<and> x < n \<longrightarrow> mem (flash s) (unat a + x) = 0xFF \<Longrightarrow>
    \<exists>s'. program_loop C a data n i s = Some (Success, s') \<and>
      mem (flash s') = store_phrase (unat a + i) (take (n - i) (drop i data)) (mem (flash s))"
proof (induction "n - i" arbitrary: i s rule: less_induct)
  case less
  show ?case
  proof (cases "i < n")
    case False
    with less.prems show ?thesis by (auto simp: program_loop.simps store_phrase_def fun_eq_iff)
  next
    case True
    with less.prems(1) assms(5) have i8: "i + 8 \<le> n" by presburger
    have u: "unat (a + of_nat i) = unat a + i"
      using True assms(3) by (simp add: unat_word_ariths unat_of_nat)
    have "(unat a + i) mod 8 = 0" using assms(2) less.prems(1) by presburger
    moreover have "8 \<le> length (drop i data)" using i8 assms(4) by simp
    moreover have "\<forall>x < 8. mem (flash s) (unat a + i + x) = 0xFF" using less.prems(3) i8 by (auto simp: add.assoc)
    ultimately obtain s1 where s1: "program_word C (a + of_nat i) (drop i data) s = Some (Success, s1)"
      "mem (flash s1) = store_phrase (unat a + i) (take 8 (drop i data)) (mem (flash s))"
      using program_word_ok [OF assms(1), of "a + of_nat i" "drop i data" s] u i8 assms(3,4) less.prems(3) by auto
    have l8: "length (take 8 (drop i data)) = 8" using i8 assms(4) by simp
    have "\<forall>x. i + 8 \<le> x \<and> x < n \<longrightarrow> mem (flash s1) (unat a + x) = 0xFF"
      unfolding s1(2) using less.prems(3) l8 by (auto simp: store_phrase_def)
    moreover have "(i + 8) mod 8 = 0" using less.prems(1) by presburger
    ultimately obtain s2 where s2: "program_loop C a data n (i + 8) s1 = Some (Success, s2)"
      "mem (flash s2) = store_phrase (unat a + (i + 8)) (take (n - (i + 8)) (drop (i + 8) data)) (mem (flash s1))"
      using less.hyps [of "i + 8" s1] i8 by (auto simp: diff_less_mono2)
    have "take 8 (drop i data) @ take (n - (i + 8)) (drop (i + 8) data) = take (n - i) (drop i data)"
    proof -
      have "n - i = 8 + (n - (i + 8))" using i8 by simp
      from arg_cong [OF this, of "\<lambda>k. take k (drop i data)"] show ?thesis
        unfolding take_add drop_drop by (simp add: add.commute)
    qed
    with s1(2) s2(2) store_phrase_append [of "unat a + i" "take 8 (drop i data)"] l8
    have "mem (flash s2) = store_phrase (unat a + i) (take (n - i) (drop i data)) (mem (flash s))" by (simp add: add.assoc)
    with True s1(1) s2(1) show ?thesis by (simp add: program_loop.simps [of C a data n i])
  qed
qed

lemma unat_count: "unat n + 15 < 2 ^ 20 \<Longrightarrow> unat (drop_bit 4 (n + 15 :: u32)) = (unat n + 15) div 16"
proof -
  assume n: "unat n + 15 < 2 ^ 20"
  then have "unat (n + 15) = unat n + 15" by (simp add: unat_word_ariths)
  with trans [OF unat_drop_bit_eq [of 4 "n + 15"] drop_bit_eq_div] show ?thesis by simp
qed

lemma verify_erased_value:
  assumes "conforms C mem" "unat a < 2 ^ 24" "unat a mod 4 = 0" "unat n + 15 < 2 ^ 20"
  shows "\<exists>s'. verify_erased C a n s = Some (
      if unat a mod 16 \<noteq> 0 then AccessError
      else if \<forall>x < 16 * ((unat n + 15) div 16). mem (flash s) (unat a + x) = 0xFF then Success else EraseError, s') \<and>
    mem (flash s') = mem (flash s)"
proof -
  let ?c = "drop_bit 4 (n + 15)"
  let ?rs = "[(4, ucast (drop_bit 8 ?c AND 0xFF)), (5, ucast (?c AND 0xFF)), (6, 0)] :: (nat \<times> u8) list"
  let ?s = "set_regs ((0, fcmd Read1s) # address_regs a @ ?rs) s"
  have a: "cmd_address (fccob ?s) = unat a" by (rule cmd_address_regs [OF assms(2)]) simp
  have 0: "fccob ?s 0 = 0x01" by (subst set_regs_0) (simp_all add: fcmd_def)
  have "fccob ?s 4 = ucast (drop_bit 8 ?c AND 0xFF)" "fccob ?s 5 = ucast (?c AND 0xFF)"
    by (simp_all add: set_regs_def address_regs_def)
  moreover have c: "unat ?c = (unat n + 15) div 16" by (rule unat_count [OF assms(4)])
  moreover from c assms(4) have "unat ?c < 65536" by simp
  moreover have "m < 65536 \<Longrightarrow> m div 256 mod 256 * 256 + m mod 256 = m" for m :: nat
  proof -
    assume "m < 65536"
    then have "m div 256 < 256" by simp
    then show ?thesis by simp
  qed
  moreover have "(2 :: nat) ^ 8 = 256" by simp
  ultimately have c: "cmd_count (fccob ?s) = (unat n + 15) div 16"
    using unat_byte [of 8 ?c] unat_byte0 [of ?c] unfolding cmd_count_def by metis
  obtain f' where f: "mem f' = mem (flash s)" "C (fccob ?s) (flash s) = Some (if cmd_address (fccob ?s) mod 16 \<noteq> 0 then 0xA0
    else if \<forall>x < 16 * cmd_count (fccob ?s). mem (flash s) (cmd_address (fccob ?s) + x) = 0xFF then 0x80 else 0x81, f')"
    using conforms_read [where C = C and mem = mem and r = "fccob ?s" and f = "flash s", OF assms(1) 0] by blast
  note f' = f(2) [unfolded a c]
  have run: "verify_erased C a n s = (let st = (if unat a mod 16 \<noteq> 0 then 0xA0
        else if \<forall>x < 16 * ((unat n + 15) div 16). mem (flash s) (unat a + x) = 0xFF then 0x80 else 0x81) in
      Some (if check_error (?s\<lparr>fstat := st, flash := f'\<rparr>) = RuntimeError then EraseError
        else check_error (?s\<lparr>fstat := st, flash := f'\<rparr>), ?s\<lparr>fstat := st, flash := f'\<rparr>))"
    unfolding verify_erased_def Let_def using assms(3) f' by (simp only: check_align_iff run_command_def set_regs_flash) simp
  show ?thesis
  proof (cases "unat a mod 16 = 0")
    case False
    with f(1) show ?thesis by (simp add: run)
  next
    case True
    with f(1) show ?thesis
      by (cases "\<forall>x < 16 * ((unat n + 15) div 16). mem (flash s) (unat a + x) = 0xFF") (simp_all only: run Let_def, simp_all)
  qed
qed


text \<open>What \<open>program_flash\<close> refuses.  A misaligned address is refused without a command; a section with a byte that is
  not erased gives \<open>EraseError\<close>, an address that is aligned to 4 but not to 16 bytes \<open>AccessError\<close>, although the
  header asks for alignment to 4 bytes only.  Nothing is written in any of the cases.\<close>

theorem program_flash_refuses:
  assumes "conforms C mem" and "unat a < 2 ^ 24" and "unat n + 15 < 2 ^ 20"
  shows "(unat a mod 4 \<noteq> 0 \<longrightarrow> program_flash C a data n s = Some (AlignError, s)) \<and>
    (unat a mod 4 = 0 \<and> unat a mod 16 \<noteq> 0 \<longrightarrow>
      (\<exists>s'. program_flash C a data n s = Some (AccessError, s') \<and> mem (flash s') = mem (flash s))) \<and>
    (unat a mod 16 = 0 \<and> (\<exists>x < 16 * ((unat n + 15) div 16). mem (flash s) (unat a + x) \<noteq> 0xFF) \<longrightarrow>
      (\<exists>s'. program_flash C a data n s = Some (EraseError, s') \<and> mem (flash s') = mem (flash s)))"
proof (intro conjI impI)
  assume "unat a mod 4 \<noteq> 0"
  then show "program_flash C a data n s = Some (AlignError, s)" by (simp add: program_flash_def check_align_iff)
next
  assume a: "unat a mod 4 = 0 \<and> unat a mod 16 \<noteq> 0"
  with verify_erased_value [OF assms(1,2) _ assms(3), of s]
  show "\<exists>s'. program_flash C a data n s = Some (AccessError, s') \<and> mem (flash s') = mem (flash s)"
    by (auto simp: program_flash_def check_align_iff)
next
  assume e: "unat a mod 16 = 0 \<and> (\<exists>x < 16 * ((unat n + 15) div 16). mem (flash s) (unat a + x) \<noteq> 0xFF)"
  then have "unat a mod 16 = 0" by blast
  then have "unat a mod 4 = 0" by presburger
  with verify_erased_value [OF assms(1,2) _ assms(3), of s] e
  show "\<exists>s'. program_flash C a data n s = Some (EraseError, s') \<and> mem (flash s') = mem (flash s)"
    by (auto simp: program_flash_def check_align_iff)
qed

definition written_flash :: "(nat \<Rightarrow> u8) ftfe" where
  "written_flash = \<lparr>fccob = (\<lambda>_. 0), fstat = 0x80, flash = (\<lambda>_. 0)\<rparr>"


lemma program_flash_refuses_witness:
  "\<exists>s'. program_flash ftfe_controller 4 [1, 2, 3, 4] 4 written_flash = Some (AccessError, s') \<and> flash s' = flash written_flash"
  using program_flash_refuses [OF ftfe_controller_conforms, of 4 4 "[1, 2, 3, 4]" written_flash] by simp

end
