(* ===== verification/Rtx.thy ===== *)
theory Rtx
  imports Prelude
begin

text \<open>
  The control blocks and the lists of the RTX kernel (\<open>src/mbed-rtos/rtx/TARGET_CORTEX_M\<close>: \<open>rt_TypeDef.h\<close>,
  \<open>rt_List.c\<close>).  The memory of the control blocks is one map per field: \<open>p_lnk k a\<close> is the link field of the block
  at address \<open>a\<close>.  All control blocks have \<open>cb_type\<close> and \<open>p_lnk\<close> at the same offsets, which is what the casts between
  them use.  Arguments are addresses of blocks.  The result \<open>None\<close> of an operation means that it dereferences NULL or does not return.
\<close>

unbundle bit_operations_syntax

section \<open>Data\<close>

datatype ptr = NULL | os_rdy | os_dly | os_idle_TCB | Obj nat

definition TCB :: u8 where "TCB = 0"
definition MCB :: u8 where "MCB = 1"
definition SCB :: u8 where "SCB = 2"
definition MUCB :: u8 where "MUCB = 3"
definition HCB :: u8 where "HCB = 4"

definition INACTIVE :: u8 where "INACTIVE = 0"
definition READY :: u8 where "READY = 1"
definition RUNNING :: u8 where "RUNNING = 2"
definition WAIT_DLY :: u8 where "WAIT_DLY = 3"
definition WAIT_ITV :: u8 where "WAIT_ITV = 4"
definition WAIT_OR :: u8 where "WAIT_OR = 5"
definition WAIT_AND :: u8 where "WAIT_AND = 6"
definition WAIT_SEM :: u8 where "WAIT_SEM = 7"
definition WAIT_MBX :: u8 where "WAIT_MBX = 8"
definition WAIT_MUT :: u8 where "WAIT_MUT = 9"

definition OS_R_TMO :: u32 where "OS_R_TMO = 0x01"
definition OS_R_EVT :: u32 where "OS_R_EVT = 0x02"
definition OS_R_SEM :: u32 where "OS_R_SEM = 0x03"
definition OS_R_MBX :: u32 where "OS_R_MBX = 0x04"
definition OS_R_MUT :: u32 where "OS_R_MUT = 0x05"
definition OS_R_OK :: u32 where "OS_R_OK = 0x00"
definition OS_R_NOK :: u32 where "OS_R_NOK = 0xFF"

lemmas cb_types = TCB_def MCB_def SCB_def MUCB_def HCB_def
lemmas task_states = INACTIVE_def READY_def RUNNING_def WAIT_DLY_def WAIT_ITV_def WAIT_OR_def WAIT_AND_def
  WAIT_SEM_def WAIT_MBX_def WAIT_MUT_def

record psq =
  psq_first :: u8
  psq_last :: u8
  psq_count :: u8
  psq_size :: u8
  q :: "(ptr \<times> u32) list"

text \<open>
  The fields of the tasks and of the objects, the globals \<open>os_tsk\<close>, \<open>os_time\<close>, \<open>os_robin\<close>, \<open>os_psq\<close>, \<open>os_active_TCB\<close>,
  \<open>os_lock\<close>, \<open>os_psh_flag\<close>, the PendSV request bit, and for each task the registers R0 and R1 it will find on its stack.
  \<open>ram\<close> is the memory of the block pools, by the addresses of its words.
\<close>

record kernel =
  cb_type :: "ptr \<Rightarrow> u8"
  state :: "ptr \<Rightarrow> u8"
  prio :: "ptr \<Rightarrow> u8"
  task_id :: "ptr \<Rightarrow> u8"
  p_lnk :: "ptr \<Rightarrow> ptr"
  p_rlnk :: "ptr \<Rightarrow> ptr"
  p_dlnk :: "ptr \<Rightarrow> ptr"
  p_blnk :: "ptr \<Rightarrow> ptr"
  delta_time :: "ptr \<Rightarrow> u16"
  interval_time :: "ptr \<Rightarrow> u16"
  events :: "ptr \<Rightarrow> u16"
  waits :: "ptr \<Rightarrow> u16"
  tcb_msg :: "ptr \<Rightarrow> u32"
  p_mlnk :: "ptr \<Rightarrow> ptr"
  prio_base :: "ptr \<Rightarrow> u8"
  ret_regs :: "ptr \<Rightarrow> u32 \<times> u32"
  tokens :: "ptr \<Rightarrow> u16"
  level :: "ptr \<Rightarrow> u16"
  mut_owner :: "ptr \<Rightarrow> ptr"
  isr_st :: "ptr \<Rightarrow> u8"
  mb_first :: "ptr \<Rightarrow> u16"
  mb_last :: "ptr \<Rightarrow> u16"
  mb_count :: "ptr \<Rightarrow> u16"
  mb_size :: "ptr \<Rightarrow> u16"
  mb_msg :: "ptr \<Rightarrow> u32 list"
  run :: ptr
  new_tsk :: ptr
  os_time :: u32
  robin_task :: ptr
  robin_time :: u16
  robin_tout :: u16
  os_psq :: psq
  os_active_TCB :: "ptr list"
  os_lock :: bool
  os_psh_flag :: bool
  pend_sv :: bool
  ram :: "u32 \<Rightarrow> u32"

section \<open>Memory accesses\<close>

definition deref :: "ptr \<Rightarrow> unit option" where
  "deref p = (if p = NULL then None else Some ())"

lemma deref_Some [simp]: "p \<noteq> NULL \<Longrightarrow> deref p = Some ()"
  by (simp add: deref_def)

definition set_lnk :: "ptr \<Rightarrow> ptr \<Rightarrow> kernel \<Rightarrow> kernel" where "set_lnk p v k = k\<lparr>p_lnk := (p_lnk k)(p := v)\<rparr>"
definition set_rlnk :: "ptr \<Rightarrow> ptr \<Rightarrow> kernel \<Rightarrow> kernel" where "set_rlnk p v k = k\<lparr>p_rlnk := (p_rlnk k)(p := v)\<rparr>"
definition set_dlnk :: "ptr \<Rightarrow> ptr \<Rightarrow> kernel \<Rightarrow> kernel" where "set_dlnk p v k = k\<lparr>p_dlnk := (p_dlnk k)(p := v)\<rparr>"
definition set_blnk :: "ptr \<Rightarrow> ptr \<Rightarrow> kernel \<Rightarrow> kernel" where "set_blnk p v k = k\<lparr>p_blnk := (p_blnk k)(p := v)\<rparr>"
definition set_delta :: "ptr \<Rightarrow> u16 \<Rightarrow> kernel \<Rightarrow> kernel" where "set_delta p v k = k\<lparr>delta_time := (delta_time k)(p := v)\<rparr>"
definition set_state :: "ptr \<Rightarrow> u8 \<Rightarrow> kernel \<Rightarrow> kernel" where "set_state p v k = k\<lparr>state := (state k)(p := v)\<rparr>"
definition set_prio :: "ptr \<Rightarrow> u8 \<Rightarrow> kernel \<Rightarrow> kernel" where "set_prio p v k = k\<lparr>prio := (prio k)(p := v)\<rparr>"

lemmas setters = set_lnk_def set_rlnk_def set_dlnk_def set_blnk_def set_delta_def set_state_def set_prio_def

text \<open>The common test of the list operations: does the block chain its tasks in both directions?\<close>

definition sem_mbx :: "ptr \<Rightarrow> kernel \<Rightarrow> bool" where
  "sem_mbx p_CB k \<longleftrightarrow> cb_type k p_CB = SCB \<or> cb_type k p_CB = MCB \<or> cb_type k p_CB = MUCB"

section \<open>Priority lists\<close>

partial_function (option) put_prio_search :: "kernel \<Rightarrow> u8 \<Rightarrow> ptr \<Rightarrow> ptr \<Rightarrow> (ptr \<times> ptr) option" where
  "put_prio_search k pr p_CB p_CB2 =
     (if p_CB2 \<noteq> NULL \<and> pr \<le> prio k p_CB2 then put_prio_search k pr p_CB2 (p_lnk k p_CB2) else Some (p_CB, p_CB2))"

definition rt_put_prio :: "ptr \<Rightarrow> ptr \<Rightarrow> kernel \<Rightarrow> kernel option" where
  "rt_put_prio p_CB p_task k = do {
     let both = sem_mbx p_CB k;
     (p_CB, p_CB2) \<leftarrow> put_prio_search k (prio k p_task) p_CB (p_lnk k p_CB);
     let k = set_lnk p_CB p_task (set_lnk p_task p_CB2 k);
     Some (if both then set_rlnk p_task p_CB (if p_CB2 \<noteq> NULL then set_rlnk p_CB2 p_task k else k)
           else set_rlnk p_task NULL k) }"

definition rt_get_first :: "ptr \<Rightarrow> kernel \<Rightarrow> (ptr \<times> kernel) option" where
  "rt_get_first p_CB k = do {
     let p_first = p_lnk k p_CB;
     deref p_first;
     let k = set_lnk p_CB (p_lnk k p_first) k;
     let k = (if sem_mbx p_CB k
              then set_rlnk p_first NULL (if p_lnk k p_first \<noteq> NULL
                then set_lnk p_first NULL (set_rlnk (p_lnk k p_first) p_CB k) else k)
              else set_lnk p_first NULL k);
     Some (p_first, k) }"

definition rt_put_rdy_first :: "ptr \<Rightarrow> kernel \<Rightarrow> kernel" where
  "rt_put_rdy_first p_task k = set_lnk os_rdy p_task (set_rlnk p_task NULL (set_lnk p_task (p_lnk k os_rdy) k))"

definition rt_get_same_rdy_prio :: "kernel \<Rightarrow> (ptr \<times> kernel) option" where
  "rt_get_same_rdy_prio k = do {
     let p_first = p_lnk k os_rdy;
     deref p_first;
     deref (run k);
     Some (if prio k p_first = prio k (run k) then (p_first, set_lnk os_rdy (p_lnk k p_first) k) else (NULL, k)) }"

partial_function (option) rmv_search :: "kernel \<Rightarrow> ptr \<Rightarrow> ptr \<Rightarrow> kernel option" where
  "rmv_search k p_task p_b = (if p_b \<noteq> NULL
     then if p_lnk k p_b = p_task then Some (set_lnk p_b (p_lnk k p_task) k) else rmv_search k p_task (p_lnk k p_b)
     else Some k)"

definition rt_rmv_list :: "ptr \<Rightarrow> kernel \<Rightarrow> kernel option" where
  "rt_rmv_list p_task k =
     (if p_rlnk k p_task \<noteq> NULL
      then let k = set_lnk (p_rlnk k p_task) (p_lnk k p_task) k
           in Some (if p_lnk k p_task \<noteq> NULL then set_rlnk (p_lnk k p_task) (p_rlnk k p_task) k else k)
      else rmv_search k p_task os_rdy)"

partial_function (option) find_header :: "kernel \<Rightarrow> ptr \<Rightarrow> ptr option" where
  "find_header k p_CB = do {
     deref p_CB;
     if cb_type k p_CB = TCB then find_header k (p_rlnk k p_CB) else Some p_CB }"

definition rt_resort_prio :: "ptr \<Rightarrow> kernel \<Rightarrow> kernel option" where
  "rt_resort_prio p_task k =
     (if p_rlnk k p_task = NULL
      then if state k p_task = READY then do { k \<leftarrow> rt_rmv_list p_task k; rt_put_prio os_rdy p_task k } else Some k
      else do { p_CB \<leftarrow> find_header k (p_rlnk k p_task); k \<leftarrow> rt_rmv_list p_task k; rt_put_prio p_CB p_task k })"

section \<open>The delay list\<close>

text \<open>The search keeps \<open>delta\<close> and \<open>idelay\<close> as 32-bit numbers; the delays themselves have 16 bits.\<close>

definition dly_append :: "ptr \<Rightarrow> ptr \<Rightarrow> u32 \<Rightarrow> u32 \<Rightarrow> kernel \<Rightarrow> kernel" where
  "dly_append p_task p delta idelay k = set_delta p_task 0 (set_delta p (ucast (idelay - delta))
     (set_blnk p_task p (set_dlnk p p_task (set_dlnk p_task NULL k))))"

definition dly_insert :: "ptr \<Rightarrow> ptr \<Rightarrow> u32 \<Rightarrow> u32 \<Rightarrow> kernel \<Rightarrow> kernel" where
  "dly_insert p_task p delta idelay k = (let k = set_blnk p_task p (set_dlnk p p_task (set_dlnk p_task (p_dlnk k p) k));
     k = (if p_dlnk k p_task \<noteq> NULL then set_blnk (p_dlnk k p_task) p_task k else k);
     k = set_delta p_task (ucast (delta - idelay)) k
     in set_delta p (delta_time k p - delta_time k p_task) k)"

partial_function (option) put_dly_loop :: "ptr \<Rightarrow> u32 \<Rightarrow> kernel \<Rightarrow> ptr \<Rightarrow> u32 \<Rightarrow> kernel option" where
  "put_dly_loop p_task idelay k p delta =
     (if delta < idelay
      then if p_dlnk k p = NULL then Some (dly_append p_task p delta idelay k)
           else let p = p_dlnk k p in put_dly_loop p_task idelay k p (delta + ucast (delta_time k p))
      else Some (dly_insert p_task p delta idelay k))"

definition rt_put_dly :: "ptr \<Rightarrow> u16 \<Rightarrow> kernel \<Rightarrow> kernel option" where
  "rt_put_dly p_task delay k =
     (if p_dlnk k os_dly = NULL then Some (dly_append p_task os_dly 0 (ucast delay) k)
      else put_dly_loop p_task (ucast delay) k os_dly (ucast (delta_time k os_dly)))"

definition rt_rmv_dly :: "ptr \<Rightarrow> kernel \<Rightarrow> kernel" where
  "rt_rmv_dly p_task k = (let p_b = p_blnk k p_task in
     if p_b \<noteq> NULL
     then let k = set_dlnk p_b (p_dlnk k p_task) k;
              k = (if p_dlnk k p_task \<noteq> NULL
                   then set_dlnk p_task NULL (set_blnk (p_dlnk k p_task) p_b
                          (set_delta p_b (delta_time k p_b + delta_time k p_task) k))
                   else set_delta p_b 0 k)
          in set_blnk p_task NULL k
     else k)"

definition leave_waiting :: "ptr \<Rightarrow> kernel \<Rightarrow> kernel" where
  "leave_waiting p_rdy k = (if p_rlnk k p_rdy \<noteq> NULL
     then let k = set_lnk (p_rlnk k p_rdy) (p_lnk k p_rdy) k;
              k = (if p_lnk k p_rdy \<noteq> NULL
                   then set_lnk p_rdy NULL (set_rlnk (p_lnk k p_rdy) (p_rlnk k p_rdy) k) else k)
          in set_rlnk p_rdy NULL k
     else k)"

definition dec_dly_step :: "kernel \<Rightarrow> kernel option" where
  "dec_dly_step k = do {
     let p_rdy = p_dlnk k os_dly;
     k \<leftarrow> rt_put_prio os_rdy p_rdy (leave_waiting p_rdy k);
     let k = set_delta os_dly (delta_time k p_rdy) k;
     let k = (if state k p_rdy = WAIT_ITV then set_delta p_rdy (interval_time k p_rdy + ucast (os_time k)) k else k);
     let k = set_dlnk os_dly (p_dlnk k p_rdy) (set_state p_rdy READY k);
     let k = (if p_dlnk k p_rdy \<noteq> NULL then set_dlnk p_rdy NULL (set_blnk (p_dlnk k p_rdy) os_dly k) else k);
     Some (set_blnk p_rdy NULL k) }"

partial_function (option) dec_dly_loop :: "kernel \<Rightarrow> kernel option" where
  "dec_dly_loop k = (if delta_time k os_dly = 0 \<and> p_dlnk k os_dly \<noteq> NULL
     then do { k \<leftarrow> dec_dly_step k; dec_dly_loop k } else Some k)"

definition rt_dec_dly :: "kernel \<Rightarrow> kernel option" where
  "rt_dec_dly k = (if p_dlnk k os_dly = NULL then Some k
     else dec_dly_loop (set_delta os_dly (delta_time k os_dly - 1) k))"

section \<open>The post service queue\<close>

definition rt_inc_qi :: "u8 \<Rightarrow> psq \<Rightarrow> u8 \<times> psq" where
  "rt_inc_qi sz s = (if psq_count s = sz then (psq_count s, s)
     else let cnt = psq_first s; c2 = (ucast cnt :: u32) + 1; c2 = (if c2 = ucast sz then 0 else c2)
          in (cnt, s\<lparr>psq_count := psq_count s + 1, psq_first := ucast c2\<rparr>))"

text \<open>On overflow the kernel calls \<open>os_error\<close>, which stops the system.\<close>

definition rt_psq_enq :: "ptr \<Rightarrow> u32 \<Rightarrow> kernel \<Rightarrow> kernel option" where
  "rt_psq_enq entry arg k = (let (idx, s) = rt_inc_qi (psq_size (os_psq k)) (os_psq k) in
     if idx < psq_size s then do { items \<leftarrow> wr (q s) (unat idx) (entry, arg); Some (k\<lparr>os_psq := s\<lparr>q := items\<rparr>\<rparr>) } else None)"

end
