(* ===== verification/RtxLists.thy ===== *)
theory RtxLists
  imports Rtx
begin

text \<open>
  The lists of control blocks as lists of addresses: what the operations of \<open>rt_List.c\<close> do to the ready list and to
  the waiting lists of the objects, and that they keep the links consistent.
\<close>

section \<open>Linked lists\<close>

text \<open>
  \<open>links h c xs e\<close>: following the field \<open>h\<close> from the block \<open>c\<close> passes the blocks \<open>xs\<close> and ends at \<open>e\<close>.
  \<open>backs r c xs\<close>: the field \<open>r\<close> leads from each block of \<open>xs\<close> to the one before it, and from the first to \<open>c\<close>.
\<close>

primrec links :: "(ptr \<Rightarrow> ptr) \<Rightarrow> ptr \<Rightarrow> ptr list \<Rightarrow> ptr \<Rightarrow> bool" where
  "links h c [] e \<longleftrightarrow> h c = e"
| "links h c (x # xs) e \<longleftrightarrow> h c = x \<and> links h x xs e"

primrec backs :: "(ptr \<Rightarrow> ptr) \<Rightarrow> ptr \<Rightarrow> ptr list \<Rightarrow> bool" where
  "backs r c [] \<longleftrightarrow> True"
| "backs r c (x # xs) \<longleftrightarrow> r x = c \<and> backs r x xs"

lemma links_upd [simp]: "a \<noteq> c \<Longrightarrow> a \<notin> set xs \<Longrightarrow> links (h(a := v)) c xs e = links h c xs e"
  by (induction xs arbitrary: c) auto

lemma backs_upd [simp]: "a \<notin> set xs \<Longrightarrow> backs (r(a := v)) c xs = backs r c xs"
  by (induction xs arbitrary: c) auto

lemma links_append: "links h c (ys @ zs) e \<longleftrightarrow> links h c ys (hd (zs @ [e])) \<and> links h (last (c # ys)) zs e"
proof (induction ys arbitrary: c)
  case Nil
  then show ?case by (cases zs) auto
qed auto

lemma backs_append: "backs r c (ys @ zs) \<longleftrightarrow> backs r c ys \<and> backs r (last (c # ys)) zs"
  by (induction ys arbitrary: c) auto

lemma links_end: "links h c xs e \<Longrightarrow> h (last (c # xs)) = e"
  by (induction xs arbitrary: c) auto

lemma links_first: "links h c xs e \<Longrightarrow> h c = hd (xs @ [e])"
  by (cases xs) auto

lemma links_move: "links h c xs e \<Longrightarrow> distinct (c # xs) \<Longrightarrow> links (h(last (c # xs) := v)) c xs v"
  by (induction xs arbitrary: c) (auto split: if_splits)

lemma links_insert:
  assumes "links h c (ys @ zs) e" "distinct (c # ys @ zs)" "t \<notin> set (c # ys @ zs)"
  shows "links (h(t := hd (zs @ [e]), last (c # ys) := t)) c (ys @ t # zs) e"
proof -
  let ?l = "last (c # ys)"
  have l: "?l \<in> set (c # ys)" by (rule last_in_set) simp
  then have [simp]: "?l \<noteq> t" "t \<noteq> ?l" "?l \<notin> set zs" using assms(2,3) by (auto simp del: last.simps)
  from assms(1) have a: "links h c ys (hd (zs @ [e]))" and b: "links h ?l zs e" by (simp_all add: links_append del: last.simps)
  from links_move [OF a] assms have "links (h(?l := t)) c ys t" by simp
  moreover have tw: "h(t := hd (zs @ [e]), ?l := t) = h(?l := t, t := hd (zs @ [e]))"
    by (rule fun_upd_twist) (use \<open>?l \<noteq> t\<close> in metis)
  ultimately have c: "links (h(t := hd (zs @ [e]), ?l := t)) c ys t"
    unfolding tw using assms(3) by (simp del: last.simps)
  have d: "links (h(t := hd (zs @ [e]), ?l := t)) t zs e"
  proof (cases zs)
    case Nil
    then show ?thesis by (simp del: last.simps)
  next
    case (Cons z zs')
    with b assms(3) have "links h z zs' e" "z \<noteq> t" "t \<notin> set zs'" "?l \<noteq> z" "?l \<notin> set zs'"
      using \<open>?l \<notin> set zs\<close> by (auto simp del: last.simps)
    then show ?thesis by (simp add: Cons del: last.simps)
  qed
  from c d show ?thesis by (simp add: links_append del: last.simps)
qed

lemma links_remove:
  assumes "links h c (ys @ t # zs) e" "distinct (c # ys @ t # zs)"
  shows "links (h(last (c # ys) := h t)) c (ys @ zs) e"
proof -
  let ?l = "last (c # ys)"
  have l: "?l \<in> set (c # ys)" by (rule last_in_set) simp
  then have [simp]: "?l \<noteq> t" "t \<noteq> ?l" "?l \<notin> set zs" using assms(2) by (auto simp del: last.simps)
  from assms(1) have a: "links h c ys t" and b: "links h t zs e" by (simp_all add: links_append del: last.simps)
  from links_move [OF a] assms(2) have c: "links (h(?l := h t)) c ys (h t)" by simp
  show ?thesis
  proof (cases zs)
    case Nil
    with b c show ?thesis by simp
  next
    case (Cons z zs')
    with b \<open>?l \<notin> set zs\<close> have "h t = z" "links (h(?l := h t)) z zs' e" by (auto simp del: last.simps)
    with c show ?thesis by (simp add: Cons links_append del: last.simps)
  qed
qed

lemma backs_insert:
  assumes "backs r c (ys @ zs)" "distinct (ys @ zs)" "t \<notin> set (ys @ zs)"
  shows "backs (case zs of [] \<Rightarrow> r(t := last (c # ys)) | z # _ \<Rightarrow> r(z := t, t := last (c # ys))) c (ys @ t # zs)"
  using assms by (cases zs) (auto simp: backs_append simp del: last.simps)

lemma backs_remove:
  assumes "backs r c (ys @ t # zs)" "distinct (ys @ t # zs)"
  shows "backs (case zs of [] \<Rightarrow> r | z # _ \<Rightarrow> r(z := r t)) c (ys @ zs)"
  using assms by (cases zs) (auto simp: backs_append simp del: last.simps)

lemma backs_at: "backs r c (ys @ t # zs) \<Longrightarrow> r t = last (c # ys)"
  by (simp add: backs_append del: last.simps)

lemma links_cong: "\<forall>a\<in>set (c # xs). h a = g a \<Longrightarrow> links h c xs e = links g c xs e"
  by (induction xs arbitrary: c) auto

lemma backs_cong: "\<forall>a\<in>set xs. r a = s a \<Longrightarrow> backs r c xs = backs s c xs"
  by (induction xs arbitrary: c) auto

section \<open>Insertion by priority\<close>

definition insert_prio :: "(ptr \<Rightarrow> u8) \<Rightarrow> ptr \<Rightarrow> ptr list \<Rightarrow> ptr list" where
  "insert_prio pr t xs = takeWhile (\<lambda>x. pr t \<le> pr x) xs @ t # dropWhile (\<lambda>x. pr t \<le> pr x) xs"

abbreviation by_prio :: "(ptr \<Rightarrow> u8) \<Rightarrow> ptr list \<Rightarrow> bool" where
  "by_prio pr \<equiv> sorted_wrt (\<lambda>x y. pr y \<le> pr x)"

lemma set_insert_prio [simp]: "set (insert_prio pr t xs) = insert t (set xs)"
proof -
  have "set xs = set (takeWhile (\<lambda>x. pr t \<le> pr x) xs) \<union> set (dropWhile (\<lambda>x. pr t \<le> pr x) xs)"
    by (metis set_append takeWhile_dropWhile_id)
  then show ?thesis by (auto simp: insert_prio_def)
qed

lemma distinct_insert_prio: "distinct xs \<Longrightarrow> t \<notin> set xs \<Longrightarrow> distinct (insert_prio pr t xs)"
  using distinct_append [of "takeWhile (\<lambda>x. pr t \<le> pr x) xs" "dropWhile (\<lambda>x. pr t \<le> pr x) xs"]
  by (auto simp: insert_prio_def dest: set_takeWhileD set_dropWhileD)

lemma by_prio_dropWhile: "by_prio pr xs \<Longrightarrow> x \<in> set (dropWhile (\<lambda>x. p \<le> pr x) xs) \<Longrightarrow> pr x < p"
  by (induction xs) (fastforce split: if_splits)+

lemma by_prio_insert: "by_prio pr xs \<Longrightarrow> by_prio pr (insert_prio pr t xs)"
proof -
  assume a: "by_prio pr xs"
  let ?P = "\<lambda>x. pr t \<le> pr x"
  have "by_prio pr (takeWhile ?P xs @ dropWhile ?P xs)" using a by simp
  moreover have "\<forall>x\<in>set (dropWhile ?P xs). pr x \<le> pr t" using by_prio_dropWhile [OF a] by fastforce
  ultimately show ?thesis by (auto simp: insert_prio_def sorted_wrt_append simp del: takeWhile_dropWhile_id dest: set_takeWhileD)
qed

lemma insert_prio_Nil [simp]: "insert_prio pr t [] = [t]"
  by (simp add: insert_prio_def)

lemma put_prio_search_links:
  "links (p_lnk k) c xs NULL \<Longrightarrow> NULL \<notin> set xs \<Longrightarrow>
     put_prio_search k pr c (p_lnk k c) = Some (last (c # takeWhile (\<lambda>x. pr \<le> prio k x) xs), hd (dropWhile (\<lambda>x. pr \<le> prio k x) xs @ [NULL]))"
  by (induction xs arbitrary: c) (auto simp: put_prio_search.simps)

section \<open>The lists of the kernel\<close>

text \<open>
  \<open>tcb k x\<close>: \<open>x\<close> is a task; \<open>obj k c\<close>: \<open>c\<close> is a semaphore, a mailbox or a mutex.  A head of a list is the ready list
  or an object, and \<open>L\<close> gives the tasks in the list of each head.
\<close>

definition tcb :: "kernel \<Rightarrow> ptr \<Rightarrow> bool" where "tcb k x \<longleftrightarrow> x \<noteq> NULL \<and> cb_type k x = TCB"
definition obj :: "kernel \<Rightarrow> ptr \<Rightarrow> bool" where "obj k c \<longleftrightarrow> c \<noteq> NULL \<and> sem_mbx c k"
definition head :: "kernel \<Rightarrow> ptr \<Rightarrow> bool" where "head k h \<longleftrightarrow> h = os_rdy \<or> obj k h"

definition lists_ok :: "(ptr \<Rightarrow> ptr list) \<Rightarrow> kernel \<Rightarrow> bool" where
  "lists_ok L k \<longleftrightarrow> cb_type k os_rdy = HCB
     \<and> (\<forall>h. if head k h then links (p_lnk k) h (L h) NULL else L h = [])
     \<and> (\<forall>h. obj k h \<longrightarrow> backs (p_rlnk k) h (L h))
     \<and> (\<forall>h. distinct (L h) \<and> (\<forall>x\<in>set (L h). tcb k x))
     \<and> (\<forall>g h. g \<noteq> h \<longrightarrow> set (L g) \<inter> set (L h) = {})
     \<and> (\<forall>x. tcb k x \<and> (\<forall>h. obj k h \<longrightarrow> x \<notin> set (L h)) \<longrightarrow> p_rlnk k x = NULL)"

definition free_task :: "(ptr \<Rightarrow> ptr list) \<Rightarrow> kernel \<Rightarrow> ptr \<Rightarrow> bool" where
  "free_task L k t \<longleftrightarrow> tcb k t \<and> (\<forall>h. t \<notin> set (L h))"

lemma tcb_not_obj: "tcb k x \<Longrightarrow> obj k c \<Longrightarrow> x \<noteq> c"
  by (auto simp: tcb_def obj_def sem_mbx_def cb_types)

lemma rdy_not_obj: "lists_ok L k \<Longrightarrow> \<not> obj k os_rdy \<and> \<not> tcb k os_rdy \<and> \<not> sem_mbx os_rdy k"
  by (auto simp: lists_ok_def obj_def tcb_def sem_mbx_def cb_types)

lemma head_not_tcb: "lists_ok L k \<Longrightarrow> head k h \<Longrightarrow> tcb k x \<Longrightarrow> x \<noteq> h"
  using rdy_not_obj [of L k] tcb_not_obj [of k x h] by (auto simp: head_def)

lemma head_not_NULL: "head k h \<Longrightarrow> h \<noteq> NULL"
  by (auto simp: head_def obj_def)

lemma tcb_links [simp]: "tcb (k\<lparr>p_lnk := l, p_rlnk := r\<rparr>) x = tcb k x" "obj (k\<lparr>p_lnk := l, p_rlnk := r\<rparr>) x = obj k x"
  "head (k\<lparr>p_lnk := l, p_rlnk := r\<rparr>) x = head k x" "sem_mbx x (k\<lparr>p_lnk := l, p_rlnk := r\<rparr>) = sem_mbx x k"
  by (simp_all add: tcb_def obj_def head_def sem_mbx_def)

lemma lists_okD:
  assumes "lists_ok L k"
  shows "head k h \<Longrightarrow> links (p_lnk k) h (L h) NULL" "obj k h \<Longrightarrow> backs (p_rlnk k) h (L h)" "distinct (L h)"
    "x \<in> set (L h) \<Longrightarrow> tcb k x" "x \<in> set (L h) \<Longrightarrow> g \<noteq> h \<Longrightarrow> x \<notin> set (L g)" "x \<in> set (L h) \<Longrightarrow> head k h"
    "NULL \<notin> set (L h)" "\<not> head k h \<Longrightarrow> L h = []" "cb_type k os_rdy = HCB"
proof -
  have a: "\<forall>h. if head k h then links (p_lnk k) h (L h) NULL else L h = []"
    "\<forall>h. obj k h \<longrightarrow> backs (p_rlnk k) h (L h)" "\<forall>h. distinct (L h) \<and> (\<forall>x\<in>set (L h). tcb k x)"
    "\<forall>g h. g \<noteq> h \<longrightarrow> set (L g) \<inter> set (L h) = {}" "cb_type k os_rdy = HCB"
    using assms unfolding lists_ok_def by blast+
  show "head k h \<Longrightarrow> links (p_lnk k) h (L h) NULL" "\<not> head k h \<Longrightarrow> L h = []" using a(1) by metis+
  show "obj k h \<Longrightarrow> backs (p_rlnk k) h (L h)" "distinct (L h)" "x \<in> set (L h) \<Longrightarrow> tcb k x" "cb_type k os_rdy = HCB"
    using a by blast+
  show "x \<in> set (L h) \<Longrightarrow> g \<noteq> h \<Longrightarrow> x \<notin> set (L g)" using a(4) by blast
  show "x \<in> set (L h) \<Longrightarrow> head k h" using a(1) by (metis empty_iff empty_set)
  show "NULL \<notin> set (L h)" using a(3) by (auto simp: tcb_def)
qed

text \<open>
  A change of the links that only touches the list of one head: the other lists are kept.
\<close>

lemma lists_ok_change:
  assumes L: "lists_ok L k" and h: "head k h"
    and l: "links l h xs NULL" and r: "obj k h \<Longrightarrow> backs r h xs"
    and d: "distinct xs" and t: "\<forall>x\<in>set xs. tcb k x \<and> (\<forall>g. g \<noteq> h \<longrightarrow> x \<notin> set (L g))"
    and fl: "\<And>a. a \<noteq> h \<Longrightarrow> a \<notin> set xs \<union> set (L h) \<Longrightarrow> l a = p_lnk k a"
    and fr: "\<And>a. a \<notin> set xs \<union> set (L h) \<Longrightarrow> r a = p_rlnk k a"
    and n: "\<And>x. tcb k x \<Longrightarrow> x \<in> set xs \<union> set (L h) \<Longrightarrow> x \<notin> set xs \<or> h = os_rdy \<Longrightarrow> r x = NULL"
  shows "lists_ok (L(h := xs)) (k\<lparr>p_lnk := l, p_rlnk := r\<rparr>)"
proof -
  have other: "links l g (L g) NULL = links (p_lnk k) g (L g) NULL" if "g \<noteq> h" "head k g" for g
  proof -
    have "\<forall>a\<in>set (g # L g). l a = p_lnk k a"
    proof
      fix a assume a: "a \<in> set (g # L g)"
      have "a \<noteq> h" using a that lists_okD(4) [OF L, of a g] head_not_tcb [OF L h, of a] by auto
      moreover have "a \<notin> set xs \<union> set (L h)"
      proof (cases "a = g")
        case True
        then show ?thesis using t head_not_tcb [OF L that(2), of a] lists_okD(4) [OF L, of a h] by auto
      next
        case False
        then have "a \<in> set (L g)" using a by simp
        then show ?thesis using t that(1) lists_okD(5) [OF L, of a g h] by auto
      qed
      ultimately show "l a = p_lnk k a" by (rule fl)
    qed
    then show ?thesis by (rule links_cong)
  qed
  have otherb: "backs r g (L g) = backs (p_rlnk k) g (L g)" if "g \<noteq> h" for g
  proof -
    have "\<forall>a\<in>set (L g). r a = p_rlnk k a"
    proof (intro ballI fr)
      fix a assume "a \<in> set (L g)"
      with that t lists_okD(5) [OF L, of a g h] show "a \<notin> set xs \<union> set (L h)" by auto
    qed
    then show ?thesis by (rule backs_cong)
  qed
  let ?k = "k\<lparr>p_lnk := l, p_rlnk := r\<rparr>" and ?L = "L(h := xs)"
  have "\<forall>g. if head ?k g then links (p_lnk ?k) g (?L g) NULL else ?L g = []"
  proof
    fix g
    show "if head ?k g then links (p_lnk ?k) g (?L g) NULL else ?L g = []"
      using l h other [of g] lists_okD(1,8) [OF L, of g] by auto
  qed
  moreover have "\<forall>g. obj ?k g \<longrightarrow> backs (p_rlnk ?k) g (?L g)"
    using r otherb lists_okD(2) [OF L] by auto
  moreover have "\<forall>g. distinct (?L g) \<and> (\<forall>x\<in>set (?L g). tcb ?k x)"
    using d t lists_okD(3,4) [OF L] by auto
  moreover have "\<forall>g g'. g \<noteq> g' \<longrightarrow> set (?L g) \<inter> set (?L g') = {}"
  proof (intro allI impI)
    fix g g' :: ptr assume "g \<noteq> g'"
    then show "set (?L g) \<inter> set (?L g') = {}" using t lists_okD(5) [OF L, of _ g g'] by (cases "g = h"; cases "g' = h") auto
  qed
  moreover have "\<forall>x. tcb ?k x \<and> (\<forall>g. obj ?k g \<longrightarrow> x \<notin> set (?L g)) \<longrightarrow> p_rlnk ?k x = NULL"
  proof (intro allI impI)
    fix x assume x: "tcb ?k x \<and> (\<forall>g. obj ?k g \<longrightarrow> x \<notin> set (?L g))"
    show "p_rlnk ?k x = NULL"
    proof (cases "x \<in> set xs \<union> set (L h)")
      case True
      moreover have "x \<notin> set xs \<or> h = os_rdy" using x h by (auto simp: head_def split: if_splits)
      ultimately show ?thesis using n x by simp
    next
      case False
      then have "\<forall>g. obj k g \<longrightarrow> x \<notin> set (L g)" using x by (auto split: if_splits)
      then show ?thesis using x False fr L unfolding lists_ok_def by simp
    qed
  qed
  ultimately show ?thesis using lists_okD(9) [OF L] unfolding lists_ok_def by simp
qed

lemma ready_not_waiting: "lists_ok L k \<Longrightarrow> x \<in> set (L os_rdy) \<Longrightarrow> obj k g \<Longrightarrow> x \<notin> set (L g)"
  using lists_okD(5) [of L k x os_rdy g] rdy_not_obj [of L k] by auto

text \<open>The insertion does not read the back link of the inserted task.\<close>

lemma lists_ok_put_any:
  assumes L: "lists_ok L k" and h: "head k h" and t: "free_task L k t"
  obtains l r where "\<And>v. rt_put_prio h t (set_rlnk t v k) = Some (k\<lparr>p_lnk := l, p_rlnk := r\<rparr>)"
    "lists_ok (L(h := insert_prio (prio k) t (L h))) (k\<lparr>p_lnk := l, p_rlnk := r\<rparr>)"
proof -
  define ys zs where "ys = takeWhile (\<lambda>x. prio k t \<le> prio k x) (L h)" and "zs = dropWhile (\<lambda>x. prio k t \<le> prio k x) (L h)"
  have xs: "L h = ys @ zs" by (simp add: ys_def zs_def)
  have ins: "insert_prio (prio k) t (L h) = ys @ t # zs" by (simp add: insert_prio_def ys_def zs_def)
  let ?p = "last (h # ys)" and ?n = "hd (zs @ [NULL])"
  have tt: "tcb k t" "t \<notin> set (L h)" "t \<noteq> h" "t \<noteq> NULL"
    using t head_not_tcb [OF L h, of t] by (auto simp: free_task_def tcb_def)
  have hh: "h \<notin> set (L h)" using head_not_tcb [OF L h] lists_okD(4) [OF L] by blast
  have d: "distinct (h # ys @ zs)" using hh lists_okD(3) [OF L, of h] by (simp add: xs)
  have lk: "links (p_lnk k) h (ys @ zs) NULL" using lists_okD(1) [OF L h] by (simp add: xs)
  have srch: "put_prio_search (set_rlnk t v k) (prio k t) h (p_lnk k h) = Some (?p, ?n)" for v
    using put_prio_search_links [of "set_rlnk t v k" h "L h" "prio k t"] lists_okD(1) [OF L h] lists_okD(7) [OF L]
    by (simp add: ys_def zs_def set_rlnk_def)
  define l where "l = (p_lnk k)(t := ?n, ?p := t)"
  define r where "r = (if sem_mbx h k then (case zs of [] \<Rightarrow> (p_rlnk k)(t := ?p) | z # _ \<Rightarrow> (p_rlnk k)(z := t, t := ?p))
    else (p_rlnk k)(t := NULL))"
  have nz: "(?n = NULL) = (zs = [])" using lists_okD(7) [OF L, of h] by (cases zs) (auto simp: xs)
  have zt: "z \<noteq> t" if "z \<in> set zs" for z using that tt(2) by (auto simp: xs)
  have proj: "p_lnk (set_rlnk t v k) = p_lnk k" "prio (set_rlnk t v k) = prio k" "sem_mbx h (set_rlnk t v k) = sem_mbx h k" for v
    by (simp_all add: set_rlnk_def sem_mbx_def)
  have eq: "rt_put_prio h t (set_rlnk t v k) = Some (k\<lparr>p_lnk := l, p_rlnk := r\<rparr>)" for v
    unfolding rt_put_prio_def Let_def proj srch
    using nz zt by (cases zs) (simp_all add: sem_mbx_def setters l_def r_def fun_upd_twist [of t] del: last.simps)
  have sm: "sem_mbx h k = (h \<noteq> os_rdy)" using h rdy_not_obj [OF L] by (auto simp: head_def obj_def)
  have "lists_ok (L(h := ys @ t # zs)) (k\<lparr>p_lnk := l, p_rlnk := r\<rparr>)"
  proof (rule lists_ok_change [OF L h])
    show "links l h (ys @ t # zs) NULL" unfolding l_def by (rule links_insert [OF lk d]) (use tt in \<open>simp add: xs\<close>)
    show "backs r h (ys @ t # zs)" if "obj k h"
    proof -
      have "backs (p_rlnk k) h (ys @ zs)" using lists_okD(2) [OF L that] by (simp add: xs)
      from backs_insert [OF this] d tt(2) that show ?thesis unfolding r_def by (simp add: xs obj_def del: last.simps)
    qed
    show "distinct (ys @ t # zs)" using d tt(2) by (simp add: xs)
    show "\<forall>x\<in>set (ys @ t # zs). tcb k x \<and> (\<forall>g. g \<noteq> h \<longrightarrow> x \<notin> set (L g))"
      using lists_okD(4,5) [OF L, of _ h] t tt by (auto simp: free_task_def xs)
    show "l a = p_lnk k a" if "a \<noteq> h" "a \<notin> set (ys @ t # zs) \<union> set (L h)" for a
      using that last_in_set [of "h # ys"] by (auto simp: l_def simp del: last.simps)
    show "r a = p_rlnk k a" if "a \<notin> set (ys @ t # zs) \<union> set (L h)" for a
      using that by (cases zs) (auto simp: r_def)
    show "r x = NULL" if "tcb k x" "x \<in> set (ys @ t # zs) \<union> set (L h)" "x \<notin> set (ys @ t # zs) \<or> h = os_rdy" for x
    proof -
      have o: "h = os_rdy" using that(2,3) by (auto simp: xs)
      then have "x \<noteq> t \<Longrightarrow> \<forall>g. obj k g \<longrightarrow> x \<notin> set (L g)" using that(2) ready_not_waiting [OF L, of x] xs by auto
      then show ?thesis using L that(1) o sm by (auto simp: r_def lists_ok_def)
    qed
  qed
  then have "lists_ok (L(h := insert_prio (prio k) t (L h))) (k\<lparr>p_lnk := l, p_rlnk := r\<rparr>)" by (simp only: ins)
  with eq show thesis by (rule that)
qed

lemma lists_ok_put:
  assumes "lists_ok L k" "head k h" "free_task L k t"
  obtains l r where "rt_put_prio h t k = Some (k\<lparr>p_lnk := l, p_rlnk := r\<rparr>)"
    "lists_ok (L(h := insert_prio (prio k) t (L h))) (k\<lparr>p_lnk := l, p_rlnk := r\<rparr>)"
proof (rule lists_ok_put_any [OF assms])
  fix l r
  assume a: "\<And>v. rt_put_prio h t (set_rlnk t v k) = Some (k\<lparr>p_lnk := l, p_rlnk := r\<rparr>)"
    and b: "lists_ok (L(h := insert_prio (prio k) t (L h))) (k\<lparr>p_lnk := l, p_rlnk := r\<rparr>)"
  from a [of "p_rlnk k t"] have "rt_put_prio h t k = Some (k\<lparr>p_lnk := l, p_rlnk := r\<rparr>)" by (simp add: set_rlnk_def)
  from that [OF this b] show thesis .
qed

lemma lists_ok_get:
  assumes L: "lists_ok L k" and h: "head k h" and x: "L h = x # xs"
  obtains l r where "rt_get_first h k = Some (x, k\<lparr>p_lnk := l, p_rlnk := r\<rparr>)"
    "lists_ok (L(h := xs)) (k\<lparr>p_lnk := l, p_rlnk := r\<rparr>)"
proof -
  have lk: "p_lnk k h = x" "links (p_lnk k) x xs NULL" using lists_okD(1) [OF L h] x by auto
  have xn: "tcb k x" "x \<noteq> NULL" using lists_okD(4) [OF L, of x h] x by (auto simp: tcb_def)
  have xh: "x \<noteq> h" using head_not_tcb [OF L h] xn by blast
  have hh: "h \<notin> set xs" using head_not_tcb [OF L h] lists_okD(4) [OF L, of _ h] x by auto
  have d: "x \<notin> set xs" "distinct xs" "NULL \<notin> set xs" using lists_okD(3,7) [OF L, of h] x by auto
  have sm: "sem_mbx h k = (h \<noteq> os_rdy)" "sem_mbx h k = obj k h" using h rdy_not_obj [OF L] by (auto simp: head_def obj_def)
  have nx: "p_lnk k x = hd (xs @ [NULL])" using links_first [OF lk(2)] .
  have nz: "(p_lnk k x = NULL) = (xs = [])" using nx d by (cases xs) auto
  define l where "l = (if sem_mbx h k \<and> xs = [] then (p_lnk k)(h := NULL) else (p_lnk k)(h := p_lnk k x, x := NULL))"
  define r where "r = (if sem_mbx h k then (case xs of [] \<Rightarrow> (p_rlnk k)(x := NULL) | z # _ \<Rightarrow> (p_rlnk k)(z := h, x := NULL)) else p_rlnk k)"
  have eq: "rt_get_first h k = Some (x, k\<lparr>p_lnk := l, p_rlnk := r\<rparr>)"
    using xn xh lk nz nx by (cases xs) (auto simp: rt_get_first_def setters l_def r_def Let_def sem_mbx_def)
  have "lists_ok (L(h := xs)) (k\<lparr>p_lnk := l, p_rlnk := r\<rparr>)"
  proof (rule lists_ok_change [OF L h])
    show "links l h xs NULL" using lk nx hh d xh by (cases xs) (auto simp: l_def)
    show "backs r h xs" if "obj k h" using lists_okD(2) [OF L that] x d that sm by (cases xs) (auto simp: r_def)
    show "distinct xs" by (fact d)
    show "\<forall>x\<in>set xs. tcb k x \<and> (\<forall>g. g \<noteq> h \<longrightarrow> x \<notin> set (L g))"
      using lists_okD(4,5) [OF L, of _ h] x by auto
    show "l a = p_lnk k a" if "a \<noteq> h" "a \<notin> set xs \<union> set (L h)" for a using that x by (auto simp: l_def)
    show "r a = p_rlnk k a" if "a \<notin> set xs \<union> set (L h)" for a using that x by (cases xs) (auto simp: r_def)
    show "r y = NULL" if "tcb k y" "y \<in> set xs \<union> set (L h)" "y \<notin> set xs \<or> h = os_rdy" for y
    proof (cases "h = os_rdy")
      case True
      then have "\<forall>g. obj k g \<longrightarrow> y \<notin> set (L g)" using that(2) x ready_not_waiting [OF L, of y] by auto
      then show ?thesis using L that(1) True sm by (auto simp: r_def lists_ok_def)
    next
      case False
      then have "y = x" using that x by auto
      then show ?thesis using False sm by (cases xs) (auto simp: r_def)
    qed
  qed
  with eq show thesis by (intro that)
qed

lemma rmv_search_links:
  "links (p_lnk k) c (ys @ x # zs) e \<Longrightarrow> x \<notin> set ys \<Longrightarrow> c \<noteq> NULL \<Longrightarrow> NULL \<notin> set ys \<Longrightarrow>
     rmv_search k x c = Some (set_lnk (last (c # ys)) (p_lnk k x) k)"
  by (induction ys arbitrary: c) (auto simp: rmv_search.simps)

lemma find_header_backs:
  "backs (p_rlnk k) h ys \<Longrightarrow> \<forall>y\<in>set ys. tcb k y \<Longrightarrow> obj k h \<Longrightarrow> find_header k (last (h # ys)) = Some h"
proof (induction ys rule: rev_induct)
  case Nil
  then have "cb_type k h \<noteq> TCB" "h \<noteq> NULL" by (auto simp: obj_def sem_mbx_def cb_types)
  then show ?case by (subst find_header.simps) simp
next
  case (snoc y ys)
  then have y: "cb_type k y = TCB" "y \<noteq> NULL" "p_rlnk k y = last (h # ys)" by (auto simp: tcb_def backs_append)
  have "find_header k y = find_header k (last (h # ys))" using y by (subst find_header.simps) (simp del: last.simps)
  then show ?case using snoc by (simp add: backs_append)
qed

lemma lists_ok_rmv:
  assumes L: "lists_ok L k" and x: "L h = ys @ x # zs"
  obtains l r where "rt_rmv_list x k = Some (k\<lparr>p_lnk := l, p_rlnk := r\<rparr>)"
    "lists_ok (L(h := ys @ zs)) (k\<lparr>p_lnk := l, p_rlnk := r(x := NULL)\<rparr>)"
proof -
  have h: "head k h" using lists_okD(6) [OF L, of x h] x by simp
  have xt: "tcb k x" "x \<noteq> NULL" using lists_okD(4) [OF L, of x h] x by (auto simp: tcb_def)
  have hh: "h \<notin> set (L h)" using head_not_tcb [OF L h] lists_okD(4) [OF L, of _ h] by blast
  have d: "distinct (h # ys @ x # zs)" using hh lists_okD(3) [OF L, of h] by (simp add: x)
  have N: "NULL \<notin> set ys" "NULL \<notin> set zs" "h \<noteq> NULL" using lists_okD(7) [OF L, of h] head_not_NULL [OF h] by (auto simp: x)
  have lk: "links (p_lnk k) h (ys @ x # zs) NULL" using lists_okD(1) [OF L h] by (simp add: x)
  then have nx: "p_lnk k x = hd (zs @ [NULL])" by (simp add: links_append links_first del: last.simps)
  let ?p = "last (h # ys)"
  have pn: "?p \<noteq> NULL" using N last_in_set [of "h # ys"] by (auto simp del: last.simps)
  have px: "?p \<noteq> x" using d last_in_set [of "h # ys"] by (auto simp del: last.simps)
  have sm: "sem_mbx h k = (h \<noteq> os_rdy)" "sem_mbx h k = obj k h" using h rdy_not_obj [OF L] by (auto simp: head_def obj_def)
  define l where "l = (p_lnk k)(?p := p_lnk k x)"
  define r where "r = (if h = os_rdy then p_rlnk k else case zs of [] \<Rightarrow> p_rlnk k | z # _ \<Rightarrow> (p_rlnk k)(z := p_rlnk k x))"
  have eq: "rt_rmv_list x k = Some (k\<lparr>p_lnk := l, p_rlnk := r\<rparr>)"
  proof (cases "h = os_rdy")
    case True
    have "p_rlnk k x = NULL" using L xt ready_not_waiting [OF L, of x] x True by (auto simp: lists_ok_def)
    then show ?thesis using True rmv_search_links [OF lk [unfolded True]] d N
      by (simp add: rt_rmv_list_def l_def r_def set_lnk_def del: last.simps)
  next
    case False
    then have o: "obj k h" using sm by simp
    have px': "p_rlnk k x = ?p" using backs_at lists_okD(2) [OF L o] x by metis
    show ?thesis
    proof (cases zs)
      case Nil
      then show ?thesis using False px' pn nx px by (simp add: rt_rmv_list_def l_def r_def setters del: last.simps)
    next
      case (Cons z zs')
      then have "z \<noteq> NULL" "z \<noteq> x" "x \<noteq> z" using N d by auto
      then show ?thesis using Cons False px' pn nx px by (simp add: rt_rmv_list_def l_def r_def setters del: last.simps)
    qed
  qed
  have "lists_ok (L(h := ys @ zs)) (k\<lparr>p_lnk := l, p_rlnk := r(x := NULL)\<rparr>)"
  proof (rule lists_ok_change [OF L h])
    show "links l h (ys @ zs) NULL" unfolding l_def by (rule links_remove [OF lk d])
    show "backs (r(x := NULL)) h (ys @ zs)" if "obj k h"
    proof -
      have "backs (p_rlnk k) h (ys @ x # zs)" using lists_okD(2) [OF L that] by (simp add: x)
      from backs_remove [OF this] d that sm show ?thesis unfolding r_def by (simp split: list.splits)
    qed
    show "distinct (ys @ zs)" using d by simp
    show "\<forall>y\<in>set (ys @ zs). tcb k y \<and> (\<forall>g. g \<noteq> h \<longrightarrow> y \<notin> set (L g))"
      using lists_okD(4,5) [OF L, of _ h] by (auto simp: x)
    show "l a = p_lnk k a" if "a \<noteq> h" "a \<notin> set (ys @ zs) \<union> set (L h)" for a
      using that last_in_set [of "h # ys"] by (auto simp: l_def x simp del: last.simps)
    show "(r(x := NULL)) a = p_rlnk k a" if "a \<notin> set (ys @ zs) \<union> set (L h)" for a
      using that by (cases zs) (auto simp: r_def x)
    show "(r(x := NULL)) y = NULL" if "tcb k y" "y \<in> set (ys @ zs) \<union> set (L h)" "y \<notin> set (ys @ zs) \<or> h = os_rdy" for y
    proof (cases "y = x")
      case False
      then have o: "h = os_rdy" using that(2,3) by (auto simp: x)
      then have "\<forall>g. obj k g \<longrightarrow> y \<notin> set (L g)" using that(2) x ready_not_waiting [OF L, of y] by auto
      then show ?thesis using L that(1) False o by (auto simp: r_def lists_ok_def)
    qed simp
  qed
  with eq show thesis by (rule that)
qed

text \<open>\<open>rt_resort_prio\<close> takes the task out of its list and inserts it again.\<close>

lemma lists_ok_resort:
  assumes L: "lists_ok L k" and x: "L h = ys @ x # zs" and s: "h = os_rdy \<Longrightarrow> state k x = READY"
  obtains l r where "rt_resort_prio x k = Some (k\<lparr>p_lnk := l, p_rlnk := r\<rparr>)"
    "lists_ok (L(h := insert_prio (prio k) x (ys @ zs))) (k\<lparr>p_lnk := l, p_rlnk := r\<rparr>)"
proof (rule lists_ok_rmv [OF L x])
  fix l r
  let ?k = "k\<lparr>p_lnk := l, p_rlnk := r(x := NULL)\<rparr>"
  assume rm: "rt_rmv_list x k = Some (k\<lparr>p_lnk := l, p_rlnk := r\<rparr>)" and L': "lists_ok (L(h := ys @ zs)) ?k"
  have h: "head k h" using lists_okD(6) [OF L, of x h] x by simp
  have hd: "head ?k h" using h by simp
  have k: "k\<lparr>p_lnk := l, p_rlnk := r\<rparr> = set_rlnk x (r x) ?k" by (simp add: set_rlnk_def)
  have "free_task (L(h := ys @ zs)) ?k x"
    using lists_okD(3) [OF L, of h] lists_okD(4,5) [OF L, of x h] x by (auto simp: free_task_def)
  then show thesis
  proof (rule lists_ok_put_any [OF L' hd])
  fix l' r'
  assume put: "\<And>v. rt_put_prio h x (set_rlnk x v ?k) = Some (?k\<lparr>p_lnk := l', p_rlnk := r'\<rparr>)"
    and "lists_ok ((L(h := ys @ zs))(h := insert_prio (prio ?k) x ((L(h := ys @ zs)) h))) (?k\<lparr>p_lnk := l', p_rlnk := r'\<rparr>)"
  then have ok: "lists_ok (L(h := insert_prio (prio k) x (ys @ zs))) (k\<lparr>p_lnk := l', p_rlnk := r'\<rparr>)" by simp
  have "rt_resort_prio x k = Some (k\<lparr>p_lnk := l', p_rlnk := r'\<rparr>)"
  proof (cases "h = os_rdy")
    case True
    have "p_rlnk k x = NULL" using L ready_not_waiting [OF L, of x] x True lists_okD(4) [OF L, of x h] by (auto simp: lists_ok_def)
    then show ?thesis using True s rm put [of "r x"] by (simp add: rt_resort_prio_def k)
  next
    case False
    then have o: "obj k h" using h by (simp add: head_def)
    have b: "backs (p_rlnk k) h (ys @ x # zs)" using lists_okD(2) [OF L o] x by simp
    have "find_header k (p_rlnk k x) = Some h"
      using find_header_backs [of k h ys] b o lists_okD(4) [OF L, of _ h] x backs_at [OF b] by (simp add: backs_append)
    moreover have "p_rlnk k x \<noteq> NULL"
      using backs_at [OF b] lists_okD(7) [OF L, of h] head_not_NULL [OF h] last_in_set [of "h # ys"] x by (auto simp del: last.simps)
    ultimately show ?thesis using rm put [of "r x"] by (simp add: rt_resort_prio_def k)
  qed
  from that [OF this ok] show thesis .
  qed
qed

lemma lists_ok_rdy_first:
  assumes L: "lists_ok L k" and t: "free_task L k t"
  obtains l r where "rt_put_rdy_first t k = k\<lparr>p_lnk := l, p_rlnk := r\<rparr>"
    "lists_ok (L(os_rdy := t # L os_rdy)) (k\<lparr>p_lnk := l, p_rlnk := r\<rparr>)"
proof -
  define l where "l = (p_lnk k)(t := p_lnk k os_rdy, os_rdy := t)"
  have h: "head k os_rdy" by (simp add: head_def)
  have tt: "tcb k t" "t \<notin> set (L os_rdy)" "t \<noteq> os_rdy" using t head_not_tcb [OF L h, of t] by (auto simp: free_task_def)
  have ro: "os_rdy \<notin> set (L os_rdy)" using head_not_tcb [OF L h] lists_okD(4) [OF L, of _ os_rdy] by blast
  have rt: "p_rlnk k t = NULL" using L t by (auto simp: lists_ok_def free_task_def)
  have "lists_ok (L(os_rdy := t # L os_rdy)) (k\<lparr>p_lnk := l, p_rlnk := (p_rlnk k)(t := NULL)\<rparr>)"
  proof (rule lists_ok_change [OF L h])
    show "links l os_rdy (t # L os_rdy) NULL"
      using lists_okD(1) [OF L h] tt ro by (cases "L os_rdy") (auto simp: l_def)
    show "backs ((p_rlnk k)(t := NULL)) os_rdy (t # L os_rdy)" if "obj k os_rdy" using that rdy_not_obj [OF L] by simp
    show "distinct (t # L os_rdy)" using tt lists_okD(3) [OF L] by simp
    show "\<forall>x\<in>set (t # L os_rdy). tcb k x \<and> (\<forall>g. g \<noteq> os_rdy \<longrightarrow> x \<notin> set (L g))"
      using t lists_okD(4,5) [OF L, of _ os_rdy] by (auto simp: free_task_def)
    show "((p_rlnk k)(t := NULL)) x = NULL" if "tcb k x" "x \<in> set (t # L os_rdy) \<union> set (L os_rdy)" for x
      using that rt L ready_not_waiting [OF L, of x] by (auto simp: lists_ok_def)
  qed (auto simp: l_def)
  then show thesis by (intro that [of "(p_rlnk k)(t := NULL)" l]) (auto simp: rt_put_rdy_first_def setters l_def)
qed

end
