(* ===== verification/RtxDelay.thy ===== *)
theory RtxDelay
  imports RtxLists
begin

text \<open>
  The delay list as a list of tasks with the ticks left: \<open>rt_put_dly\<close>, \<open>rt_rmv_dly\<close> and \<open>rt_dec_dly\<close> keep it and change no other
  time.
\<close>

section \<open>Times until the timeouts\<close>

text \<open>
  A block of the list holds the time between the next task and itself; \<open>deltas dt p b ds e\<close>: from the block \<open>p\<close>, whose
  own time is \<open>b\<close>, the fields \<open>dt\<close> give the tasks and their times \<open>ds\<close>, and the last block holds \<open>e\<close>.
\<close>

fun deltas :: "(ptr \<Rightarrow> u16) \<Rightarrow> ptr \<Rightarrow> nat \<Rightarrow> (ptr \<times> nat) list \<Rightarrow> nat \<Rightarrow> bool" where
  "deltas dt p b [] e \<longleftrightarrow> unat (dt p) = e"
| "deltas dt p b ((x, r) # ds) e \<longleftrightarrow> b \<le> r \<and> unat (dt p) = r - b \<and> deltas dt x r ds e"

definition gap :: "nat \<Rightarrow> (ptr \<times> nat) list \<Rightarrow> nat \<Rightarrow> nat" where
  "gap b ds e = (case ds of [] \<Rightarrow> e | (x, r) # _ \<Rightarrow> r - b)"

lemma deltas_upd [simp]: "a \<noteq> p \<Longrightarrow> a \<notin> fst ` set ds \<Longrightarrow> deltas (dt(a := v)) p b ds e = deltas dt p b ds e"
  by (induction dt p b ds e rule: deltas.induct) auto

lemma deltas_gap: "deltas dt p b ds e \<Longrightarrow> unat (dt p) = gap b ds e"
  by (cases ds) (auto simp: gap_def)

lemma deltas_append: "deltas dt p b (ys @ zs) e \<longleftrightarrow>
    deltas dt p b ys (gap (last (b # map snd ys)) zs e) \<and> deltas dt (last (p # map fst ys)) (last (b # map snd ys)) zs e"
proof (induction ys arbitrary: p b)
  case Nil
  then show ?case by (cases zs) (auto simp: gap_def)
next
  case (Cons d ys)
  then show ?case by (cases d; cases ys) (auto simp: gap_def)
qed

lemma deltas_move: "deltas dt p b ds e \<Longrightarrow> distinct (p # map fst ds) \<Longrightarrow>
    deltas (dt(last (p # map fst ds) := v)) p b ds (unat v)"
proof (induction dt p b ds e rule: deltas.induct)
  case (2 dt p b x r ds e)
  have "last (x # map fst ds) \<in> set (x # map fst ds)" by (rule last_in_set) simp
  then have "last (x # map fst ds) \<noteq> p" using 2(3) by (auto simp del: last.simps)
  then show ?case using 2 by auto
qed simp

lemma deltas_mono: "deltas dt p b ds e \<Longrightarrow> (x, r) \<in> set ds \<Longrightarrow> b \<le> r"
  by (induction dt p b ds e rule: deltas.induct) auto

lemma deltas_sorted: "deltas dt p b ds e \<Longrightarrow> sorted (b # map snd ds)"
  by (induction dt p b ds e rule: deltas.induct) auto

definition dly_ins :: "ptr \<Rightarrow> nat \<Rightarrow> (ptr \<times> nat) list \<Rightarrow> (ptr \<times> nat) list" where
  "dly_ins t n D = takeWhile (\<lambda>d. snd d < n) D @ (t, n) # dropWhile (\<lambda>d. snd d < n) D"

definition delays_ok :: "(ptr \<times> nat) list \<Rightarrow> kernel \<Rightarrow> bool" where
  "delays_ok D k \<longleftrightarrow> cb_type k os_dly = HCB
     \<and> links (p_dlnk k) os_dly (map fst D) NULL \<and> backs (p_blnk k) os_dly (map fst D)
     \<and> distinct (map fst D) \<and> (\<forall>x\<in>fst ` set D. tcb k x) \<and> (\<forall>x. tcb k x \<and> x \<notin> fst ` set D \<longrightarrow> p_blnk k x = NULL)
     \<and> deltas (delta_time k) os_dly 0 D 0 \<and> (\<forall>d\<in>set D. snd d < 0xFFFF)"

lemma delays_okD:
  assumes "delays_ok D k"
  shows "links (p_dlnk k) os_dly (map fst D) NULL" "backs (p_blnk k) os_dly (map fst D)" "distinct (map fst D)"
    "x \<in> fst ` set D \<Longrightarrow> tcb k x" "tcb k x \<Longrightarrow> x \<notin> fst ` set D \<Longrightarrow> p_blnk k x = NULL" "deltas (delta_time k) os_dly 0 D 0"
    "d \<in> set D \<Longrightarrow> snd d < 0xFFFF" "cb_type k os_dly = HCB" "NULL \<notin> fst ` set D" "os_dly \<notin> fst ` set D"
  using assms by (auto simp: delays_ok_def tcb_def cb_types)

lemma tcb_delays [simp]: "tcb (k\<lparr>p_dlnk := d, p_blnk := b, delta_time := t\<rparr>) x = tcb k x"
  by (simp add: tcb_def)

lemma put_dly_loop_deltas:
  "links (p_dlnk k) p (map fst zs) NULL \<Longrightarrow> deltas (delta_time k) p b zs 0 \<Longrightarrow> b < n \<Longrightarrow> n < 0xFFFF
     \<Longrightarrow> \<forall>d\<in>set zs. snd d < 0xFFFF \<Longrightarrow> NULL \<notin> fst ` set zs
     \<Longrightarrow> put_dly_loop t (of_nat n) k p (of_nat (b + unat (delta_time k p)))
       = Some (let ys = takeWhile (\<lambda>d. snd d < n) zs; p' = last (p # map fst ys) in
           case dropWhile (\<lambda>d. snd d < n) zs of
             [] \<Rightarrow> dly_append t p' (of_nat (last (b # map snd ys))) (of_nat n) k
           | (z, r) # _ \<Rightarrow> dly_insert t p' (of_nat r) (of_nat n) k)"
proof (induction zs arbitrary: p b)
  case Nil
  then show ?case by (simp add: put_dly_loop.simps word_less_nat_alt unat_of_nat)
next
  case (Cons d zs)
  obtain z r where d: "d = (z, r)" by (cases d)
  from Cons.prems d have r: "b \<le> r" "unat (delta_time k p) = r - b" "deltas (delta_time k) z r zs 0" "r < 0xFFFF" "p_dlnk k p = z" "z \<noteq> NULL"
    "links (p_dlnk k) z (map fst zs) NULL" by auto
  have lt: "(of_nat r :: u32) < of_nat n \<longleftrightarrow> r < n" using r(4) Cons.prems(4) by (simp add: word_less_nat_alt unat_of_nat)
  show ?case
  proof (cases "r < n")
    case True
    have e: "(of_nat r :: u32) + ucast (delta_time k z) = of_nat (r + unat (delta_time k z))"
      by simp
    have "put_dly_loop t (of_nat n) k z (of_nat r + ucast (delta_time k z)) = Some (let ys = takeWhile (\<lambda>d. snd d < n) zs; p' = last (z # map fst ys) in
           case dropWhile (\<lambda>d. snd d < n) zs of
             [] \<Rightarrow> dly_append t p' (of_nat (last (r # map snd ys))) (of_nat n) k
           | (z, r) # _ \<Rightarrow> dly_insert t p' (of_nat r) (of_nat n) k)"
      unfolding e by (rule Cons.IH) (use Cons.prems r True in auto)
    moreover have "put_dly_loop t (of_nat n) k p (of_nat (b + unat (delta_time k p))) = put_dly_loop t (of_nat n) k z (of_nat r + ucast (delta_time k z))"
      using r True lt by (subst put_dly_loop.simps) simp
    ultimately show ?thesis using True by (cases "dropWhile (\<lambda>d. snd d < n) zs") (auto simp: d Let_def simp del: dropWhile_eq_Nil_conv)
  next
    case False
    then show ?thesis using r lt by (simp add: put_dly_loop.simps [of _ _ _ p] d)
  qed
qed

lemma u16_of_u32: "(ucast (of_nat m :: u32) :: u16) = of_nat m"
  by (simp add: unsigned_of_nat word_of_nat_eq_iff)

lemma u16_of_u32_diff: "b \<le> m \<Longrightarrow> (ucast (of_nat m - of_nat b :: u32) :: u16) = of_nat (m - b)"
  by (metis of_nat_diff u16_of_u32)

lemma deltas_insert:
  assumes D: "deltas dt p b (ys @ zs) 0" and d: "distinct (p # map fst (ys @ zs))" and t: "t \<notin> set (p # map fst (ys @ zs))"
    and n: "last (b # map snd ys) \<le> n" "n < 0xFFFF" "\<forall>d\<in>set zs. n \<le> snd d \<and> snd d < 0xFFFF"
  shows "deltas (dt(t := of_nat (gap n zs 0), last (p # map fst ys) := of_nat (n - last (b # map snd ys)))) p b (ys @ (t, n) # zs) 0"
proof -
  let ?q = "last (p # map fst ys)" and ?c = "last (b # map snd ys)"
  have q: "?q \<in> set (p # map fst ys)" by (rule last_in_set) simp
  have "set (p # map fst ys) \<inter> fst ` set zs = {}" using d by auto
  with q have "?q \<notin> fst ` set zs" by blast
  moreover have "?q \<noteq> t" using q t by (auto simp del: last.simps)
  ultimately have qt: "?q \<noteq> t" "t \<noteq> ?q" "?q \<notin> fst ` set zs" by metis+
  have tz: "t \<notin> fst ` set zs" "t \<notin> set (p # map fst ys)" using t by auto
  from D have a: "deltas dt p b ys (gap ?c zs 0)" and z: "deltas dt ?q ?c zs 0" by (simp_all add: deltas_append del: last.simps)
  have g: "gap n zs 0 < 0xFFFF" using n by (cases zs) (auto simp: gap_def)
  have un: "unat (of_nat (n - ?c) :: u16) = n - ?c" "unat (of_nat (gap n zs 0) :: u16) = gap n zs 0"
    using n(2) g by (simp_all add: unat_of_nat del: of_nat_diff)
  have dy: "distinct (p # map fst ys)" using d by simp
  have 1: "deltas (dt(?q := of_nat (n - ?c))) p b ys (n - ?c)" using deltas_move [OF a dy, of "of_nat (n - ?c)"] unfolding un(1) .
  have 2: "deltas dt t n zs 0 \<longleftrightarrow> unat (dt t) = gap n zs 0" if "deltas dt ?q ?c zs 0" for dt
    using that n by (cases zs) (auto simp: gap_def)
  have tw: "dt(t := x, ?q := y) = dt(?q := y, t := x)" for x y using qt(2) by (rule fun_upd_twist)
  have "deltas (dt(t := of_nat (gap n zs 0), ?q := of_nat (n - ?c))) p b ys (n - ?c)"
    unfolding tw using 1 tz by (subst deltas_upd) auto
  moreover have "deltas (dt(t := of_nat (gap n zs 0), ?q := of_nat (n - ?c))) t n zs 0"
  proof (cases zs)
    case Nil
    then show ?thesis using qt un by (simp add: gap_def del: last.simps)
  next
    case (Cons e zs')
    obtain x r where e: "e = (x, r)" by (cases e)
    have "deltas dt x r zs' 0" "x \<noteq> t" "t \<notin> fst ` set zs'" "?q \<noteq> x" "?q \<notin> fst ` set zs'" using z qt tz by (auto simp: Cons e)
    then show ?thesis using qt un n by (simp add: Cons e gap_def del: last.simps)
  qed
  ultimately show ?thesis using n(1) qt un by (simp add: deltas_append gap_def del: last.simps of_nat_diff)
qed

lemma u16_diff: "unat (x :: u16) - unat y = d \<Longrightarrow> y \<le> x \<Longrightarrow> x - y = of_nat d"
  by (metis of_nat_unat unat_sub ucast_id)

lemma delays_ok_put:
  assumes D: "delays_ok D k" and t: "tcb k t" "t \<notin> fst ` set D" and n: "0 < n" "n < 0xFFFF"
  obtains d b dt where "rt_put_dly t (of_nat n) k = Some (k\<lparr>p_dlnk := d, p_blnk := b, delta_time := dt\<rparr>)"
    "delays_ok (dly_ins t n D) (k\<lparr>p_dlnk := d, p_blnk := b, delta_time := dt\<rparr>)"
proof -
  define ys zs where "ys = takeWhile (\<lambda>d. snd d < n) D" and "zs = dropWhile (\<lambda>d. snd d < n) D"
  have Dz: "D = ys @ zs" and ins: "dly_ins t n D = ys @ (t, n) # zs" by (simp_all add: ys_def zs_def dly_ins_def)
  let ?p = "last (os_dly # map fst ys)" and ?b = "last (0 # map snd ys)"
  have tt: "t \<noteq> NULL" "t \<noteq> os_dly" using t delays_okD(8) [OF D] by (auto simp: tcb_def cb_types)
  have d: "distinct (os_dly # map fst ys @ map fst zs)" "t \<notin> set (os_dly # map fst ys @ map fst zs)"
    using delays_okD(3,10) [OF D] t tt by (auto simp: Dz)
  have lk: "links (p_dlnk k) os_dly (map fst ys @ map fst zs) NULL" and bk: "backs (p_blnk k) os_dly (map fst ys @ map fst zs)"
    and dt: "deltas (delta_time k) os_dly 0 (ys @ zs) 0" using delays_okD(1,2,6) [OF D] by (simp_all add: Dz)
  have "\<forall>e\<in>set ys. snd e < n" unfolding ys_def by (auto dest: set_takeWhileD)
  then have ysn: "?b < n" using n(1) by (cases ys rule: rev_cases) auto
  have zsn: "\<forall>e\<in>set zs. n \<le> snd e \<and> snd e < 0xFFFF"
  proof
    fix e assume e: "e \<in> set zs"
    have "sorted (map snd D)" using deltas_sorted [OF delays_okD(6) [OF D]] by simp
    then have "n \<le> snd e" using e unfolding zs_def
      by (induction D) (fastforce split: if_splits)+
    moreover have "snd e < 0xFFFF" using e delays_okD(7) [OF D, of e] by (auto simp: Dz)
    ultimately show "n \<le> snd e \<and> snd e < 0xFFFF" ..
  qed
  have pt: "?p \<noteq> t" "t \<noteq> ?p" using d last_in_set [of "os_dly # map fst ys"] by (auto simp del: last.simps)
  have zN: "NULL \<notin> fst ` set zs" using delays_okD(9) [OF D] by (auto simp: Dz)
  have dp: "unat (delta_time k ?p) = gap ?b zs 0" using dt by (simp add: deltas_append deltas_gap del: last.simps)
  have ru: "rt_put_dly t (of_nat n) k = Some (case zs of [] \<Rightarrow> dly_append t ?p (of_nat ?b) (of_nat n) k
      | (z, r) # _ \<Rightarrow> dly_insert t ?p (of_nat r) (of_nat n) k)"
  proof (cases "D = []")
    case True
    then show ?thesis using lk n by (simp add: rt_put_dly_def ys_def zs_def unsigned_of_nat take_bit_nat_eq_self)
  next
    case False
    then have "p_dlnk k os_dly \<noteq> NULL" using delays_okD(1,9) [OF D] by (cases D) auto
    moreover have "(ucast (of_nat n :: u16) :: u32) = of_nat n" using n by (simp add: unsigned_of_nat take_bit_nat_eq_self)
    ultimately show ?thesis
      using put_dly_loop_deltas [of k os_dly D 0 n t, folded ys_def zs_def] delays_okD(1,6,7,9) [OF D] n
      by (simp add: rt_put_dly_def Let_def del: last.simps)
  qed
  define dl where "dl = (p_dlnk k)(t := hd (map fst zs @ [NULL]), ?p := t)"
  define bl where "bl = (case map fst zs of [] \<Rightarrow> (p_blnk k)(t := ?p) | z # _ \<Rightarrow> (p_blnk k)(z := t, t := ?p))"
  define dd where "dd = (delta_time k)(t := of_nat (gap n zs 0), ?p := of_nat (n - ?b))"
  have eq: "rt_put_dly t (of_nat n) k = Some (k\<lparr>p_dlnk := dl, p_blnk := bl, delta_time := dd\<rparr>)"
  proof (cases zs)
    case Nil
    have "(ucast (of_nat n - of_nat ?b :: u32) :: u16) = of_nat (n - ?b)"
      using ysn by (intro u16_of_u32_diff) simp
    then show ?thesis using Nil pt by (simp add: ru dly_append_def setters dl_def bl_def dd_def gap_def fun_upd_twist [of t] del: last.simps)
  next
    case (Cons e zs')
    obtain z r where e: "e = (z, r)" by (cases e)
    have r: "n \<le> r" "r < 0xFFFF" "z \<noteq> NULL" "z \<noteq> t" "t \<noteq> z" using zsn zN d by (auto simp: Cons e)
    have pz: "p_dlnk k ?p = z" using lk by (simp add: links_append Cons e del: last.simps)
    have c1: "(ucast (of_nat r - of_nat n :: u32) :: u16) = of_nat (r - n)"
      using r by (intro u16_of_u32_diff) simp
    have c2: "delta_time k ?p - of_nat (r - n) = of_nat (n - ?b)"
    proof (rule u16_diff)
      have u: "unat (of_nat (r - n) :: u16) = r - n" "unat (delta_time k ?p) = r - ?b" using r dp by (simp_all add: unat_of_nat Cons e gap_def del: of_nat_diff)
      then show "unat (delta_time k ?p) - unat (of_nat (r - n) :: u16) = n - ?b" using r ysn by linarith
      show "(of_nat (r - n) :: u16) \<le> delta_time k ?p" using u ysn by (simp add: word_le_nat_alt)
    qed
    show ?thesis using Cons e pz pt r c1 c2
      by (simp add: ru dly_insert_def setters Let_def dl_def bl_def dd_def gap_def fun_upd_twist [of t] del: last.simps)
  qed
  have "delays_ok (ys @ (t, n) # zs) (k\<lparr>p_dlnk := dl, p_blnk := bl, delta_time := dd\<rparr>)"
    unfolding delays_ok_def
  proof (intro conjI)
    let ?k = "k\<lparr>p_dlnk := dl, p_blnk := bl, delta_time := dd\<rparr>" and ?D = "ys @ (t, n) # zs"
    show "cb_type ?k os_dly = HCB" using delays_okD(8) [OF D] by simp
    show "links (p_dlnk ?k) os_dly (map fst ?D) NULL" using links_insert [OF lk d] by (simp add: dl_def del: last.simps)
    show "backs (p_blnk ?k) os_dly (map fst ?D)" using backs_insert [OF bk] d by (simp add: bl_def del: last.simps)
    show "distinct (map fst ?D)" using d by auto
    show "\<forall>x\<in>fst ` set ?D. tcb ?k x" using delays_okD(4) [OF D] t by (auto simp: Dz)
    show "\<forall>x. tcb ?k x \<and> x \<notin> fst ` set ?D \<longrightarrow> p_blnk ?k x = NULL"
      using delays_okD(5) [OF D] by (cases zs) (auto simp: Dz bl_def)
    show "deltas (delta_time ?k) os_dly 0 ?D 0" using deltas_insert [OF dt, of t n] d ysn n zsn by (simp add: dd_def del: last.simps)
    show "\<forall>e\<in>set ?D. snd e < 0xFFFF" using delays_okD(7) [OF D] n by (auto simp: Dz)
  qed
  then have "delays_ok (dly_ins t n D) (k\<lparr>p_dlnk := dl, p_blnk := bl, delta_time := dd\<rparr>)" by (simp only: ins)
  with eq show thesis by (rule that)
qed

lemma deltas_remove:
  assumes D: "deltas dt p b (ys @ (x, r) # zs) 0" and d: "distinct (p # map fst (ys @ (x, r) # zs))"
    and n: "\<forall>d\<in>set zs. snd d < 0xFFFF"
  shows "deltas (dt(last (p # map fst ys) := (if zs = [] then 0 else dt (last (p # map fst ys)) + dt x))) p b (ys @ zs) 0"
proof -
  let ?q = "last (p # map fst ys)" and ?c = "last (b # map snd ys)"
  let ?v = "if zs = [] then 0 else dt ?q + dt x"
  have q: "?q \<in> set (p # map fst ys)" by (rule last_in_set) simp
  have "set (p # map fst ys) \<inter> fst ` set zs = {}" "x \<notin> set (p # map fst ys)" using d by auto
  with q have qz: "?q \<notin> fst ` set zs" "?q \<noteq> x" by blast+
  from D have a: "deltas dt p b ys (r - ?c)" and c: "?c \<le> r" "unat (dt ?q) = r - ?c" and z: "deltas dt x r zs 0"
    by (simp_all add: deltas_append gap_def del: last.simps)
  have dy: "distinct (p # map fst ys)" using d by simp
  have v: "unat ?v = gap ?c zs 0"
  proof (cases zs)
    case (Cons e zs')
    obtain y s where e: "e = (y, s)" by (cases e)
    have s: "r \<le> s" "unat (dt x) = s - r" "s < 0xFFFF" using z n by (auto simp: Cons e)
    then have "unat (dt ?q + dt x) = (r - ?c) + (s - r)" using c by (subst unat_add_lem [THEN iffD1]) (auto simp del: last.simps)
    then show ?thesis using s c by (simp add: Cons e gap_def del: last.simps)
  qed (simp add: gap_def)
  have 1: "deltas (dt(?q := ?v)) p b ys (gap ?c zs 0)" using deltas_move [OF a dy, of ?v] unfolding v .
  have "deltas (dt(?q := ?v)) ?q ?c zs 0"
  proof (cases zs)
    case (Cons e zs')
    obtain y s where e: "e = (y, s)" by (cases e)
    have "deltas dt y s zs' 0" "?q \<noteq> y" "?q \<notin> fst ` set zs'" "r \<le> s" using z qz by (auto simp: Cons e)
    then show ?thesis using v c by (simp add: Cons e gap_def del: last.simps)
  qed simp
  with 1 show ?thesis by (simp add: deltas_append del: last.simps)
qed

lemma delays_ok_rmv:
  assumes D: "delays_ok D k" and x: "D = ys @ (x, n) # zs"
  obtains d b dt where "rt_rmv_dly x k = k\<lparr>p_dlnk := d, p_blnk := b, delta_time := dt\<rparr>"
    "delays_ok (ys @ zs) (k\<lparr>p_dlnk := d, p_blnk := b, delta_time := dt\<rparr>)"
proof -
  let ?p = "last (os_dly # map fst ys)"
  have d: "distinct (os_dly # map fst ys @ x # map fst zs)" using delays_okD(3,10) [OF D] by (auto simp: x)
  have lk: "links (p_dlnk k) os_dly (map fst ys @ x # map fst zs) NULL" and bk: "backs (p_blnk k) os_dly (map fst ys @ x # map fst zs)"
    and dt: "deltas (delta_time k) os_dly 0 (ys @ (x, n) # zs) 0" using delays_okD(1,2,6) [OF D] by (simp_all add: x)
  have pb: "p_blnk k x = ?p" using backs_at [OF bk] .
  have px: "p_dlnk k x = hd (map fst zs @ [NULL])" using lk by (simp add: links_append links_first del: last.simps)
  have N: "NULL \<notin> fst ` set D" using delays_okD(9) [OF D] .
  have p: "?p \<in> set (os_dly # map fst ys)" by (rule last_in_set) simp
  moreover have "NULL \<notin> set (os_dly # map fst ys)" "x \<notin> set (os_dly # map fst ys)" using N d by (auto simp: x)
  ultimately have pN: "?p \<noteq> NULL" "?p \<noteq> x" by metis+
  define dl where "dl = (if zs = [] then (p_dlnk k)(?p := NULL) else (p_dlnk k)(?p := p_dlnk k x, x := NULL))"
  define bl where "bl = (case map fst zs of [] \<Rightarrow> (p_blnk k) | z # _ \<Rightarrow> (p_blnk k)(z := p_blnk k x))(x := NULL)"
  define dd where "dd = (delta_time k)(?p := (if zs = [] then 0 else delta_time k ?p + delta_time k x))"
  have eq: "rt_rmv_dly x k = k\<lparr>p_dlnk := dl, p_blnk := bl, delta_time := dd\<rparr>"
  proof (cases zs)
    case Nil
    then show ?thesis using pN px by (simp add: rt_rmv_dly_def pb setters dl_def bl_def dd_def Let_def del: last.simps)
  next
    case (Cons e zs')
    have "p_dlnk k x \<noteq> NULL" "fst e \<noteq> x" using px N d by (auto simp: Cons x)
    then show ?thesis using pN px by (simp add: rt_rmv_dly_def pb setters dl_def bl_def dd_def Cons Let_def del: last.simps)
  qed
  have "delays_ok (ys @ zs) (k\<lparr>p_dlnk := dl, p_blnk := bl, delta_time := dd\<rparr>)"
    unfolding delays_ok_def
  proof (intro conjI)
    let ?k = "k\<lparr>p_dlnk := dl, p_blnk := bl, delta_time := dd\<rparr>" and ?D = "ys @ zs"
    show "cb_type ?k os_dly = HCB" using delays_okD(8) [OF D] by simp
    have l: "links ((p_dlnk k)(?p := p_dlnk k x)) os_dly (map fst ys @ map fst zs) NULL" using links_remove [OF lk d] .
    show "links (p_dlnk ?k) os_dly (map fst ?D) NULL"
      using l d px by (cases zs) (auto simp: dl_def simp del: last.simps)
    show "backs (p_blnk ?k) os_dly (map fst ?D)" using backs_remove [OF bk] d by (simp add: bl_def del: last.simps)
    show "distinct (map fst ?D)" using d by auto
    show "\<forall>y\<in>fst ` set ?D. tcb ?k y" using delays_okD(4) [OF D] by (auto simp: x)
    show "\<forall>y. tcb ?k y \<and> y \<notin> fst ` set ?D \<longrightarrow> p_blnk ?k y = NULL"
      using delays_okD(5) [OF D] by (cases zs) (auto simp: x bl_def)
    show "deltas (delta_time ?k) os_dly 0 ?D 0" using deltas_remove [OF dt] d delays_okD(7) [OF D] by (simp add: dd_def x del: last.simps)
    show "\<forall>e\<in>set ?D. snd e < 0xFFFF" using delays_okD(7) [OF D] by (auto simp: x)
  qed
  with eq show thesis by (rule that)
qed

definition without :: "ptr \<Rightarrow> (ptr \<times> nat) list \<Rightarrow> (ptr \<times> nat) list" where
  "without x D = filter (\<lambda>d. fst d \<noteq> x) D"

lemma delays_ok_without:
  assumes D: "delays_ok D k" and x: "tcb k x"
  obtains d b dt where "rt_rmv_dly x k = k\<lparr>p_dlnk := d, p_blnk := b, delta_time := dt\<rparr>"
    "delays_ok (without x D) (k\<lparr>p_dlnk := d, p_blnk := b, delta_time := dt\<rparr>)"
proof (cases "x \<in> fst ` set D")
  case True
  then obtain n where "(x, n) \<in> set D" by auto
  then obtain ys zs where s: "D = ys @ (x, n) # zs" by (auto dest: split_list)
  have "x \<notin> fst ` set (ys @ zs)" using delays_okD(3) [OF D] by (auto simp: s)
  then have "\<forall>d\<in>set ys. fst d \<noteq> x" "\<forall>d\<in>set zs. fst d \<noteq> x" by force+
  then have "without x D = ys @ zs" by (simp add: s without_def)
  then show ?thesis using delays_ok_rmv [OF D s] that by (metis (no_types))
next
  case False
  then have "\<forall>d\<in>set D. fst d \<noteq> x" by force
  then have "without x D = D" by (simp add: without_def)
  moreover have "rt_rmv_dly x k = k" using delays_okD(5) [OF D x False] by (simp add: rt_rmv_dly_def)
  ultimately show ?thesis using D by (intro that [where d = "p_dlnk k" and b = "p_blnk k" and dt = "delta_time k"]) auto
qed

end
