(* ===== verification/RtxBox.thy ===== *)
theory RtxBox
  imports Prelude
begin

text \<open>
  The allocators of the RTX kernel: the fixed-size blocks of \<open>rt_MemBox.c\<close> and the memory pools of \<open>rt_Memory.c\<close>.
  Memory is a map from the address of a 32-bit word to the word; the three fields of \<open>OS_BM\<close> are the words at the
  offsets 0, 4 and 8, the two fields of \<open>MEMP\<close> those at 0 and 4.
\<close>

unbundle bit_operations_syntax

type_synonym memory = "u32 \<Rightarrow> u32"

section \<open>Memory boxes\<close>

definition BOX_ALIGN_8 :: u32 where "BOX_ALIGN_8 = 0x80000000"
definition sizeof_OS_BM :: u32 where "sizeof_OS_BM = 12"

definition bm_free :: "u32 \<Rightarrow> u32" where "bm_free box = box"
definition bm_end :: "u32 \<Rightarrow> u32" where "bm_end box = box + 4"
definition bm_blk_size :: "u32 \<Rightarrow> u32" where "bm_blk_size box = box + 8"

partial_function (option) link_blocks :: "memory \<Rightarrow> u32 \<Rightarrow> u32 \<Rightarrow> u32 \<Rightarrow> memory option" where
  "link_blocks m blk last_blk blk_size = (let next_blk = blk + blk_size in
     if last_blk < next_blk then Some (m(blk := 0)) else link_blocks (m(blk := next_blk)) next_blk last_blk blk_size)"

definition init_box :: "u32 \<Rightarrow> u32 \<Rightarrow> u32 \<Rightarrow> memory \<Rightarrow> (u32 \<times> memory) option" where
  "init_box box_mem box_size blk_size m = (
     let (blk_size, sizeof_bm) = (if blk_size AND BOX_ALIGN_8 \<noteq> 0
           then (((blk_size AND NOT BOX_ALIGN_8) + 7) AND NOT 7, (sizeof_OS_BM + 7) AND NOT 7)
           else ((blk_size + 3) AND NOT 3, sizeof_OS_BM)) in
     if blk_size = 0 then Some (1, m)
     else if box_size < blk_size + sizeof_bm then Some (1, m)
     else do {
       let blk = box_mem + sizeof_bm;
       let last_blk = box_mem + box_size;
       let m = m(bm_free box_mem := blk, bm_end box_mem := last_blk, bm_blk_size box_mem := blk_size);
       m \<leftarrow> link_blocks m blk (last_blk - blk_size) blk_size;
       Some (0, m) })"

text \<open>The exclusive load and store of \<open>rt_alloc_box\<close> and \<open>rt_free_box\<close> make each a single step.\<close>

definition rt_alloc_box :: "u32 \<Rightarrow> memory \<Rightarrow> u32 \<times> memory" where
  "rt_alloc_box box_mem m = (let free = m (bm_free box_mem) in
     if free = 0 then (0, m) else (free, m(bm_free box_mem := m free)))"

partial_function (option) clear_words :: "memory \<Rightarrow> u32 \<Rightarrow> u32 \<Rightarrow> memory option" where
  "clear_words m p i = (if i \<noteq> 0 then clear_words (m(p := 0)) (p + 4) (i - 4) else Some m)"

definition calloc_box :: "u32 \<Rightarrow> memory \<Rightarrow> (u32 \<times> memory) option" where
  "calloc_box box_mem m = (let (free, m) = rt_alloc_box box_mem m in
     if free \<noteq> 0 then do { m \<leftarrow> clear_words m free (m (bm_blk_size box_mem)); Some (free, m) } else Some (free, m))"

definition rt_free_box :: "u32 \<Rightarrow> u32 \<Rightarrow> memory \<Rightarrow> u32 \<times> memory" where
  "rt_free_box box_mem box m = (if box < box_mem \<or> m (bm_end box_mem) \<le> box then (1, m)
     else (0, m(box := m (bm_free box_mem), bm_free box_mem := box)))"

section \<open>Memory pools\<close>

definition sizeof_MEMP :: u32 where "sizeof_MEMP = 8"

definition memp_next :: "u32 \<Rightarrow> u32" where "memp_next p = p"
definition memp_len :: "u32 \<Rightarrow> u32" where "memp_len p = p + 4"

definition rt_init_mem :: "u32 \<Rightarrow> u32 \<Rightarrow> memory \<Rightarrow> u32 \<times> memory" where
  "rt_init_mem pool sz m = (if pool = 0 \<or> sz < sizeof_MEMP then (1, m)
     else let e = pool + sz - 4 in (0, m(memp_next pool := e, memp_next e := 0, memp_len pool := 0)))"

partial_function (option) hole_search :: "memory \<Rightarrow> u32 \<Rightarrow> u32 \<Rightarrow> u32 option" where
  "hole_search m sz p_search = (if sz \<le> m (memp_next p_search) - p_search - m (memp_len p_search) then Some p_search
     else let p_search = m (memp_next p_search) in if m (memp_next p_search) = 0 then Some 0 else hole_search m sz p_search)"

definition rt_alloc_mem :: "u32 \<Rightarrow> u32 \<Rightarrow> memory \<Rightarrow> (u32 \<times> memory) option" where
  "rt_alloc_mem pool sz m = (if pool = 0 \<or> sz = 0 then Some (0, m)
     else do {
       let sz = (sz + sizeof_MEMP + 3) AND NOT 3;
       p_search \<leftarrow> hole_search m sz pool;
       Some (if p_search = 0 then (0, m)
         else if m (memp_len p_search) = 0 then (p_search + sizeof_MEMP, m(memp_len p_search := sz))
         else let p_new = p_search + m (memp_len p_search)
              in (p_new + sizeof_MEMP, m(memp_next p_new := m (memp_next p_search), memp_len p_new := sz, memp_next p_search := p_new))) })"

partial_function (option) mem_search :: "memory \<Rightarrow> u32 \<Rightarrow> u32 \<Rightarrow> u32 \<Rightarrow> (u32 \<times> u32) option" where
  "mem_search m p_return p_prev p_search = (if p_search \<noteq> p_return
     then let p_prev = p_search; p_search = m (memp_next p_search)
          in if p_search = 0 then Some (p_prev, 0) else mem_search m p_return p_prev p_search
     else Some (p_prev, p_search))"

definition rt_free_mem :: "u32 \<Rightarrow> u32 \<Rightarrow> memory \<Rightarrow> (u32 \<times> memory) option" where
  "rt_free_mem pool mem m = (if pool = 0 \<or> mem = 0 then Some (1, m)
     else do {
       (p_prev, p_search) \<leftarrow> mem_search m (mem - sizeof_MEMP) 0 pool;
       Some (if p_search = 0 then (1, m)
         else if p_prev = 0 then (0, m(memp_len p_search := 0))
         else (0, m(memp_next p_prev := m (memp_next p_search)))) })"

end
