(* ===== verification/RtxCalls.thy ===== *)
theory RtxCalls
  imports RtxDelay RtxBox
begin

text \<open>
  The calls of the RTX kernel: dispatching and blocking (\<open>rt_Task.c\<close>), time (\<open>rt_Time.c\<close>, \<open>rt_Robin.c\<close>), semaphores,
  event flags, mailboxes, mutexes and the handlers of the tick and of the post service requests (\<open>rt_System.c\<close>), as
  compiled with \<open>__CMSIS_RTOS\<close>.  A call leaves the task to continue in \<open>new_tsk\<close>; \<open>context_switch\<close> is the end of the
  handler, which makes it the running task.
\<close>

unbundle bit_operations_syntax

section \<open>Dispatching\<close>

definition rt_ret_val :: "ptr \<Rightarrow> u32 \<Rightarrow> kernel \<Rightarrow> kernel" where
  "rt_ret_val p v0 k = k\<lparr>ret_regs := (ret_regs k)(p := (v0, snd (ret_regs k p)))\<rparr>"

definition rt_ret_val2 :: "ptr \<Rightarrow> u32 \<Rightarrow> u32 \<Rightarrow> kernel \<Rightarrow> kernel" where
  "rt_ret_val2 p v0 v1 k = k\<lparr>ret_regs := (ret_regs k)(p := (v0, v1))\<rparr>"

definition rt_rdy_prio :: "kernel \<Rightarrow> u8 option" where
  "rt_rdy_prio k = do { deref (p_lnk k os_rdy); Some (prio k (p_lnk k os_rdy)) }"

text \<open>The observer of thread switches (\<open>osEventObs\<close>) is not registered by the program.\<close>

definition rt_switch_req :: "ptr \<Rightarrow> kernel \<Rightarrow> kernel" where
  "rt_switch_req p_new k = set_state p_new RUNNING (k\<lparr>new_tsk := p_new\<rparr>)"

definition dispatch_next :: "kernel \<Rightarrow> kernel option" where
  "dispatch_next k = do { (next_TCB, k) \<leftarrow> rt_get_first os_rdy k; Some (rt_switch_req next_TCB k) }"

definition rt_dispatch :: "ptr \<Rightarrow> kernel \<Rightarrow> kernel option" where
  "rt_dispatch next_TCB k =
     (if next_TCB = NULL then dispatch_next k
      else do {
        deref (run k);
        if prio k (run k) < prio k next_TCB
        then Some (rt_switch_req next_TCB (set_state (run k) READY (rt_put_rdy_first (run k) k)))
        else rt_put_prio os_rdy next_TCB (set_state next_TCB READY k) })"

definition rt_block :: "u16 \<Rightarrow> u8 \<Rightarrow> kernel \<Rightarrow> kernel option" where
  "rt_block timeout block_state k = (if timeout \<noteq> 0 then do {
     k \<leftarrow> (if timeout < 0xFFFF then rt_put_dly (run k) timeout k else Some k);
     dispatch_next (set_state (run k) block_state k) } else Some k)"

definition rt_tsk_pass :: "kernel \<Rightarrow> kernel option" where
  "rt_tsk_pass k = do {
     (p_new, k) \<leftarrow> rt_get_same_rdy_prio k;
     if p_new \<noteq> NULL then do {
       k \<leftarrow> rt_put_prio os_rdy (run k) k;
       Some (rt_switch_req p_new (set_state (run k) READY k)) }
     else Some k }"

definition rt_tsk_self :: "kernel \<Rightarrow> u32" where
  "rt_tsk_self k = (if run k = NULL then 0 else ucast (task_id k (run k)))"

definition preempt_run :: "kernel \<Rightarrow> kernel option" where
  "preempt_run k = do { k \<leftarrow> rt_put_prio os_rdy (run k) k; dispatch_next (set_state (run k) READY k) }"

definition run_prio_changed :: "u8 \<Rightarrow> kernel \<Rightarrow> kernel option" where
  "run_prio_changed new_prio k = do { p \<leftarrow> rt_rdy_prio k; if new_prio < p then preempt_run k else Some k }"

definition set_prios :: "ptr \<Rightarrow> u8 \<Rightarrow> kernel \<Rightarrow> kernel" where
  "set_prios p v k = k\<lparr>prio := (prio k)(p := v), prio_base := (prio_base k)(p := v)\<rparr>"

definition rt_tsk_prio :: "u32 \<Rightarrow> u8 \<Rightarrow> kernel \<Rightarrow> (u32 \<times> kernel) option" where
  "rt_tsk_prio tid new_prio k =
     (if tid = 0 then do { k \<leftarrow> run_prio_changed new_prio (set_prios (run k) new_prio k); Some (OS_R_OK, k) }
      else if length (os_active_TCB k) < unat tid \<or> os_active_TCB k ! (unat tid - 1) = NULL then Some (OS_R_NOK, k)
      else do {
        let p_task = os_active_TCB k ! (unat tid - 1);
        let k = set_prios p_task new_prio k;
        if p_task = run k then do { k \<leftarrow> run_prio_changed new_prio k; Some (OS_R_OK, k) }
        else do {
          k \<leftarrow> rt_resort_prio p_task k;
          k \<leftarrow> (if state k p_task = READY then do { (p_task, k) \<leftarrow> rt_get_first os_rdy k; rt_dispatch p_task k } else Some k);
          Some (OS_R_OK, k) } })"

definition context_switch :: "kernel \<Rightarrow> kernel" where
  "context_switch k = k\<lparr>run := new_tsk k\<rparr>"

section \<open>Time\<close>

definition rt_time_get :: "kernel \<Rightarrow> u32" where "rt_time_get k = os_time k"

definition rt_dly_wait :: "u16 \<Rightarrow> kernel \<Rightarrow> kernel option" where
  "rt_dly_wait delay_time k = rt_block delay_time WAIT_DLY k"

definition rt_itv_set :: "u16 \<Rightarrow> kernel \<Rightarrow> kernel" where
  "rt_itv_set itv k = set_delta (run k) (itv + ucast (os_time k)) (k\<lparr>interval_time := (interval_time k)(run k := itv)\<rparr>)"

definition rt_itv_wait :: "kernel \<Rightarrow> kernel option" where
  "rt_itv_wait k = (let delta = delta_time k (run k) - ucast (os_time k);
      k = set_delta (run k) (delta_time k (run k) + interval_time k (run k)) k
      in if delta AND 0x8000 = 0 then rt_block delta WAIT_ITV k else Some k)"

definition rt_init_robin :: "u32 \<Rightarrow> kernel \<Rightarrow> kernel" where
  "rt_init_robin os_rrobin k = k\<lparr>robin_task := NULL, robin_tout := ucast os_rrobin\<rparr>"

definition rt_chk_robin :: "kernel \<Rightarrow> kernel option" where
  "rt_chk_robin k = (let k = (if robin_task k \<noteq> p_lnk k os_rdy
        then k\<lparr>robin_task := p_lnk k os_rdy, robin_time := ucast (os_time k) + robin_tout k - 1\<rparr> else k)
     in if robin_time k = ucast (os_time k)
        then do { (p_new, k) \<leftarrow> rt_get_first os_rdy (k\<lparr>robin_task := NULL\<rparr>); rt_put_prio os_rdy p_new k }
        else Some k)"

section \<open>Semaphores\<close>

text \<open>How a call puts the running task into the waiting list of an object.\<close>

definition wait_for :: "ptr \<Rightarrow> kernel \<Rightarrow> kernel option" where
  "wait_for p_CB k = (if p_lnk k p_CB \<noteq> NULL then rt_put_prio p_CB (run k) k
     else Some (set_rlnk (run k) p_CB (set_lnk (run k) NULL (set_lnk p_CB (run k) k))))"

definition rt_sem_init :: "ptr \<Rightarrow> u16 \<Rightarrow> kernel \<Rightarrow> kernel" where
  "rt_sem_init p_SCB token_count k = set_lnk p_SCB NULL (k\<lparr>cb_type := (cb_type k)(p_SCB := SCB), tokens := (tokens k)(p_SCB := token_count)\<rparr>)"

definition wake_first :: "ptr \<Rightarrow> u32 \<Rightarrow> kernel \<Rightarrow> kernel option" where
  "wake_first p_CB v k = do {
     (p_TCB, k) \<leftarrow> rt_get_first p_CB k;
     rt_put_prio os_rdy p_TCB (set_state p_TCB READY (rt_rmv_dly p_TCB (rt_ret_val p_TCB v k))) }"

partial_function (option) wake_all :: "ptr \<Rightarrow> kernel \<Rightarrow> kernel option" where
  "wake_all p_CB k = (if p_lnk k p_CB \<noteq> NULL then do { k \<leftarrow> wake_first p_CB 0 k; wake_all p_CB k } else Some k)"

definition preempt_lower :: "kernel \<Rightarrow> kernel option" where
  "preempt_lower k = (if p_lnk k os_rdy \<noteq> NULL \<and> prio k (run k) < prio k (p_lnk k os_rdy) then preempt_run k else Some k)"

definition rt_sem_delete :: "ptr \<Rightarrow> kernel \<Rightarrow> (u32 \<times> kernel) option" where
  "rt_sem_delete p_SCB k = do {
     k \<leftarrow> wake_all p_SCB k; k \<leftarrow> preempt_lower k;
     Some (OS_R_OK, k\<lparr>cb_type := (cb_type k)(p_SCB := 0)\<rparr>) }"

definition rt_sem_send :: "ptr \<Rightarrow> kernel \<Rightarrow> (u32 \<times> kernel) option" where
  "rt_sem_send p_SCB k = (if p_lnk k p_SCB \<noteq> NULL
     then do {
       (p_TCB, k) \<leftarrow> rt_get_first p_SCB k;
       k \<leftarrow> rt_dispatch p_TCB (rt_rmv_dly p_TCB (rt_ret_val p_TCB 1 k));
       Some (OS_R_OK, k) }
     else Some (OS_R_OK, k\<lparr>tokens := (tokens k)(p_SCB := tokens k p_SCB + 1)\<rparr>))"

definition rt_sem_wait :: "ptr \<Rightarrow> u16 \<Rightarrow> kernel \<Rightarrow> (u32 \<times> kernel) option" where
  "rt_sem_wait p_SCB timeout k =
     (if tokens k p_SCB \<noteq> 0 then Some (OS_R_OK, k\<lparr>tokens := (tokens k)(p_SCB := tokens k p_SCB - 1)\<rparr>)
      else if timeout = 0 then Some (OS_R_TMO, k)
      else do { k \<leftarrow> wait_for p_SCB k; k \<leftarrow> rt_block timeout WAIT_SEM k; Some (OS_R_TMO, k) })"

definition rt_sem_psh :: "ptr \<Rightarrow> kernel \<Rightarrow> kernel option" where
  "rt_sem_psh p_CB k = (if p_lnk k p_CB \<noteq> NULL
     then do {
       (p_TCB, k) \<leftarrow> rt_get_first p_CB k;
       rt_put_prio os_rdy p_TCB (rt_ret_val p_TCB 1 (set_state p_TCB READY (rt_rmv_dly p_TCB k))) }
     else Some (k\<lparr>tokens := (tokens k)(p_CB := tokens k p_CB + 1)\<rparr>))"

definition rt_psh_req :: "kernel \<Rightarrow> kernel" where
  "rt_psh_req k = (if \<not> os_lock k then k\<lparr>pend_sv := True\<rparr> else k\<lparr>os_psh_flag := True\<rparr>)"

definition isr_sem_send :: "ptr \<Rightarrow> kernel \<Rightarrow> kernel option" where
  "isr_sem_send semaphore k = do { k \<leftarrow> rt_psq_enq semaphore 0 k; Some (rt_psh_req k) }"

section \<open>Event flags\<close>

definition set_events :: "ptr \<Rightarrow> u16 \<Rightarrow> kernel \<Rightarrow> kernel" where "set_events p v k = k\<lparr>events := (events k)(p := v)\<rparr>"
definition set_waits :: "ptr \<Rightarrow> u16 \<Rightarrow> kernel \<Rightarrow> kernel" where "set_waits p v k = k\<lparr>waits := (waits k)(p := v)\<rparr>"

definition rt_evt_wait :: "u16 \<Rightarrow> u16 \<Rightarrow> bool \<Rightarrow> kernel \<Rightarrow> (u32 \<times> kernel) option" where
  "rt_evt_wait wait_flags timeout and_wait k = (let r = run k; ev = events k r in
     if and_wait \<and> ev AND wait_flags = wait_flags then Some (OS_R_EVT, set_events r (ev AND NOT wait_flags) k)
     else if \<not> and_wait \<and> ev AND wait_flags \<noteq> 0
     then Some (OS_R_EVT, set_events r (ev AND NOT wait_flags) (set_waits r (ev AND wait_flags) k))
     else do {
       k \<leftarrow> rt_block timeout (if and_wait then WAIT_AND else WAIT_OR) (set_waits r wait_flags k);
       Some (OS_R_TMO, k) })"

text \<open>
  The part that \<open>rt_evt_set\<close> and \<open>rt_evt_psh\<close> share: the flags are set, and \<open>true\<close> comes back when the task wakes up.
\<close>

definition evt_wake :: "ptr \<Rightarrow> u16 \<Rightarrow> kernel \<Rightarrow> bool \<times> kernel" where
  "evt_wake p set_flags k = (
     let k = set_events p (events k p OR set_flags) k;
         event_flags = waits k p;
         and_met = (state k p = WAIT_AND \<and> events k p AND event_flags = event_flags);
         or_met = (state k p = WAIT_OR \<and> events k p AND event_flags \<noteq> 0)
     in if and_met \<or> or_met
        then let k = (if and_met then k else set_waits p (waits k p AND events k p) k);
                 k = set_state p READY (rt_rmv_dly p (set_events p (events k p AND NOT event_flags) k))
             in (True, rt_ret_val2 p 0x08 (ucast (waits k p)) k)
        else (False, k))"

definition active :: "u32 \<Rightarrow> kernel \<Rightarrow> ptr option" where
  "active tid k = rd (os_active_TCB k) (unat (tid - 1))"

definition rt_evt_set :: "u16 \<Rightarrow> u32 \<Rightarrow> kernel \<Rightarrow> kernel option" where
  "rt_evt_set event_flags tid k = do {
     p_tcb \<leftarrow> active tid k;
     if p_tcb = NULL then Some k
     else case evt_wake p_tcb event_flags k of (True, k) \<Rightarrow> rt_dispatch p_tcb k | (False, k) \<Rightarrow> Some k }"

definition rt_evt_clr :: "u16 \<Rightarrow> u32 \<Rightarrow> kernel \<Rightarrow> kernel option" where
  "rt_evt_clr clear_flags tid k = do {
     task \<leftarrow> active tid k;
     Some (if task = NULL then k else set_events task (events k task AND NOT clear_flags) k) }"

definition isr_evt_set :: "u16 \<Rightarrow> u32 \<Rightarrow> kernel \<Rightarrow> kernel option" where
  "isr_evt_set event_flags tid k = do {
     p_tcb \<leftarrow> active tid k;
     if p_tcb = NULL then Some k else do { k \<leftarrow> rt_psq_enq p_tcb (ucast event_flags) k; Some (rt_psh_req k) } }"

definition rt_evt_get :: "kernel \<Rightarrow> u16" where "rt_evt_get k = waits k (run k)"

definition rt_evt_psh :: "ptr \<Rightarrow> u16 \<Rightarrow> kernel \<Rightarrow> kernel option" where
  "rt_evt_psh p_CB set_flags k = (case evt_wake p_CB set_flags k of (True, k) \<Rightarrow> rt_put_prio os_rdy p_CB k | (False, k) \<Rightarrow> Some k)"

section \<open>Mailboxes\<close>

definition rt_mbx_init :: "ptr \<Rightarrow> u16 \<Rightarrow> kernel \<Rightarrow> kernel" where
  "rt_mbx_init p_MCB mbx_size k = set_lnk p_MCB NULL (set_state p_MCB 0
     (k\<lparr>cb_type := (cb_type k)(p_MCB := MCB), isr_st := (isr_st k)(p_MCB := 0), mb_first := (mb_first k)(p_MCB := 0),
        mb_last := (mb_last k)(p_MCB := 0), mb_count := (mb_count k)(p_MCB := 0),
        mb_size := (mb_size k)(p_MCB := ucast ((ucast mbx_size - 16 :: u32) div 4))\<rparr>))"

definition wrap_index :: "u16 \<Rightarrow> u16 \<Rightarrow> u16" where
  "wrap_index i sz = (if i + 1 = sz then 0 else i + 1)"

definition store_msg :: "ptr \<Rightarrow> u32 \<Rightarrow> kernel \<Rightarrow> kernel option" where
  "store_msg p msg k = do {
     items \<leftarrow> wr (mb_msg k p) (unat (mb_first k p)) msg;
     Some (k\<lparr>mb_msg := (mb_msg k)(p := items), mb_first := (mb_first k)(p := wrap_index (mb_first k p) (mb_size k p))\<rparr>) }"

definition inc_count :: "ptr \<Rightarrow> kernel \<Rightarrow> kernel" where "inc_count p k = k\<lparr>mb_count := (mb_count k)(p := mb_count k p + 1)\<rparr>"
definition dec_count :: "ptr \<Rightarrow> kernel \<Rightarrow> kernel" where "dec_count p k = k\<lparr>mb_count := (mb_count k)(p := mb_count k p - 1)\<rparr>"

definition take_msg :: "ptr \<Rightarrow> kernel \<Rightarrow> (u32 \<times> kernel) option" where
  "take_msg p k = do {
     msg \<leftarrow> rd (mb_msg k p) (unat (mb_last k p));
     Some (msg, k\<lparr>mb_last := (mb_last k)(p := wrap_index (mb_last k p) (mb_size k p))\<rparr>) }"

definition rt_mbx_send :: "ptr \<Rightarrow> u32 \<Rightarrow> u16 \<Rightarrow> kernel \<Rightarrow> (u32 \<times> kernel) option" where
  "rt_mbx_send p_MCB p_msg timeout k =
     (if p_lnk k p_MCB \<noteq> NULL \<and> state k p_MCB = 1
      then do {
        (p_TCB, k) \<leftarrow> rt_get_first p_MCB k;
        k \<leftarrow> rt_dispatch p_TCB (rt_rmv_dly p_TCB (rt_ret_val2 p_TCB 0x10 p_msg k));
        Some (OS_R_OK, k) }
      else if mb_count k p_MCB = mb_size k p_MCB
      then if timeout = 0 then Some (OS_R_TMO, k)
           else do {
             let idle_list = (p_lnk k p_MCB = NULL);
             k \<leftarrow> wait_for p_MCB k;
             let k = (if idle_list then set_state p_MCB 2 k else k);
             k \<leftarrow> rt_block timeout WAIT_MBX (k\<lparr>tcb_msg := (tcb_msg k)(run k := p_msg)\<rparr>);
             Some (OS_R_TMO, k) }
      else do { k \<leftarrow> store_msg p_MCB p_msg k; Some (OS_R_OK, inc_count p_MCB k) })"

text \<open>The message received is the middle component; it is \<open>None\<close> when the call has to wait.\<close>

definition rt_mbx_wait :: "ptr \<Rightarrow> u16 \<Rightarrow> kernel \<Rightarrow> (u32 \<times> u32 option \<times> kernel) option" where
  "rt_mbx_wait p_MCB timeout k =
     (if mb_count k p_MCB \<noteq> 0
      then do {
        (message, k) \<leftarrow> take_msg p_MCB k;
        k \<leftarrow> (if p_lnk k p_MCB \<noteq> NULL \<and> state k p_MCB = 2
              then do {
                (p_TCB, k) \<leftarrow> rt_get_first p_MCB k;
                let k = rt_ret_val p_TCB 0 k;
                k \<leftarrow> store_msg p_MCB (tcb_msg k p_TCB) k;
                rt_dispatch p_TCB (rt_rmv_dly p_TCB k) }
              else Some (dec_count p_MCB k));
        Some (OS_R_OK, Some message, k) }
      else if timeout = 0 then Some (OS_R_TMO, None, k)
      else do {
        let idle_list = (p_lnk k p_MCB = NULL);
        k \<leftarrow> wait_for p_MCB k;
        k \<leftarrow> rt_block timeout WAIT_MBX (if idle_list then set_state p_MCB 1 k else k);
        Some (OS_R_TMO, None, k) })"

definition rt_mbx_check :: "ptr \<Rightarrow> kernel \<Rightarrow> u32" where
  "rt_mbx_check p_MCB k = ucast (mb_size k p_MCB) - ucast (mb_count k p_MCB)"

definition isr_mbx_send :: "ptr \<Rightarrow> u32 \<Rightarrow> kernel \<Rightarrow> kernel option" where
  "isr_mbx_send p_MCB p_msg k = do { k \<leftarrow> rt_psq_enq p_MCB p_msg k; Some (rt_psh_req k) }"

definition isr_mbx_receive :: "ptr \<Rightarrow> kernel \<Rightarrow> (u32 \<times> u32 option \<times> kernel) option" where
  "isr_mbx_receive p_MCB k = (if mb_count k p_MCB \<noteq> 0
     then do {
       message \<leftarrow> rd (mb_msg k p_MCB) (unat (mb_last k p_MCB));
       k \<leftarrow> (if state k p_MCB = 2 then do { k \<leftarrow> rt_psq_enq p_MCB 0 k; Some (rt_psh_req k) } else Some k);
       (_, k) \<leftarrow> take_msg p_MCB (dec_count p_MCB k);
       Some (OS_R_MBX, Some message, k) }
     else Some (OS_R_OK, None, k))"

definition mbx_ready :: "ptr \<Rightarrow> kernel \<Rightarrow> kernel option" where
  "mbx_ready p_TCB k = rt_put_prio os_rdy p_TCB (rt_rmv_dly p_TCB (set_state p_TCB READY k))"

text \<open>A full mailbox makes the kernel call \<open>os_error\<close>, which stops the system.\<close>

definition rt_mbx_psh :: "ptr \<Rightarrow> u32 \<Rightarrow> kernel \<Rightarrow> kernel option" where
  "rt_mbx_psh p_CB p_msg k =
     (if p_lnk k p_CB \<noteq> NULL
      then if state k p_CB = 3 then
             case rt_alloc_box p_msg (ram k) of (mem, m) \<Rightarrow>
               if mem = 0 then Some (k\<lparr>ram := m\<rparr>)
               else do { (p_TCB, k) \<leftarrow> rt_get_first p_CB (k\<lparr>ram := m\<rparr>); mbx_ready p_TCB (rt_ret_val p_TCB mem k) }
           else if state k p_CB = 2 then do {
             (p_TCB, k) \<leftarrow> rt_get_first p_CB k;
             k \<leftarrow> store_msg p_CB (tcb_msg k p_TCB) (rt_ret_val p_TCB 0 k);
             mbx_ready p_TCB (inc_count p_CB k) }
           else if state k p_CB = 1 then do {
             (p_TCB, k) \<leftarrow> rt_get_first p_CB k;
             mbx_ready p_TCB (rt_ret_val2 p_TCB 0x10 p_msg k) }
           else Some k
      else if mb_count k p_CB < mb_size k p_CB then do { k \<leftarrow> store_msg p_CB p_msg k; Some (inc_count p_CB k) }
      else None)"

section \<open>Mutexes\<close>

definition set_mlnk :: "ptr \<Rightarrow> ptr \<Rightarrow> kernel \<Rightarrow> kernel" where "set_mlnk p v k = k\<lparr>p_mlnk := (p_mlnk k)(p := v)\<rparr>"
definition set_owner :: "ptr \<Rightarrow> u16 \<Rightarrow> ptr \<Rightarrow> kernel \<Rightarrow> kernel" where
  "set_owner p n v k = k\<lparr>level := (level k)(p := n), mut_owner := (mut_owner k)(p := v)\<rparr>"

definition rt_mut_init :: "ptr \<Rightarrow> kernel \<Rightarrow> kernel" where
  "rt_mut_init p_MCB k = set_mlnk p_MCB NULL (set_lnk p_MCB NULL (set_owner p_MCB 0 NULL (k\<lparr>cb_type := (cb_type k)(p_MCB := MUCB)\<rparr>)))"

partial_function (option) unlink_search :: "ptr \<Rightarrow> kernel \<Rightarrow> ptr \<Rightarrow> kernel option" where
  "unlink_search p_MCB k p = (if p \<noteq> NULL
     then if p_mlnk k p = p_MCB then Some (set_mlnk p (p_mlnk k p_MCB) k) else unlink_search p_MCB k (p_mlnk k p)
     else Some k)"

definition unlink_mutex :: "ptr \<Rightarrow> ptr \<Rightarrow> kernel \<Rightarrow> kernel option" where
  "unlink_mutex p_TCB p_MCB k = (if p_mlnk k p_TCB = p_MCB then Some (set_mlnk p_TCB (p_mlnk k p_MCB) k)
     else unlink_search p_MCB k (p_mlnk k p_TCB))"

partial_function (option) inherited_prio :: "kernel \<Rightarrow> u8 \<Rightarrow> ptr \<Rightarrow> u8 option" where
  "inherited_prio k pr p = (if p \<noteq> NULL
     then inherited_prio k (if p_lnk k p \<noteq> NULL \<and> pr < prio k (p_lnk k p) then prio k (p_lnk k p) else pr) (p_mlnk k p)
     else Some pr)"

definition rt_mut_delete :: "ptr \<Rightarrow> kernel \<Rightarrow> (u32 \<times> kernel) option" where
  "rt_mut_delete p_MCB k = do {
     k \<leftarrow> (if level k p_MCB \<noteq> 0 then do {
         let p_TCB = mut_owner k p_MCB;
         deref p_TCB;
         k \<leftarrow> unlink_mutex p_TCB p_MCB k;
         pr \<leftarrow> inherited_prio k (prio_base k p_TCB) (p_mlnk k p_TCB);
         if prio k p_TCB \<noteq> pr
         then let k = set_prio p_TCB pr k in if p_TCB \<noteq> run k then rt_resort_prio p_TCB k else Some k
         else Some k }
       else Some k);
     k \<leftarrow> wake_all p_MCB k;
     k \<leftarrow> preempt_lower k;
     Some (OS_R_OK, k\<lparr>cb_type := (cb_type k)(p_MCB := 0)\<rparr>) }"

definition hand_over :: "ptr \<Rightarrow> ptr \<Rightarrow> kernel \<Rightarrow> kernel" where
  "hand_over p_MCB p_TCB k = (let k = set_owner p_MCB 1 p_TCB k in set_mlnk p_TCB p_MCB (set_mlnk p_MCB (p_mlnk k p_TCB) k))"

definition rt_mut_release :: "ptr \<Rightarrow> kernel \<Rightarrow> (u32 \<times> kernel) option" where
  "rt_mut_release p_MCB k =
     (if level k p_MCB = 0 \<or> mut_owner k p_MCB \<noteq> run k then Some (OS_R_NOK, k)
      else do {
        let k = k\<lparr>level := (level k)(p_MCB := level k p_MCB - 1)\<rparr>;
        if level k p_MCB \<noteq> 0 then Some (OS_R_OK, k)
        else do {
          k \<leftarrow> unlink_mutex (run k) p_MCB k;
          pr \<leftarrow> inherited_prio k (prio_base k (run k)) (p_mlnk k (run k));
          let k = set_prio (run k) pr k;
          k \<leftarrow> (if p_lnk k p_MCB \<noteq> NULL
            then do {
              (p_TCB, k) \<leftarrow> rt_get_first p_MCB k;
              let k = hand_over p_MCB p_TCB (rt_rmv_dly p_TCB (rt_ret_val p_TCB 0 k));
              p \<leftarrow> rt_rdy_prio k;
              if p \<le> prio k (run k) then rt_dispatch p_TCB k
              else do {
                k \<leftarrow> rt_put_prio os_rdy (run k) k;
                k \<leftarrow> rt_put_prio os_rdy p_TCB k;
                dispatch_next (set_state p_TCB READY (set_state (run k) READY k)) } }
            else do { p \<leftarrow> rt_rdy_prio k; if prio k (run k) < p then preempt_run k else Some k });
          Some (OS_R_OK, k) } })"

definition rt_mut_wait :: "ptr \<Rightarrow> u16 \<Rightarrow> kernel \<Rightarrow> (u32 \<times> kernel) option" where
  "rt_mut_wait p_MCB timeout k =
     (if level k p_MCB = 0
      then Some (OS_R_OK, set_mlnk (run k) p_MCB (set_mlnk p_MCB (p_mlnk k (run k)) (set_owner p_MCB (level k p_MCB + 1) (run k) k)))
      else if mut_owner k p_MCB = run k then Some (OS_R_OK, k\<lparr>level := (level k)(p_MCB := level k p_MCB + 1)\<rparr>)
      else if timeout = 0 then Some (OS_R_TMO, k)
      else do {
        let own = mut_owner k p_MCB;
        deref own;
        k \<leftarrow> (if prio k own < prio k (run k) then rt_resort_prio own (set_prio own (prio k (run k)) k) else Some k);
        k \<leftarrow> wait_for p_MCB k;
        k \<leftarrow> rt_block timeout WAIT_MUT k;
        Some (OS_R_TMO, k) })"

section \<open>Interrupts\<close>

partial_function (option) pop_loop :: "u32 \<Rightarrow> kernel \<Rightarrow> (u32 \<times> kernel) option" where
  "pop_loop idx k = (if psq_count (os_psq k) \<noteq> 0
     then do {
       (p_CB, arg) \<leftarrow> rd (q (os_psq k)) (unat idx);
       k \<leftarrow> (if cb_type k p_CB = TCB then rt_evt_psh p_CB (ucast arg) k
             else if cb_type k p_CB = MCB then rt_mbx_psh p_CB arg k
             else rt_sem_psh p_CB k);
       let idx = (if idx + 1 = ucast (psq_size (os_psq k)) then 0 else idx + 1);
       pop_loop idx (k\<lparr>os_psq := (os_psq k)\<lparr>psq_count := psq_count (os_psq k) - 1\<rparr>\<rparr>) }
     else Some (idx, k))"

definition rt_pop_req :: "kernel \<Rightarrow> kernel option" where
  "rt_pop_req k = do {
     deref (run k);
     let k = rt_put_rdy_first (run k) (set_state (run k) READY k);
     (idx, k) \<leftarrow> pop_loop (ucast (psq_last (os_psq k))) k;
     dispatch_next (k\<lparr>os_psq := (os_psq k)\<lparr>psq_last := ucast idx\<rparr>\<rparr>) }"

text \<open>\<open>sysTimerTick\<close>, the user timers, is the parameter \<open>timers\<close>.\<close>

definition rt_systick :: "(kernel \<Rightarrow> kernel) \<Rightarrow> kernel \<Rightarrow> kernel option" where
  "rt_systick timers k = do {
     deref (run k);
     k \<leftarrow> rt_chk_robin (rt_put_rdy_first (run k) (set_state (run k) READY k));
     k \<leftarrow> rt_dec_dly (k\<lparr>os_time := os_time k + 1\<rparr>);
     dispatch_next (timers k) }"

end
