(* ===== verification/RtxSched.thy ===== *)
theory RtxSched
  imports RtxCalls
begin

text \<open>
  The scheduler: the queues of the kernel as lists, and the invariant that no ready task has a higher priority than the
  one that continues.  Each call is followed on the lists; that it returns is part of what is proved.
\<close>

section \<open>What the list predicates read\<close>

lemma lists_ok_cong:
  "cb_type k' = cb_type k \<Longrightarrow> p_lnk k' = p_lnk k \<Longrightarrow> p_rlnk k' = p_rlnk k \<Longrightarrow> lists_ok L k' = lists_ok L k"
  by (simp add: lists_ok_def head_def obj_def tcb_def sem_mbx_def)

lemma delays_ok_cong:
  "cb_type k' = cb_type k \<Longrightarrow> p_dlnk k' = p_dlnk k \<Longrightarrow> p_blnk k' = p_blnk k \<Longrightarrow> delta_time k' = delta_time k \<Longrightarrow> delays_ok D k' = delays_ok D k"
  by (simp add: delays_ok_def tcb_def)

lemma tcb_cong: "cb_type k' = cb_type k \<Longrightarrow> tcb k' = tcb k" "cb_type k' = cb_type k \<Longrightarrow> obj k' = obj k"
  "cb_type k' = cb_type k \<Longrightarrow> head k' = head k" "cb_type k' = cb_type k \<Longrightarrow> free_task L k' = free_task L k"
  by (simp_all add: tcb_def obj_def head_def sem_mbx_def free_task_def fun_eq_iff)

section \<open>The queues of the kernel\<close>

text \<open>
  \<open>queues_ok E L D k\<close>: the lists and the delays are consistent, every list is in the order of the priorities, and
  outside \<open>E\<close> exactly the tasks of the ready list are in the state READY.
  \<open>kernel_ok L D k\<close>: moreover the task to continue is in no list, and no ready task has a higher priority.
\<close>

definition queues_ok :: "ptr set \<Rightarrow> (ptr \<Rightarrow> ptr list) \<Rightarrow> (ptr \<times> nat) list \<Rightarrow> kernel \<Rightarrow> bool" where
  "queues_ok E L D k \<longleftrightarrow> lists_ok L k \<and> delays_ok D k \<and> (\<forall>h. by_prio (prio k) (L h))
     \<and> (\<forall>x. tcb k x \<and> x \<notin> E \<longrightarrow> (state k x = READY \<longleftrightarrow> x \<in> set (L os_rdy)))
     \<and> (\<forall>d\<in>set D. 0 < snd d) \<and> (\<forall>x\<in>set (L os_rdy). x \<notin> fst ` set D)"

definition runs_ok :: "(ptr \<Rightarrow> ptr list) \<Rightarrow> (ptr \<times> nat) list \<Rightarrow> kernel \<Rightarrow> bool" where
  "runs_ok L D k \<longleftrightarrow> free_task L k (new_tsk k) \<and> new_tsk k \<notin> fst ` set D \<and> state k (new_tsk k) = RUNNING
     \<and> (\<forall>x\<in>set (L os_rdy). prio k x \<le> prio k (new_tsk k)) \<and> os_idle_TCB \<in> insert (new_tsk k) (set (L os_rdy))"

definition kernel_ok :: "(ptr \<Rightarrow> ptr list) \<Rightarrow> (ptr \<times> nat) list \<Rightarrow> kernel \<Rightarrow> bool" where
  "kernel_ok L D k \<longleftrightarrow> queues_ok {} L D k \<and> runs_ok L D k"

lemma queues_okD:
  assumes "queues_ok E L D k"
  shows "lists_ok L k" "delays_ok D k" "by_prio (prio k) (L h)" "tcb k x \<Longrightarrow> x \<notin> E \<Longrightarrow> state k x = READY \<longleftrightarrow> x \<in> set (L os_rdy)"
    "d \<in> set D \<Longrightarrow> 0 < snd d" "x \<in> set (L os_rdy) \<Longrightarrow> x \<notin> fst ` set D"
  using assms unfolding queues_ok_def by blast+

lemma dispatch_next_ok:
  assumes Q: "queues_ok {} L D k" and i: "os_idle_TCB \<in> set (L os_rdy)"
  obtains l r x xs where "L os_rdy = x # xs"
    "dispatch_next k = Some (k\<lparr>p_lnk := l, p_rlnk := r, new_tsk := x, state := (state k)(x := RUNNING)\<rparr>)"
    "kernel_ok (L(os_rdy := xs)) D (k\<lparr>p_lnk := l, p_rlnk := r, new_tsk := x, state := (state k)(x := RUNNING)\<rparr>)"
proof -
  note L = queues_okD(1) [OF Q]
  obtain x xs where x: "L os_rdy = x # xs" using i by (cases "L os_rdy") auto
  have "head k os_rdy" by (simp add: head_def)
  then show thesis
  proof (rule lists_ok_get [OF L _ x])
    fix l r
    assume get: "rt_get_first os_rdy k = Some (x, k\<lparr>p_lnk := l, p_rlnk := r\<rparr>)" and L': "lists_ok (L(os_rdy := xs)) (k\<lparr>p_lnk := l, p_rlnk := r\<rparr>)"
    let ?k = "k\<lparr>p_lnk := l, p_rlnk := r, new_tsk := x, state := (state k)(x := RUNNING)\<rparr>"
    have t: "tcb k x" "x \<notin> set xs" "\<forall>h. h \<noteq> os_rdy \<longrightarrow> x \<notin> set (L h)" "x \<notin> fst ` set D"
      using lists_okD(3) [OF L, of os_rdy] lists_okD(4,5) [OF L, of x os_rdy] queues_okD(6) [OF Q, of x] x by auto
    have s: "by_prio (prio k) (x # xs)" using queues_okD(3) [OF Q, of os_rdy] x by simp
    have R: "RUNNING \<noteq> READY" by (simp add: task_states)
    have "lists_ok (L(os_rdy := xs)) ?k" using L' by (subst lists_ok_cong [of _ "k\<lparr>p_lnk := l, p_rlnk := r\<rparr>"]) auto
    moreover have "delays_ok D ?k" using queues_okD(2) [OF Q] by (subst delays_ok_cong [of _ k]) auto
    moreover have "by_prio (prio k) ((L(os_rdy := xs)) h)" for h using s queues_okD(3) [OF Q, of h] by auto
    moreover have "state ?k y = READY \<longleftrightarrow> y \<in> set xs" if "tcb k y" for y
      using that queues_okD(4) [OF Q that] t x R by auto
    ultimately have "kernel_ok (L(os_rdy := xs)) D ?k"
      using t s i x queues_okD(5,6) [OF Q]
      by (auto simp: kernel_ok_def queues_ok_def runs_ok_def free_task_def tcb_def)
    moreover have "dispatch_next k = Some ?k" by (simp add: dispatch_next_def get rt_switch_req_def setters)
    ultimately show thesis using x by (intro that)
  qed
qed

section \<open>Blocking\<close>

text \<open>Into an empty list the code links the task by hand, with the effect of the insertion by priority.\<close>

lemma wait_for_put: "obj k c \<Longrightarrow> run k \<noteq> c \<Longrightarrow> wait_for c k = rt_put_prio c (run k) k"
  by (auto simp: wait_for_def rt_put_prio_def put_prio_search.simps obj_def setters fun_upd_twist Let_def)

definition timed :: "u16 \<Rightarrow> ptr \<Rightarrow> (ptr \<times> nat) list \<Rightarrow> (ptr \<times> nat) list" where
  "timed timeout t D = (if timeout < 0xFFFF then dly_ins t (unat timeout) D else D)"

lemma set_dly_ins [simp]: "set (dly_ins t n D) = insert (t, n) (set D)"
proof -
  have "set D = set (takeWhile (\<lambda>d. snd d < n) D) \<union> set (dropWhile (\<lambda>d. snd d < n) D)"
    by (metis set_append takeWhile_dropWhile_id)
  then show ?thesis by (auto simp: dly_ins_def)
qed

lemma set_timed: "set (timed timeout t D) = (if timeout < 0xFFFF then insert (t, unat timeout) (set D) else set D)"
  by (simp add: timed_def)

lemma block_ok:
  assumes Q: "queues_ok {} L D k" and t: "tcb k (run k)" "run k \<notin> set (L os_rdy)" "run k \<notin> fst ` set D"
    and i: "os_idle_TCB \<in> set (L os_rdy)" and n: "timeout \<noteq> 0" and st: "st \<noteq> READY"
  obtains l r d b dt x xs where "L os_rdy = x # xs"
    "rt_block timeout st k = Some (k\<lparr>p_lnk := l, p_rlnk := r, p_dlnk := d, p_blnk := b, delta_time := dt, new_tsk := x,
       state := (state k)(run k := st, x := RUNNING)\<rparr>)"
    "kernel_ok (L(os_rdy := xs)) (timed timeout (run k) D)
       (k\<lparr>p_lnk := l, p_rlnk := r, p_dlnk := d, p_blnk := b, delta_time := dt, new_tsk := x, state := (state k)(run k := st, x := RUNNING)\<rparr>)"
proof -
  note L = queues_okD(1) [OF Q] and D = queues_okD(2) [OF Q]
  have put: "\<exists>d b dt. (if timeout < 0xFFFF then rt_put_dly (run k) timeout k else Some k) = Some (k\<lparr>p_dlnk := d, p_blnk := b, delta_time := dt\<rparr>)
      \<and> delays_ok (timed timeout (run k) D) (k\<lparr>p_dlnk := d, p_blnk := b, delta_time := dt\<rparr>)"
  proof (cases "timeout < 0xFFFF")
    case True
    then have "0 < unat timeout" "unat timeout < 0xFFFF" using n by (auto simp: word_less_nat_alt unat_gt_0)
    then show ?thesis
    proof (rule delays_ok_put [OF D t(1,3)])
      fix d b dt
      assume "rt_put_dly (run k) (of_nat (unat timeout)) k = Some (k\<lparr>p_dlnk := d, p_blnk := b, delta_time := dt\<rparr>)"
        and "delays_ok (dly_ins (run k) (unat timeout) D) (k\<lparr>p_dlnk := d, p_blnk := b, delta_time := dt\<rparr>)"
      then show ?thesis using True by (intro exI [of _ d] exI [of _ b] exI [of _ dt]) (simp add: timed_def)
    qed
  next
    case False
    then show ?thesis using D by (intro exI [of _ "p_dlnk k"] exI [of _ "p_blnk k"] exI [of _ "delta_time k"]) (simp add: timed_def)
  qed
  then obtain d b dt where put: "(if timeout < 0xFFFF then rt_put_dly (run k) timeout k else Some k) = Some (k\<lparr>p_dlnk := d, p_blnk := b, delta_time := dt\<rparr>)"
    and D': "delays_ok (timed timeout (run k) D) (k\<lparr>p_dlnk := d, p_blnk := b, delta_time := dt\<rparr>)" by blast
  define k1 where "k1 = k\<lparr>p_dlnk := d, p_blnk := b, delta_time := dt, state := (state k)(run k := st)\<rparr>"
  have e: "cb_type k1 = cb_type k" "p_lnk k1 = p_lnk k" "p_rlnk k1 = p_rlnk k" "prio k1 = prio k" "state k1 = (state k)(run k := st)"
    by (simp_all add: k1_def)
  have Q1: "queues_ok {} L (timed timeout (run k) D) k1"
    unfolding queues_ok_def
  proof (intro conjI allI impI ballI)
    show "lists_ok L k1" using L e by (subst lists_ok_cong [of _ k]) auto
    show "delays_ok (timed timeout (run k) D) k1" using D' unfolding k1_def
      by (subst delays_ok_cong [of _ "k\<lparr>p_dlnk := d, p_blnk := b, delta_time := dt\<rparr>"]) auto
    show "by_prio (prio k1) (L h)" for h using queues_okD(3) [OF Q] e by simp
    show "state k1 x = READY \<longleftrightarrow> x \<in> set (L os_rdy)" if "tcb k1 x \<and> x \<notin> {}" for x
      using queues_okD(4) [OF Q, of x] that st t(2) e by (auto simp: tcb_def)
    show "0 < snd d" if "d \<in> set (timed timeout (run k) D)" for d
    proof -
      have "d = (run k, unat timeout) \<or> d \<in> set D" using that by (auto simp: set_timed split: if_splits)
      then show ?thesis using queues_okD(5) [OF Q, of d] n by (elim disjE) (simp_all add: unat_gt_0)
    qed
    show "x \<notin> fst ` set (timed timeout (run k) D)" if "x \<in> set (L os_rdy)" for x
      using that queues_okD(6) [OF Q, of x] t(2) by (auto simp: set_timed split: if_splits)
  qed
  show thesis
  proof (rule dispatch_next_ok [OF Q1 i])
    fix l r x xs
    assume a: "L os_rdy = x # xs" "dispatch_next k1 = Some (k1\<lparr>p_lnk := l, p_rlnk := r, new_tsk := x, state := (state k1)(x := RUNNING)\<rparr>)"
      "kernel_ok (L(os_rdy := xs)) (timed timeout (run k) D) (k1\<lparr>p_lnk := l, p_rlnk := r, new_tsk := x, state := (state k1)(x := RUNNING)\<rparr>)"
    have eq: "k1\<lparr>p_lnk := l, p_rlnk := r, new_tsk := x, state := (state k1)(x := RUNNING)\<rparr> =
        k\<lparr>p_lnk := l, p_rlnk := r, p_dlnk := d, p_blnk := b, delta_time := dt, new_tsk := x, state := (state k)(run k := st, x := RUNNING)\<rparr>"
      by (simp add: k1_def)
    have "rt_block timeout st k = dispatch_next k1" using n by (simp add: rt_block_def put setters k1_def)
    then show thesis using a unfolding eq by (intro that) auto
  qed
qed

section \<open>Dispatching a task that was woken\<close>

lemma dispatch_ok:
  assumes Q: "queues_ok {t} L D k" and R: "runs_ok L D k" and r: "run k = new_tsk k" and t: "free_task L k t" "t \<noteq> run k" "t \<notin> fst ` set D"
    and s: "state k t \<noteq> RUNNING"
  obtains k' where "rt_dispatch t k = Some k'"
    "kernel_ok (if prio k (run k) < prio k t then L(os_rdy := run k # L os_rdy) else L(os_rdy := insert_prio (prio k) t (L os_rdy))) D k'"
    "new_tsk k' = (if prio k (run k) < prio k t then t else run k)"
    "\<exists>l r st. k' = k\<lparr>p_lnk := l, p_rlnk := r, state := st, new_tsk := new_tsk k'\<rparr> \<and> (\<forall>y. y \<noteq> t \<longrightarrow> y \<noteq> run k \<longrightarrow> st y = state k y)"
proof -
  note L = queues_okD(1) [OF Q] and D = queues_okD(2) [OF Q]
  have u: "free_task L k (run k)" "run k \<notin> fst ` set D" "state k (run k) = RUNNING" "\<forall>x\<in>set (L os_rdy). prio k x \<le> prio k (run k)"
    "os_idle_TCB \<in> insert (run k) (set (L os_rdy))" using R r by (auto simp: runs_ok_def)
  have N: "run k \<noteq> NULL" "t \<noteq> NULL" using u(1) t(1) by (auto simp: free_task_def tcb_def)
  have S: "RUNNING \<noteq> READY" by (simp add: task_states)
  show thesis
  proof (cases "prio k (run k) < prio k t")
    case True
    show thesis
    proof (rule lists_ok_rdy_first [OF L u(1)])
      fix l r'
      assume put: "rt_put_rdy_first (run k) k = k\<lparr>p_lnk := l, p_rlnk := r'\<rparr>"
        and L': "lists_ok (L(os_rdy := run k # L os_rdy)) (k\<lparr>p_lnk := l, p_rlnk := r'\<rparr>)"
      let ?L = "L(os_rdy := run k # L os_rdy)"
      let ?k = "k\<lparr>p_lnk := l, p_rlnk := r', state := (state k)(run k := READY, t := RUNNING), new_tsk := t\<rparr>"
      have eq: "rt_dispatch t k = Some ?k" using True N by (simp add: rt_dispatch_def put rt_switch_req_def setters)
      have "queues_ok {} ?L D ?k"
        unfolding queues_ok_def
      proof (intro conjI allI impI ballI)
        show "lists_ok ?L ?k" using L' by (subst lists_ok_cong [of _ "k\<lparr>p_lnk := l, p_rlnk := r'\<rparr>"]) auto
        show "delays_ok D ?k" using D by (subst delays_ok_cong [of _ k]) auto
        show "by_prio (prio ?k) (?L h)" for h using queues_okD(3) [OF Q, of h] u(4) by auto
        show "state ?k x = READY \<longleftrightarrow> x \<in> set (?L os_rdy)" if "tcb ?k x \<and> x \<notin> {}" for x
          using queues_okD(4) [OF Q, of x] that t S by (auto simp: tcb_def free_task_def)
        show "0 < snd d" if "d \<in> set D" for d using queues_okD(5) [OF Q that] .
        show "x \<notin> fst ` set D" if "x \<in> set (?L os_rdy)" for x using that u(2) queues_okD(6) [OF Q, of x] by (cases "x = run k") simp_all
      qed
      moreover have "runs_ok ?L D ?k"
        using t u True unfolding runs_ok_def free_task_def by (auto simp: tcb_def dest: order_le_less_trans intro: order.strict_implies_order)
      moreover have "?k = k\<lparr>p_lnk := l, p_rlnk := r', state := state ?k, new_tsk := new_tsk ?k\<rparr> \<and> (\<forall>y. y \<noteq> t \<longrightarrow> y \<noteq> run k \<longrightarrow> state ?k y = state k y)" by simp
      then have "\<exists>l r st. ?k = k\<lparr>p_lnk := l, p_rlnk := r, state := st, new_tsk := new_tsk ?k\<rparr> \<and> (\<forall>y. y \<noteq> t \<longrightarrow> y \<noteq> run k \<longrightarrow> st y = state k y)" by blast
      ultimately show thesis using that [OF eq] True by (auto simp: kernel_ok_def)
    qed
  next
    case False
    define k1 where "k1 = k\<lparr>state := (state k)(t := READY)\<rparr>"
    have e: "cb_type k1 = cb_type k" "p_lnk k1 = p_lnk k" "p_rlnk k1 = p_rlnk k" "prio k1 = prio k" by (simp_all add: k1_def)
    have L1: "lists_ok L k1" "head k1 os_rdy" "free_task L k1 t" using L e t(1) by (simp_all add: lists_ok_cong [of k1 k] head_def tcb_cong(4) [of k1 k])
    show thesis
    proof (rule lists_ok_put [OF L1])
      fix l r'
      let ?L = "L(os_rdy := insert_prio (prio k) t (L os_rdy))"
      assume put: "rt_put_prio os_rdy t k1 = Some (k1\<lparr>p_lnk := l, p_rlnk := r'\<rparr>)"
        and "lists_ok (L(os_rdy := insert_prio (prio k1) t (L os_rdy))) (k1\<lparr>p_lnk := l, p_rlnk := r'\<rparr>)"
      then have L': "lists_ok ?L (k1\<lparr>p_lnk := l, p_rlnk := r'\<rparr>)" by (simp add: e)
      let ?k = "k\<lparr>p_lnk := l, p_rlnk := r', state := (state k)(t := READY)\<rparr>"
      have ek: "?k = k1\<lparr>p_lnk := l, p_rlnk := r'\<rparr>" by (simp add: k1_def)
      have eq: "rt_dispatch t k = Some ?k" using False N put by (simp add: rt_dispatch_def setters k1_def)
      have "queues_ok {} ?L D ?k"
        unfolding queues_ok_def
      proof (intro conjI allI impI ballI)
        show "lists_ok ?L ?k" using L' unfolding ek .
        show "delays_ok D ?k" using D by (subst delays_ok_cong [of _ k]) auto
        show "by_prio (prio ?k) (?L h)" for h using queues_okD(3) [OF Q] by (auto intro: by_prio_insert)
        show "state ?k x = READY \<longleftrightarrow> x \<in> set (?L os_rdy)" if "tcb ?k x \<and> x \<notin> {}" for x
          using queues_okD(4) [OF Q, of x] that t by (auto simp: tcb_def free_task_def)
        show "0 < snd d" if "d \<in> set D" for d using queues_okD(5) [OF Q that] .
        show "x \<notin> fst ` set D" if "x \<in> set (?L os_rdy)" for x using that t(3) queues_okD(6) [OF Q, of x] by (cases "x = t") simp_all
      qed
      moreover have "runs_ok ?L D ?k"
        using t u r False unfolding runs_ok_def free_task_def by (auto simp: tcb_def)
      moreover have "new_tsk ?k = run k" using r by simp
      moreover have "?k = k\<lparr>p_lnk := l, p_rlnk := r', state := (state k)(t := READY), new_tsk := new_tsk ?k\<rparr>" by (cases k) simp
      then have "\<exists>l r st. ?k = k\<lparr>p_lnk := l, p_rlnk := r, state := st, new_tsk := new_tsk ?k\<rparr> \<and> (\<forall>y. y \<noteq> t \<longrightarrow> y \<noteq> run k \<longrightarrow> st y = state k y)"
        by (intro exI [of _ l] exI [of _ r'] exI [of _ "(state k)(t := READY)"]) simp
      ultimately show thesis using that [OF eq] False by (auto simp: kernel_ok_def)
    qed
  qed
qed

section \<open>The tick\<close>

lemma lists_ok_relink:
  assumes L: "lists_ok L k" and c: "cb_type k' = cb_type k" and r: "p_rlnk k' = p_rlnk k" and l: "\<And>h. head k h \<Longrightarrow> links (p_lnk k') h (L h) NULL"
  shows "lists_ok L k'"
proof -
  have a: "\<forall>h. if head k h then links (p_lnk k') h (L h) NULL else L h = []" using l lists_okD(8) [OF L] by simp
  show ?thesis using L a unfolding lists_ok_def c r tcb_cong [OF c] by (elim conjE, intro conjI) assumption+
qed

lemma lists_ok_free_lnk:
  assumes L: "lists_ok L k" and x: "free_task L k x"
  shows "lists_ok L (k\<lparr>p_lnk := (p_lnk k)(x := v)\<rparr>)"
proof (rule lists_ok_relink [OF L])
  fix h assume h: "head k h"
  show "links (p_lnk (k\<lparr>p_lnk := (p_lnk k)(x := v)\<rparr>)) h (L h) NULL"
    using x lists_okD(1) [OF L h] head_not_tcb [OF L h, of x] by (simp add: free_task_def)
qed simp_all

lemma delays_ok_free_delta:
  assumes D: "delays_ok D k" and x: "x \<notin> fst ` set D" "x \<noteq> os_dly"
  shows "delays_ok D (k\<lparr>delta_time := (delta_time k)(x := v)\<rparr>)"
  using D x by (simp add: delays_ok_def tcb_cong(1) [of "k\<lparr>delta_time := (delta_time k)(x := v)\<rparr>" k])

definition drop_task :: "ptr \<Rightarrow> (ptr \<Rightarrow> ptr list) \<Rightarrow> ptr \<Rightarrow> ptr list" where
  "drop_task x L = (\<lambda>h. remove1 x (L h))"

lemma drop_task_free: "free_task L k x \<Longrightarrow> drop_task x L = L"
  by (auto simp: drop_task_def free_task_def remove1_idem fun_eq_iff)

lemma drop_task_other: "h \<noteq> g \<Longrightarrow> lists_ok L k \<Longrightarrow> x \<in> set (L h) \<Longrightarrow> drop_task x L g = L g"
  using lists_okD(5) [of L k x h g] by (simp add: drop_task_def remove1_idem)

lemma lists_ok_leave:
  assumes L: "lists_ok L k" and x: "tcb k x" "x \<notin> set (L os_rdy)"
  obtains l r where "leave_waiting x k = k\<lparr>p_lnk := l, p_rlnk := r\<rparr>" "lists_ok (drop_task x L) (k\<lparr>p_lnk := l, p_rlnk := r\<rparr>)"
    "free_task (drop_task x L) k x"
proof (cases "free_task L k x")
  case True
  then have "p_rlnk k x = NULL" using L by (auto simp: lists_ok_def free_task_def)
  then have "leave_waiting x k = k\<lparr>p_lnk := p_lnk k, p_rlnk := p_rlnk k\<rparr>" by (simp add: leave_waiting_def)
  then show thesis using L True by (intro that [where l = "p_lnk k" and r = "p_rlnk k"]) (simp_all add: drop_task_free)
next
  case False
  then obtain h where h: "x \<in> set (L h)" using x by (auto simp: free_task_def)
  then obtain ys zs where s: "L h = ys @ x # zs" by (auto dest: split_list)
  have o: "obj k h" using lists_okD(6) [OF L h] h x by (auto simp: head_def)
  have d: "distinct (ys @ x # zs)" using lists_okD(3) [OF L, of h] s by simp
  have rb: "p_rlnk k x = last (h # ys)" using backs_at lists_okD(2) [OF L o] s by metis
  then have rn: "p_rlnk k x \<noteq> NULL"
    using lists_okD(7) [OF L, of h] o last_in_set [of "h # ys"] s by (auto simp: obj_def simp del: last.simps)
  have rx: "p_rlnk k x \<noteq> x"
    using rb d tcb_not_obj [OF x(1) o] last_in_set [of "h # ys"] by (auto simp del: last.simps)
  have dr: "drop_task x L = L(h := ys @ zs)"
  proof
    fix g
    show "drop_task x L g = (L(h := ys @ zs)) g"
      using d s drop_task_other [OF _ L h, of g] by (cases "g = h") (auto simp: drop_task_def remove1_append)
  qed
  have fr: "free_task (drop_task x L) k x"
    using x(1) d lists_okD(5) [OF L h] by (auto simp: dr free_task_def)
  show thesis
  proof (rule lists_ok_rmv [OF L s])
    fix l r
    assume rm: "rt_rmv_list x k = Some (k\<lparr>p_lnk := l, p_rlnk := r\<rparr>)"
      and L': "lists_ok (L(h := ys @ zs)) (k\<lparr>p_lnk := l, p_rlnk := r(x := NULL)\<rparr>)"
    have l: "l = (p_lnk k)(p_rlnk k x := p_lnk k x)"
      and r: "r = (if p_lnk k x \<noteq> NULL then (p_rlnk k)(p_lnk k x := p_rlnk k x) else p_rlnk k)"
      using rm rn rx by (auto simp: rt_rmv_list_def setters Let_def split: if_splits dest: arg_cong [where f = p_lnk] arg_cong [where f = p_rlnk])
    define l' where "l' = (if p_lnk k x \<noteq> NULL then l(x := NULL) else l)"
    have eq: "leave_waiting x k = k\<lparr>p_lnk := l', p_rlnk := r(x := NULL)\<rparr>"
      using rn rx by (simp add: leave_waiting_def setters Let_def l'_def l r)
    have "free_task (L(h := ys @ zs)) (k\<lparr>p_lnk := l, p_rlnk := r(x := NULL)\<rparr>) x" using fr by (simp add: dr free_task_def)
    have swap: "k\<lparr>p_rlnk := r(x := NULL), p_lnk := m\<rparr> = k\<lparr>p_lnk := m, p_rlnk := r(x := NULL)\<rparr>" for m by simp
    have free': "free_task (L(h := ys @ zs)) (k\<lparr>p_lnk := l, p_rlnk := r(x := NULL)\<rparr>) x" by fact
    from lists_ok_free_lnk [OF L' free', of NULL] L' have "lists_ok (L(h := ys @ zs)) (k\<lparr>p_lnk := l', p_rlnk := r(x := NULL)\<rparr>)"
      by (simp add: l'_def swap)
    with eq fr show thesis by (intro that) (simp_all add: dr)
  qed
qed

lemma dec_dly_step_eq:
  assumes "p_dlnk k os_dly = x" "p_blnk k x = os_dly" "delta_time k os_dly = 0" "p_dlnk k x = NULL \<longrightarrow> delta_time k x = 0"
    "x \<noteq> os_dly" "p_dlnk k x \<noteq> x" "rt_put_prio os_rdy x (leave_waiting x k) = Some (k\<lparr>p_lnk := l, p_rlnk := r\<rparr>)"
    "rt_rmv_dly x k = k\<lparr>p_dlnk := d, p_blnk := b, delta_time := dt\<rparr>"
  shows "\<exists>v. dec_dly_step k = Some (k\<lparr>p_lnk := l, p_rlnk := r, p_dlnk := d, p_blnk := b, delta_time := dt(x := v), state := (state k)(x := READY)\<rparr>)"
proof -
  have "p_dlnk (rt_rmv_dly x k) = d" "p_blnk (rt_rmv_dly x k) = b" "delta_time (rt_rmv_dly x k) = dt" using assms(8) by simp_all
  then have d: "d = (if p_dlnk k x \<noteq> NULL then (p_dlnk k)(os_dly := p_dlnk k x, x := NULL) else (p_dlnk k)(os_dly := NULL))"
    and b: "b = (if p_dlnk k x \<noteq> NULL then (p_blnk k)(p_dlnk k x := os_dly, x := NULL) else (p_blnk k)(x := NULL))"
    and dt: "dt = (delta_time k)(os_dly := delta_time k x)"
    using assms(2-6) by (auto simp: rt_rmv_dly_def setters Let_def)
  define v where "v = (if state k x = WAIT_ITV then interval_time k x + ucast (os_time k) else delta_time k x)"
  have dtv: "dt(x := v) = (if state k x = WAIT_ITV then dt(x := v) else dt)"
    using assms(5) by (auto simp: v_def dt)
  show ?thesis using assms(1,5,6,7) unfolding dec_dly_step_def
    by (intro exI [of _ v], subst dtv) (simp add: Let_def setters d b dt v_def)
qed

lemma by_prio_remove1: "by_prio pr xs \<Longrightarrow> by_prio pr (remove1 x xs)"
  by (induction xs) (auto dest: notin_set_remove1 [rotated])

text \<open>
  \<open>wake\<close>: every task whose time is over leaves the list it waits in and joins the ready list, in the order of the
  delay list.
\<close>

fun wake :: "(ptr \<Rightarrow> u8) \<Rightarrow> (ptr \<times> nat) list \<Rightarrow> (ptr \<Rightarrow> ptr list) \<Rightarrow> (ptr \<Rightarrow> ptr list) \<times> (ptr \<times> nat) list" where
  "wake pr ((x, 0) # D) L = wake pr D ((drop_task x L)(os_rdy := insert_prio pr x (L os_rdy)))"
| "wake pr D L = (L, D)"

definition passed :: "(ptr \<times> nat) list \<Rightarrow> (ptr \<times> nat) list" where
  "passed D = map (\<lambda>(x, r). (x, r - 1)) D"

definition ticking :: "(ptr \<Rightarrow> ptr list) \<Rightarrow> (ptr \<times> nat) list \<Rightarrow> kernel \<Rightarrow> bool" where
  "ticking L D k \<longleftrightarrow> lists_ok L k \<and> delays_ok D k \<and> (\<forall>h. by_prio (prio k) (L h))
     \<and> (\<forall>x. tcb k x \<longrightarrow> (state k x = READY \<longleftrightarrow> x \<in> set (L os_rdy))) \<and> (\<forall>x\<in>set (L os_rdy). x \<notin> fst ` set D)"

lemma dec_dly_step_ok:
  assumes T: "ticking L ((x, 0) # D) k"
  obtains l r d b dt where
    "dec_dly_step k = Some (k\<lparr>p_lnk := l, p_rlnk := r, p_dlnk := d, p_blnk := b, delta_time := dt, state := (state k)(x := READY)\<rparr>)"
    "ticking ((drop_task x L)(os_rdy := insert_prio (prio k) x (L os_rdy))) D
      (k\<lparr>p_lnk := l, p_rlnk := r, p_dlnk := d, p_blnk := b, delta_time := dt, state := (state k)(x := READY)\<rparr>)"
proof -
  have L: "lists_ok L k" and D: "delays_ok ((x, 0) # D) k" and xr: "x \<notin> set (L os_rdy)" and pr: "\<And>h. by_prio (prio k) (L h)"
    and st: "\<And>y. tcb k y \<Longrightarrow> state k y = READY \<longleftrightarrow> y \<in> set (L os_rdy)" and dj: "\<And>y. y \<in> set (L os_rdy) \<Longrightarrow> y \<notin> fst ` set D"
    using T unfolding ticking_def by auto
  have xt: "tcb k x" using delays_okD(4) [OF D, of x] by simp
  have xD: "x \<notin> fst ` set D" "x \<noteq> os_dly" using delays_okD(3,10) [OF D] by auto
  let ?L = "drop_task x L"
  have Lr: "?L os_rdy = L os_rdy" using xr by (simp add: drop_task_def remove1_idem)
  show thesis
  proof (rule lists_ok_leave [OF L xt xr])
    fix l r
    assume lv: "leave_waiting x k = k\<lparr>p_lnk := l, p_rlnk := r\<rparr>" and L1: "lists_ok ?L (k\<lparr>p_lnk := l, p_rlnk := r\<rparr>)" and f: "free_task ?L k x"
    have h: "head (k\<lparr>p_lnk := l, p_rlnk := r\<rparr>) os_rdy" "free_task ?L (k\<lparr>p_lnk := l, p_rlnk := r\<rparr>) x" using f by (simp_all add: head_def free_task_def)
    show thesis
    proof (rule lists_ok_put [OF L1 h])
      fix l' r'
      assume put: "rt_put_prio os_rdy x (k\<lparr>p_lnk := l, p_rlnk := r\<rparr>) = Some (k\<lparr>p_lnk := l, p_rlnk := r, p_lnk := l', p_rlnk := r'\<rparr>)"
        and L2: "lists_ok (?L(os_rdy := insert_prio (prio (k\<lparr>p_lnk := l, p_rlnk := r\<rparr>)) x (?L os_rdy))) (k\<lparr>p_lnk := l, p_rlnk := r, p_lnk := l', p_rlnk := r'\<rparr>)"
      have D0: "(x, 0) # D = [] @ (x, 0) # D" by simp
      show thesis
      proof (rule delays_ok_rmv [OF D D0])
        fix d b dt
        assume rm: "rt_rmv_dly x k = k\<lparr>p_dlnk := d, p_blnk := b, delta_time := dt\<rparr>"
          and D1: "delays_ok ([] @ D) (k\<lparr>p_dlnk := d, p_blnk := b, delta_time := dt\<rparr>)"
        have lk: "p_dlnk k os_dly = x" "p_blnk k x = os_dly" "delta_time k os_dly = 0"
          and nx: "links (p_dlnk k) x (map fst D) NULL" "deltas (delta_time k) x 0 D 0"
          using delays_okD(1,2,6) [OF D] by (auto simp: unat_eq_0)
        have px: "p_dlnk k x = hd (map fst D @ [NULL])" using links_first [OF nx(1)] .
        have "p_dlnk k x \<noteq> x" using px xD xt by (cases D) (auto simp: tcb_def)
        moreover have "p_dlnk k x = NULL \<longrightarrow> delta_time k x = 0"
          using px nx(2) delays_okD(9) [OF D] by (cases D) (auto simp: unat_eq_0)
        moreover have put': "rt_put_prio os_rdy x (leave_waiting x k) = Some (k\<lparr>p_lnk := l', p_rlnk := r'\<rparr>)" using put lv by simp
        ultimately obtain v where
          e: "dec_dly_step k = Some (k\<lparr>p_lnk := l', p_rlnk := r', p_dlnk := d, p_blnk := b, delta_time := dt(x := v), state := (state k)(x := READY)\<rparr>)"
          using dec_dly_step_eq [OF lk(1,2,3) _ xD(2) _ put' rm] by blast
        let ?k = "k\<lparr>p_lnk := l', p_rlnk := r', p_dlnk := d, p_blnk := b, delta_time := dt(x := v), state := (state k)(x := READY)\<rparr>"
        have "lists_ok (?L(os_rdy := insert_prio (prio k) x (L os_rdy))) ?k"
          using L2 Lr by (subst lists_ok_cong [of _ "k\<lparr>p_lnk := l', p_rlnk := r'\<rparr>"]) auto
        moreover have "delays_ok D ?k"
          using delays_ok_free_delta [OF D1 _ xD(2), of v] xD(1)
          by (subst delays_ok_cong [of _ "k\<lparr>p_dlnk := d, p_blnk := b, delta_time := dt(x := v)\<rparr>"]) auto
        moreover have "by_prio (prio k) ((?L(os_rdy := insert_prio (prio k) x (L os_rdy))) h)" for h
          using pr by (auto simp: drop_task_def intro: by_prio_insert by_prio_remove1)
        ultimately have "ticking (?L(os_rdy := insert_prio (prio k) x (L os_rdy))) D ?k"
          using st dj xD(1) unfolding ticking_def by (simp add: tcb_def)
        with e show thesis by (rule that)
      qed
    qed
  qed
qed

text \<open>\<open>moved k k'\<close>: only the links, the times and the states of tasks have changed.\<close>

definition moved :: "kernel \<Rightarrow> kernel \<Rightarrow> bool" where
  "moved k k' \<longleftrightarrow> (\<exists>l r d b dt st. k' = k\<lparr>p_lnk := l, p_rlnk := r, p_dlnk := d, p_blnk := b, delta_time := dt, state := st\<rparr>)"

lemma moved_refl [simp]: "moved k k"
proof -
  have "k = k\<lparr>p_lnk := p_lnk k, p_rlnk := p_rlnk k, p_dlnk := p_dlnk k, p_blnk := p_blnk k, delta_time := delta_time k, state := state k\<rparr>" by simp
  then show ?thesis unfolding moved_def by blast
qed

lemma moved_trans: "moved k k' \<Longrightarrow> moved k' k'' \<Longrightarrow> moved k k''"
  unfolding moved_def by (elim exE) (simp, blast)

lemma movedD:
  assumes "moved k k'"
  shows "cb_type k' = cb_type k" "prio k' = prio k" "run k' = run k" "new_tsk k' = new_tsk k" "tokens k' = tokens k"
    "os_active_TCB k' = os_active_TCB k" "os_time k' = os_time k" "os_psq k' = os_psq k" "ret_regs k' = ret_regs k" "events k' = events k" "waits k' = waits k"
    "mb_first k' = mb_first k" "mb_last k' = mb_last k" "mb_count k' = mb_count k" "mb_size k' = mb_size k" "mb_msg k' = mb_msg k" "tcb_msg k' = tcb_msg k"
  using assms by (auto simp: moved_def)

lemma dec_dly_loop_ok:
  "ticking L D k \<Longrightarrow> wake (prio k) D L = (L', D') \<Longrightarrow> sorted (map snd D) \<Longrightarrow>
   \<exists>k'. dec_dly_loop k = Some k' \<and> ticking L' D' k' \<and> moved k k'
     \<and> state k' = (\<lambda>x. if (x, 0) \<in> set D then READY else state k x) \<and> (\<forall>e\<in>set D'. 0 < snd e)"
proof (induction D arbitrary: L k)
  case Nil
  then have D: "delays_ok [] k" by (simp add: ticking_def)
  have "p_dlnk k os_dly = NULL" using delays_okD(1) [OF D] by simp
  then have "dec_dly_loop k = Some k" by (subst dec_dly_loop.simps) simp
  then show ?case using Nil by simp
next
  case (Cons e D)
  obtain x n where e: "e = (x, n)" by (cases e)
  have Dk: "delays_ok ((x, n) # D) k" using Cons.prems(1) by (simp add: ticking_def e)
  have dl: "unat (delta_time k os_dly) = n" "p_dlnk k os_dly = x" "x \<noteq> NULL" using delays_okD(1,6,9) [OF Dk] by auto
  show ?case
  proof (cases n)
    case 0
    with Cons.prems e have T: "ticking L ((x, 0) # D) k" by simp
    show ?thesis
    proof (rule dec_dly_step_ok [OF T])
      fix l r d b dt
      define k1 where "k1 = k\<lparr>p_lnk := l, p_rlnk := r, p_dlnk := d, p_blnk := b, delta_time := dt, state := (state k)(x := READY)\<rparr>"
      assume "dec_dly_step k = Some (k\<lparr>p_lnk := l, p_rlnk := r, p_dlnk := d, p_blnk := b, delta_time := dt, state := (state k)(x := READY)\<rparr>)"
        and "ticking ((drop_task x L)(os_rdy := insert_prio (prio k) x (L os_rdy))) D
          (k\<lparr>p_lnk := l, p_rlnk := r, p_dlnk := d, p_blnk := b, delta_time := dt, state := (state k)(x := READY)\<rparr>)"
      then have st: "dec_dly_step k = Some k1" and T': "ticking ((drop_task x L)(os_rdy := insert_prio (prio k) x (L os_rdy))) D k1"
        unfolding k1_def by simp_all
      have m: "moved k k1" "prio k1 = prio k" "state k1 = (state k)(x := READY)" unfolding moved_def k1_def by (blast, simp_all)
      have w: "wake (prio k1) D ((drop_task x L)(os_rdy := insert_prio (prio k) x (L os_rdy))) = (L', D')" "sorted (map snd D)"
        using Cons.prems(2,3) e 0 m(2) by simp_all
      from Cons.IH [OF T' w] obtain k' where
        ih: "dec_dly_loop k1 = Some k'" "ticking L' D' k'" "moved k1 k'" "state k' = (\<lambda>y. if (y, 0) \<in> set D then READY else state k1 y)"
          "\<forall>e\<in>set D'. 0 < snd e" by blast
      have s: "state k' = (\<lambda>y. if (y, 0) \<in> set (e # D) then READY else state k y)"
        by (auto simp: e 0 ih(4) m(3))
      have "dec_dly_loop k = dec_dly_loop k1" using dl 0 st by (subst dec_dly_loop.simps) (simp add: unat_eq_0)
      then show ?thesis using ih(1,2,5) s moved_trans [OF m(1) ih(3)] by auto
    qed
  next
    case (Suc m)
    then have "(L', D') = (L, e # D)" using Cons.prems(2) e by simp
    moreover have "delta_time k os_dly \<noteq> 0" using dl Suc by (auto simp: unat_eq_0)
    then have "dec_dly_loop k = Some k" by (subst dec_dly_loop.simps) simp
    moreover have "\<forall>d\<in>set (e # D). 0 < snd d" using Cons.prems(3) Suc by (auto simp: e)
    moreover from this have "(\<lambda>y. if (y, 0) \<in> set (e # D) then READY else state k y) = state k" by (auto simp: fun_eq_iff)
    ultimately show ?thesis using Cons.prems(1) by simp
  qed
qed

lemma deltas_passed:
  "deltas dt p b ds e \<Longrightarrow> \<forall>d\<in>set ds. 0 < snd d \<Longrightarrow> 0 < b \<Longrightarrow> deltas dt p (b - 1) (passed ds) e"
  by (induction dt p b ds e rule: deltas.induct) (auto simp: passed_def)

lemma passed_simps [simp]: "map fst (passed D) = map fst D" "fst ` set (passed D) = fst ` set D" "passed [] = []" "passed ((x, n) # D) = (x, n - 1) # passed D"
  by (auto simp: passed_def image_image case_prod_beta comp_def)

lemma dec_dly_ok:
  assumes Q: "queues_ok {} L D k" and w: "wake (prio k) (passed D) L = (L', D')"
  shows "\<exists>k'. rt_dec_dly k = Some k' \<and> queues_ok {} L' D' k' \<and> moved k k'
     \<and> state k' = (\<lambda>x. if (x, 1) \<in> set D then READY else state k x)"
proof (cases D)
  case Nil
  then have "rt_dec_dly k = Some k" using delays_okD(1) [OF queues_okD(2) [OF Q]] by (simp add: rt_dec_dly_def)
  moreover have "L' = L" "D' = []" using w Nil by simp_all
  ultimately show ?thesis using Q Nil by simp
next
  case (Cons e D1)
  obtain x n where e: "e = (x, n)" by (cases e)
  note D = queues_okD(2) [OF Q]
  have pos: "\<forall>d\<in>set D. 0 < snd d" using queues_okD(5) [OF Q] by blast
  have n: "0 < n" "unat (delta_time k os_dly) = n" "p_dlnk k os_dly = x" "x \<noteq> NULL" "deltas (delta_time k) x n D1 0"
    using pos delays_okD(1,6,9) [OF D] by (auto simp: Cons e)
  let ?k = "k\<lparr>delta_time := (delta_time k)(os_dly := delta_time k os_dly - 1)\<rparr>"
  have u: "unat (delta_time k os_dly - 1) = n - 1" using n by (subst unat_minus_one) (auto simp: unat_eq_0)
  have "os_dly \<noteq> x" "os_dly \<notin> fst ` set D1" using delays_okD(10) [OF D] by (auto simp: Cons e)
  then have dl: "deltas ((delta_time k)(os_dly := delta_time k os_dly - 1)) os_dly 0 (passed D) 0"
    using deltas_passed [OF n(5) _ n(1)] pos u by (simp add: Cons e)
  have tc: "tcb ?k = tcb k" by (rule tcb_cong) simp
  have D': "delays_ok (passed D) ?k"
    unfolding delays_ok_def passed_simps tc
  proof (intro conjI)
    show "\<forall>d\<in>set (passed D). snd d < 0xFFFF" using delays_okD(7) [OF D] by (fastforce simp: passed_def)
    show "deltas (delta_time ?k) os_dly 0 (passed D) 0" using dl by simp
    show "\<forall>x. tcb k x \<and> x \<notin> fst ` set D \<longrightarrow> p_blnk ?k x = NULL" using delays_okD(5) [OF D] by simp
    show "\<forall>x\<in>fst ` set D. tcb k x" using delays_okD(4) [OF D] by blast
  qed (use delays_okD(1,2,3,8) [OF D] in simp_all)
  have "ticking L (passed D) ?k"
    using Q D' unfolding ticking_def queues_ok_def tc by (simp add: lists_ok_cong [of ?k k])
  moreover have "wake (prio ?k) (passed D) L = (L', D')" using w by simp
  moreover have "sorted (map snd (passed D))" using deltas_sorted [OF dl] by simp
  ultimately obtain k' where
    lp: "dec_dly_loop ?k = Some k'" "ticking L' D' k'" "moved ?k k'" "state k' = (\<lambda>x. if (x, 0) \<in> set (passed D) then READY else state ?k x)"
      "\<forall>e\<in>set D'. 0 < snd e"
    using dec_dly_loop_ok by blast
  have s: "(\<lambda>x. if (x, 0) \<in> set (passed D) then READY else state ?k x) = (\<lambda>x. if (x, 1) \<in> set D then READY else state k x)"
  proof
    fix y
    have "(y, 0) \<in> set (passed D) \<longleftrightarrow> (y, 1) \<in> set D"
    proof
      assume "(y, 0) \<in> set (passed D)"
      then obtain m where "(y, m) \<in> set D" "m - 1 = 0" by (auto simp: passed_def)
      moreover have "0 < m" using pos calculation by fastforce
      ultimately show "(y, 1) \<in> set D" by (metis One_nat_def Suc_pred)
    qed (force simp: passed_def)
    then show "(if (y, 0) \<in> set (passed D) then READY else state ?k y) = (if (y, 1) \<in> set D then READY else state k y)" by simp
  qed
  have "rt_dec_dly k = dec_dly_loop ?k" using n by (simp add: rt_dec_dly_def setters)
  moreover have "moved k k'"
  proof (rule moved_trans [OF _ lp(3)])
    have "?k = k\<lparr>p_lnk := p_lnk k, p_rlnk := p_rlnk k, p_dlnk := p_dlnk k, p_blnk := p_blnk k, delta_time := delta_time ?k, state := state k\<rparr>" by simp
    then show "moved k ?k" unfolding moved_def by blast
  qed
  moreover have "queues_ok {} L' D' k'" using lp(2,5) by (simp add: ticking_def queues_ok_def)
  ultimately show ?thesis using lp(1,4) unfolding s by simp
qed

end
