(* ===== verification/RtxRing.thy ===== *)
theory RtxRing
  imports Rtx
begin

text \<open>
  Circular buffers, as the mailboxes and the post service queue use them, and the queue itself.
\<close>

section \<open>The circular buffer\<close>

definition ring :: "'a list \<Rightarrow> nat \<Rightarrow> nat \<Rightarrow> 'a list" where
  "ring xs i n = map (\<lambda>j. xs ! ((i + j) mod length xs)) [0..<n]"

lemma length_ring [simp]: "length (ring xs i n) = n"
  by (simp add: ring_def)

lemma mod_neq: "a < b \<Longrightarrow> b < a + m \<Longrightarrow> b mod m \<noteq> a mod (m :: nat)"
proof
  assume a: "a < b" "b < a + m" and "b mod m = a mod m"
  then have "m dvd b - a" using mod_eq_dvd_iff_nat [of a b m] by simp
  then have "m \<le> b - a" using a by (intro dvd_imp_le) simp_all
  then show False using a by simp
qed

lemma unat_next: "i < sz \<Longrightarrow> unat (i + 1) = Suc (unat (i :: 'a::len word))"
proof -
  assume "i < sz"
  moreover have "unat sz < 2 ^ LENGTH('a)" by (rule unsigned_less)
  ultimately have "Suc (unat i) < 2 ^ LENGTH('a)" unfolding word_less_nat_alt by linarith
  then show ?thesis by (simp add: unat_word_ariths)
qed

lemma ring_put: "n < length xs \<Longrightarrow> ring (xs[(i + n) mod length xs := m]) i (Suc n) = ring xs i n @ [m]"
proof -
  assume n: "n < length xs"
  have "(i + n) mod length xs \<noteq> (i + j) mod length xs" if "j < n" for j
    using mod_neq [of "i + j" "i + n" "length xs"] that n by simp
  moreover have "(i + n) mod length xs < length xs" using n by (intro mod_less_divisor) linarith
  ultimately show ?thesis by (simp add: ring_def)
qed

lemma ring_take: "i < length xs \<Longrightarrow> ring xs i (Suc n) = xs ! i # ring xs (Suc i mod length xs) n"
proof -
  assume i: "i < length xs"
  have "ring xs i (Suc n) = xs ! ((i + 0) mod length xs) # map (\<lambda>j. xs ! ((i + Suc j) mod length xs)) [0..<n]"
    unfolding ring_def upt_conv_Cons [OF zero_less_Suc] map_Suc_upt [symmetric] by simp
  then show ?thesis using i by (simp add: ring_def mod_add_left_eq)
qed

section \<open>The post service queue\<close>

definition posted :: "kernel \<Rightarrow> (ptr \<times> u32) list" where
  "posted k = ring (q (os_psq k)) (unat (psq_last (os_psq k))) (unat (psq_count (os_psq k)))"

lemma unat_u8_u32: "unat (ucast (w :: u8) :: u32) = unat w"
proof -
  have "unat w < 2 ^ LENGTH(8)" by (rule unsigned_less)
  then show ?thesis by (simp add: unsigned_ucast_eq take_bit_eq_mod)
qed

text \<open>What interrupts post: flags to a task, a token to a semaphore, a message to a mailbox.\<close>

definition psq_ok :: "kernel \<Rightarrow> bool" where
  "psq_ok k \<longleftrightarrow> length (q (os_psq k)) = unat (psq_size (os_psq k)) \<and> psq_last (os_psq k) < psq_size (os_psq k)
     \<and> psq_count (os_psq k) \<le> psq_size (os_psq k)
     \<and> unat (psq_first (os_psq k)) = (unat (psq_last (os_psq k)) + unat (psq_count (os_psq k))) mod unat (psq_size (os_psq k))
     \<and> (\<forall>e\<in>set (posted k). fst e \<noteq> NULL \<and> cb_type k (fst e) \<in> {TCB, SCB, MCB})"

lemma psq_okD:
  assumes "psq_ok k"
  shows "length (q (os_psq k)) = unat (psq_size (os_psq k))" "unat (psq_last (os_psq k)) < unat (psq_size (os_psq k))"
    "unat (psq_count (os_psq k)) \<le> unat (psq_size (os_psq k))"
    "unat (psq_first (os_psq k)) = (unat (psq_last (os_psq k)) + unat (psq_count (os_psq k))) mod unat (psq_size (os_psq k))"
    "unat (psq_first (os_psq k)) < unat (psq_size (os_psq k))" "e \<in> set (posted k) \<Longrightarrow> fst e \<noteq> NULL \<and> cb_type k (fst e) \<in> {TCB, SCB, MCB}"
proof -
  show a: "length (q (os_psq k)) = unat (psq_size (os_psq k))" "unat (psq_last (os_psq k)) < unat (psq_size (os_psq k))"
    "unat (psq_count (os_psq k)) \<le> unat (psq_size (os_psq k))"
    "unat (psq_first (os_psq k)) = (unat (psq_last (os_psq k)) + unat (psq_count (os_psq k))) mod unat (psq_size (os_psq k))"
    "e \<in> set (posted k) \<Longrightarrow> fst e \<noteq> NULL \<and> cb_type k (fst e) \<in> {TCB, SCB, MCB}"
    using assms by (auto simp: psq_ok_def word_less_nat_alt word_le_nat_alt)
  show "unat (psq_first (os_psq k)) < unat (psq_size (os_psq k))" unfolding a(4) using a(2) by (intro mod_less_divisor) simp
qed

lemma psq_ok_cong: "os_psq k' = os_psq k \<Longrightarrow> cb_type k' = cb_type k \<Longrightarrow> psq_ok k' = psq_ok k"
  by (simp add: psq_ok_def posted_def)

lemma psq_enq_ok:
  assumes P: "psq_ok k" and n: "psq_count (os_psq k) \<noteq> psq_size (os_psq k)" and e: "entry \<noteq> NULL" "cb_type k entry \<in> {TCB, SCB, MCB}"
  obtains s where "rt_psq_enq entry arg k = Some (k\<lparr>os_psq := s\<rparr>)" "psq_ok (k\<lparr>os_psq := s\<rparr>)" "posted (k\<lparr>os_psq := s\<rparr>) = posted k @ [(entry, arg)]"
    "psq_size s = psq_size (os_psq k)"
proof -
  note D = psq_okD [OF P]
  let ?o = "os_psq k"
  define c2 where "c2 = (let c2 = (ucast (psq_first ?o) :: u32) + 1 in ucast (if c2 = ucast (psq_size ?o) then 0 else c2) :: u8)"
  let ?s = "?o\<lparr>psq_count := psq_count ?o + 1, psq_first := c2, q := (q ?o)[unat (psq_first ?o) := (entry, arg)]\<rparr>"
  have n': "psq_count ?o < psq_size ?o" using D(3) n by (simp add: word_le_nat_alt [symmetric] order_less_le)
  have c1: "unat (psq_count ?o + 1) = Suc (unat (psq_count ?o))" by (rule unat_next [OF n'])
  have f: "psq_first ?o < psq_size ?o" using D(5) by (simp add: word_less_nat_alt)
  have sm: "unat (psq_first ?o) < 255" 
  proof -
    have "unat (psq_size ?o) < 2 ^ LENGTH(8)" by (rule unsigned_less)
    then show ?thesis using D(5) by simp
  qed
  have u: "unat ((ucast (psq_first ?o) :: u32) + 1) = Suc (unat (psq_first ?o))" using sm by (simp add: unat_word_ariths unat_u8_u32)
  have "(ucast (psq_first ?o) :: u32) + 1 = ucast (psq_size ?o) \<longleftrightarrow> Suc (unat (psq_first ?o)) = unat (psq_size ?o)"
    unfolding word_eq_iff_unsigned [where ?'a = nat] u by (simp add: unat_u8_u32)
  then have c2: "unat c2 = Suc (unat (psq_first ?o)) mod unat (psq_size ?o)"
    using D(5) sm by (auto simp: c2_def Let_def unsigned_ucast_eq take_bit_eq_mod u)
  have r: "posted (k\<lparr>os_psq := ?s\<rparr>) = posted k @ [(entry, arg)]"
    using ring_put [of "unat (psq_count ?o)" "q ?o" "unat (psq_last ?o)" "(entry, arg)"] n' D(1,4) c1
    by (simp add: posted_def word_less_nat_alt)
  have "unat c2 = (unat (psq_last ?o) + unat (psq_count ?o + 1)) mod unat (psq_size ?o)"
    unfolding c2 D(4) c1 by (simp add: mod_Suc_eq)
  moreover have "cb_type (k\<lparr>os_psq := ?s\<rparr>) = cb_type k" by simp
  ultimately have "psq_ok (k\<lparr>os_psq := ?s\<rparr>)"
    using D(1,2,6) n' c1 e unfolding psq_ok_def r by (auto simp: word_le_nat_alt word_less_nat_alt)
  moreover have "rt_psq_enq entry arg k = Some (k\<lparr>os_psq := ?s\<rparr>)"
    using n f D(1,5) by (simp add: rt_psq_enq_def rt_inc_qi_def Let_def wr_in c2_def)
  ultimately show thesis using that [of ?s] r by simp
qed

text \<open>Taking the oldest entry, as the loop of \<open>rt_pop_req\<close> does with its own index.\<close>

lemma posted_take:
  assumes "psq_count (os_psq k) \<noteq> 0" "unat i < length (q (os_psq k))" "ring (q (os_psq k)) (unat i) (unat (psq_count (os_psq k))) = es"
  shows "\<exists>e es'. es = e # es' \<and> rd (q (os_psq k)) (unat i) = Some e
    \<and> ring (q (os_psq k)) (Suc (unat i) mod length (q (os_psq k))) (unat (psq_count (os_psq k) - 1)) = es'"
proof -
  obtain m where m: "unat (psq_count (os_psq k)) = Suc m" using assms(1) by (metis not0_implies_Suc unat_eq_zero)
  then have "unat (psq_count (os_psq k) - 1) = m" using assms(1) by (simp add: unat_minus_one)
  moreover have "rd (q (os_psq k)) (unat i) = Some (q (os_psq k) ! unat i)" using assms(2) by (simp add: rd_in)
  moreover have "es = q (os_psq k) ! unat i # ring (q (os_psq k)) (Suc (unat i) mod length (q (os_psq k))) m"
    using ring_take [OF assms(2), of m] assms(3) m by simp
  ultimately show ?thesis by blast
qed

end
