(* ===== verification/RtxKernel.thy ===== *)
theory RtxKernel
  imports RtxSched RtxRing
begin

text \<open>
  The calls of the kernel on a consistent system: each returns, and what it leaves is consistent again.
\<close>

unbundle bit_operations_syntax

section \<open>States of the whole kernel\<close>

definition same_queues :: "kernel \<Rightarrow> kernel \<Rightarrow> bool" where
  "same_queues k k' \<longleftrightarrow> cb_type k' = cb_type k \<and> p_lnk k' = p_lnk k \<and> p_rlnk k' = p_rlnk k \<and> p_dlnk k' = p_dlnk k
     \<and> p_blnk k' = p_blnk k \<and> delta_time k' = delta_time k \<and> prio k' = prio k \<and> state k' = state k"

lemma queues_ok_cong: "same_queues k k' \<Longrightarrow> queues_ok E L D k' = queues_ok E L D k"
  using lists_ok_cong [of k' k L] delays_ok_cong [of k' k D] tcb_cong(1) [of k' k]
  by (simp add: same_queues_def queues_ok_def)

lemma runs_ok_cong: "same_queues k k' \<Longrightarrow> new_tsk k' = new_tsk k \<Longrightarrow> runs_ok L D k' = runs_ok L D k"
  using tcb_cong(4) [of k' k L] by (simp add: same_queues_def runs_ok_def)

lemma queues_ok_mono: "queues_ok E L D k \<Longrightarrow> E \<subseteq> F \<Longrightarrow> queues_ok F L D k"
  by (auto simp: queues_ok_def)

text \<open>
  \<open>system_ok\<close>, between two calls: the scheduler's invariant; whoever waits at an object is in a waiting state of an
  object; a semaphore with a waiting task has no token; a mailbox with a waiting receiver is empty, one with a waiting
  sender is full; the table of tasks holds tasks; the post service queue is in order.
\<close>

definition mails :: "kernel \<Rightarrow> (ptr \<Rightarrow> u16) \<times> (ptr \<Rightarrow> u16) \<times> (ptr \<Rightarrow> u16) \<times> (ptr \<Rightarrow> u16) \<times> (ptr \<Rightarrow> u32 list) \<times> psq" where
  "mails k = (mb_first k, mb_last k, mb_count k, mb_size k, mb_msg k, os_psq k)"

definition mailbox_ok :: "kernel \<Rightarrow> ptr \<Rightarrow> bool \<Rightarrow> bool" where
  "mailbox_ok k c w \<longleftrightarrow> length (mb_msg k c) = unat (mb_size k c) \<and> mb_last k c < mb_size k c \<and> mb_count k c \<le> mb_size k c
     \<and> unat (mb_first k c) = (unat (mb_last k c) + unat (mb_count k c)) mod unat (mb_size k c)
     \<and> (w \<longrightarrow> state k c = 1 \<and> mb_count k c = 0 \<or> state k c = 2 \<and> mb_count k c = mb_size k c)"

definition object_ok :: "kernel \<Rightarrow> ptr \<Rightarrow> bool \<Rightarrow> bool" where
  "object_ok k c w \<longleftrightarrow> (cb_type k c = SCB \<and> w \<longrightarrow> tokens k c = 0) \<and> (cb_type k c = MCB \<longrightarrow> mailbox_ok k c w)"

lemma object_ok_cong:
  "object_ok k c w \<Longrightarrow> cb_type k' = cb_type k \<Longrightarrow> tokens k' = tokens k \<Longrightarrow> mails k' = mails k \<Longrightarrow> state k' c = state k c \<Longrightarrow> (w' \<Longrightarrow> w)
   \<Longrightarrow> object_ok k' c w'"
  by (auto simp: object_ok_def mailbox_ok_def mails_def)

definition object_wait :: "u8 \<Rightarrow> bool" where
  "object_wait s \<longleftrightarrow> s = WAIT_SEM \<or> s = WAIT_MBX \<or> s = WAIT_MUT"

definition waiters_ok :: "(ptr \<Rightarrow> ptr list) \<Rightarrow> kernel \<Rightarrow> bool" where
  "waiters_ok L k \<longleftrightarrow> (\<forall>c x. obj k c \<and> x \<in> set (L c) \<longrightarrow> object_wait (state k x))
     \<and> (\<forall>c. obj k c \<longrightarrow> object_ok k c (L c \<noteq> []))
     \<and> (\<forall>t\<in>set (os_active_TCB k). t = NULL \<or> tcb k t) \<and> psq_ok k"

definition system_ok :: "(ptr \<Rightarrow> ptr list) \<Rightarrow> (ptr \<times> nat) list \<Rightarrow> kernel \<Rightarrow> bool" where
  "system_ok L D k \<longleftrightarrow> kernel_ok L D k \<and> run k = new_tsk k \<and> waiters_ok L k"

lemma set_without: "set (without t D) = {d \<in> set D. fst d \<noteq> t}" and fst_without: "t \<notin> fst ` set (without t D)"
  and without_sub: "x \<notin> fst ` set D \<Longrightarrow> x \<notin> fst ` set (without t D)"
  by (auto simp: without_def)

lemma rmv_dly_frame:
  assumes "rt_rmv_dly t k = k\<lparr>p_dlnk := d, p_blnk := b, delta_time := dt\<rparr>" "p_dlnk k' = p_dlnk k" "p_blnk k' = p_blnk k" "delta_time k' = delta_time k"
  shows "rt_rmv_dly t k' = k'\<lparr>p_dlnk := d, p_blnk := b, delta_time := dt\<rparr>"
proof -
  have "p_dlnk (rt_rmv_dly t k') = p_dlnk (rt_rmv_dly t k)" "p_blnk (rt_rmv_dly t k') = p_blnk (rt_rmv_dly t k)"
    "delta_time (rt_rmv_dly t k') = delta_time (rt_rmv_dly t k)"
    using assms(2-4) by (simp_all add: rt_rmv_dly_def setters Let_def)
  moreover have "rt_rmv_dly t k' = k'\<lparr>p_dlnk := p_dlnk (rt_rmv_dly t k'), p_blnk := p_blnk (rt_rmv_dly t k'), delta_time := delta_time (rt_rmv_dly t k')\<rparr>"
    by (simp add: rt_rmv_dly_def setters Let_def)
  ultimately show ?thesis using assms(1) by simp
qed

text \<open>Taking the first task out of the waiting list of an object and out of the delay list.\<close>

lemma take_waiter_queues:
  assumes Q: "queues_ok {} L D k" and c: "obj k c" and x: "L c = t # ts"
  obtains l r d b dt where "rt_get_first c k = Some (t, k\<lparr>p_lnk := l, p_rlnk := r\<rparr>)"
    "\<And>k'. p_dlnk k' = p_dlnk k \<Longrightarrow> p_blnk k' = p_blnk k \<Longrightarrow> delta_time k' = delta_time k \<Longrightarrow> rt_rmv_dly t k' = k'\<lparr>p_dlnk := d, p_blnk := b, delta_time := dt\<rparr>"
    "queues_ok {} (L(c := ts)) (without t D) (k\<lparr>p_lnk := l, p_rlnk := r, p_dlnk := d, p_blnk := b, delta_time := dt\<rparr>)"
    "free_task (L(c := ts)) k t" "t \<notin> fst ` set (without t D)"
proof -
  note L = queues_okD(1) [OF Q] and D = queues_okD(2) [OF Q]
  have h: "head k c" using c by (simp add: head_def)
  have cr: "c \<noteq> os_rdy" using rdy_not_obj [OF L] c by auto
  have t: "tcb k t" "free_task (L(c := ts)) k t"
    using lists_okD(3) [OF L, of c] lists_okD(4,5) [OF L, of t c] x by (auto simp: free_task_def)
  show thesis
  proof (rule lists_ok_get [OF L h x], rule delays_ok_without [OF D t(1)])
    fix l r d b dt
    assume get: "rt_get_first c k = Some (t, k\<lparr>p_lnk := l, p_rlnk := r\<rparr>)" and L': "lists_ok (L(c := ts)) (k\<lparr>p_lnk := l, p_rlnk := r\<rparr>)"
      and rm: "rt_rmv_dly t k = k\<lparr>p_dlnk := d, p_blnk := b, delta_time := dt\<rparr>" and D': "delays_ok (without t D) (k\<lparr>p_dlnk := d, p_blnk := b, delta_time := dt\<rparr>)"
    let ?k = "k\<lparr>p_lnk := l, p_rlnk := r, p_dlnk := d, p_blnk := b, delta_time := dt\<rparr>"
    have tc: "tcb ?k = tcb k" by (rule tcb_cong) simp
    have "lists_ok (L(c := ts)) ?k" using L' by (subst lists_ok_cong [of _ "k\<lparr>p_lnk := l, p_rlnk := r\<rparr>"]) simp_all
    moreover have "delays_ok (without t D) ?k" using D' by (subst delays_ok_cong [of _ "k\<lparr>p_dlnk := d, p_blnk := b, delta_time := dt\<rparr>"]) simp_all
    moreover have "by_prio (prio k) ((L(c := ts)) h)" for h using queues_okD(3) [OF Q, of h] queues_okD(3) [OF Q, of c] x by auto
    moreover have "\<forall>d\<in>set (without t D). 0 < snd d" using queues_okD(5) [OF Q] by (simp add: set_without)
    ultimately have "queues_ok {} (L(c := ts)) (without t D) ?k"
      using queues_okD(4,6) [OF Q] cr unfolding queues_ok_def tc by (simp add: without_sub)
    then show thesis using that [OF get rmv_dly_frame [OF rm]] t(2) fst_without by metis
  qed
qed

lemma take_waiter:
  assumes Q: "queues_ok {} L D k" and R: "runs_ok L D k" and c: "obj k c" and x: "L c = t # ts"
  obtains l r d b dt where "rt_get_first c k = Some (t, k\<lparr>p_lnk := l, p_rlnk := r\<rparr>)"
    "\<And>k'. p_dlnk k' = p_dlnk k \<Longrightarrow> p_blnk k' = p_blnk k \<Longrightarrow> delta_time k' = delta_time k \<Longrightarrow> rt_rmv_dly t k' = k'\<lparr>p_dlnk := d, p_blnk := b, delta_time := dt\<rparr>"
    "queues_ok {} (L(c := ts)) (without t D) (k\<lparr>p_lnk := l, p_rlnk := r, p_dlnk := d, p_blnk := b, delta_time := dt\<rparr>)"
    "runs_ok (L(c := ts)) (without t D) (k\<lparr>p_lnk := l, p_rlnk := r, p_dlnk := d, p_blnk := b, delta_time := dt\<rparr>)"
    "free_task (L(c := ts)) k t" "t \<notin> fst ` set (without t D)" "t \<noteq> new_tsk k"
proof (rule take_waiter_queues [OF Q c x])
  fix l r d b dt
  let ?k = "k\<lparr>p_lnk := l, p_rlnk := r, p_dlnk := d, p_blnk := b, delta_time := dt\<rparr>"
  assume get: "rt_get_first c k = Some (t, k\<lparr>p_lnk := l, p_rlnk := r\<rparr>)"
    and rm: "\<And>k'. p_dlnk k' = p_dlnk k \<Longrightarrow> p_blnk k' = p_blnk k \<Longrightarrow> delta_time k' = delta_time k \<Longrightarrow> rt_rmv_dly t k' = k'\<lparr>p_dlnk := d, p_blnk := b, delta_time := dt\<rparr>"
    and q: "queues_ok {} (L(c := ts)) (without t D) ?k" and t: "free_task (L(c := ts)) k t" "t \<notin> fst ` set (without t D)"
  have cr: "c \<noteq> os_rdy" using rdy_not_obj [OF queues_okD(1) [OF Q]] c by auto
  have tn: "t \<noteq> new_tsk k" using R x unfolding runs_ok_def free_task_def by (metis list.set_intros(1))
  have nts: "new_tsk k \<notin> set ts" using R x unfolding runs_ok_def free_task_def by (metis list.set_intros(2))
  have tc: "free_task M ?k = free_task M k" for M by (rule tcb_cong) simp
  have "runs_ok (L(c := ts)) (without t D) ?k"
    using R cr nts unfolding runs_ok_def tc by (simp add: without_sub free_task_def)
  from that [OF get rm q this t tn] show thesis .
qed

lemma same_queues_refl: "same_queues k (context_switch k)" and new_tsk_switch [simp]: "new_tsk (context_switch k) = new_tsk k"
  "run (context_switch k) = new_tsk k"
  by (simp_all add: same_queues_def context_switch_def)

lemma kernel_ok_switch: "kernel_ok L D k \<Longrightarrow> kernel_ok L D (context_switch k)"
  using queues_ok_cong [OF same_queues_refl] runs_ok_cong [OF same_queues_refl new_tsk_switch(1)] by (simp add: kernel_ok_def)

lemma system_okD:
  assumes "system_ok L D k"
  shows "queues_ok {} L D k" "runs_ok L D k" "run k = new_tsk k" "waiters_ok L k" "lists_ok L k" "delays_ok D k"
    "tcb k (run k)" "free_task L k (run k)" "run k \<notin> fst ` set D" "state k (run k) = RUNNING"
  using assms by (auto simp: system_ok_def kernel_ok_def runs_ok_def free_task_def queues_ok_def)

lemma waiters_ok_cong:
  assumes e: "cb_type k' = cb_type k" "tokens k' = tokens k" "os_active_TCB k' = os_active_TCB k" "mails k' = mails k"
    and x: "\<And>c x. obj k c \<Longrightarrow> x \<in> set (L' c) \<Longrightarrow> object_wait (state k' x)" and l: "\<And>c. obj k c \<Longrightarrow> L' c \<noteq> [] \<Longrightarrow> L c \<noteq> []"
    and s: "\<And>c. obj k c \<Longrightarrow> state k' c = state k c" and W: "waiters_ok L k"
  shows "waiters_ok L' k'"
proof -
  have "object_ok k' c (L' c \<noteq> [])" if "obj k c" for c
    using object_ok_cong [OF _ e(1,2,4) s [OF that], of "L c \<noteq> []"] l [OF that] W that by (simp add: waiters_ok_def)
  moreover have "psq_ok k' = psq_ok k" using e(1,4) by (intro psq_ok_cong) (simp_all add: mails_def)
  ultimately show ?thesis using W x unfolding waiters_ok_def tcb_cong [OF e(1)] e(3) by blast
qed

lemma system_okI:
  assumes "kernel_ok L' D' k'" "waiters_ok L' k'"
  shows "system_ok L' D' (context_switch k')"
proof -
  have "waiters_ok L' (context_switch k') = waiters_ok L' k'"
    using tcb_cong(1,2) [of "context_switch k'" k'] psq_ok_cong [of "context_switch k'" k']
    by (simp add: waiters_ok_def context_switch_def object_ok_def mailbox_ok_def)
  then show ?thesis using assms kernel_ok_switch [OF assms(1)] by (simp add: system_ok_def)
qed

definition preempted :: "kernel \<Rightarrow> ptr \<Rightarrow> (ptr \<Rightarrow> ptr list) \<Rightarrow> ptr \<Rightarrow> ptr list" where
  "preempted k t L = L(os_rdy := (if prio k (run k) < prio k t then run k # L os_rdy else insert_prio (prio k) t (L os_rdy)))"

text \<open>What a call leaves alone.\<close>

definition frame :: "kernel \<Rightarrow> kernel \<Rightarrow> bool" where
  "frame k k' \<longleftrightarrow> cb_type k' = cb_type k \<and> prio k' = prio k \<and> tokens k' = tokens k \<and> mails k' = mails k \<and> tcb_msg k' = tcb_msg k
     \<and> ret_regs k' = ret_regs k \<and> events k' = events k
     \<and> waits k' = waits k \<and> os_active_TCB k' = os_active_TCB k \<and> run k' = run k \<and> (\<forall>e. obj k e \<longrightarrow> state k' e = state k e)"

lemma frame_refl [simp]: "frame k k"
  by (simp add: frame_def)

lemma dispatch_sys:
  assumes Q: "queues_ok {t} L D k" and R: "runs_ok L D k" and r: "run k = new_tsk k" and W: "waiters_ok L k"
    and t: "free_task L k t" "t \<noteq> run k" "t \<notin> fst ` set D" "state k t \<noteq> RUNNING"
  obtains k' where "rt_dispatch t k = Some k'" "system_ok (preempted k t L) D (context_switch k')"
    "new_tsk k' = (if prio k (run k) < prio k t then t else run k)" "frame k k'"
proof (rule dispatch_ok [OF Q R r t])
  fix k'
  assume d: "rt_dispatch t k = Some k'"
    and K: "kernel_ok (if prio k (run k) < prio k t then L(os_rdy := run k # L os_rdy) else L(os_rdy := insert_prio (prio k) t (L os_rdy))) D k'"
    and n: "new_tsk k' = (if prio k (run k) < prio k t then t else run k)"
    and "\<exists>l r st. k' = k\<lparr>p_lnk := l, p_rlnk := r, state := st, new_tsk := new_tsk k'\<rparr> \<and> (\<forall>y. y \<noteq> t \<longrightarrow> y \<noteq> run k \<longrightarrow> st y = state k y)"
  then obtain l r' st where k': "k' = k\<lparr>p_lnk := l, p_rlnk := r', state := st, new_tsk := new_tsk k'\<rparr>"
    and st: "\<forall>y. y \<noteq> t \<longrightarrow> y \<noteq> run k \<longrightarrow> st y = state k y" by blast
  have sk: "state k' = st" by (subst k') simp
  have so: "state k' e = state k e" if o: "obj k e" for e
  proof -
    have "tcb k t" "tcb k (run k)" using R r t(1) by (simp_all add: runs_ok_def free_task_def)
    then have "t \<noteq> e" "run k \<noteq> e" using tcb_not_obj [OF _ o] by auto
    then show ?thesis using st sk by simp
  qed
  have "cb_type k' = cb_type k \<and> prio k' = prio k \<and> tokens k' = tokens k \<and> mails k' = mails k \<and> tcb_msg k' = tcb_msg k
     \<and> ret_regs k' = ret_regs k \<and> events k' = events k \<and> waits k' = waits k \<and> os_active_TCB k' = os_active_TCB k \<and> run k' = run k"
    unfolding mails_def by (subst k', simp)+
  then have f: "frame k k'" using so by (simp add: frame_def)
  have K': "kernel_ok (preempted k t L) D k'" using K by (auto simp: preempted_def split: if_splits)
  have rn: "free_task L k (run k)" using R r by (simp add: runs_ok_def)
  have ro: "\<not> obj k os_rdy" using rdy_not_obj queues_okD(1) [OF Q] by blast
  have "waiters_ok (preempted k t L) k'"
  proof (rule waiters_ok_cong [OF _ _ _ _ _ _ _ W])
    fix c x assume c: "obj k c" "x \<in> set (preempted k t L c)"
    then have "c \<noteq> os_rdy" using ro by auto
    with c have x: "x \<in> set (L c)" by (simp add: preempted_def)
    then have "x \<noteq> t" "x \<noteq> run k" using t(1) rn by (auto simp: free_task_def)
    then show "object_wait (state k' x)" using st sk W c(1) x by (simp add: waiters_ok_def)
  next
    fix c assume c: "obj k c"
    then show "preempted k t L c \<noteq> [] \<Longrightarrow> L c \<noteq> []" using ro by (cases "c = os_rdy") (simp_all add: preempted_def)
    show "state k' c = state k c" by (rule so [OF c])
  qed (use f in \<open>simp_all add: frame_def\<close>)
  from that [OF d system_okI [OF K' this] n f] show thesis .
qed

lemma block_sys:
  assumes Q: "queues_ok {} L D k" and t: "tcb k (run k)" "run k \<notin> set (L os_rdy)" "run k \<notin> fst ` set D"
    and i: "os_idle_TCB \<in> set (L os_rdy)" and n: "timeout \<noteq> 0" and st: "st \<noteq> READY"
    and W: "\<And>c x. obj k c \<Longrightarrow> x \<in> set (L c) \<Longrightarrow> x \<noteq> run k \<Longrightarrow> object_wait (state k x)"
      "\<And>c. obj k c \<Longrightarrow> object_ok k c (L c \<noteq> [])" "\<forall>t\<in>set (os_active_TCB k). t = NULL \<or> tcb k t" "psq_ok k"
      "\<And>c. obj k c \<Longrightarrow> run k \<in> set (L c) \<Longrightarrow> object_wait st"
  obtains k' x xs where "L os_rdy = x # xs" "rt_block timeout st k = Some k'"
    "system_ok (L(os_rdy := xs)) (timed timeout (run k) D) (context_switch k')" "new_tsk k' = x" "frame k k'" "run k \<noteq> x \<Longrightarrow> state k' (run k) = st"
proof (rule block_ok [OF Q t i n st])
  fix l r d b dt x xs
  let ?k = "k\<lparr>p_lnk := l, p_rlnk := r, p_dlnk := d, p_blnk := b, delta_time := dt, new_tsk := x, state := (state k)(run k := st, x := RUNNING)\<rparr>"
  assume x: "L os_rdy = x # xs" and b: "rt_block timeout st k = Some ?k" and K: "kernel_ok (L(os_rdy := xs)) (timed timeout (run k) D) ?k"
  have ro: "\<not> obj k os_rdy" using rdy_not_obj queues_okD(1) [OF Q] by blast
  have tc: "tcb ?k = tcb k" "obj ?k = obj k" by (rule tcb_cong; simp)+
  have a: "object_wait (state ?k y)" if "obj k c" "y \<in> set ((L(os_rdy := xs)) c)" for c y
  proof -
    have "c \<noteq> os_rdy" using that ro by auto
    then have y: "y \<in> set (L c)" using that by simp
    have "y \<noteq> x" using lists_okD(5) [OF queues_okD(1) [OF Q], of x os_rdy c] x y \<open>c \<noteq> os_rdy\<close> by auto
    then show ?thesis using W(1) [OF that(1) y] W(5) [OF that(1)] y by (cases "y = run k") simp_all
  qed
  have tx: "tcb k x" using lists_okD(4) [OF queues_okD(1) [OF Q], of x os_rdy] x by simp
  have b': "object_ok ?k c ((L(os_rdy := xs)) c \<noteq> [])" if c: "obj k c" for c
  proof -
    have "c \<noteq> os_rdy" "run k \<noteq> c" "x \<noteq> c" using c ro tcb_not_obj [OF t(1) c] tcb_not_obj [OF tx c] by auto
    then show ?thesis using object_ok_cong [OF W(2) [OF c], of ?k] by (simp add: mails_def)
  qed
  have "\<forall>t\<in>set (os_active_TCB ?k). t = NULL \<or> tcb k t" "psq_ok ?k" using W(3,4) psq_ok_cong [of ?k k] by simp_all
  then have "waiters_ok (L(os_rdy := xs)) ?k" using a b' unfolding waiters_ok_def tc by blast
  moreover have "frame k ?k" using tcb_not_obj [OF t(1)] tcb_not_obj [OF tx] by (auto simp: frame_def mails_def)
  ultimately show thesis using that [OF x b] system_okI [OF K] by simp
qed

unbundle bit_operations_syntax

section \<open>Semaphores\<close>

lemma scb_obj: "c \<noteq> NULL \<Longrightarrow> cb_type k c = SCB \<Longrightarrow> obj k c"
  by (simp add: obj_def sem_mbx_def)

lemma obj_first: "lists_ok L k \<Longrightarrow> obj k c \<Longrightarrow> (p_lnk k c = NULL) = (L c = [])"
  using lists_okD(1) [of L k c] lists_okD(7) [of L k c] by (cases "L c") (auto simp: head_def)

lemma waiters_change:
  assumes W: "waiters_ok L k" and s: "cb_type k' = cb_type k" "state k' = state k" "os_active_TCB k' = os_active_TCB k" "mails k' = mails k"
    and t: "\<And>c. obj k c \<Longrightarrow> cb_type k c = SCB \<Longrightarrow> L c \<noteq> [] \<Longrightarrow> tokens k' c = 0"
  shows "waiters_ok L k'"
proof -
  have "object_ok k' c (L c \<noteq> [])" if "obj k c" for c
    using W that t [OF that] s by (auto simp: waiters_ok_def object_ok_def mailbox_ok_def mails_def)
  moreover have "psq_ok k' = psq_ok k" using s(1,4) by (intro psq_ok_cong) (simp_all add: mails_def)
  ultimately show ?thesis using W unfolding waiters_ok_def tcb_cong [OF s(1)] s by blast
qed

lemma sem_send_token:
  assumes S: "system_ok L D k" and c: "c \<noteq> NULL" "cb_type k c = SCB" and e: "L c = []"
  shows "rt_sem_send c k = Some (OS_R_OK, k\<lparr>tokens := (tokens k)(c := tokens k c + 1)\<rparr>)"
    "system_ok L D (context_switch (k\<lparr>tokens := (tokens k)(c := tokens k c + 1)\<rparr>))"
proof -
  note o = scb_obj [OF c]
  show "rt_sem_send c k = Some (OS_R_OK, k\<lparr>tokens := (tokens k)(c := tokens k c + 1)\<rparr>)"
    using obj_first [OF system_okD(5) [OF S] o] e by (simp add: rt_sem_send_def)
  let ?k = "k\<lparr>tokens := (tokens k)(c := tokens k c + 1)\<rparr>"
  have "same_queues k ?k" "new_tsk ?k = new_tsk k" by (simp_all add: same_queues_def)
  then have "kernel_ok L D ?k" using system_okD(1,2) [OF S] by (simp add: kernel_ok_def queues_ok_cong runs_ok_cong)
  moreover have "waiters_ok L ?k"
    by (rule waiters_change [OF system_okD(4) [OF S]]) (use e system_okD(4) [OF S] in \<open>auto simp: waiters_ok_def object_ok_def mails_def\<close>)
  ultimately show "system_ok L D (context_switch ?k)" by (rule system_okI)
qed

lemma objects_ok: "system_ok L D k \<Longrightarrow> obj k c \<Longrightarrow> object_ok k c (L c \<noteq> [])"
  using system_okD(4) by (simp add: waiters_ok_def)

text \<open>The first task that waits at an object is taken out, something is done to the kernel, and the task is dispatched.\<close>

lemma wake_first_sys:
  assumes S: "system_ok L D k" and o: "obj k c" and x: "L c = t # ts"
  obtains l r d b dt where "rt_get_first c k = Some (t, k\<lparr>p_lnk := l, p_rlnk := r\<rparr>)"
    "\<And>k'. p_dlnk k' = p_dlnk k \<Longrightarrow> p_blnk k' = p_blnk k \<Longrightarrow> delta_time k' = delta_time k \<Longrightarrow> rt_rmv_dly t k' = k'\<lparr>p_dlnk := d, p_blnk := b, delta_time := dt\<rparr>"
    "\<And>k1. same_queues (k\<lparr>p_lnk := l, p_rlnk := r, p_dlnk := d, p_blnk := b, delta_time := dt\<rparr>) k1 \<Longrightarrow> new_tsk k1 = new_tsk k \<Longrightarrow> run k1 = run k
      \<Longrightarrow> os_active_TCB k1 = os_active_TCB k \<Longrightarrow> os_psq k1 = os_psq k \<Longrightarrow> (\<And>e. obj k e \<Longrightarrow> object_ok k1 e ((L(c := ts)) e \<noteq> []))
      \<Longrightarrow> \<exists>k'. rt_dispatch t k1 = Some k' \<and> system_ok (preempted k t (L(c := ts))) (without t D) (context_switch k')
        \<and> new_tsk k' = (if prio k (run k) < prio k t then t else run k) \<and> frame k1 k'"
proof -
  note Q = system_okD(1) [OF S] and R = system_okD(2) [OF S] and W = system_okD(4) [OF S]
  have sw: "object_wait (state k t)" using W o x unfolding waiters_ok_def by (metis list.set_intros(1))
  show thesis
  proof (rule take_waiter [OF Q R o x])
    fix l r d b dt
    assume get: "rt_get_first c k = Some (t, k\<lparr>p_lnk := l, p_rlnk := r\<rparr>)"
      and rm: "\<And>k'. p_dlnk k' = p_dlnk k \<Longrightarrow> p_blnk k' = p_blnk k \<Longrightarrow> delta_time k' = delta_time k \<Longrightarrow> rt_rmv_dly t k' = k'\<lparr>p_dlnk := d, p_blnk := b, delta_time := dt\<rparr>"
      and Q1: "queues_ok {} (L(c := ts)) (without t D) (k\<lparr>p_lnk := l, p_rlnk := r, p_dlnk := d, p_blnk := b, delta_time := dt\<rparr>)"
      and R1: "runs_ok (L(c := ts)) (without t D) (k\<lparr>p_lnk := l, p_rlnk := r, p_dlnk := d, p_blnk := b, delta_time := dt\<rparr>)"
      and t: "free_task (L(c := ts)) k t" "t \<notin> fst ` set (without t D)" "t \<noteq> new_tsk k"
    let ?k0 = "k\<lparr>p_lnk := l, p_rlnk := r, p_dlnk := d, p_blnk := b, delta_time := dt\<rparr>"
    have "\<exists>k'. rt_dispatch t k1 = Some k' \<and> system_ok (preempted k t (L(c := ts))) (without t D) (context_switch k')
        \<and> new_tsk k' = (if prio k (run k) < prio k t then t else run k) \<and> frame k1 k'"
      if q: "same_queues ?k0 k1" and s: "new_tsk k1 = new_tsk k" "run k1 = run k" "os_active_TCB k1 = os_active_TCB k" "os_psq k1 = os_psq k"
        and ob: "\<And>e. obj k e \<Longrightarrow> object_ok k1 e ((L(c := ts)) e \<noteq> [])" for k1
    proof -
      have e: "cb_type k1 = cb_type k" "state k1 = state k" "prio k1 = prio k" using q by (simp_all add: same_queues_def)
      have Q2: "queues_ok {t} (L(c := ts)) (without t D) k1" using queues_ok_mono [OF Q1] queues_ok_cong [OF q] by blast
      have R2: "runs_ok (L(c := ts)) (without t D) k1" using R1 runs_ok_cong [OF q] s(1) by simp
      have r2: "run k1 = new_tsk k1" using system_okD(3) [OF S] s by simp
      have "object_wait (state k1 y)" if "obj k e'" "y \<in> set ((L(c := ts)) e')" for e' y
      proof -
        have "y \<in> set (L e')" using that x by (cases "e' = c") simp_all
        then show ?thesis using W e(2) that(1) by (simp add: waiters_ok_def)
      qed
      then have W2: "waiters_ok (L(c := ts)) k1"
        using W ob unfolding waiters_ok_def tcb_cong [OF e(1)] s(3) psq_ok_cong [OF s(4) e(1)] by blast
      have t2: "free_task (L(c := ts)) k1 t" "t \<noteq> run k1" "state k1 t \<noteq> RUNNING"
        using t system_okD(3) [OF S] s e sw tcb_cong(4) [OF e(1)] by (auto simp: object_wait_def task_states)
      have "preempted k1 t (L(c := ts)) = preempted k t (L(c := ts))" using s e by (simp add: preempted_def)
      then show ?thesis using e s dispatch_sys [OF Q2 R2 r2 W2 t2(1,2) t(2) t2(3)] by metis
    qed
    from that [OF get rm this] show thesis .
  qed
qed

lemma sem_send_wakes:
  assumes S: "system_ok L D k" and c: "c \<noteq> NULL" "cb_type k c = SCB" and x: "L c = t # ts"
  obtains k' where "rt_sem_send c k = Some (OS_R_OK, k')"
    "system_ok (preempted k t (L(c := ts))) (without t D) (context_switch k')"
    "new_tsk k' = (if prio k (run k) < prio k t then t else run k)"
    "ret_regs k' = (ret_regs k)(t := (1, snd (ret_regs k t)))" "tokens k' = tokens k"
proof -
  note o = scb_obj [OF c]
  have ne: "p_lnk k c \<noteq> NULL" using obj_first [OF system_okD(5) [OF S] o] x by simp
  show thesis
  proof (rule wake_first_sys [OF S o x])
    fix l r d b dt
    assume get: "rt_get_first c k = Some (t, k\<lparr>p_lnk := l, p_rlnk := r\<rparr>)"
      and rm: "\<And>k'. p_dlnk k' = p_dlnk k \<Longrightarrow> p_blnk k' = p_blnk k \<Longrightarrow> delta_time k' = delta_time k \<Longrightarrow> rt_rmv_dly t k' = k'\<lparr>p_dlnk := d, p_blnk := b, delta_time := dt\<rparr>"
      and go: "\<And>k1. same_queues (k\<lparr>p_lnk := l, p_rlnk := r, p_dlnk := d, p_blnk := b, delta_time := dt\<rparr>) k1 \<Longrightarrow> new_tsk k1 = new_tsk k \<Longrightarrow> run k1 = run k
      \<Longrightarrow> os_active_TCB k1 = os_active_TCB k \<Longrightarrow> os_psq k1 = os_psq k \<Longrightarrow> (\<And>e. obj k e \<Longrightarrow> object_ok k1 e ((L(c := ts)) e \<noteq> []))
      \<Longrightarrow> \<exists>k'. rt_dispatch t k1 = Some k' \<and> system_ok (preempted k t (L(c := ts))) (without t D) (context_switch k')
        \<and> new_tsk k' = (if prio k (run k) < prio k t then t else run k) \<and> frame k1 k'"
    let ?k0 = "k\<lparr>p_lnk := l, p_rlnk := r, p_dlnk := d, p_blnk := b, delta_time := dt\<rparr>"
    define k1 where "k1 = rt_rmv_dly t (rt_ret_val t 1 (k\<lparr>p_lnk := l, p_rlnk := r\<rparr>))"
    have k1: "k1 = ?k0\<lparr>ret_regs := (ret_regs k)(t := (1, snd (ret_regs k t)))\<rparr>"
      unfolding k1_def by (subst rm) (simp_all add: rt_ret_val_def)
    have s: "same_queues ?k0 k1" "new_tsk k1 = new_tsk k" "run k1 = run k" "os_active_TCB k1 = os_active_TCB k" "os_psq k1 = os_psq k"
      "tokens k1 = tokens k" "ret_regs k1 = (ret_regs k)(t := (1, snd (ret_regs k t)))" "cb_type k1 = cb_type k" "mails k1 = mails k" "state k1 = state k"
      by (simp_all add: k1 same_queues_def mails_def)
    have "object_ok k1 e ((L(c := ts)) e \<noteq> [])" if "obj k e" for e
      using object_ok_cong [OF objects_ok [OF S that] s(8,6,9), of "(L(c := ts)) e \<noteq> []"] s(10) x by (cases "e = c") simp_all
    then obtain k' where d: "rt_dispatch t k1 = Some k'" "system_ok (preempted k t (L(c := ts))) (without t D) (context_switch k')"
        "new_tsk k' = (if prio k (run k) < prio k t then t else run k)" and f: "frame k1 k'"
      using go [OF s(1-5)] by blast
    have "rt_sem_send c k = Some (OS_R_OK, k')" using ne d(1) by (simp add: rt_sem_send_def get k1_def)
    then show thesis using that d(2,3) f s by (simp add: frame_def)
  qed
qed

lemma sem_wait_token:
  assumes S: "system_ok L D k" and n: "tokens k c \<noteq> 0"
  shows "rt_sem_wait c timeout k = Some (OS_R_OK, k\<lparr>tokens := (tokens k)(c := tokens k c - 1)\<rparr>)"
    "system_ok L D (context_switch (k\<lparr>tokens := (tokens k)(c := tokens k c - 1)\<rparr>))"
proof -
  show "rt_sem_wait c timeout k = Some (OS_R_OK, k\<lparr>tokens := (tokens k)(c := tokens k c - 1)\<rparr>)"
    using n by (simp add: rt_sem_wait_def)
  let ?k = "k\<lparr>tokens := (tokens k)(c := tokens k c - 1)\<rparr>"
  have "same_queues k ?k" "new_tsk ?k = new_tsk k" by (simp_all add: same_queues_def)
  then have "kernel_ok L D ?k" using system_okD(1,2) [OF S] by (simp add: kernel_ok_def queues_ok_cong runs_ok_cong)
  moreover have "waiters_ok L ?k"
    by (rule waiters_change [OF system_okD(4) [OF S]]) (use n system_okD(4) [OF S] in \<open>auto simp: waiters_ok_def object_ok_def mails_def\<close>)
  ultimately show "system_ok L D (context_switch ?k)" by (rule system_okI)
qed

lemma system_ok_switch: "system_ok L D k \<Longrightarrow> system_ok L D (context_switch k)"
  unfolding system_ok_def using system_okI [unfolded system_ok_def] by blast

lemma idle_ready: "system_ok L D k \<Longrightarrow> run k \<noteq> os_idle_TCB \<Longrightarrow> os_idle_TCB \<in> set (L os_rdy)"
  using system_okD(2,3) [of L D k] by (auto simp: runs_ok_def)

text \<open>The running task joins the waiting list of an object, something is done to the kernel, and the task blocks.\<close>

lemma wait_for_sys:
  assumes S: "system_ok L D k" and o: "obj k c" and z: "timeout \<noteq> 0" and i: "run k \<noteq> os_idle_TCB" and st: "object_wait st"
  obtains l r where "wait_for c k = Some (k\<lparr>p_lnk := l, p_rlnk := r\<rparr>)"
    "\<And>k1. cb_type k1 = cb_type k \<Longrightarrow> p_lnk k1 = l \<Longrightarrow> p_rlnk k1 = r \<Longrightarrow> p_dlnk k1 = p_dlnk k \<Longrightarrow> p_blnk k1 = p_blnk k \<Longrightarrow> delta_time k1 = delta_time k
      \<Longrightarrow> prio k1 = prio k \<Longrightarrow> run k1 = run k \<Longrightarrow> os_active_TCB k1 = os_active_TCB k \<Longrightarrow> os_psq k1 = os_psq k \<Longrightarrow> (\<And>y. tcb k y \<Longrightarrow> state k1 y = state k y)
      \<Longrightarrow> (\<And>e. obj k e \<Longrightarrow> object_ok k1 e (e = c \<or> L e \<noteq> []))
      \<Longrightarrow> \<exists>k' x xs. rt_block timeout st k1 = Some k' \<and> L os_rdy = x # xs
        \<and> system_ok (L(c := insert_prio (prio k) (run k) (L c), os_rdy := xs)) (timed timeout (run k) D) (context_switch k')
        \<and> new_tsk k' = x \<and> state k' (run k) = st \<and> frame k1 k'"
proof -
  note Q = system_okD(1) [OF S] and W = system_okD(4) [OF S] and F = system_okD(8) [OF S]
  have h: "head k c" using o by (simp add: head_def)
  have rc: "run k \<noteq> c" using tcb_not_obj [OF system_okD(7) [OF S] o] .
  have cr: "c \<noteq> os_rdy" using rdy_not_obj [OF system_okD(5) [OF S]] o by auto
  let ?L = "L(c := insert_prio (prio k) (run k) (L c))"
  show thesis
  proof (rule lists_ok_put [OF system_okD(5) [OF S] h F])
    fix l r
    assume put: "rt_put_prio c (run k) k = Some (k\<lparr>p_lnk := l, p_rlnk := r\<rparr>)" and L': "lists_ok ?L (k\<lparr>p_lnk := l, p_rlnk := r\<rparr>)"
    have "\<exists>k' x xs. rt_block timeout st k1 = Some k' \<and> L os_rdy = x # xs
        \<and> system_ok (L(c := insert_prio (prio k) (run k) (L c), os_rdy := xs)) (timed timeout (run k) D) (context_switch k')
        \<and> new_tsk k' = x \<and> state k' (run k) = st \<and> frame k1 k'"
      if e: "cb_type k1 = cb_type k" "p_lnk k1 = l" "p_rlnk k1 = r" "p_dlnk k1 = p_dlnk k" "p_blnk k1 = p_blnk k" "delta_time k1 = delta_time k"
          "prio k1 = prio k" "run k1 = run k" "os_active_TCB k1 = os_active_TCB k" "os_psq k1 = os_psq k" and s: "\<And>y. tcb k y \<Longrightarrow> state k1 y = state k y"
        and ob: "\<And>e. obj k e \<Longrightarrow> object_ok k1 e (e = c \<or> L e \<noteq> [])" for k1
    proof -
      have tc: "tcb k1 = tcb k" "obj k1 = obj k" by (rule tcb_cong; fact e(1))+
      have "lists_ok ?L k1" using L' e by (subst lists_ok_cong [of _ "k\<lparr>p_lnk := l, p_rlnk := r\<rparr>"]) simp_all
      moreover have "delays_ok D k1" using system_okD(6) [OF S] e by (subst delays_ok_cong [of _ k]) simp_all
      moreover have "by_prio (prio k) (?L h)" for h using queues_okD(3) [OF Q] by (simp add: by_prio_insert)
      ultimately have Q1: "queues_ok {} ?L D k1" using queues_okD(4,5,6) [OF Q] cr s unfolding queues_ok_def tc e by simp
      have R: "tcb k1 (run k1)" "run k1 \<notin> set (?L os_rdy)" "run k1 \<notin> fst ` set D" "os_idle_TCB \<in> set (?L os_rdy)"
        using F cr system_okD(9) [OF S] idle_ready [OF S i] unfolding tc e by (simp_all add: free_task_def)
      have w1: "object_wait (state k1 x)" if "obj k1 d" "x \<in> set (?L d)" "x \<noteq> run k1" for d x
      proof -
        have x: "x \<in> set (L d)" using that e by (auto split: if_splits)
        have "tcb k x" using lists_okD(4) [OF system_okD(5) [OF S] x] .
        then show ?thesis using W that(1) x s unfolding tc waiters_ok_def by metis
      qed
      have w2: "object_ok k1 d (?L d \<noteq> [])" if "obj k1 d" for d
      proof -
        have "(?L d \<noteq> []) = (d = c \<or> L d \<noteq> [])" by (auto simp: insert_prio_def)
        with ob [of d] that show ?thesis unfolding tc by simp
      qed
      have w3: "\<forall>t\<in>set (os_active_TCB k1). t = NULL \<or> tcb k1 t" "psq_ok k1"
        using W e psq_ok_cong [OF e(10,1)] unfolding tc by (simp_all add: waiters_ok_def)
      have ws: "st \<noteq> READY" using st by (auto simp: object_wait_def task_states)
      show ?thesis
      proof (rule block_sys [OF Q1 R z ws w1 w2 w3 st])
        fix k' x xs
        assume x: "?L os_rdy = x # xs" and b: "rt_block timeout st k1 = Some k'"
          and K: "system_ok (?L(os_rdy := xs)) (timed timeout (run k1) D) (context_switch k')" and n: "new_tsk k' = x" and f: "frame k1 k'"
          and sr: "run k1 \<noteq> x \<Longrightarrow> state k' (run k1) = st"
        have "L os_rdy = x # xs" using x cr by simp
        moreover from this have "run k \<noteq> x" using F unfolding free_task_def by (metis list.set_intros(1))
        ultimately show ?thesis using b K n f sr unfolding e
          by (intro exI [of _ k'] exI [of _ x] exI [of _ xs]) simp
      qed
    qed
    note go = this
    have w: "wait_for c k = Some (k\<lparr>p_lnk := l, p_rlnk := r\<rparr>)" using wait_for_put [OF o rc] put by simp
    from that [OF w go] show thesis .
  qed
qed

lemma sem_wait_blocks:
  assumes S: "system_ok L D k" and c: "c \<noteq> NULL" "cb_type k c = SCB" and z: "tokens k c = 0" "timeout \<noteq> 0" and i: "run k \<noteq> os_idle_TCB"
  obtains k' x xs where "rt_sem_wait c timeout k = Some (OS_R_TMO, k')" "L os_rdy = x # xs"
    "system_ok (L(c := insert_prio (prio k) (run k) (L c), os_rdy := xs)) (timed timeout (run k) D) (context_switch k')"
    "new_tsk k' = x" "state k' (run k) = WAIT_SEM" "tokens k' = tokens k"
proof -
  note o = scb_obj [OF c]
  have st: "object_wait WAIT_SEM" by (simp add: object_wait_def)
  show thesis
  proof (rule wait_for_sys [OF S o z(2) i st])
    fix l r
    let ?k = "k\<lparr>p_lnk := l, p_rlnk := r\<rparr>"
    assume w: "wait_for c k = Some ?k" and go: "\<And>k1. cb_type k1 = cb_type k \<Longrightarrow> p_lnk k1 = l \<Longrightarrow> p_rlnk k1 = r \<Longrightarrow> p_dlnk k1 = p_dlnk k \<Longrightarrow> p_blnk k1 = p_blnk k \<Longrightarrow> delta_time k1 = delta_time k
      \<Longrightarrow> prio k1 = prio k \<Longrightarrow> run k1 = run k \<Longrightarrow> os_active_TCB k1 = os_active_TCB k \<Longrightarrow> os_psq k1 = os_psq k \<Longrightarrow> (\<And>y. tcb k y \<Longrightarrow> state k1 y = state k y)
      \<Longrightarrow> (\<And>e. obj k e \<Longrightarrow> object_ok k1 e (e = c \<or> L e \<noteq> []))
      \<Longrightarrow> \<exists>k' x xs. rt_block timeout WAIT_SEM k1 = Some k' \<and> L os_rdy = x # xs
        \<and> system_ok (L(c := insert_prio (prio k) (run k) (L c), os_rdy := xs)) (timed timeout (run k) D) (context_switch k')
        \<and> new_tsk k' = x \<and> state k' (run k) = WAIT_SEM \<and> frame k1 k'"
    have "object_ok ?k e (e = c \<or> L e \<noteq> [])" if "obj k e" for e
      using object_ok_cong [OF objects_ok [OF S that], of ?k "L e \<noteq> []"] c z(1) by (cases "e = c") (simp_all add: object_ok_def mails_def cb_types)
    then obtain k' x xs where b: "rt_block timeout WAIT_SEM ?k = Some k'" and k': "L os_rdy = x # xs"
        "system_ok (L(c := insert_prio (prio k) (run k) (L c), os_rdy := xs)) (timed timeout (run k) D) (context_switch k')"
        "new_tsk k' = x" "state k' (run k) = WAIT_SEM" and f: "frame ?k k'"
      using go [of ?k] by auto
    have "rt_sem_wait c timeout k = Some (OS_R_TMO, k')" using z b w by (simp add: rt_sem_wait_def)
    from that [OF this k'] show thesis using f by (simp add: frame_def)
  qed
qed

unbundle bit_operations_syntax

section \<open>Delays, event flags and passing\<close>

lemma run_blocks:
  assumes S: "system_ok L D k" and i: "run k \<noteq> os_idle_TCB" and z: "timeout \<noteq> 0" and st: "st \<noteq> READY"
    and s: "same_queues k k1" "new_tsk k1 = new_tsk k" "run k1 = run k" "tokens k1 = tokens k" "os_active_TCB k1 = os_active_TCB k"
      "mails k1 = mails k"
  obtains k' x xs where "rt_block timeout st k1 = Some k'" "L os_rdy = x # xs"
    "system_ok (L(os_rdy := xs)) (timed timeout (run k) D) (context_switch k')"
    "new_tsk k' = x" "state k' (run k) = st" "frame k1 k'"
proof -
  have c: "cb_type k1 = cb_type k" "state k1 = state k" using s(1) by (simp_all add: same_queues_def)
  note W = system_okD(4) [OF S] and F = system_okD(8) [OF S]
  have tc: "tcb k1 = tcb k" "obj k1 = obj k" "free_task L k1 = free_task L k" by (rule tcb_cong; fact c)+
  have Q: "queues_ok {} L D k1" using system_okD(1) [OF S] queues_ok_cong [OF s(1)] by simp
  have R: "tcb k1 (run k1)" "run k1 \<notin> set (L os_rdy)" "run k1 \<notin> fst ` set D" "os_idle_TCB \<in> set (L os_rdy)"
    using F system_okD(9) [OF S] idle_ready [OF S i] unfolding tc s(3) by (simp_all add: free_task_def)
  have w1: "object_wait (state k1 x)" if "obj k1 d" "x \<in> set (L d)" "x \<noteq> run k1" for d x
    using W that unfolding tc c waiters_ok_def by blast
  have w2: "object_ok k1 d (L d \<noteq> [])" if "obj k1 d" for d
    using W that object_ok_cong [of k d "L d \<noteq> []" k1] tcb_cong(2) [OF c(1)] c s by (simp add: waiters_ok_def)
  have "os_psq k1 = os_psq k" using s(6) by (simp add: mails_def)
  then have w3: "\<forall>t\<in>set (os_active_TCB k1). t = NULL \<or> tcb k1 t" "psq_ok k1"
    using W psq_ok_cong [OF _ c(1)] unfolding tc s by (simp_all add: waiters_ok_def)
  have w4: "object_wait st" if "obj k1 d" "run k1 \<in> set (L d)" for d using that F s by (simp add: free_task_def)
  show thesis
  proof (rule block_sys [OF Q R z st w1 w2 w3 w4])
    fix k' x xs
    assume x: "L os_rdy = x # xs" and b: "rt_block timeout st k1 = Some k'"
      and K: "system_ok (L(os_rdy := xs)) (timed timeout (run k1) D) (context_switch k')" and n: "new_tsk k' = x" and f: "frame k1 k'"
      and st: "run k1 \<noteq> x \<Longrightarrow> state k' (run k1) = st"
    have "run k \<noteq> x" using F x unfolding free_task_def by (metis list.set_intros(1))
    then show thesis using that [OF b x] K n f st s by simp
  qed
qed

lemma event_not_listed:
  assumes Q: "queues_ok {} L D k" and W: "\<And>c x. obj k c \<Longrightarrow> x \<in> set (L c) \<Longrightarrow> object_wait (state k x)"
    and t: "tcb k t" and s: "state k t = WAIT_AND \<or> state k t = WAIT_OR"
  shows "free_task L k t"
proof -
  have n: "state k t \<noteq> READY" "\<not> object_wait (state k t)" using s by (auto simp: task_states object_wait_def)
  have "t \<notin> set (L h)" for h
  proof
    assume a: "t \<in> set (L h)"
    then have "head k h" using lists_okD(6) [OF queues_okD(1) [OF Q]] by simp
    then show False using a n queues_okD(4) [OF Q t] W by (auto simp: head_def)
  qed
  with t show "free_task L k t" by (simp add: free_task_def)
qed

lemma event_free:
  assumes S: "system_ok L D k" and t: "tcb k t" and s: "state k t = WAIT_AND \<or> state k t = WAIT_OR"
  shows "free_task L k t" "t \<noteq> run k"
proof -
  have "state k t \<noteq> RUNNING" using s by (auto simp: task_states)
  then show "t \<noteq> run k" using system_okD(10) [OF S] by auto
  show "free_task L k t" by (rule event_not_listed [OF system_okD(1) [OF S] _ t s]) (use system_okD(4) [OF S] in \<open>auto simp: waiters_ok_def\<close>)
qed

text \<open>What \<open>rt_evt_set\<close> does to the flags: the task wakes up exactly when its condition is met.\<close>

definition evt_met :: "kernel \<Rightarrow> ptr \<Rightarrow> u16 \<Rightarrow> bool" where
  "evt_met k t flags \<longleftrightarrow> (state k t = WAIT_AND \<and> (events k t OR flags) AND waits k t = waits k t)
     \<or> (state k t = WAIT_OR \<and> (events k t OR flags) AND waits k t \<noteq> 0)"

lemma evt_wake_idle: "\<not> evt_met k t flags \<Longrightarrow> evt_wake t flags k = (False, set_events t (events k t OR flags) k)"
  by (auto simp: evt_wake_def evt_met_def set_events_def Let_def)

lemma evt_wake_met:
  assumes "evt_met k t flags" "rt_rmv_dly t k = k\<lparr>p_dlnk := d, p_blnk := b, delta_time := dt\<rparr>"
  obtains w where "evt_wake t flags k = (True, k\<lparr>p_dlnk := d, p_blnk := b, delta_time := dt, state := (state k)(t := READY),
      events := (events k)(t := (events k t OR flags) AND NOT (waits k t)), waits := w, ret_regs := (ret_regs k)(t := (0x08, ucast (w t)))\<rparr>)"
    "w = (if state k t = WAIT_AND then waits k else (waits k)(t := waits k t AND (events k t OR flags)))"
proof -
  let ?w = "if state k t = WAIT_AND then waits k else (waits k)(t := waits k t AND (events k t OR flags))"
  have ne: "WAIT_AND \<noteq> WAIT_OR" by (simp add: task_states)
  let ?k = "set_events t ((events k t OR flags) AND NOT (waits k t)) (k\<lparr>waits := ?w\<rparr>)"
  have rm: "rt_rmv_dly t ?k = ?k\<lparr>p_dlnk := d, p_blnk := b, delta_time := dt\<rparr>"
    by (rule rmv_dly_frame [OF assms(2)]) (simp_all add: set_events_def)
  have "evt_wake t flags k = (True, rt_ret_val2 t 0x08 (ucast (?w t)) (set_state t READY (rt_rmv_dly t ?k)))"
    using assms(1) ne by (auto simp: evt_wake_def evt_met_def Let_def set_events_def set_waits_def rt_ret_val2_def setters rmv_dly_frame [OF assms(2)])
  then show thesis using that unfolding rm by (simp add: rt_ret_val2_def setters set_events_def)
qed

unbundle bit_operations_syntax

lemma same_queues_flags: "same_queues k (set_events t v k)" "same_queues k (set_waits t v k)" "same_queues k k"
  "same_queues k k1 \<Longrightarrow> same_queues k1 k2 \<Longrightarrow> same_queues k k2"
  by (simp_all add: same_queues_def set_events_def set_waits_def)

lemma flags_sys:
  assumes S: "system_ok L D k" and s: "same_queues k k'" "new_tsk k' = new_tsk k" "tokens k' = tokens k" "os_active_TCB k' = os_active_TCB k"
    "mails k' = mails k"
  shows "system_ok L D (context_switch k')"
proof (rule system_okI)
  show "kernel_ok L D k'" using system_okD(1,2) [OF S] queues_ok_cong [OF s(1)] runs_ok_cong [OF s(1,2)] by (simp add: kernel_ok_def)
  show "waiters_ok L k'"
    by (rule waiters_change [OF system_okD(4) [OF S]]) (use s system_okD(4) [OF S] in \<open>auto simp: same_queues_def waiters_ok_def object_ok_def\<close>)
qed

lemma evt_set_met:
  assumes S: "system_ok L D k" and a: "active tid k = Some t" "t \<noteq> NULL" and m: "evt_met k t flags"
  obtains k' where "rt_evt_set flags tid k = Some k'" "system_ok (preempted k t L) (without t D) (context_switch k')"
    "new_tsk k' = (if prio k (run k) < prio k t then t else run k)"
    "events k' = (events k)(t := (events k t OR flags) AND NOT (waits k t))"
    "ret_regs k' t = (0x08, ucast (if state k t = WAIT_AND then waits k t else waits k t AND (events k t OR flags)))"
proof -
  have "t \<in> set (os_active_TCB k)" using a by (auto simp: active_def rd_Some_iff)
  then have t: "tcb k t" using system_okD(4) [OF S] a(2) unfolding waiters_ok_def by blast
  have ws: "state k t = WAIT_AND \<or> state k t = WAIT_OR" using m by (auto simp: evt_met_def)
  note fr = event_free [OF S t ws] and Q = system_okD(1) [OF S]
  show thesis
  proof (rule delays_ok_without [OF system_okD(6) [OF S] t])
    fix d b dt
    assume rm: "rt_rmv_dly t k = k\<lparr>p_dlnk := d, p_blnk := b, delta_time := dt\<rparr>" and D': "delays_ok (without t D) (k\<lparr>p_dlnk := d, p_blnk := b, delta_time := dt\<rparr>)"
    obtain w k1 where wk: "evt_wake t flags k = (True, k1)"
      and k1: "k1 = k\<lparr>p_dlnk := d, p_blnk := b, delta_time := dt, state := (state k)(t := READY),
        events := (events k)(t := (events k t OR flags) AND NOT (waits k t)), waits := w, ret_regs := (ret_regs k)(t := (0x08, ucast (w t)))\<rparr>"
      and w: "w = (if state k t = WAIT_AND then waits k else (waits k)(t := waits k t AND (events k t OR flags)))"
      using evt_wake_met [OF m rm] by metis
    have s: "cb_type k1 = cb_type k" "p_lnk k1 = p_lnk k" "p_rlnk k1 = p_rlnk k" "prio k1 = prio k" "state k1 = (state k)(t := READY)"
      "tokens k1 = tokens k" "os_active_TCB k1 = os_active_TCB k" "run k1 = run k" "new_tsk k1 = new_tsk k"
      "events k1 = (events k)(t := (events k t OR flags) AND NOT (waits k t))" "ret_regs k1 = (ret_regs k)(t := (0x08, ucast (w t)))" "mails k1 = mails k"
      by (simp_all add: k1 mails_def)
    have tc: "tcb k1 = tcb k" "obj k1 = obj k" "free_task L k1 = free_task L k" by (rule tcb_cong; fact s)+
    have "lists_ok L k1" using system_okD(5) [OF S] lists_ok_cong [OF s(1,2,3)] by simp
    moreover have "delays_ok (without t D) k1" using D' by (subst delays_ok_cong [of _ "k\<lparr>p_dlnk := d, p_blnk := b, delta_time := dt\<rparr>"]) (simp_all add: k1)
    moreover have "\<forall>e\<in>set (without t D). 0 < snd e" using queues_okD(5) [OF Q] by (simp add: set_without)
    ultimately have Q1: "queues_ok {t} L (without t D) k1"
      using queues_okD(3,4,6) [OF Q] unfolding queues_ok_def tc s by (simp add: without_sub)
    have R1: "runs_ok L (without t D) k1"
      using system_okD(2,3) [OF S] fr(2) unfolding runs_ok_def tc s by (simp add: without_sub)
    have W1: "waiters_ok L k1"
    proof (rule waiters_ok_cong [OF s(1,6,7,12) _ _ _ system_okD(4) [OF S]])
      fix c x assume c: "obj k c" "x \<in> set (L c)"
      then have "x \<noteq> t" using fr by (auto simp: free_task_def)
      then show "object_wait (state k1 x)" using c system_okD(4) [OF S] s by (simp add: waiters_ok_def)
    qed (use tcb_not_obj [OF t] s in auto)
    have t1: "run k1 = new_tsk k1" "free_task L k1 t" "t \<noteq> run k1" "t \<notin> fst ` set (without t D)" "state k1 t \<noteq> RUNNING"
      using system_okD(3) [OF S] fr fst_without s tc by (simp_all add: task_states)
    show thesis
    proof (rule dispatch_sys [OF Q1 R1 t1(1) W1 t1(2-5)])
      fix k'
      assume dp: "rt_dispatch t k1 = Some k'" and K: "system_ok (preempted k1 t L) (without t D) (context_switch k')"
        and n: "new_tsk k' = (if prio k1 (run k1) < prio k1 t then t else run k1)" and f: "frame k1 k'"
      have "rt_evt_set flags tid k = Some k'" using a wk dp by (simp add: rt_evt_set_def)
      moreover have "preempted k1 t L = preempted k t L" using s by (simp add: preempted_def)
      ultimately show thesis using that K n f s w by (simp add: frame_def)
    qed
  qed
qed

lemma evt_set_idle:
  assumes S: "system_ok L D k" and a: "active tid k = Some t" and m: "t = NULL \<or> \<not> evt_met k t flags"
  shows "\<exists>k'. rt_evt_set flags tid k = Some k' \<and> system_ok L D (context_switch k')"
proof (cases "t = NULL")
  case True
  then show ?thesis using a system_ok_switch [OF S] by (simp add: rt_evt_set_def)
next
  case False
  then have "rt_evt_set flags tid k = Some (set_events t (events k t OR flags) k)" using a m evt_wake_idle by (simp add: rt_evt_set_def)
  moreover have "system_ok L D (context_switch (set_events t (events k t OR flags) k))"
    by (rule flags_sys [OF S same_queues_flags(1)]) (simp_all add: set_events_def mails_def)
  ultimately show ?thesis by blast
qed

lemma evt_wait_sys:
  assumes S: "system_ok L D k" and i: "run k \<noteq> os_idle_TCB"
  shows "\<exists>v k' L' D'. rt_evt_wait flags timeout and_wait k = Some (v, k') \<and> system_ok L' D' (context_switch k')"
proof -
  let ?e = "events k (run k)"
  consider (all) "and_wait" "?e AND flags = flags" | (any) "\<not> and_wait" "?e AND flags \<noteq> 0"
    | (block) "and_wait \<longrightarrow> ?e AND flags \<noteq> flags" "\<not> and_wait \<longrightarrow> ?e AND flags = 0" by blast
  then show ?thesis
  proof cases
    case all
    have "system_ok L D (context_switch (set_events (run k) (?e AND NOT flags) k))"
      by (rule flags_sys [OF S same_queues_flags(1)]) (simp_all add: set_events_def mails_def)
    then show ?thesis using all by (auto simp: rt_evt_wait_def Let_def)
  next
    case any
    have "system_ok L D (context_switch (set_events (run k) (?e AND NOT flags) (set_waits (run k) (?e AND flags) k)))"
      by (rule flags_sys [OF S same_queues_flags(4) [OF same_queues_flags(2,1)]]) (simp_all add: set_events_def set_waits_def mails_def)
    then show ?thesis using any by (auto simp: rt_evt_wait_def Let_def)
  next
    case block
    let ?st = "if and_wait then WAIT_AND else WAIT_OR" and ?k = "set_waits (run k) flags k"
    have eq: "rt_evt_wait flags timeout and_wait k = do { k \<leftarrow> rt_block timeout ?st ?k; Some (OS_R_TMO, k) }"
      using block by (auto simp: rt_evt_wait_def Let_def)
    have f: "new_tsk ?k = new_tsk k" "run ?k = run k" "tokens ?k = tokens k" "os_active_TCB ?k = os_active_TCB k" "mails ?k = mails k"
      by (simp_all add: set_waits_def mails_def)
    have st: "?st \<noteq> READY" by (simp add: task_states)
    show ?thesis
    proof (cases "timeout = 0")
      case True
      then show ?thesis using flags_sys [OF S same_queues_flags(2) f(1,3,4,5)] unfolding eq by (auto simp: rt_block_def)
    next
      case False
      show ?thesis by (rule run_blocks [OF S i False st same_queues_flags(2) f]) (auto simp: eq)
    qed
  qed
qed

lemma dly_wait_sys:
  assumes S: "system_ok L D k" and i: "run k \<noteq> os_idle_TCB"
  shows "\<exists>k' L' D'. rt_dly_wait n k = Some k' \<and> system_ok L' D' (context_switch k')"
proof (cases "n = 0")
  case True
  then show ?thesis using system_ok_switch [OF S] by (auto simp: rt_dly_wait_def rt_block_def)
next
  case False
  have st: "WAIT_DLY \<noteq> READY" by (simp add: task_states)
  show ?thesis by (rule run_blocks [OF S i False st same_queues_flags(3)]) (auto simp: rt_dly_wait_def)
qed

lemma lists_ok_unlink:
  assumes L: "lists_ok L k" and x: "L os_rdy = x # xs"
  shows "lists_ok (L(os_rdy := xs)) (set_lnk os_rdy (p_lnk k x) k)"
proof -
  have h: "head k os_rdy" by (simp add: head_def)
  have ro: "os_rdy \<notin> set (L os_rdy)" using head_not_tcb [OF L h] lists_okD(4) [OF L, of _ os_rdy] by blast
  have "lists_ok (L(os_rdy := xs)) (k\<lparr>p_lnk := (p_lnk k)(os_rdy := p_lnk k x), p_rlnk := p_rlnk k\<rparr>)"
  proof (rule lists_ok_change [OF L h])
    show "links ((p_lnk k)(os_rdy := p_lnk k x)) os_rdy xs NULL" using lists_okD(1) [OF L h] x ro by (cases xs) auto
    show "backs (p_rlnk k) os_rdy xs" if "obj k os_rdy" using that rdy_not_obj [OF L] by simp
    show "distinct xs" using lists_okD(3) [OF L, of os_rdy] x by simp
    show "\<forall>y\<in>set xs. tcb k y \<and> (\<forall>g. g \<noteq> os_rdy \<longrightarrow> y \<notin> set (L g))"
      using lists_okD(4,5) [OF L, of _ os_rdy] x by auto
    show "p_rlnk k y = NULL" if "tcb k y" "y \<in> set xs \<union> set (L os_rdy)" for y
      using that x L ready_not_waiting [OF L, of y] by (auto simp: lists_ok_def)
  qed auto
  then show ?thesis by (simp add: set_lnk_def)
qed

lemma tsk_pass_sys:
  assumes S: "system_ok L D k" and i: "run k \<noteq> os_idle_TCB"
  shows "\<exists>k' L'. rt_tsk_pass k = Some k' \<and> system_ok L' D (context_switch k')"
proof -
  note L = system_okD(5) [OF S] and Q = system_okD(1) [OF S] and F = system_okD(8) [OF S] and W = system_okD(4) [OF S] and R = system_okD(2) [OF S]
  obtain x xs where x: "L os_rdy = x # xs" using idle_ready [OF S i] by (cases "L os_rdy") auto
  have h: "head k os_rdy" by (simp add: head_def)
  have px: "p_lnk k os_rdy = x" using lists_okD(1) [OF L h] x by simp
  have m: "x \<in> set (L os_rdy)" using x by simp
  have "x \<noteq> run k" using m F unfolding free_task_def by metis
  moreover have "x \<notin> set xs" using lists_okD(3) [OF L, of os_rdy] x by simp
  moreover have "\<forall>g. g \<noteq> os_rdy \<longrightarrow> x \<notin> set (L g)" using lists_okD(5) [OF L m] by blast
  ultimately have xt: "tcb k x" "x \<noteq> NULL" "x \<noteq> run k" "x \<notin> set xs" "x \<notin> fst ` set D" "\<forall>g. g \<noteq> os_rdy \<longrightarrow> x \<notin> set (L g)"
    using lists_okD(4) [OF L m] queues_okD(6) [OF Q m] by (simp_all add: tcb_def)
  have rn: "run k \<noteq> NULL" using system_okD(7) [OF S] by (simp add: tcb_def)
  show ?thesis
  proof (cases "prio k x = prio k (run k)")
    case False
    then have "rt_tsk_pass k = Some k" using px xt rn by (simp add: rt_tsk_pass_def rt_get_same_rdy_prio_def)
    then show ?thesis using system_ok_switch [OF S] by blast
  next
    case True
    define k1 where "k1 = set_lnk os_rdy (p_lnk k x) k"
    have s: "cb_type k1 = cb_type k" "prio k1 = prio k" "state k1 = state k" "run k1 = run k" by (simp_all add: k1_def setters)
    let ?L = "L(os_rdy := xs)"
    have nx: "run k \<notin> set xs" using F x unfolding free_task_def by (metis list.set_intros(2))
    have L1: "lists_ok ?L k1" "head k1 os_rdy" "free_task ?L k1 (run k1)"
      using lists_ok_unlink [OF L x] F nx tcb_cong(4) [OF s(1)] s(4) unfolding k1_def head_def free_task_def by (auto simp: tcb_def setters)
    show ?thesis
    proof (rule lists_ok_put [OF L1])
      fix l r
      assume put: "rt_put_prio os_rdy (run k1) k1 = Some (k1\<lparr>p_lnk := l, p_rlnk := r\<rparr>)"
        and "lists_ok (?L(os_rdy := insert_prio (prio k1) (run k1) (?L os_rdy))) (k1\<lparr>p_lnk := l, p_rlnk := r\<rparr>)"
      then have L2: "lists_ok (L(os_rdy := insert_prio (prio k) (run k) xs)) (k1\<lparr>p_lnk := l, p_rlnk := r\<rparr>)" by (simp add: s)
      let ?L' = "L(os_rdy := insert_prio (prio k) (run k) xs)"
      let ?k = "k\<lparr>p_lnk := l, p_rlnk := r, new_tsk := x, state := (state k)(run k := READY, x := RUNNING)\<rparr>"
      have tc: "tcb ?k = tcb k" "obj ?k = obj k" "free_task M ?k = free_task M k" for M by (rule tcb_cong; simp)+
      have eq: "rt_tsk_pass k = Some ?k"
        using True px xt rn put by (simp add: rt_tsk_pass_def rt_get_same_rdy_prio_def k1_def setters rt_switch_req_def)
      have N: "RUNNING \<noteq> READY" by (simp add: task_states)
      have "lists_ok ?L' ?k" using L2 by (subst lists_ok_cong [of _ "k1\<lparr>p_lnk := l, p_rlnk := r\<rparr>"]) (simp_all add: s)
      moreover have "delays_ok D ?k" using system_okD(6) [OF S] by (subst delays_ok_cong [of _ k]) simp_all
      moreover have "by_prio (prio k) (?L' g)" for g using queues_okD(3) [OF Q, of g] queues_okD(3) [OF Q, of os_rdy] x by (auto intro: by_prio_insert)
      moreover have "state ?k y = READY \<longleftrightarrow> y \<in> set (?L' os_rdy)" if "tcb k y" for y
        using queues_okD(4) [OF Q that] xt N x by auto
      moreover have "y \<notin> fst ` set D" if "y \<in> set (?L' os_rdy)" for y
        using that queues_okD(6) [OF Q, of y] system_okD(9) [OF S] x by (cases "y = run k") simp_all
      ultimately have q: "queues_ok {} ?L' D ?k" using queues_okD(5) [OF Q] unfolding queues_ok_def tc by simp
      have rr: "\<forall>y\<in>set (L os_rdy). prio k y \<le> prio k (run k)" "os_idle_TCB \<in> set (L os_rdy)"
        using R idle_ready [OF S i] system_okD(3) [OF S] by (simp_all add: runs_ok_def)
      have "free_task ?L' k x" using xt by (auto simp: free_task_def)
      then have "runs_ok ?L' D ?k" using xt rr True x unfolding runs_ok_def tc by auto
      then have K: "kernel_ok ?L' D ?k" using q by (simp add: kernel_ok_def)
      have ro: "\<not> obj k os_rdy" using rdy_not_obj [OF L] by simp
      have "waiters_ok ?L' ?k"
      proof (rule waiters_ok_cong [OF _ _ _ _ _ _ _ W])
        fix c y assume c: "obj k c" "y \<in> set (?L' c)"
        then have n: "c \<noteq> os_rdy" using ro by auto
        with c have y: "y \<in> set (L c)" by simp
        have "y \<noteq> run k" "y \<noteq> x" using F y xt(6) n by (auto simp: free_task_def)
        then show "object_wait (state ?k y)" using W c(1) y by (simp add: waiters_ok_def)
      next
        fix c assume c: "obj k c"
        then show "?L' c \<noteq> [] \<Longrightarrow> L c \<noteq> []" using ro by (auto split: if_splits)
        show "state ?k c = state k c" using tcb_not_obj [OF system_okD(7) [OF S] c] tcb_not_obj [OF xt(1) c] by auto
      qed (simp_all add: mails_def)
      then show ?thesis using eq system_okI [OF K] by blast
    qed
  qed
qed

section \<open>The tick handler\<close>

text \<open>What the user timers may change: nothing of the queues.\<close>

definition quiet :: "(kernel \<Rightarrow> kernel) \<Rightarrow> bool" where
  "quiet f \<longleftrightarrow> (\<forall>k. same_queues k (f k) \<and> new_tsk (f k) = new_tsk k \<and> run (f k) = run k \<and> tokens (f k) = tokens k
     \<and> mails (f k) = mails k \<and> tcb_msg (f k) = tcb_msg k \<and> os_active_TCB (f k) = os_active_TCB k)"

lemma wake_ready: "set (L os_rdy) \<subseteq> set (fst (wake pr D L) os_rdy)"
proof (induction pr D L rule: wake.induct)
  case (1 pr x D L)
  have "set (L os_rdy) \<subseteq> set (((drop_task x L)(os_rdy := insert_prio pr x (L os_rdy))) os_rdy)" by auto
  with 1 show ?case unfolding wake.simps by (meson subset_trans)
qed simp_all

lemma wake_waiting: "c \<noteq> os_rdy \<Longrightarrow> set (fst (wake pr D L) c) \<subseteq> set (L c)"
proof (induction pr D L rule: wake.induct)
  case (1 pr x D L)
  have "set (drop_task x L c) \<subseteq> set (L c)" by (simp add: drop_task_def set_remove1_subset)
  then have "set (((drop_task x L)(os_rdy := insert_prio pr x (L os_rdy))) c) \<subseteq> set (L c)" using 1(2) by simp
  with 1 show ?case unfolding wake.simps by (meson subset_trans)
qed simp_all

lemma ready_first_ok:
  assumes S: "system_ok L D k"
  obtains l r where "rt_put_rdy_first (run k) (set_state (run k) READY k) = k\<lparr>p_lnk := l, p_rlnk := r, state := (state k)(run k := READY)\<rparr>"
    "queues_ok {} (L(os_rdy := run k # L os_rdy)) D (k\<lparr>p_lnk := l, p_rlnk := r, state := (state k)(run k := READY)\<rparr>)"
proof -
  note L = system_okD(5) [OF S] and Q = system_okD(1) [OF S] and F = system_okD(8) [OF S]
  let ?k1 = "set_state (run k) READY k"
  have c: "cb_type ?k1 = cb_type k" "p_lnk ?k1 = p_lnk k" "p_rlnk ?k1 = p_rlnk k" by (simp_all add: setters)
  have L1: "lists_ok L ?k1" "free_task L ?k1 (run k)" using L F lists_ok_cong [OF c] tcb_cong(4) [OF c(1)] by simp_all
  show thesis
  proof (rule lists_ok_rdy_first [OF L1])
    fix l r
    let ?k = "k\<lparr>p_lnk := l, p_rlnk := r, state := (state k)(run k := READY)\<rparr>" and ?L = "L(os_rdy := run k # L os_rdy)"
    assume p: "rt_put_rdy_first (run k) ?k1 = ?k1\<lparr>p_lnk := l, p_rlnk := r\<rparr>" and L': "lists_ok ?L (?k1\<lparr>p_lnk := l, p_rlnk := r\<rparr>)"
    have e: "?k1\<lparr>p_lnk := l, p_rlnk := r\<rparr> = ?k" by (simp add: setters)
    have tc: "tcb ?k = tcb k" by (rule tcb_cong) simp
    have "delays_ok D ?k" using system_okD(6) [OF S] by (subst delays_ok_cong [of _ k]) simp_all
    moreover have "by_prio (prio k) (?L h)" for h
      using queues_okD(3) [OF Q, of h] system_okD(2,3) [OF S] by (auto simp: runs_ok_def)
    moreover have "state ?k x = READY \<longleftrightarrow> x \<in> set (?L os_rdy)" if "tcb k x" for x using queues_okD(4) [OF Q that] by auto
    moreover have "x \<notin> fst ` set D" if "x \<in> set (?L os_rdy)" for x
      using that queues_okD(6) [OF Q, of x] system_okD(9) [OF S] by (cases "x = run k") simp_all
    ultimately have "queues_ok {} ?L D ?k" using L' queues_okD(5) [OF Q] unfolding queues_ok_def tc e by simp
    with p show thesis unfolding e by (rule that)
  qed
qed

lemma chk_robin_ok:
  assumes Q: "queues_ok {} L D k" and x: "L os_rdy = x # xs"
  shows "\<exists>k' ys. rt_chk_robin k = Some k' \<and> queues_ok {} (L(os_rdy := ys)) D k' \<and> set ys = set (L os_rdy)
    \<and> cb_type k' = cb_type k \<and> state k' = state k \<and> tokens k' = tokens k \<and> os_active_TCB k' = os_active_TCB k \<and> run k' = run k \<and> mails k' = mails k"
proof -
  let ?k1 = "if robin_task k \<noteq> p_lnk k os_rdy
      then k\<lparr>robin_task := p_lnk k os_rdy, robin_time := ucast (os_time k) + robin_tout k - 1\<rparr> else k"
  have s1: "same_queues k ?k1" "tokens ?k1 = tokens k" "os_active_TCB ?k1 = os_active_TCB k" "run ?k1 = run k" "cb_type ?k1 = cb_type k" "state ?k1 = state k"
    "mails ?k1 = mails k" by (simp_all add: same_queues_def mails_def)
  show ?thesis
  proof (cases "robin_time ?k1 = ucast (os_time ?k1)")
    case False
    then have "rt_chk_robin k = Some ?k1" unfolding rt_chk_robin_def Let_def by (simp only: if_False)
    moreover have "queues_ok {} (L(os_rdy := L os_rdy)) D ?k1" using Q queues_ok_cong [OF s1(1)] by simp
    ultimately show ?thesis using s1 by blast
  next
    case True
    define k2 where "k2 = ?k1\<lparr>robin_task := NULL\<rparr>"
    have s: "same_queues k k2" "tokens k2 = tokens k" "os_active_TCB k2 = os_active_TCB k" "run k2 = run k" "cb_type k2 = cb_type k" "state k2 = state k" "prio k2 = prio k"
      "mails k2 = mails k" by (simp_all add: k2_def same_queues_def mails_def)
    have Q2: "queues_ok {} L D k2" using Q queues_ok_cong [OF s(1)] by simp
    have h: "head k2 os_rdy" by (simp add: head_def)
    show ?thesis
    proof (rule lists_ok_get [OF queues_okD(1) [OF Q2] h x])
      fix l r
      let ?k3 = "k2\<lparr>p_lnk := l, p_rlnk := r\<rparr>"
      assume get: "rt_get_first os_rdy k2 = Some (x, ?k3)" and L3: "lists_ok (L(os_rdy := xs)) ?k3"
      have f: "free_task (L(os_rdy := xs)) ?k3 x"
        using lists_okD(3) [OF queues_okD(1) [OF Q2], of os_rdy] lists_okD(4,5) [OF queues_okD(1) [OF Q2], of x os_rdy] x by (auto simp: free_task_def)
      have h3: "head ?k3 os_rdy" by (simp add: head_def)
      show ?thesis
      proof (rule lists_ok_put [OF L3 h3 f])
        fix l' r'
        let ?ys = "insert_prio (prio k) x xs" and ?k4 = "k2\<lparr>p_lnk := l', p_rlnk := r'\<rparr>"
        assume "rt_put_prio os_rdy x ?k3 = Some (?k3\<lparr>p_lnk := l', p_rlnk := r'\<rparr>)"
          and "lists_ok ((L(os_rdy := xs))(os_rdy := insert_prio (prio ?k3) x ((L(os_rdy := xs)) os_rdy))) (?k3\<lparr>p_lnk := l', p_rlnk := r'\<rparr>)"
        then have put: "rt_put_prio os_rdy x ?k3 = Some ?k4" and L4: "lists_ok (L(os_rdy := ?ys)) ?k4" by (simp_all add: s)
        have eq: "rt_chk_robin k = Some ?k4" using True get put unfolding rt_chk_robin_def Let_def k2_def [symmetric] by simp
        have tc: "tcb ?k4 = tcb k2" by (rule tcb_cong) simp
        have "delays_ok D ?k4" using queues_okD(2) [OF Q2] by (subst delays_ok_cong [of _ k2]) simp_all
        moreover have "by_prio (prio k2) ((L(os_rdy := ?ys)) g)" for g
          using queues_okD(3) [OF Q2, of g] queues_okD(3) [OF Q2, of os_rdy] x s(7) by (auto intro: by_prio_insert)
        moreover have "set ?ys = set (L os_rdy)" using x by simp
        ultimately have "queues_ok {} (L(os_rdy := ?ys)) D ?k4"
          using L4 queues_okD(4,5,6) [OF Q2] unfolding queues_ok_def tc by simp
        with eq show ?thesis using s x by (intro exI [of _ ?k4] exI [of _ ?ys]) (simp add: mails_def)
      qed
    qed
  qed
qed

lemma systick_sys:
  assumes S: "system_ok L D k" and f: "quiet timers"
  shows "\<exists>k' L' D'. rt_systick timers k = Some k' \<and> system_ok L' D' (context_switch k')"
proof -
  note W = system_okD(4) [OF S] and F = system_okD(8) [OF S]
  have rn: "run k \<noteq> NULL" using system_okD(7) [OF S] by (simp add: tcb_def)
  have ro: "\<not> obj k os_rdy" using rdy_not_obj [OF system_okD(5) [OF S]] by simp
  show ?thesis
  proof (rule ready_first_ok [OF S])
    fix l r
    define k1 where "k1 = k\<lparr>p_lnk := l, p_rlnk := r, state := (state k)(run k := READY)\<rparr>"
    let ?L1 = "L(os_rdy := run k # L os_rdy)"
    assume "rt_put_rdy_first (run k) (set_state (run k) READY k) = k\<lparr>p_lnk := l, p_rlnk := r, state := (state k)(run k := READY)\<rparr>"
      and "queues_ok {} ?L1 D (k\<lparr>p_lnk := l, p_rlnk := r, state := (state k)(run k := READY)\<rparr>)"
    then have put: "rt_put_rdy_first (run k) (set_state (run k) READY k) = k1" and Q1: "queues_ok {} ?L1 D k1" by (simp_all add: k1_def)
    have s1: "cb_type k1 = cb_type k" "state k1 = (state k)(run k := READY)" "tokens k1 = tokens k" "os_active_TCB k1 = os_active_TCB k"
      "mails k1 = mails k" by (simp_all add: k1_def mails_def)
    obtain k2 ys where rb: "rt_chk_robin k1 = Some k2" and Q2: "queues_ok {} (?L1(os_rdy := ys)) D k2" and ys: "set ys = set (?L1 os_rdy)"
      and s2: "cb_type k2 = cb_type k" "state k2 = (state k)(run k := READY)" "tokens k2 = tokens k" "os_active_TCB k2 = os_active_TCB k"
      "mails k2 = mails k" using chk_robin_ok [OF Q1, of "run k" "L os_rdy"] s1 by auto
    define k3 where "k3 = k2\<lparr>os_time := os_time k2 + 1\<rparr>"
    let ?L2 = "L(os_rdy := ys)"
    have Q3: "queues_ok {} ?L2 D k3" using Q2 queues_ok_cong [of k2 k3] by (simp add: same_queues_def k3_def)
    obtain L4 D4 where w: "wake (prio k3) (passed D) ?L2 = (L4, D4)" by (cases "wake (prio k3) (passed D) ?L2")
    obtain k4 where dec: "rt_dec_dly k3 = Some k4" and Q4: "queues_ok {} L4 D4 k4" and mv: "moved k3 k4"
      and st: "state k4 = (\<lambda>x. if (x, 1) \<in> set D then READY else state k3 x)" using dec_dly_ok [OF Q3 w] by blast
    have s4: "cb_type k4 = cb_type k" "tokens k4 = tokens k" "os_active_TCB k4 = os_active_TCB k"
      "mails k4 = mails k" using movedD [OF mv] s2 by (simp_all add: k3_def mails_def)
    let ?k5 = "timers k4"
    have s5: "same_queues k4 ?k5" "tokens ?k5 = tokens k" "os_active_TCB ?k5 = os_active_TCB k" "cb_type ?k5 = cb_type k" "state ?k5 = state k4"
      "mails ?k5 = mails k" using f s4 unfolding quiet_def by (simp_all add: same_queues_def)
    have Q5: "queues_ok {} L4 D4 ?k5" using Q4 queues_ok_cong [OF s5(1)] by simp
    have "os_idle_TCB \<in> set ys" using system_okD(2,3) [OF S] ys by (simp add: runs_ok_def)
    then have i: "os_idle_TCB \<in> set (L4 os_rdy)" using wake_ready [of ?L2 "prio k3" "passed D"] w by auto
    show ?thesis
    proof (rule dispatch_next_ok [OF Q5 i])
      fix l' r' x xs
      let ?k6 = "?k5\<lparr>p_lnk := l', p_rlnk := r', new_tsk := x, state := (state ?k5)(x := RUNNING)\<rparr>"
      assume x: "L4 os_rdy = x # xs" and d: "dispatch_next ?k5 = Some ?k6" and K: "kernel_ok (L4(os_rdy := xs)) D4 ?k6"
      have eq: "rt_systick timers k = Some ?k6" using rn put rb dec d by (simp add: rt_systick_def k3_def)
      have "waiters_ok (L4(os_rdy := xs)) ?k6"
      proof (rule waiters_ok_cong [OF _ _ _ _ _ _ _ W])
        fix c y assume c: "obj k c" "y \<in> set ((L4(os_rdy := xs)) c)"
        then have n: "c \<noteq> os_rdy" using ro by auto
        with c have y4: "y \<in> set (L4 c)" by simp
        have y: "y \<in> set (L c)" using wake_waiting [OF n, of "prio k3" "passed D" ?L2] y4 n w by auto
        have yr: "y \<noteq> run k" using F y by (auto simp: free_task_def)
        have nr: "y \<notin> set (L4 os_rdy)" using lists_okD(5) [OF queues_okD(1) [OF Q5] y4, of os_rdy] n by blast
        then have "y \<noteq> x" using x by auto
        moreover have "state ?k5 y \<noteq> READY" using queues_okD(4) [OF Q5 lists_okD(4) [OF queues_okD(1) [OF Q5] y4]] nr by simp
        ultimately have "state ?k6 y = state k y" using s5(5) st s2 yr by (auto simp: k3_def split: if_splits)
        then show "object_wait (state ?k6 y)" using W c(1) y by (simp add: waiters_ok_def)
      next
        fix c assume c: "obj k c"
        then have n: "c \<noteq> os_rdy" using ro by auto
        then show "(L4(os_rdy := xs)) c \<noteq> [] \<Longrightarrow> L c \<noteq> []" using wake_waiting [OF n, of "prio k3" "passed D" ?L2] w by auto
        have "tcb k x" using lists_okD(4) [OF queues_okD(1) [OF Q5], of x os_rdy] x tcb_cong(1) [OF s5(4)] by simp
        moreover have "(c, 1) \<notin> set D" using delays_okD(4) [OF system_okD(6) [OF S], of c] tcb_not_obj [OF _ c] by force
        ultimately show "state ?k6 c = state k c"
          using tcb_not_obj [OF _ c] system_okD(7) [OF S] s5(5) st s2(2) by (auto simp: k3_def)
      qed (use s5 in \<open>simp_all add: mails_def\<close>)
      then show ?thesis using eq system_okI [OF K] by blast
    qed
  qed
qed

end
