(* ===== verification/RtxQueue.thy ===== *)
theory RtxQueue
  imports RtxKernel "HOL-Library.Multiset"
begin

text \<open>
  The interface of a priority list, and the lists of the kernel as its instances.
\<close>

unbundle bit_operations_syntax

section \<open>Lists ordered by priority\<close>

text \<open>
  The interface of a list of the kernel: \<open>put\<close> inserts a task by priority.  Whoever uses it this way gets the tasks back
  by priority, and first come first served among equals.
\<close>

fun put_all :: "('a \<Rightarrow> 'k \<Rightarrow> 'k option) \<Rightarrow> 'a list \<Rightarrow> 'k \<Rightarrow> 'k option" where
  "put_all put [] k = Some k"
| "put_all put (t # ts) k = do { k \<leftarrow> put t k; put_all put ts k }"

fun get_all :: "('k \<Rightarrow> ('a \<times> 'k) option) \<Rightarrow> nat \<Rightarrow> 'k \<Rightarrow> ('a list \<times> 'k) option" where
  "get_all get 0 k = Some ([], k)"
| "get_all get (Suc n) k = do { (x, k) \<leftarrow> get k; (xs, k) \<leftarrow> get_all get n k; Some (x # xs, k) }"

definition by_rank :: "(ptr \<Rightarrow> u8) \<Rightarrow> ptr list \<Rightarrow> ptr list" where
  "by_rank pr = sort_key (\<lambda>t. 255 - unat (pr t))"

lemma rank_le: "255 - unat (a :: u8) \<le> 255 - unat b \<longleftrightarrow> b \<le> a"
proof -
  have "unat x < 256" for x :: u8 using unsigned_less [of x] by simp
  from this [of a] this [of b] show ?thesis by (auto simp: word_le_nat_alt)
qed

lemma rank_eq: "255 - unat (a :: u8) = 255 - unat b \<longleftrightarrow> a = b"
  by (metis order_antisym order_refl rank_le)

lemma filter_insert_prio:
  "by_prio pr xs \<Longrightarrow> filter (\<lambda>x. pr x = p) (insert_prio pr t xs) = filter (\<lambda>x. pr x = p) xs @ (if pr t = p then [t] else [])"
proof -
  assume s: "by_prio pr xs"
  let ?P = "\<lambda>x. pr t \<le> pr x"
  have "filter (\<lambda>x. pr x = p) (dropWhile ?P xs) = []" if "pr t = p"
    using by_prio_dropWhile [OF s, of _ "pr t"] that by (fastforce simp: filter_empty_conv)
  moreover have "filter (\<lambda>x. pr x = p) xs = filter (\<lambda>x. pr x = p) (takeWhile ?P xs) @ filter (\<lambda>x. pr x = p) (dropWhile ?P xs)"
    by (metis filter_append takeWhile_dropWhile_id)
  ultimately show ?thesis by (auto simp: insert_prio_def)
qed

lemma insert_by_rank: "insert_prio pr t (by_rank pr ts) = by_rank pr (ts @ [t])"
proof -
  let ?f = "\<lambda>t. 255 - unat (pr t)"
  have bp: "by_prio pr (by_rank pr ts)"
    using sorted_sort_key [of ?f ts] by (simp add: by_rank_def sorted_map rank_le)
  note eqr = rank_eq
  have flt: "filter (\<lambda>x. pr x = p) (by_rank pr us) = filter (\<lambda>x. pr x = p) us" for p us
  proof (cases "\<exists>y. pr y = p")
    case True
    then obtain y where y: "pr y = p" by blast
    have "filter (\<lambda>x. ?f x = ?f y) (sort_key ?f us) = filter (\<lambda>x. ?f x = ?f y) us" by (rule sort_key_stable)
    then show ?thesis unfolding eqr using y by (simp add: by_rank_def)
  next
    case False
    then show ?thesis by (simp add: filter_empty_conv)
  qed
  have "sort_key ?f (ts @ [t]) = insert_prio pr t (by_rank pr ts)"
  proof (rule properties_for_sort_key)
    have "mset (insert_prio pr t xs) = add_mset t (mset xs)" for xs
    proof -
      have "mset xs = mset (takeWhile (\<lambda>x. pr t \<le> pr x) xs) + mset (dropWhile (\<lambda>x. pr t \<le> pr x) xs)"
        by (metis mset_append takeWhile_dropWhile_id)
      then show ?thesis by (simp add: insert_prio_def)
    qed
    then show "mset (insert_prio pr t (by_rank pr ts)) = mset (ts @ [t])" by (simp add: by_rank_def)
    show "filter (\<lambda>x. ?f k = ?f x) (insert_prio pr t (by_rank pr ts)) = filter (\<lambda>x. ?f k = ?f x) (ts @ [t])" for k
      using filter_insert_prio [OF bp, of "pr k" t] flt [of "pr k" ts] unfolding eqr by (auto simp: eq_commute [of "pr k"])
    show "sorted (map ?f (insert_prio pr t (by_rank pr ts)))"
      using by_prio_insert [OF bp, of t] by (simp add: sorted_map rank_le)
  qed
  then show ?thesis by (simp add: by_rank_def)
qed

locale prio_list =
  fixes inv :: "'k \<Rightarrow> ptr list \<Rightarrow> bool" and pr :: "'k \<Rightarrow> ptr \<Rightarrow> u8" and fresh :: "'k \<Rightarrow> ptr \<Rightarrow> bool"
    and put :: "ptr \<Rightarrow> 'k \<Rightarrow> 'k option" and get :: "'k \<Rightarrow> (ptr \<times> 'k) option"
  assumes put_law: "inv k xs \<Longrightarrow> fresh k t \<Longrightarrow> t \<notin> set xs \<Longrightarrow>
      \<exists>k'. put t k = Some k' \<and> inv k' (insert_prio (pr k) t xs) \<and> pr k' = pr k \<and> fresh k' = fresh k"
    and get_law: "inv k (x # xs) \<Longrightarrow> \<exists>k'. get k = Some (x, k') \<and> inv k' xs \<and> pr k' = pr k \<and> fresh k' = fresh k"
begin

lemma put_all_sorts:
  "inv k (by_rank (pr k) us) \<Longrightarrow> distinct (us @ ts) \<Longrightarrow> \<forall>t\<in>set ts. fresh k t \<Longrightarrow>
     \<exists>k'. put_all put ts k = Some k' \<and> inv k' (by_rank (pr k) (us @ ts)) \<and> pr k' = pr k \<and> fresh k' = fresh k"
proof (induction ts arbitrary: us k)
  case Nil
  then show ?case by simp
next
  case (Cons t ts)
  have "t \<notin> set (by_rank (pr k) us)" using Cons.prems(2) by (simp add: by_rank_def)
  then obtain k1 where k1: "put t k = Some k1" "inv k1 (by_rank (pr k) (us @ [t]))" "pr k1 = pr k" "fresh k1 = fresh k"
    using put_law [OF Cons.prems(1), of t] Cons.prems(3) by (auto simp: insert_by_rank)
  from Cons.IH [of k1 "us @ [t]"] Cons.prems k1 show ?case by simp
qed

lemma get_all_empties: "inv k xs \<Longrightarrow> \<exists>k'. get_all get (length xs) k = Some (xs, k') \<and> inv k' []"
proof (induction xs arbitrary: k)
  case (Cons x xs)
  then obtain k1 where k1: "get k = Some (x, k1)" "inv k1 xs" using get_law [OF Cons.prems] by blast
  from Cons.IH [OF k1(2)] k1 show ?case by auto
qed auto

lemma first_come_first_served:
  assumes "inv k []" "distinct ts" "\<forall>t\<in>set ts. fresh k t"
  shows "\<exists>k' k''. put_all put ts k = Some k' \<and> get_all get (length ts) k' = Some (by_rank (pr k) ts, k'')"
proof -
  obtain k' where k': "put_all put ts k = Some k'" "inv k' (by_rank (pr k) ts)"
    using put_all_sorts [of k "[]" ts] assms by (auto simp: by_rank_def)
  from get_all_empties [OF k'(2)] obtain k'' where "get_all get (length (by_rank (pr k) ts)) k' = Some (by_rank (pr k) ts, k'')" by blast
  then show ?thesis using k' by (auto simp: by_rank_def)
qed

end

text \<open>The list of a head \<open>h\<close>, with the lists \<open>M\<close> of the other heads.\<close>

definition list_of :: "(ptr \<Rightarrow> ptr list) \<Rightarrow> ptr \<Rightarrow> kernel \<Rightarrow> ptr list \<Rightarrow> bool" where
  "list_of M h k xs \<longleftrightarrow> head k h \<and> lists_ok (M(h := xs)) k"

definition outside :: "(ptr \<Rightarrow> ptr list) \<Rightarrow> ptr \<Rightarrow> kernel \<Rightarrow> ptr \<Rightarrow> bool" where
  "outside M h k t \<longleftrightarrow> tcb k t \<and> (\<forall>g. g \<noteq> h \<longrightarrow> t \<notin> set (M g))"

interpretation rtx: prio_list "list_of M h" prio "outside M h" "rt_put_prio h" "rt_get_first h" for M h
proof
  fix k xs t
  assume k: "list_of M h k xs" and t: "outside M h k t" "t \<notin> set xs"
  have L: "lists_ok (M(h := xs)) k" "head k h" "free_task (M(h := xs)) k t"
    using k t by (auto simp: list_of_def outside_def free_task_def)
  show "\<exists>k'. rt_put_prio h t k = Some k' \<and> list_of M h k' (insert_prio (prio k) t xs) \<and> prio k' = prio k \<and> outside M h k' = outside M h k"
    by (rule lists_ok_put [OF L]) (simp add: list_of_def outside_def L(2) fun_eq_iff)
next
  fix k x xs
  assume k: "list_of M h k (x # xs)"
  have L: "lists_ok (M(h := x # xs)) k" "head k h" "(M(h := x # xs)) h = x # xs" using k by (simp_all add: list_of_def)
  have e: "(M(h := x # xs))(h := xs) = M(h := xs)" by simp
  show "\<exists>k'. rt_get_first h k = Some (x, k') \<and> list_of M h k' xs \<and> prio k' = prio k \<and> outside M h k' = outside M h k"
    by (rule lists_ok_get [OF L]) (simp only: e, simp add: list_of_def outside_def L(2) fun_eq_iff)
qed

end
