(* ===== verification/RtxMail.thy ===== *)
theory RtxMail
  imports RtxKernel
begin

text \<open>
  Mailboxes: the circular buffer as a list of messages, and the calls \<open>rt_mbx_send\<close> and \<open>rt_mbx_wait\<close> on a consistent
  system.
\<close>

section \<open>The messages of a mailbox\<close>

lemma unat_wrap_index: "i < sz \<Longrightarrow> unat (wrap_index i sz) = Suc (unat i) mod unat sz"
proof -
  assume i: "i < sz"
  then have s: "unat (i + 1) = Suc (unat i)" by (rule unat_next)
  have "unat i < unat sz" using i by (simp add: word_less_nat_alt)
  moreover have "i + 1 = sz \<longleftrightarrow> Suc (unat i) = unat sz" using s by (simp add: word_eq_iff_unsigned [where ?'a = nat])
  ultimately show ?thesis using s by (auto simp: wrap_index_def)
qed

definition queued :: "kernel \<Rightarrow> ptr \<Rightarrow> u32 list" where
  "queued k c = ring (mb_msg k c) (unat (mb_last k c)) (unat (mb_count k c))"

lemma mailbox_okD:
  assumes "mailbox_ok k c w"
  shows "length (mb_msg k c) = unat (mb_size k c)" "unat (mb_last k c) < unat (mb_size k c)" "unat (mb_count k c) \<le> unat (mb_size k c)"
    "unat (mb_first k c) = (unat (mb_last k c) + unat (mb_count k c)) mod unat (mb_size k c)" "mb_first k c < mb_size k c" "mb_last k c < mb_size k c"
    "w \<Longrightarrow> state k c = 1 \<and> mb_count k c = 0 \<or> state k c = 2 \<and> mb_count k c = mb_size k c"
proof -
  show a: "length (mb_msg k c) = unat (mb_size k c)" "unat (mb_last k c) < unat (mb_size k c)" "unat (mb_count k c) \<le> unat (mb_size k c)"
    "unat (mb_first k c) = (unat (mb_last k c) + unat (mb_count k c)) mod unat (mb_size k c)" "mb_last k c < mb_size k c"
    "w \<Longrightarrow> state k c = 1 \<and> mb_count k c = 0 \<or> state k c = 2 \<and> mb_count k c = mb_size k c"
    using assms by (simp_all add: mailbox_ok_def word_less_nat_alt word_le_nat_alt)
  show "mb_first k c < mb_size k c" unfolding word_less_nat_alt a(4) using a(2) by (intro mod_less_divisor) simp
qed

lemma length_queued: "length (queued k c) = unat (mb_count k c)"
  by (simp add: queued_def)

text \<open>Storing a message in a buffer with room, taking the oldest one, and both at once when a sender waits.\<close>

lemma store_msg_ok:
  assumes M: "mailbox_ok k c w" and n: "mb_count k c < mb_size k c"
  obtains xs i where "store_msg c m k = Some (k\<lparr>mb_msg := (mb_msg k)(c := xs), mb_first := (mb_first k)(c := i)\<rparr>)"
    "mailbox_ok (inc_count c (k\<lparr>mb_msg := (mb_msg k)(c := xs), mb_first := (mb_first k)(c := i)\<rparr>)) c False"
    "queued (inc_count c (k\<lparr>mb_msg := (mb_msg k)(c := xs), mb_first := (mb_first k)(c := i)\<rparr>)) c = queued k c @ [m]"
proof -
  note D = mailbox_okD [OF M]
  let ?xs = "(mb_msg k c)[unat (mb_first k c) := m]" and ?i = "wrap_index (mb_first k c) (mb_size k c)"
  let ?k = "inc_count c (k\<lparr>mb_msg := (mb_msg k)(c := ?xs), mb_first := (mb_first k)(c := ?i)\<rparr>)"
  have n': "unat (mb_count k c) < unat (mb_size k c)" using n by (simp add: word_less_nat_alt)
  have f: "unat (mb_first k c) < length (mb_msg k c)" using D(1,5) by (simp add: word_less_nat_alt)
  have c1: "unat (mb_count k c + 1) = Suc (unat (mb_count k c))" by (rule unat_next [OF n])
  have "unat ?i = (unat (mb_last k c) + unat (mb_count k c + 1)) mod unat (mb_size k c)"
    unfolding unat_wrap_index [OF D(5)] D(4) c1 by (simp add: mod_Suc_eq)
  then have "mailbox_ok ?k c False" using D(1,2,6) n' c1
    by (simp add: mailbox_ok_def inc_count_def word_le_nat_alt)
  moreover have "queued ?k c = queued k c @ [m]"
    using ring_put [of "unat (mb_count k c)" "mb_msg k c" "unat (mb_last k c)" m] n' D(1,4) c1 by (simp add: queued_def inc_count_def)
  moreover have "store_msg c m k = Some (k\<lparr>mb_msg := (mb_msg k)(c := ?xs), mb_first := (mb_first k)(c := ?i)\<rparr>)"
    using f by (simp add: store_msg_def wr_in)
  ultimately show thesis by (intro that)
qed

lemma take_msg_ok:
  assumes M: "mailbox_ok k c w" and n: "mb_count k c \<noteq> 0"
  obtains i where "take_msg c k = Some (hd (queued k c), k\<lparr>mb_last := (mb_last k)(c := i)\<rparr>)"
    "mailbox_ok (dec_count c (k\<lparr>mb_last := (mb_last k)(c := i)\<rparr>)) c False"
    "queued (dec_count c (k\<lparr>mb_last := (mb_last k)(c := i)\<rparr>)) c = tl (queued k c)"
proof -
  note D = mailbox_okD [OF M]
  let ?i = "wrap_index (mb_last k c) (mb_size k c)"
  let ?k = "dec_count c (k\<lparr>mb_last := (mb_last k)(c := ?i)\<rparr>)"
  obtain m where m: "unat (mb_count k c) = Suc m" using n by (metis not0_implies_Suc unat_eq_zero)
  have c1: "unat (mb_count k c - 1) = m" using m n by (simp add: unat_minus_one)
  have li: "unat ?i = Suc (unat (mb_last k c)) mod unat (mb_size k c)" by (rule unat_wrap_index [OF D(6)])
  have q: "queued k c = mb_msg k c ! unat (mb_last k c) # ring (mb_msg k c) (unat ?i) m"
    using ring_take [of "unat (mb_last k c)" "mb_msg k c" m] D(1,2) li m by (simp add: queued_def)
  have "unat (mb_first k c) = (unat ?i + m) mod unat (mb_size k c)" unfolding D(4) li m by (simp add: mod_add_left_eq)
  moreover have "?i < mb_size k c" using li D(2) by (simp add: word_less_nat_alt)
  ultimately have "mailbox_ok ?k c False" using D(1,3) m c1 by (simp add: mailbox_ok_def dec_count_def word_le_nat_alt)
  moreover have "queued ?k c = tl (queued k c)" using q c1 by (simp add: queued_def dec_count_def)
  moreover have "take_msg c k = Some (hd (queued k c), k\<lparr>mb_last := (mb_last k)(c := ?i)\<rparr>)"
    using D(1,2) q by (simp add: take_msg_def rd_in)
  ultimately show thesis by (intro that)
qed

section \<open>Sending\<close>

lemma mcb_obj: "c \<noteq> NULL \<Longrightarrow> cb_type k c = MCB \<Longrightarrow> obj k c"
  by (simp add: obj_def sem_mbx_def)

lemma mailboxD: "system_ok L D k \<Longrightarrow> c \<noteq> NULL \<Longrightarrow> cb_type k c = MCB \<Longrightarrow> mailbox_ok k c (L c \<noteq> [])"
  using objects_ok [OF _ mcb_obj] by (simp add: object_ok_def)

lemma get_first_frame:
  assumes "rt_get_first c k = Some (t, k\<lparr>p_lnk := l, p_rlnk := r\<rparr>)" "p_lnk k' = p_lnk k" "p_rlnk k' = p_rlnk k" "cb_type k' = cb_type k"
  shows "rt_get_first c k' = Some (t, k'\<lparr>p_lnk := l, p_rlnk := r\<rparr>)"
proof -
  define after where "after k = (let k = set_lnk c (p_lnk k (p_lnk k c)) k
     in if sem_mbx c k then set_rlnk t NULL (if p_lnk k t \<noteq> NULL then set_lnk t NULL (set_rlnk (p_lnk k t) c k) else k) else set_lnk t NULL k)" for k
  have n: "p_lnk k c = t" "t \<noteq> NULL" "after k = k\<lparr>p_lnk := l, p_rlnk := r\<rparr>"
    using assms(1) by (auto simp: rt_get_first_def deref_def after_def Let_def split: bind_splits)
  then have get: "rt_get_first c k' = Some (t, after k')" using assms(2) by (simp add: rt_get_first_def after_def Let_def)
  have "p_lnk (after k') = p_lnk (after k)" "p_rlnk (after k') = p_rlnk (after k)"
    using assms(2-4) by (simp_all add: after_def setters sem_mbx_def Let_def)
  moreover have "after k' = k'\<lparr>p_lnk := p_lnk (after k'), p_rlnk := p_rlnk (after k')\<rparr>"
    by (simp add: after_def setters Let_def)
  ultimately have "after k' = k'\<lparr>p_lnk := l, p_rlnk := r\<rparr>" unfolding n(3) by simp
  with get show ?thesis by simp
qed

lemma mbx_send_wakes:
  assumes S: "system_ok L D k" and c: "c \<noteq> NULL" "cb_type k c = MCB" and x: "L c = t # ts" and s1: "state k c = 1"
  obtains k' where "rt_mbx_send c m timeout k = Some (OS_R_OK, k')"
    "system_ok (preempted k t (L(c := ts))) (without t D) (context_switch k')"
    "new_tsk k' = (if prio k (run k) < prio k t then t else run k)"
    "ret_regs k' = (ret_regs k)(t := (0x10, m))" "mails k' = mails k"
proof -
  note o = mcb_obj [OF c]
  have ne: "p_lnk k c \<noteq> NULL" using obj_first [OF system_okD(5) [OF S] o] x by simp
  show thesis
  proof (rule wake_first_sys [OF S o x])
    fix l r d b dt
    assume get: "rt_get_first c k = Some (t, k\<lparr>p_lnk := l, p_rlnk := r\<rparr>)"
      and rm: "\<And>k'. p_dlnk k' = p_dlnk k \<Longrightarrow> p_blnk k' = p_blnk k \<Longrightarrow> delta_time k' = delta_time k \<Longrightarrow> rt_rmv_dly t k' = k'\<lparr>p_dlnk := d, p_blnk := b, delta_time := dt\<rparr>"
      and go: "\<And>k1. same_queues (k\<lparr>p_lnk := l, p_rlnk := r, p_dlnk := d, p_blnk := b, delta_time := dt\<rparr>) k1 \<Longrightarrow> new_tsk k1 = new_tsk k \<Longrightarrow> run k1 = run k
      \<Longrightarrow> os_active_TCB k1 = os_active_TCB k \<Longrightarrow> os_psq k1 = os_psq k \<Longrightarrow> (\<And>e. obj k e \<Longrightarrow> object_ok k1 e ((L(c := ts)) e \<noteq> []))
      \<Longrightarrow> \<exists>k'. rt_dispatch t k1 = Some k' \<and> system_ok (preempted k t (L(c := ts))) (without t D) (context_switch k')
        \<and> new_tsk k' = (if prio k (run k) < prio k t then t else run k) \<and> frame k1 k'"
    let ?k0 = "k\<lparr>p_lnk := l, p_rlnk := r, p_dlnk := d, p_blnk := b, delta_time := dt\<rparr>"
    define k1 where "k1 = rt_rmv_dly t (rt_ret_val2 t 0x10 m (k\<lparr>p_lnk := l, p_rlnk := r\<rparr>))"
    have k1: "k1 = ?k0\<lparr>ret_regs := (ret_regs k)(t := (0x10, m))\<rparr>"
      unfolding k1_def by (subst rm) (simp_all add: rt_ret_val2_def)
    have s: "same_queues ?k0 k1" "new_tsk k1 = new_tsk k" "run k1 = run k" "os_active_TCB k1 = os_active_TCB k" "os_psq k1 = os_psq k"
      "tokens k1 = tokens k" "ret_regs k1 = (ret_regs k)(t := (0x10, m))" "cb_type k1 = cb_type k" "mails k1 = mails k" "state k1 = state k"
      by (simp_all add: k1 same_queues_def mails_def)
    have "object_ok k1 e ((L(c := ts)) e \<noteq> [])" if "obj k e" for e
      using object_ok_cong [OF objects_ok [OF S that] s(8,6,9), of "(L(c := ts)) e \<noteq> []"] s(10) x by (cases "e = c") simp_all
    then obtain k' where d: "rt_dispatch t k1 = Some k'" "system_ok (preempted k t (L(c := ts))) (without t D) (context_switch k')"
        "new_tsk k' = (if prio k (run k) < prio k t then t else run k)" and f: "frame k1 k'"
      using go [OF s(1-5)] by blast
    have "rt_mbx_send c m timeout k = Some (OS_R_OK, k')" using ne s1 d(1) by (simp add: rt_mbx_send_def get k1_def)
    then show thesis using that d(2,3) f s by (simp add: frame_def)
  qed
qed

text \<open>What happens to one mailbox leaves the other objects alone.\<close>

definition only_box :: "ptr \<Rightarrow> kernel \<Rightarrow> kernel \<Rightarrow> bool" where
  "only_box c k k' \<longleftrightarrow> cb_type k' = cb_type k \<and> tokens k' = tokens k \<and> os_psq k' = os_psq k
     \<and> (\<forall>e. e \<noteq> c \<longrightarrow> mb_first k' e = mb_first k e \<and> mb_last k' e = mb_last k e \<and> mb_count k' e = mb_count k e \<and> mb_size k' e = mb_size k e
       \<and> mb_msg k' e = mb_msg k e \<and> state k' e = state k e)"

lemma only_box_ok:
  assumes "only_box c k k'" "object_ok k e w" "w' \<Longrightarrow> w" "cb_type k c = MCB" "e = c \<Longrightarrow> mailbox_ok k' c w'"
  shows "object_ok k' e w'"
proof (cases "e = c")
  case True
  then show ?thesis using assms(1,4,5) by (simp add: object_ok_def only_box_def cb_types)
next
  case False
  then show ?thesis using assms(1,2,3) by (simp add: object_ok_def mailbox_ok_def only_box_def)
qed

lemma box_sys:
  assumes S: "system_ok L D k" and s: "same_queues k k1" "new_tsk k1 = new_tsk k" "os_active_TCB k1 = os_active_TCB k"
    and b: "only_box c k k1" "cb_type k c = MCB" "mailbox_ok k1 c (L c \<noteq> [])"
  shows "system_ok L D (context_switch k1)"
proof (rule system_okI)
  show "kernel_ok L D k1" using system_okD(1,2) [OF S] queues_ok_cong [OF s(1)] runs_ok_cong [OF s(1,2)] by (simp add: kernel_ok_def)
  have e: "cb_type k1 = cb_type k" "state k1 = state k" using s(1) by (simp_all add: same_queues_def)
  have "object_ok k1 e (L e \<noteq> [])" if "obj k e" for e
    using only_box_ok [OF b(1) objects_ok [OF S that] _ b(2)] b(3) by blast
  then show "waiters_ok L k1" using system_okD(4) [OF S] psq_ok_cong [of k1 k] e(1) b(1)
    unfolding waiters_ok_def tcb_cong [OF e(1)] e(2) s(3) only_box_def by blast
qed

lemma mbx_send_stores:
  assumes S: "system_ok L D k" and c: "c \<noteq> NULL" "cb_type k c = MCB" and r: "L c = [] \<or> state k c \<noteq> 1" and n: "mb_count k c \<noteq> mb_size k c"
  obtains k' where "rt_mbx_send c m timeout k = Some (OS_R_OK, k')" "system_ok L D (context_switch k')" "queued k' c = queued k c @ [m]"
    "L c = []" "new_tsk k' = new_tsk k"
proof -
  note M = mailboxD [OF S c]
  have e: "L c = []" using mailbox_okD(7) [OF M] r n by auto
  have n': "mb_count k c < mb_size k c" using mailbox_okD(3) [OF M] n by (simp add: word_le_nat_alt [symmetric] order_less_le)
  have p: "p_lnk k c = NULL" using obj_first [OF system_okD(5) [OF S] mcb_obj [OF c]] e by simp
  show thesis
  proof (rule store_msg_ok [OF M n'])
    fix xs i
    let ?k = "inc_count c (k\<lparr>mb_msg := (mb_msg k)(c := xs), mb_first := (mb_first k)(c := i)\<rparr>)"
    assume st: "store_msg c m k = Some (k\<lparr>mb_msg := (mb_msg k)(c := xs), mb_first := (mb_first k)(c := i)\<rparr>)"
      and M': "mailbox_ok ?k c False" and q: "queued ?k c = queued k c @ [m]"
    have f: "same_queues k ?k" "new_tsk ?k = new_tsk k" "os_active_TCB ?k = os_active_TCB k" "only_box c k ?k"
      by (simp_all add: same_queues_def only_box_def inc_count_def)
    have "system_ok L D (context_switch ?k)" by (rule box_sys [OF S f c(2)]) (use M' e in simp)
    moreover have "rt_mbx_send c m timeout k = Some (OS_R_OK, ?k)" using st p n by (simp add: rt_mbx_send_def)
    ultimately show thesis using q e f(2) by (intro that)
  qed
qed

lemma mbx_send_blocks:
  assumes S: "system_ok L D k" and c: "c \<noteq> NULL" "cb_type k c = MCB" and n: "mb_count k c = mb_size k c"
    and z: "timeout \<noteq> 0" and i: "run k \<noteq> os_idle_TCB"
  obtains k' x xs where "rt_mbx_send c m timeout k = Some (OS_R_TMO, k')" "L os_rdy = x # xs"
    "system_ok (L(c := insert_prio (prio k) (run k) (L c), os_rdy := xs)) (timed timeout (run k) D) (context_switch k')"
    "new_tsk k' = x" "state k' (run k) = WAIT_MBX" "mails k' = mails k" "tcb_msg k' = (tcb_msg k)(run k := m)" "state k' c = 2"
proof -
  note o = mcb_obj [OF c] and M = mailboxD [OF S c]
  have st: "object_wait WAIT_MBX" by (simp add: object_wait_def)
  have sz: "mb_size k c \<noteq> 0" using mailbox_okD(2) [OF M] by auto
  have s2: "state k c = 2" if "L c \<noteq> []" using mailbox_okD(7) [OF M that] n sz by auto
  have p: "p_lnk k c = NULL \<longleftrightarrow> L c = []" using obj_first [OF system_okD(5) [OF S] o] .
  have tc: "tcb k y \<Longrightarrow> y \<noteq> c" for y using tcb_not_obj [OF _ o] .
  show thesis
  proof (rule wait_for_sys [OF S o z i st])
    fix l r
    assume w: "wait_for c k = Some (k\<lparr>p_lnk := l, p_rlnk := r\<rparr>)" and go: "\<And>k1. cb_type k1 = cb_type k \<Longrightarrow> p_lnk k1 = l \<Longrightarrow> p_rlnk k1 = r \<Longrightarrow> p_dlnk k1 = p_dlnk k \<Longrightarrow> p_blnk k1 = p_blnk k \<Longrightarrow> delta_time k1 = delta_time k
      \<Longrightarrow> prio k1 = prio k \<Longrightarrow> run k1 = run k \<Longrightarrow> os_active_TCB k1 = os_active_TCB k \<Longrightarrow> os_psq k1 = os_psq k \<Longrightarrow> (\<And>y. tcb k y \<Longrightarrow> state k1 y = state k y)
      \<Longrightarrow> (\<And>e. obj k e \<Longrightarrow> object_ok k1 e (e = c \<or> L e \<noteq> []))
      \<Longrightarrow> \<exists>k' x xs. rt_block timeout WAIT_MBX k1 = Some k' \<and> L os_rdy = x # xs
        \<and> system_ok (L(c := insert_prio (prio k) (run k) (L c), os_rdy := xs)) (timed timeout (run k) D) (context_switch k')
        \<and> new_tsk k' = x \<and> state k' (run k) = WAIT_MBX \<and> frame k1 k'"
    define k1 where "k1 = k\<lparr>p_lnk := l, p_rlnk := r, state := (state k)(c := 2), tcb_msg := (tcb_msg k)(run k := m)\<rparr>"
    have e: "cb_type k1 = cb_type k" "p_lnk k1 = l" "p_rlnk k1 = r" "p_dlnk k1 = p_dlnk k" "p_blnk k1 = p_blnk k" "delta_time k1 = delta_time k"
      "prio k1 = prio k" "run k1 = run k" "os_active_TCB k1 = os_active_TCB k" "os_psq k1 = os_psq k" "state k1 = (state k)(c := 2)" "mails k1 = mails k"
      "tcb_msg k1 = (tcb_msg k)(run k := m)" by (simp_all add: k1_def mails_def)
    have "mailbox_ok k1 c True" using M n by (simp add: mailbox_ok_def k1_def)
    moreover have "only_box c k k1" by (simp add: only_box_def k1_def)
    ultimately have "object_ok k1 e (e = c \<or> L e \<noteq> [])" if "obj k e" for e
      using objects_ok [OF S that] c(2) by (cases "e = c") (auto simp: object_ok_def mailbox_ok_def only_box_def cb_types)
    then obtain k' x xs where b: "rt_block timeout WAIT_MBX k1 = Some k'" and k': "L os_rdy = x # xs"
        "system_ok (L(c := insert_prio (prio k) (run k) (L c), os_rdy := xs)) (timed timeout (run k) D) (context_switch k')"
        "new_tsk k' = x" "state k' (run k) = WAIT_MBX" and f: "frame k1 k'"
      using go [OF e(1-10)] e(11) tc by auto
    have "k1 = k\<lparr>p_lnk := l, p_rlnk := r, tcb_msg := (tcb_msg k)(run k := m)\<rparr>" if "L c \<noteq> []"
      by (rule kernel.equality) (use s2 [OF that] in \<open>simp_all add: k1_def fun_upd_idem\<close>)
    then have "rt_mbx_send c m timeout k = Some (OS_R_TMO, k')"
      using z n w b p s2 sz by (cases "L c = []") (simp_all add: rt_mbx_send_def Let_def k1_def setters)
    moreover have "state k' c = 2" using f o e(1,11) tcb_cong(2) [OF e(1)] by (simp add: frame_def)
    ultimately show thesis using that k' f e by (simp add: frame_def)
  qed
qed

section \<open>Receiving\<close>

lemma queued_cong: "mails k' = mails k \<Longrightarrow> queued k' = queued k"
  by (simp add: mails_def queued_def fun_eq_iff)

lemma mailbox_ok_cong: "mails k' = mails k \<Longrightarrow> state k' c = state k c \<Longrightarrow> mailbox_ok k' c w = mailbox_ok k c w"
  by (simp add: mails_def mailbox_ok_def)

lemma store_msg_frame:
  assumes "store_msg c m k = Some (k\<lparr>mb_msg := (mb_msg k)(c := xs), mb_first := (mb_first k)(c := i)\<rparr>)"
    and "mb_msg k' = mb_msg k" "mb_first k' = mb_first k" "mb_size k' = mb_size k"
  shows "store_msg c m k' = Some (k'\<lparr>mb_msg := (mb_msg k)(c := xs), mb_first := (mb_first k)(c := i)\<rparr>)"
proof -
  obtain ys where w: "wr (mb_msg k c) (unat (mb_first k c)) m = Some ys" using assms(1) by (auto simp: store_msg_def split: bind_splits)
  let ?j = "wrap_index (mb_first k c) (mb_size k c)"
  have "k\<lparr>mb_msg := (mb_msg k)(c := ys), mb_first := (mb_first k)(c := ?j)\<rparr> = k\<lparr>mb_msg := (mb_msg k)(c := xs), mb_first := (mb_first k)(c := i)\<rparr>"
    using assms(1) w by (simp add: store_msg_def)
  from arg_cong [OF this, of mb_msg] arg_cong [OF this, of mb_first]
  have "(mb_msg k)(c := ys) = (mb_msg k)(c := xs)" "(mb_first k)(c := ?j) = (mb_first k)(c := i)" by simp_all
  then show ?thesis using w assms(2-4) by (simp add: store_msg_def)
qed

lemma mbx_wait_takes:
  assumes S: "system_ok L D k" and c: "c \<noteq> NULL" "cb_type k c = MCB" and r: "L c = [] \<or> state k c \<noteq> 2" and n: "mb_count k c \<noteq> 0"
  obtains k' where "rt_mbx_wait c timeout k = Some (OS_R_OK, Some (hd (queued k c)), k')" "system_ok L D (context_switch k')"
    "queued k' c = tl (queued k c)" "L c = []" "new_tsk k' = new_tsk k"
proof -
  note M = mailboxD [OF S c]
  have e: "L c = []" using mailbox_okD(7) [OF M] r n by auto
  have p: "p_lnk k c = NULL" using obj_first [OF system_okD(5) [OF S] mcb_obj [OF c]] e by simp
  show thesis
  proof (rule take_msg_ok [OF M n])
    fix i
    let ?k = "dec_count c (k\<lparr>mb_last := (mb_last k)(c := i)\<rparr>)"
    assume tk: "take_msg c k = Some (hd (queued k c), k\<lparr>mb_last := (mb_last k)(c := i)\<rparr>)"
      and M': "mailbox_ok ?k c False" and q: "queued ?k c = tl (queued k c)"
    have f: "same_queues k ?k" "new_tsk ?k = new_tsk k" "os_active_TCB ?k = os_active_TCB k" "only_box c k ?k"
      by (simp_all add: same_queues_def only_box_def dec_count_def)
    have "system_ok L D (context_switch ?k)" by (rule box_sys [OF S f c(2)]) (use M' e in simp)
    moreover have "rt_mbx_wait c timeout k = Some (OS_R_OK, Some (hd (queued k c)), ?k)" using tk p n by (simp add: rt_mbx_wait_def)
    ultimately show thesis using q e f(2) by (intro that)
  qed
qed

lemma mbx_wait_refills:
  assumes S: "system_ok L D k" and c: "c \<noteq> NULL" "cb_type k c = MCB" and x: "L c = t # ts" and s2: "state k c = 2"
  obtains k' where "rt_mbx_wait c timeout k = Some (OS_R_OK, Some (hd (queued k c)), k')"
    "system_ok (preempted k t (L(c := ts))) (without t D) (context_switch k')"
    "new_tsk k' = (if prio k (run k) < prio k t then t else run k)"
    "fst (ret_regs k' t) = 0" "queued k' c = tl (queued k c) @ [tcb_msg k t]" "tcb_msg k' = tcb_msg k" "state k' c = 2"
proof -
  note o = mcb_obj [OF c] and M = mailboxD [OF S c]
  have n: "mb_count k c = mb_size k c" "mb_count k c \<noteq> 0" using mailbox_okD(2,7) [OF M] x s2 by auto
  have ne: "p_lnk k c \<noteq> NULL" using obj_first [OF system_okD(5) [OF S] o] x by simp
  have tc: "t \<noteq> c" using tcb_not_obj [OF lists_okD(4) [OF system_okD(5) [OF S], of t c] o] x by simp
  show thesis
  proof (rule take_msg_ok [OF M n(2)])
    fix i
    let ?k1 = "k\<lparr>mb_last := (mb_last k)(c := i)\<rparr>"
    let ?kd = "dec_count c ?k1"
    assume tk: "take_msg c k = Some (hd (queued k c), ?k1)" and M': "mailbox_ok ?kd c False" and q: "queued ?kd c = tl (queued k c)"
    have lt: "mb_count ?kd c < mb_size ?kd c" using n by (simp add: dec_count_def word_less_nat_alt unat_minus_one unat_gt_0)
    show thesis
    proof (rule store_msg_ok [OF M' lt, of "tcb_msg k t"], rule wake_first_sys [OF S o x])
      fix xs j l r d b dt
      let ?ks = "?kd\<lparr>mb_msg := (mb_msg ?kd)(c := xs), mb_first := (mb_first ?kd)(c := j)\<rparr>"
      assume st: "store_msg c (tcb_msg k t) ?kd = Some ?ks"
        and M2: "mailbox_ok (inc_count c ?ks) c False" and q2: "queued (inc_count c ?ks) c = queued ?kd c @ [tcb_msg k t]"
        and get: "rt_get_first c k = Some (t, k\<lparr>p_lnk := l, p_rlnk := r\<rparr>)"
        and rm: "\<And>k'. p_dlnk k' = p_dlnk k \<Longrightarrow> p_blnk k' = p_blnk k \<Longrightarrow> delta_time k' = delta_time k \<Longrightarrow> rt_rmv_dly t k' = k'\<lparr>p_dlnk := d, p_blnk := b, delta_time := dt\<rparr>"
        and go: "\<And>k1. same_queues (k\<lparr>p_lnk := l, p_rlnk := r, p_dlnk := d, p_blnk := b, delta_time := dt\<rparr>) k1 \<Longrightarrow> new_tsk k1 = new_tsk k \<Longrightarrow> run k1 = run k
          \<Longrightarrow> os_active_TCB k1 = os_active_TCB k \<Longrightarrow> os_psq k1 = os_psq k \<Longrightarrow> (\<And>e. obj k e \<Longrightarrow> object_ok k1 e ((L(c := ts)) e \<noteq> []))
          \<Longrightarrow> \<exists>k'. rt_dispatch t k1 = Some k' \<and> system_ok (preempted k t (L(c := ts))) (without t D) (context_switch k')
            \<and> new_tsk k' = (if prio k (run k) < prio k t then t else run k) \<and> frame k1 k'"
      have g1: "rt_get_first c ?k1 = Some (t, ?k1\<lparr>p_lnk := l, p_rlnk := r\<rparr>)" by (rule get_first_frame [OF get]) simp_all
      define k2 where "k2 = rt_ret_val t 0 (?k1\<lparr>p_lnk := l, p_rlnk := r\<rparr>)"
      define k3 where "k3 = k2\<lparr>mb_msg := (mb_msg ?kd)(c := xs), mb_first := (mb_first ?kd)(c := j)\<rparr>"
      have s3: "store_msg c (tcb_msg k2 t) k2 = Some k3"
        using store_msg_frame [OF st, of k2] by (simp add: k3_def k2_def rt_ret_val_def dec_count_def)
      define k4 where "k4 = rt_rmv_dly t k3"
      have k4: "k4 = k3\<lparr>p_dlnk := d, p_blnk := b, delta_time := dt\<rparr>"
        unfolding k4_def by (rule rm) (simp_all add: k3_def k2_def rt_ret_val_def)
      have m4: "mails k4 = mails (inc_count c ?ks)" "only_box c k k4" "state k4 = state k" "tcb_msg k4 = tcb_msg k" "fst (ret_regs k4 t) = 0"
        by (simp_all add: k4 k3_def k2_def mails_def rt_ret_val_def inc_count_def dec_count_def only_box_def fun_upd_idem)
      have s: "same_queues (k\<lparr>p_lnk := l, p_rlnk := r, p_dlnk := d, p_blnk := b, delta_time := dt\<rparr>) k4" "new_tsk k4 = new_tsk k" "run k4 = run k"
        "os_active_TCB k4 = os_active_TCB k" "os_psq k4 = os_psq k" "cb_type k4 = cb_type k"
        by (simp_all add: k4 k3_def k2_def rt_ret_val_def same_queues_def)
      have "mb_count k4 c = mb_size k4 c" using n by (simp add: k4 k3_def k2_def rt_ret_val_def)
      moreover have "mailbox_ok k4 c False" using M2 m4(1) by (simp add: mailbox_ok_def mails_def)
      ultimately have mk: "mailbox_ok k4 c w" for w using m4(3) s2 by (simp add: mailbox_ok_def)
      have ob: "object_ok k4 e ((L(c := ts)) e \<noteq> [])" if "obj k e" for e
        by (rule only_box_ok [OF m4(2) objects_ok [OF S that] _ c(2)]) (use x mk in \<open>auto split: if_splits\<close>)
      obtain k' where d: "rt_dispatch t k4 = Some k'" "system_ok (preempted k t (L(c := ts))) (without t D) (context_switch k')"
        "new_tsk k' = (if prio k (run k) < prio k t then t else run k)" and f: "frame k4 k'"
        using go [OF s(1-5) ob] by blast
      have "rt_mbx_wait c timeout k = Some (OS_R_OK, Some (hd (queued k c)), k')"
        using n(2) tk ne s2 g1 s3 d(1) by (simp add: rt_mbx_wait_def k2_def k4_def Let_def)
      moreover have "queued k' c = tl (queued k c) @ [tcb_msg k t]"
        using queued_cong [of k' k4] queued_cong [OF m4(1)] f q q2 by (simp add: frame_def)
      moreover have "state k' c = 2" using f o s(6) m4(3) s2 tcb_cong(2) [OF s(6)] by (simp add: frame_def)
      ultimately show thesis using that d(2,3) f m4 by (simp add: frame_def)
    qed
  qed
qed

lemma mbx_wait_blocks:
  assumes S: "system_ok L D k" and c: "c \<noteq> NULL" "cb_type k c = MCB" and n: "mb_count k c = 0"
    and z: "timeout \<noteq> 0" and i: "run k \<noteq> os_idle_TCB"
  obtains k' x xs where "rt_mbx_wait c timeout k = Some (OS_R_TMO, None, k')" "L os_rdy = x # xs"
    "system_ok (L(c := insert_prio (prio k) (run k) (L c), os_rdy := xs)) (timed timeout (run k) D) (context_switch k')"
    "new_tsk k' = x" "state k' (run k) = WAIT_MBX" "mails k' = mails k" "state k' c = 1"
proof -
  note o = mcb_obj [OF c] and M = mailboxD [OF S c]
  have st: "object_wait WAIT_MBX" by (simp add: object_wait_def)
  have sz: "mb_size k c \<noteq> 0" using mailbox_okD(2) [OF M] by auto
  have s1: "state k c = 1" if "L c \<noteq> []" using mailbox_okD(7) [OF M that] n sz by auto
  have p: "p_lnk k c = NULL \<longleftrightarrow> L c = []" using obj_first [OF system_okD(5) [OF S] o] .
  have tc: "tcb k y \<Longrightarrow> y \<noteq> c" for y using tcb_not_obj [OF _ o] .
  show thesis
  proof (rule wait_for_sys [OF S o z i st])
    fix l r
    assume w: "wait_for c k = Some (k\<lparr>p_lnk := l, p_rlnk := r\<rparr>)" and go: "\<And>k1. cb_type k1 = cb_type k \<Longrightarrow> p_lnk k1 = l \<Longrightarrow> p_rlnk k1 = r \<Longrightarrow> p_dlnk k1 = p_dlnk k \<Longrightarrow> p_blnk k1 = p_blnk k \<Longrightarrow> delta_time k1 = delta_time k
      \<Longrightarrow> prio k1 = prio k \<Longrightarrow> run k1 = run k \<Longrightarrow> os_active_TCB k1 = os_active_TCB k \<Longrightarrow> os_psq k1 = os_psq k \<Longrightarrow> (\<And>y. tcb k y \<Longrightarrow> state k1 y = state k y)
      \<Longrightarrow> (\<And>e. obj k e \<Longrightarrow> object_ok k1 e (e = c \<or> L e \<noteq> []))
      \<Longrightarrow> \<exists>k' x xs. rt_block timeout WAIT_MBX k1 = Some k' \<and> L os_rdy = x # xs
        \<and> system_ok (L(c := insert_prio (prio k) (run k) (L c), os_rdy := xs)) (timed timeout (run k) D) (context_switch k')
        \<and> new_tsk k' = x \<and> state k' (run k) = WAIT_MBX \<and> frame k1 k'"
    define k1 where "k1 = k\<lparr>p_lnk := l, p_rlnk := r, state := (state k)(c := 1)\<rparr>"
    have e: "cb_type k1 = cb_type k" "p_lnk k1 = l" "p_rlnk k1 = r" "p_dlnk k1 = p_dlnk k" "p_blnk k1 = p_blnk k" "delta_time k1 = delta_time k"
      "prio k1 = prio k" "run k1 = run k" "os_active_TCB k1 = os_active_TCB k" "os_psq k1 = os_psq k" "state k1 = (state k)(c := 1)" "mails k1 = mails k"
      by (simp_all add: k1_def mails_def)
    have "mailbox_ok k1 c True" using M n by (simp add: mailbox_ok_def k1_def)
    moreover have "only_box c k k1" by (simp add: only_box_def k1_def)
    ultimately have "object_ok k1 e (e = c \<or> L e \<noteq> [])" if "obj k e" for e
      using objects_ok [OF S that] c(2) by (cases "e = c") (auto simp: object_ok_def mailbox_ok_def only_box_def cb_types)
    then obtain k' x xs where b: "rt_block timeout WAIT_MBX k1 = Some k'" and k': "L os_rdy = x # xs"
        "system_ok (L(c := insert_prio (prio k) (run k) (L c), os_rdy := xs)) (timed timeout (run k) D) (context_switch k')"
        "new_tsk k' = x" "state k' (run k) = WAIT_MBX" and f: "frame k1 k'"
      using go [OF e(1-10)] e(11) tc by auto
    have "k1 = k\<lparr>p_lnk := l, p_rlnk := r\<rparr>" if "L c \<noteq> []"
      by (rule kernel.equality) (use s1 [OF that] in \<open>simp_all add: k1_def fun_upd_idem\<close>)
    then have "rt_mbx_wait c timeout k = Some (OS_R_TMO, None, k')"
      using z n w b p by (cases "L c = []") (simp_all add: rt_mbx_wait_def Let_def k1_def setters)
    moreover have "state k' c = 1" using f o e(1,11) tcb_cong(2) [OF e(1)] by (simp add: frame_def)
    ultimately show thesis using that k' f e by (simp add: frame_def)
  qed
qed

end
