(* ===== verification/RtxPost.thy ===== *)
theory RtxPost
  imports RtxMail
begin

text \<open>
  The requests of interrupts: \<open>isr_sem_send\<close>, \<open>isr_evt_set\<close> and \<open>isr_mbx_send\<close> post, \<open>rt_pop_req\<close> serves.
\<close>

unbundle bit_operations_syntax

section \<open>The kernel while requests are served\<close>

text \<open>The running task is in the ready list with the others; the post service queue is being emptied.\<close>

definition waiting_ok :: "(ptr \<Rightarrow> ptr list) \<Rightarrow> kernel \<Rightarrow> bool" where
  "waiting_ok L k \<longleftrightarrow> (\<forall>c x. obj k c \<and> x \<in> set (L c) \<longrightarrow> object_wait (state k x)) \<and> (\<forall>c. obj k c \<longrightarrow> object_ok k c (L c \<noteq> []))
     \<and> (\<forall>t\<in>set (os_active_TCB k). t = NULL \<or> tcb k t)"

definition posting :: "(ptr \<Rightarrow> ptr list) \<Rightarrow> (ptr \<times> nat) list \<Rightarrow> kernel \<Rightarrow> bool" where
  "posting L D k \<longleftrightarrow> queues_ok {} L D k \<and> waiting_ok L k \<and> os_idle_TCB \<in> set (L os_rdy)"

lemma waiters_ok_split: "waiters_ok L k \<longleftrightarrow> waiting_ok L k \<and> psq_ok k"
  by (auto simp: waiters_ok_def waiting_ok_def)

lemma postingD:
  assumes "posting L D k"
  shows "queues_ok {} L D k" "waiting_ok L k" "os_idle_TCB \<in> set (L os_rdy)" "lists_ok L k" "delays_ok D k"
    "obj k c \<Longrightarrow> object_ok k c (L c \<noteq> [])" "obj k c \<Longrightarrow> x \<in> set (L c) \<Longrightarrow> object_wait (state k x)"
  using assms by (auto simp: posting_def waiting_ok_def queues_ok_def)

text \<open>A task that is in no list becomes ready.\<close>

lemma make_ready:
  assumes Q: "queues_ok {t} L D k" and t: "free_task L k t" "t \<notin> fst ` set D" "state k t = READY"
    and W: "waiting_ok L k" and i: "os_idle_TCB \<in> set (L os_rdy)"
  obtains l r where "rt_put_prio os_rdy t k = Some (k\<lparr>p_lnk := l, p_rlnk := r\<rparr>)"
    "posting (L(os_rdy := insert_prio (prio k) t (L os_rdy))) D (k\<lparr>p_lnk := l, p_rlnk := r\<rparr>)"
proof -
  note L = queues_okD(1) [OF Q]
  have h: "head k os_rdy" by (simp add: head_def)
  have ro: "\<not> obj k os_rdy" using rdy_not_obj [OF L] by simp
  let ?L = "L(os_rdy := insert_prio (prio k) t (L os_rdy))"
  show thesis
  proof (rule lists_ok_put [OF L h t(1)])
    fix l r
    let ?k = "k\<lparr>p_lnk := l, p_rlnk := r\<rparr>"
    assume put: "rt_put_prio os_rdy t k = Some ?k" and L': "lists_ok ?L ?k"
    have tc: "tcb ?k = tcb k" "obj ?k = obj k" by (rule tcb_cong; simp)+
    have "delays_ok D ?k" using queues_okD(2) [OF Q] by (subst delays_ok_cong [of _ k]) simp_all
    moreover have "by_prio (prio k) (?L h)" for h using queues_okD(3) [OF Q] by (simp add: by_prio_insert)
    moreover have "state k x = READY \<longleftrightarrow> x \<in> set (?L os_rdy)" if "tcb k x" for x
      using queues_okD(4) [OF Q that] t(3) by (cases "x = t") simp_all
    moreover have "x \<notin> fst ` set D" if "x \<in> set (?L os_rdy)" for x
      using that t(2) queues_okD(6) [OF Q, of x] by (cases "x = t") simp_all
    ultimately have "queues_ok {} ?L D ?k" using L' queues_okD(5) [OF Q] unfolding queues_ok_def tc by simp
    moreover have "object_ok ?k c (L c \<noteq> [])" if "obj k c" for c
      using W that object_ok_cong [of k c "L c \<noteq> []" ?k] by (simp add: waiting_ok_def mails_def)
    then have "waiting_ok ?L ?k" using W ro unfolding waiting_ok_def tc by auto
    ultimately show thesis using that [OF put] i by (simp add: posting_def)
  qed
qed

text \<open>The first task that waits at an object becomes ready.\<close>

lemma ready_first_waiter:
  assumes P: "posting L D k" and o: "obj k c" and x: "L c = t # ts"
  obtains l r d b dt where "rt_get_first c k = Some (t, k\<lparr>p_lnk := l, p_rlnk := r\<rparr>)"
    "\<And>k'. p_dlnk k' = p_dlnk k \<Longrightarrow> p_blnk k' = p_blnk k \<Longrightarrow> delta_time k' = delta_time k \<Longrightarrow> rt_rmv_dly t k' = k'\<lparr>p_dlnk := d, p_blnk := b, delta_time := dt\<rparr>"
    "\<And>k1. cb_type k1 = cb_type k \<Longrightarrow> p_lnk k1 = l \<Longrightarrow> p_rlnk k1 = r \<Longrightarrow> p_dlnk k1 = d \<Longrightarrow> p_blnk k1 = b \<Longrightarrow> delta_time k1 = dt
      \<Longrightarrow> prio k1 = prio k \<Longrightarrow> state k1 = (state k)(t := READY) \<Longrightarrow> os_active_TCB k1 = os_active_TCB k
      \<Longrightarrow> (\<And>e. obj k e \<Longrightarrow> object_ok k1 e ((L(c := ts)) e \<noteq> []))
      \<Longrightarrow> \<exists>l r. rt_put_prio os_rdy t k1 = Some (k1\<lparr>p_lnk := l, p_rlnk := r\<rparr>)
        \<and> posting (L(c := ts, os_rdy := insert_prio (prio k) t (L os_rdy))) (without t D) (k1\<lparr>p_lnk := l, p_rlnk := r\<rparr>)"
    "t \<noteq> c"
proof (rule take_waiter_queues [OF postingD(1) [OF P] o x])
  note Q = postingD(1) [OF P]
  have cr: "c \<noteq> os_rdy" using rdy_not_obj [OF postingD(4) [OF P]] o by auto
  have tk: "tcb k t" using lists_okD(4) [OF postingD(4) [OF P], of t c] x by simp
  fix l r d b dt
  let ?k = "k\<lparr>p_lnk := l, p_rlnk := r, p_dlnk := d, p_blnk := b, delta_time := dt\<rparr>"
  assume get: "rt_get_first c k = Some (t, k\<lparr>p_lnk := l, p_rlnk := r\<rparr>)"
    and rm: "\<And>k'. p_dlnk k' = p_dlnk k \<Longrightarrow> p_blnk k' = p_blnk k \<Longrightarrow> delta_time k' = delta_time k \<Longrightarrow> rt_rmv_dly t k' = k'\<lparr>p_dlnk := d, p_blnk := b, delta_time := dt\<rparr>"
    and q: "queues_ok {} (L(c := ts)) (without t D) ?k" and t: "free_task (L(c := ts)) k t" "t \<notin> fst ` set (without t D)"
  have "\<exists>l r. rt_put_prio os_rdy t k1 = Some (k1\<lparr>p_lnk := l, p_rlnk := r\<rparr>)
        \<and> posting (L(c := ts, os_rdy := insert_prio (prio k) t (L os_rdy))) (without t D) (k1\<lparr>p_lnk := l, p_rlnk := r\<rparr>)"
    if e: "cb_type k1 = cb_type k" "p_lnk k1 = l" "p_rlnk k1 = r" "p_dlnk k1 = d" "p_blnk k1 = b" "delta_time k1 = dt"
      "prio k1 = prio k" "state k1 = (state k)(t := READY)" "os_active_TCB k1 = os_active_TCB k"
      and ob: "\<And>e. obj k e \<Longrightarrow> object_ok k1 e ((L(c := ts)) e \<noteq> [])" for k1
  proof -
    have tc: "tcb k1 = tcb k" "obj k1 = obj k" "free_task (L(c := ts)) k1 = free_task (L(c := ts)) k" by (rule tcb_cong; fact e(1))+
    have tc2: "tcb ?k = tcb k" by (rule tcb_cong) simp
    have "lists_ok (L(c := ts)) k1" using queues_okD(1) [OF q] e by (subst lists_ok_cong [of _ ?k]) simp_all
    moreover have "delays_ok (without t D) k1" using queues_okD(2) [OF q] e by (subst delays_ok_cong [of _ ?k]) simp_all
    ultimately have Q1: "queues_ok {t} (L(c := ts)) (without t D) k1"
      using queues_okD(3,5,6) [OF q] queues_okD(4) [OF q, unfolded tc2] unfolding queues_ok_def tc e by simp
    have "object_wait (state k1 y)" if a: "obj k e'" "y \<in> set ((L(c := ts)) e')" for e' y
    proof -
      have "y \<in> set (L e')" using a x by (cases "e' = c") simp_all
      moreover have "y \<noteq> t" using a(2) t(1) by (auto simp: free_task_def)
      ultimately show ?thesis using postingD(7) [OF P a(1)] e(8) by simp
    qed
    then have W: "waiting_ok (L(c := ts)) k1" using ob postingD(2) [OF P] unfolding waiting_ok_def tc e by blast
    have ft: "free_task (L(c := ts)) k1 t" using t(1) unfolding tc .
    have f: "state k1 t = READY" "os_idle_TCB \<in> set ((L(c := ts)) os_rdy)" using e(8) cr postingD(3) [OF P] by simp_all
    have lu: "(L(c := ts))(os_rdy := insert_prio (prio k1) t ((L(c := ts)) os_rdy)) = L(c := ts, os_rdy := insert_prio (prio k) t (L os_rdy))"
      using cr e(7) by simp
    show ?thesis
    proof (rule make_ready [OF Q1 ft t(2) f(1) W f(2)])
      fix l' r'
      assume "rt_put_prio os_rdy t k1 = Some (k1\<lparr>p_lnk := l', p_rlnk := r'\<rparr>)"
        and "posting ((L(c := ts))(os_rdy := insert_prio (prio k1) t ((L(c := ts)) os_rdy))) (without t D) (k1\<lparr>p_lnk := l', p_rlnk := r'\<rparr>)"
      then show ?thesis unfolding lu by (intro exI conjI)
    qed
  qed
  note go = this
  from that [OF get rm go tcb_not_obj [OF tk o]] show thesis .
qed

section \<open>Serving one request\<close>

text \<open>What serving a request for \<open>p\<close> leaves alone; at most one message is stored.\<close>

definition served :: "ptr \<Rightarrow> kernel \<Rightarrow> kernel \<Rightarrow> bool" where
  "served p k k' \<longleftrightarrow> cb_type k' = cb_type k \<and> os_psq k' = os_psq k \<and> mb_size k' = mb_size k
     \<and> (\<forall>c. c \<noteq> p \<longrightarrow> mb_count k' c = mb_count k c) \<and> unat (mb_count k' p) \<le> Suc (unat (mb_count k p))"

lemma posting_same:
  assumes P: "posting L D k" and s: "same_queues k k1" "os_active_TCB k1 = os_active_TCB k"
    and ob: "\<And>e. obj k e \<Longrightarrow> object_ok k1 e (L e \<noteq> [])"
  shows "posting L D k1"
proof -
  have e: "cb_type k1 = cb_type k" "state k1 = state k" using s(1) by (simp_all add: same_queues_def)
  have "queues_ok {} L D k1" using postingD(1) [OF P] queues_ok_cong [OF s(1)] by simp
  moreover have "waiting_ok L k1" using postingD(2) [OF P] ob unfolding waiting_ok_def tcb_cong [OF e(1)] e(2) s(2) by blast
  ultimately show ?thesis using postingD(3) [OF P] by (simp add: posting_def)
qed

lemma sem_psh_ok:
  assumes P: "posting L D k" and c: "c \<noteq> NULL" "cb_type k c = SCB"
  shows "\<exists>k' L' D'. rt_sem_psh c k = Some k' \<and> posting L' D' k' \<and> served c k k'"
proof -
  note o = scb_obj [OF c]
  have ne: "p_lnk k c = NULL \<longleftrightarrow> L c = []" using obj_first [OF postingD(4) [OF P] o] .
  show ?thesis
  proof (cases "L c")
    case Nil
    let ?k = "k\<lparr>tokens := (tokens k)(c := tokens k c + 1)\<rparr>"
    have "object_ok ?k e (L e \<noteq> [])" if "obj k e" for e
      using postingD(6) [OF P that] Nil c by (auto simp: object_ok_def mailbox_ok_def cb_types)
    then have "posting L D ?k" by (rule posting_same [OF P, rotated 2]) (simp_all add: same_queues_def)
    moreover have "rt_sem_psh c k = Some ?k" "served c k ?k" using ne Nil by (simp_all add: rt_sem_psh_def served_def)
    ultimately show ?thesis by blast
  next
    case (Cons t ts)
    show ?thesis
    proof (rule ready_first_waiter [OF P o Cons])
      fix l r d b dt
      assume get: "rt_get_first c k = Some (t, k\<lparr>p_lnk := l, p_rlnk := r\<rparr>)"
        and rm: "\<And>k'. p_dlnk k' = p_dlnk k \<Longrightarrow> p_blnk k' = p_blnk k \<Longrightarrow> delta_time k' = delta_time k \<Longrightarrow> rt_rmv_dly t k' = k'\<lparr>p_dlnk := d, p_blnk := b, delta_time := dt\<rparr>"
        and go: "\<And>k1. cb_type k1 = cb_type k \<Longrightarrow> p_lnk k1 = l \<Longrightarrow> p_rlnk k1 = r \<Longrightarrow> p_dlnk k1 = d \<Longrightarrow> p_blnk k1 = b \<Longrightarrow> delta_time k1 = dt
          \<Longrightarrow> prio k1 = prio k \<Longrightarrow> state k1 = (state k)(t := READY) \<Longrightarrow> os_active_TCB k1 = os_active_TCB k
          \<Longrightarrow> (\<And>e. obj k e \<Longrightarrow> object_ok k1 e ((L(c := ts)) e \<noteq> []))
          \<Longrightarrow> \<exists>l r. rt_put_prio os_rdy t k1 = Some (k1\<lparr>p_lnk := l, p_rlnk := r\<rparr>)
            \<and> posting (L(c := ts, os_rdy := insert_prio (prio k) t (L os_rdy))) (without t D) (k1\<lparr>p_lnk := l, p_rlnk := r\<rparr>)"
        and tc: "t \<noteq> c"
      define k1 where "k1 = rt_ret_val t 1 (set_state t READY (k\<lparr>p_lnk := l, p_rlnk := r, p_dlnk := d, p_blnk := b, delta_time := dt\<rparr>))"
      have e: "cb_type k1 = cb_type k" "p_lnk k1 = l" "p_rlnk k1 = r" "p_dlnk k1 = d" "p_blnk k1 = b" "delta_time k1 = dt"
        "prio k1 = prio k" "state k1 = (state k)(t := READY)" "os_active_TCB k1 = os_active_TCB k" "tokens k1 = tokens k" "mails k1 = mails k"
        by (simp_all add: k1_def rt_ret_val_def setters mails_def)
      have tk: "tcb k t" using lists_okD(4) [OF postingD(4) [OF P], of t c] Cons by simp
      have "object_ok k1 e' ((L(c := ts)) e' \<noteq> [])" if "obj k e'" for e'
        using object_ok_cong [OF postingD(6) [OF P that] e(1,10,11), of "(L(c := ts)) e' \<noteq> []"] e(8) tcb_not_obj [OF tk that] Cons
        by (cases "e' = c") simp_all
      from go [OF e(1-9) this] obtain l' r' where put: "rt_put_prio os_rdy t k1 = Some (k1\<lparr>p_lnk := l', p_rlnk := r'\<rparr>)"
        and P': "posting (L(c := ts, os_rdy := insert_prio (prio k) t (L os_rdy))) (without t D) (k1\<lparr>p_lnk := l', p_rlnk := r'\<rparr>)" by blast
      have "rt_sem_psh c k = Some (k1\<lparr>p_lnk := l', p_rlnk := r'\<rparr>)" using ne Cons get put rm by (simp add: rt_sem_psh_def k1_def)
      moreover have "served c k (k1\<lparr>p_lnk := l', p_rlnk := r'\<rparr>)" by (simp add: served_def k1_def rt_ret_val_def setters)
      ultimately show ?thesis using P' by blast
    qed
  qed
qed

lemma mbx_psh_ok:
  assumes P: "posting L D k" and c: "c \<noteq> NULL" "cb_type k c = MCB" and n: "mb_count k c < mb_size k c"
  shows "\<exists>k' L' D'. rt_mbx_psh c m k = Some k' \<and> posting L' D' k' \<and> served c k k'
    \<and> (case L c of [] \<Rightarrow> queued k' c = queued k c @ [m] | t # ts \<Rightarrow> queued k' c = queued k c \<and> ret_regs k' t = (0x10, m))"
proof -
  note o = mcb_obj [OF c]
  have M: "mailbox_ok k c (L c \<noteq> [])" using postingD(6) [OF P o] c by (simp add: object_ok_def)
  have ne: "p_lnk k c = NULL \<longleftrightarrow> L c = []" using obj_first [OF postingD(4) [OF P] o] .
  show ?thesis
  proof (cases "L c")
    case Nil
    show ?thesis
    proof (rule store_msg_ok [OF M n])
      fix xs i
      let ?k = "inc_count c (k\<lparr>mb_msg := (mb_msg k)(c := xs), mb_first := (mb_first k)(c := i)\<rparr>)"
      assume st: "store_msg c m k = Some (k\<lparr>mb_msg := (mb_msg k)(c := xs), mb_first := (mb_first k)(c := i)\<rparr>)"
        and M': "mailbox_ok ?k c False" and q: "queued ?k c = queued k c @ [m]"
      have b: "only_box c k ?k" by (simp add: only_box_def inc_count_def)
      have "object_ok ?k e (L e \<noteq> [])" if "obj k e" for e
        using only_box_ok [OF b postingD(6) [OF P that] _ c(2)] M' Nil by simp
      then have "posting L D ?k" by (rule posting_same [OF P, rotated 2]) (simp_all add: same_queues_def inc_count_def)
      moreover have "rt_mbx_psh c m k = Some ?k" using st ne Nil n by (simp add: rt_mbx_psh_def)
      moreover have "served c k ?k" using unat_next [OF n] by (simp add: served_def inc_count_def)
      ultimately show ?thesis using q Nil by (intro exI [of _ ?k] exI [of _ L] exI [of _ D]) simp
    qed
  next
    case (Cons t ts)
    have s1: "state k c = 1" using mailbox_okD(7) [OF M] Cons n by auto
    show ?thesis
    proof (rule ready_first_waiter [OF P o Cons])
      fix l r d b dt
      assume get: "rt_get_first c k = Some (t, k\<lparr>p_lnk := l, p_rlnk := r\<rparr>)"
        and rm: "\<And>k'. p_dlnk k' = p_dlnk k \<Longrightarrow> p_blnk k' = p_blnk k \<Longrightarrow> delta_time k' = delta_time k \<Longrightarrow> rt_rmv_dly t k' = k'\<lparr>p_dlnk := d, p_blnk := b, delta_time := dt\<rparr>"
        and go: "\<And>k1. cb_type k1 = cb_type k \<Longrightarrow> p_lnk k1 = l \<Longrightarrow> p_rlnk k1 = r \<Longrightarrow> p_dlnk k1 = d \<Longrightarrow> p_blnk k1 = b \<Longrightarrow> delta_time k1 = dt
          \<Longrightarrow> prio k1 = prio k \<Longrightarrow> state k1 = (state k)(t := READY) \<Longrightarrow> os_active_TCB k1 = os_active_TCB k
          \<Longrightarrow> (\<And>e. obj k e \<Longrightarrow> object_ok k1 e ((L(c := ts)) e \<noteq> []))
          \<Longrightarrow> \<exists>l r. rt_put_prio os_rdy t k1 = Some (k1\<lparr>p_lnk := l, p_rlnk := r\<rparr>)
            \<and> posting (L(c := ts, os_rdy := insert_prio (prio k) t (L os_rdy))) (without t D) (k1\<lparr>p_lnk := l, p_rlnk := r\<rparr>)"
        and tc: "t \<noteq> c"
      define k1 where "k1 = rt_rmv_dly t (set_state t READY (rt_ret_val2 t 0x10 m (k\<lparr>p_lnk := l, p_rlnk := r\<rparr>)))"
      have k1: "k1 = (set_state t READY (rt_ret_val2 t 0x10 m (k\<lparr>p_lnk := l, p_rlnk := r\<rparr>)))\<lparr>p_dlnk := d, p_blnk := b, delta_time := dt\<rparr>"
        unfolding k1_def by (rule rm) (simp_all add: setters rt_ret_val2_def)
      have e: "cb_type k1 = cb_type k" "p_lnk k1 = l" "p_rlnk k1 = r" "p_dlnk k1 = d" "p_blnk k1 = b" "delta_time k1 = dt"
        "prio k1 = prio k" "state k1 = (state k)(t := READY)" "os_active_TCB k1 = os_active_TCB k" "tokens k1 = tokens k" "mails k1 = mails k"
        by (simp_all add: k1 rt_ret_val2_def setters mails_def)
      have tk: "tcb k t" using lists_okD(4) [OF postingD(4) [OF P], of t c] Cons by simp
      have "object_ok k1 e' ((L(c := ts)) e' \<noteq> [])" if "obj k e'" for e'
        using object_ok_cong [OF postingD(6) [OF P that] e(1,10,11), of "(L(c := ts)) e' \<noteq> []"] e(8) tcb_not_obj [OF tk that] Cons
        by (cases "e' = c") simp_all
      from go [OF e(1-9) this] obtain l' r' where put: "rt_put_prio os_rdy t k1 = Some (k1\<lparr>p_lnk := l', p_rlnk := r'\<rparr>)"
        and P': "posting (L(c := ts, os_rdy := insert_prio (prio k) t (L os_rdy))) (without t D) (k1\<lparr>p_lnk := l', p_rlnk := r'\<rparr>)" by blast
      let ?k = "k1\<lparr>p_lnk := l', p_rlnk := r'\<rparr>"
      have "rt_mbx_psh c m k = Some ?k" using ne Cons get put s1 by (simp add: rt_mbx_psh_def mbx_ready_def k1_def)
      moreover have "served c k ?k" "ret_regs ?k t = (0x10, m)" "mails ?k = mails k"
        by (simp_all add: served_def k1 rt_ret_val2_def setters mails_def)
      ultimately show ?thesis using P' Cons queued_cong [of ?k k]
        by (intro exI [of _ ?k] exI [of _ "L(c := ts, os_rdy := insert_prio (prio k) t (L os_rdy))"] exI [of _ "without t D"]) simp
    qed
  qed
qed

lemma evt_psh_ok:
  assumes P: "posting L D k" and t: "tcb k t"
  shows "\<exists>k' L' D'. rt_evt_psh t flags k = Some k' \<and> posting L' D' k' \<and> served t k k'"
proof (cases "evt_met k t flags")
  case False
  let ?k = "set_events t (events k t OR flags) k"
  have "object_ok ?k e (L e \<noteq> [])" if "obj k e" for e
    using object_ok_cong [OF postingD(6) [OF P that], of ?k] by (simp add: set_events_def mails_def)
  then have "posting L D ?k" by (rule posting_same [OF P, rotated 2]) (simp_all add: same_queues_def set_events_def)
  moreover have "rt_evt_psh t flags k = Some ?k" using evt_wake_idle [OF False] by (simp add: rt_evt_psh_def)
  moreover have "served t k ?k" by (simp add: served_def set_events_def)
  ultimately show ?thesis by blast
next
  case True
  then have ws: "state k t = WAIT_AND \<or> state k t = WAIT_OR" by (auto simp: evt_met_def)
  note Q = postingD(1) [OF P]
  have fr: "free_task L k t" by (rule event_not_listed [OF Q postingD(7) [OF P] t ws])
  show ?thesis
  proof (rule delays_ok_without [OF postingD(5) [OF P] t])
    fix d b dt
    assume rm: "rt_rmv_dly t k = k\<lparr>p_dlnk := d, p_blnk := b, delta_time := dt\<rparr>" and D': "delays_ok (without t D) (k\<lparr>p_dlnk := d, p_blnk := b, delta_time := dt\<rparr>)"
    obtain w k1 where wk: "evt_wake t flags k = (True, k1)"
      and k1: "k1 = k\<lparr>p_dlnk := d, p_blnk := b, delta_time := dt, state := (state k)(t := READY),
        events := (events k)(t := (events k t OR flags) AND NOT (waits k t)), waits := w, ret_regs := (ret_regs k)(t := (0x08, ucast (w t)))\<rparr>"
      using evt_wake_met [OF True rm] by metis
    have e: "cb_type k1 = cb_type k" "p_lnk k1 = p_lnk k" "p_rlnk k1 = p_rlnk k" "prio k1 = prio k" "state k1 = (state k)(t := READY)"
      "tokens k1 = tokens k" "os_active_TCB k1 = os_active_TCB k" "mails k1 = mails k"
      by (simp_all add: k1 mails_def)
    have tc: "tcb k1 = tcb k" "obj k1 = obj k" "free_task L k1 = free_task L k" by (rule tcb_cong; fact e(1))+
    have "lists_ok L k1" using postingD(4) [OF P] lists_ok_cong [OF e(1,2,3)] by simp
    moreover have "delays_ok (without t D) k1" using D' by (subst delays_ok_cong [of _ "k\<lparr>p_dlnk := d, p_blnk := b, delta_time := dt\<rparr>"]) (simp_all add: k1)
    moreover have "\<forall>e\<in>set (without t D). 0 < snd e" using queues_okD(5) [OF Q] by (simp add: set_without)
    ultimately have Q1: "queues_ok {t} L (without t D) k1"
      using queues_okD(3,4,6) [OF Q] unfolding queues_ok_def tc e by (simp add: without_sub)
    have "object_wait (state k1 y)" if a: "obj k c" "y \<in> set (L c)" for c y
      using postingD(7) [OF P a] a(2) fr e(5) by (auto simp: free_task_def)
    moreover have "object_ok k1 c (L c \<noteq> [])" if "obj k c" for c
      using object_ok_cong [OF postingD(6) [OF P that] e(1,6,8), of "L c \<noteq> []"] e(5) tcb_not_obj [OF t that] by simp
    ultimately have W: "waiting_ok L k1" using postingD(2) [OF P] unfolding waiting_ok_def tc e(7) by blast
    have f: "free_task L k1 t" "t \<notin> fst ` set (without t D)" "state k1 t = READY" using fr e(5) fst_without unfolding tc by simp_all
    show ?thesis
    proof (rule make_ready [OF Q1 f W postingD(3) [OF P]])
      fix l r
      assume put: "rt_put_prio os_rdy t k1 = Some (k1\<lparr>p_lnk := l, p_rlnk := r\<rparr>)"
        and P': "posting (L(os_rdy := insert_prio (prio k1) t (L os_rdy))) (without t D) (k1\<lparr>p_lnk := l, p_rlnk := r\<rparr>)"
      have "rt_evt_psh t flags k = Some (k1\<lparr>p_lnk := l, p_rlnk := r\<rparr>)" using wk put by (simp add: rt_evt_psh_def)
      moreover have "served t k (k1\<lparr>p_lnk := l, p_rlnk := r\<rparr>)" by (simp add: served_def k1)
      ultimately show ?thesis using P' by blast
    qed
  qed
qed

section \<open>Serving all requests\<close>

text \<open>There is room for every message that waits in the post service queue.\<close>

definition room :: "(ptr \<times> u32) list \<Rightarrow> kernel \<Rightarrow> bool" where
  "room es k \<longleftrightarrow> (\<forall>c. c \<noteq> NULL \<and> cb_type k c = MCB \<longrightarrow> length (filter (\<lambda>e. fst e = c) es) + unat (mb_count k c) \<le> unat (mb_size k c))"

lemma room_served: "room (e # es) k \<Longrightarrow> served (fst e) k k' \<Longrightarrow> room es k'"
  unfolding room_def
proof (intro allI impI, elim conjE)
  fix c assume r: "\<forall>c. c \<noteq> NULL \<and> cb_type k c = MCB \<longrightarrow> length (filter (\<lambda>e. fst e = c) (e # es)) + unat (mb_count k c) \<le> unat (mb_size k c)"
    and sv: "served (fst e) k k'" and c: "c \<noteq> NULL" "cb_type k' c = MCB"
  then have "length (filter (\<lambda>e. fst e = c) (e # es)) + unat (mb_count k c) \<le> unat (mb_size k' c)" by (simp add: served_def)
  moreover have "unat (mb_count k' c) \<le> (if fst e = c then 1 else 0) + unat (mb_count k c)" using sv by (auto simp: served_def)
  ultimately show "length (filter (\<lambda>e. fst e = c) es) + unat (mb_count k' c) \<le> unat (mb_size k' c)" by (simp split: if_splits)
qed

lemma serve_ok:
  assumes P: "posting L D k" and e: "fst e \<noteq> NULL" "cb_type k (fst e) \<in> {TCB, SCB, MCB}" and r: "room (e # es) k"
  shows "\<exists>k' L' D'. (if cb_type k (fst e) = TCB then rt_evt_psh (fst e) (ucast (snd e)) k
      else if cb_type k (fst e) = MCB then rt_mbx_psh (fst e) (snd e) k else rt_sem_psh (fst e) k) = Some k'
    \<and> posting L' D' k' \<and> served (fst e) k k'"
proof -
  consider "cb_type k (fst e) = TCB" | "cb_type k (fst e) = MCB" | "cb_type k (fst e) = SCB" using e(2) by blast
  then show ?thesis
  proof cases
    case 1
    then have "tcb k (fst e)" using e(1) by (simp add: tcb_def)
    then show ?thesis using evt_psh_ok [OF P] 1 by simp
  next
    case 2
    have "mb_count k (fst e) < mb_size k (fst e)" using r e(1) 2 by (auto simp: room_def word_less_nat_alt)
    from mbx_psh_ok [OF P e(1) 2 this, of "snd e"] show ?thesis using 2 by (auto simp: cb_types)
  next
    case 3
    then show ?thesis using sem_psh_ok [OF P e(1) 3] by (auto simp: cb_types)
  qed
qed

lemma pop_loop_ok:
  assumes "posting L D k" "length (q (os_psq k)) = unat (psq_size (os_psq k))" "unat idx < unat (psq_size (os_psq k))"
    and "ring (q (os_psq k)) (unat idx) (unat (psq_count (os_psq k))) = es" "\<forall>e\<in>set es. fst e \<noteq> NULL \<and> cb_type k (fst e) \<in> {TCB, SCB, MCB}" "room es k"
  shows "\<exists>idx' k' L' D'. pop_loop idx k = Some (idx', k') \<and> posting L' D' k' \<and> os_psq k' = (os_psq k)\<lparr>psq_count := 0\<rparr> \<and> cb_type k' = cb_type k
    \<and> unat idx' = (unat idx + length es) mod unat (psq_size (os_psq k))"
  using assms
proof (induction es arbitrary: idx k L D)
  case Nil
  then have "psq_count (os_psq k) = 0" using length_ring [of "q (os_psq k)" "unat idx" "unat (psq_count (os_psq k))"] by (simp add: unat_eq_zero)
  moreover from this have "pop_loop idx k = Some (idx, k)" by (subst pop_loop.simps) simp
  moreover have "os_psq k = (os_psq k)\<lparr>psq_count := 0\<rparr>" using calculation(1) by (intro psq.equality) simp_all
  ultimately show ?case using Nil.prems(1,3) by auto
next
  case (Cons e es)
  let ?o = "os_psq k"
  have ne: "psq_count ?o \<noteq> 0" using Cons.prems(4) length_ring [of "q ?o" "unat idx" "unat (psq_count ?o)"] by auto
  have il: "unat idx < length (q ?o)" using Cons.prems(2,3) by simp
  have rd: "rd (q ?o) (unat idx) = Some e" and es: "ring (q ?o) (Suc (unat idx) mod length (q ?o)) (unat (psq_count ?o - 1)) = es"
    using posted_take [OF ne il Cons.prems(4)] by auto
  have ev: "fst e \<noteq> NULL" "cb_type k (fst e) \<in> {TCB, SCB, MCB}" using Cons.prems(5) by simp_all
  obtain k1 L1 D1 where st: "(if cb_type k (fst e) = TCB then rt_evt_psh (fst e) (ucast (snd e)) k
      else if cb_type k (fst e) = MCB then rt_mbx_psh (fst e) (snd e) k else rt_sem_psh (fst e) k) = Some k1"
    and P1: "posting L1 D1 k1" and sv: "served (fst e) k k1"
    using serve_ok [OF Cons.prems(1) ev Cons.prems(6)] by blast
  let ?k2 = "k1\<lparr>os_psq := (os_psq k1)\<lparr>psq_count := psq_count (os_psq k1) - 1\<rparr>\<rparr>"
  let ?i = "if idx + 1 = ucast (psq_size (os_psq k1)) then 0 else idx + 1"
  have o1: "os_psq k1 = ?o" "cb_type k1 = cb_type k" using sv by (simp_all add: served_def)
  have lt: "unat (psq_size ?o) < 2 ^ LENGTH(8)" by (rule unsigned_less)
  have is1: "unat (idx + 1) = Suc (unat idx)" using Cons.prems(3) lt by (simp add: unat_word_ariths)
  have "idx + 1 = ucast (psq_size ?o) \<longleftrightarrow> Suc (unat idx) = unat (psq_size ?o)"
    unfolding word_eq_iff_unsigned [where ?'a = nat] is1 by (simp add: unat_u8_u32)
  then have i: "unat ?i = Suc (unat idx) mod unat (psq_size ?o)" using Cons.prems(3) is1 o1 by auto
  have "object_ok ?k2 c (L1 c \<noteq> [])" if "obj k1 c" for c
    using postingD(6) [OF P1 that] by (simp add: object_ok_def mailbox_ok_def)
  then have "posting L1 D1 ?k2" by (rule posting_same [OF P1, rotated 2]) (simp_all add: same_queues_def)
  moreover have "length (q (os_psq ?k2)) = unat (psq_size (os_psq ?k2))" using Cons.prems(2) o1 by simp
  moreover have "unat ?i < unat (psq_size (os_psq ?k2))" unfolding i using Cons.prems(3) o1 by simp
  moreover have "ring (q (os_psq ?k2)) (unat ?i) (unat (psq_count (os_psq ?k2))) = es" unfolding i using es o1 Cons.prems(2) by simp
  moreover have "\<forall>e\<in>set es. fst e \<noteq> NULL \<and> cb_type ?k2 (fst e) \<in> {TCB, SCB, MCB}" using Cons.prems(5) o1 by simp
  moreover have "room es ?k2" using room_served [OF Cons.prems(6) sv] by (simp add: room_def)
  ultimately obtain idx' k' L' D' where r: "pop_loop ?i ?k2 = Some (idx', k')" "posting L' D' k'" "os_psq k' = (os_psq ?k2)\<lparr>psq_count := 0\<rparr>"
    "cb_type k' = cb_type ?k2" "unat idx' = (unat ?i + length es) mod unat (psq_size (os_psq ?k2))"
    using Cons.IH [of L1 D1 ?k2 ?i] by blast
  have "pop_loop idx k = Some (idx', k')"
    using ne rd st r(1) by (subst pop_loop.simps) (simp add: case_prod_beta)
  moreover have "unat idx' = (unat idx + length (e # es)) mod unat (psq_size ?o)" using r(5) unfolding i by (simp add: o1 mod_add_left_eq)
  moreover have "os_psq k' = ?o\<lparr>psq_count := 0\<rparr>" "cb_type k' = cb_type k" using r(3,4) o1 by simp_all
  ultimately show ?case using r(2) by blast
qed

text \<open>First \<open>rt_pop_req\<close> puts the running task in front of the ready list.\<close>

lemma enter_posting:
  assumes S: "system_ok L D k"
  obtains l r where "rt_put_rdy_first (run k) (set_state (run k) READY k) = k\<lparr>p_lnk := l, p_rlnk := r, state := (state k)(run k := READY)\<rparr>"
    "posting (L(os_rdy := run k # L os_rdy)) D (k\<lparr>p_lnk := l, p_rlnk := r, state := (state k)(run k := READY)\<rparr>)"
proof (rule ready_first_ok [OF S])
  note W = system_okD(4) [OF S] and F = system_okD(8) [OF S]
  have ro: "\<not> obj k os_rdy" using rdy_not_obj [OF system_okD(5) [OF S]] by simp
  fix l r
  let ?k1 = "k\<lparr>p_lnk := l, p_rlnk := r, state := (state k)(run k := READY)\<rparr>" and ?L1 = "L(os_rdy := run k # L os_rdy)"
  assume put: "rt_put_rdy_first (run k) (set_state (run k) READY k) = ?k1" and Q1: "queues_ok {} ?L1 D ?k1"
  have s1: "cb_type ?k1 = cb_type k" "tokens ?k1 = tokens k" "os_active_TCB ?k1 = os_active_TCB k" "mails ?k1 = mails k" by (simp_all add: mails_def)
  have "waiters_ok ?L1 ?k1"
  proof (rule waiters_ok_cong [OF s1 _ _ _ W])
    fix c x assume c: "obj k c" "x \<in> set (?L1 c)"
    then have "x \<in> set (L c)" using ro by (auto split: if_splits)
    moreover from this have "x \<noteq> run k" using F by (auto simp: free_task_def)
    ultimately show "object_wait (state ?k1 x)" using W c(1) by (simp add: waiters_ok_def)
  next
    fix c assume c: "obj k c"
    then show "?L1 c \<noteq> [] \<Longrightarrow> L c \<noteq> []" using ro by (auto split: if_splits)
    show "state ?k1 c = state k c" using tcb_not_obj [OF system_okD(7) [OF S] c] by simp
  qed
  moreover have "os_idle_TCB \<in> set (?L1 os_rdy)" using system_okD(2,3) [OF S] by (simp add: runs_ok_def)
  ultimately have "posting ?L1 D ?k1" using Q1 by (simp add: posting_def waiters_ok_split)
  from that [OF put this] show thesis .
qed

text \<open>\<open>rt_pop_req\<close> serves everything that was posted and leaves an empty queue.\<close>

lemma pop_req_sys:
  assumes S: "system_ok L D k" and r: "room (posted k) k"
  shows "\<exists>k' L' D'. rt_pop_req k = Some k' \<and> system_ok L' D' (context_switch k') \<and> posted k' = []"
proof -
  have P: "psq_ok k" using system_okD(4) [OF S] by (simp add: waiters_ok_split)
  note D = psq_okD [OF P]
  have rn: "run k \<noteq> NULL" using system_okD(7) [OF S] by (simp add: tcb_def)
  show ?thesis
  proof (rule enter_posting [OF S])
    fix l r
    define k1 where "k1 = k\<lparr>p_lnk := l, p_rlnk := r, state := (state k)(run k := READY)\<rparr>"
    let ?L1 = "L(os_rdy := run k # L os_rdy)"
    assume "rt_put_rdy_first (run k) (set_state (run k) READY k) = k\<lparr>p_lnk := l, p_rlnk := r, state := (state k)(run k := READY)\<rparr>"
      and "posting ?L1 D (k\<lparr>p_lnk := l, p_rlnk := r, state := (state k)(run k := READY)\<rparr>)"
    then have put: "rt_put_rdy_first (run k) (set_state (run k) READY k) = k1" and P1: "posting ?L1 D k1" by (simp_all add: k1_def)
    have s1: "cb_type k1 = cb_type k" "mails k1 = mails k" "os_psq k1 = os_psq k" by (simp_all add: k1_def mails_def)
    let ?i = "ucast (psq_last (os_psq k1)) :: u32"
    have i: "unat ?i = unat (psq_last (os_psq k))" by (simp add: unat_u8_u32 s1)
    have "\<forall>e\<in>set (posted k). fst e \<noteq> NULL \<and> cb_type k1 (fst e) \<in> {TCB, SCB, MCB}" "room (posted k) k1"
      using D(6) \<open>room (posted k) k\<close> s1(1,2) by (auto simp: room_def mails_def)
    then obtain idx k2 L2 D2 where pl: "pop_loop ?i k1 = Some (idx, k2)" and P2: "posting L2 D2 k2" and o2: "os_psq k2 = (os_psq k)\<lparr>psq_count := 0\<rparr>"
      and c2: "cb_type k2 = cb_type k" and ix: "unat idx = (unat (psq_last (os_psq k)) + unat (psq_count (os_psq k))) mod unat (psq_size (os_psq k))"
      using pop_loop_ok [OF P1, of ?i "posted k"] D(1,2) i s1(1,3) by (auto simp: posted_def)
    define k3 where "k3 = k2\<lparr>os_psq := (os_psq k2)\<lparr>psq_last := ucast idx\<rparr>\<rparr>"
    have "object_ok k3 c (L2 c \<noteq> [])" if "obj k2 c" for c
      using postingD(6) [OF P2 that] by (simp add: object_ok_def mailbox_ok_def k3_def)
    then have P3: "posting L2 D2 k3" by (rule posting_same [OF P2, rotated 2]) (simp_all add: same_queues_def k3_def)
    have u: "unat idx = unat (psq_first (os_psq k))" using ix D(4) by simp
    have lt: "unat (psq_first (os_psq k)) < 2 ^ LENGTH(8)" by (rule unsigned_less)
    have lf: "(ucast idx :: u8) = psq_first (os_psq k)"
      using u lt by (simp add: word_eq_iff_unsigned [where ?'a = nat] unsigned_ucast_eq take_bit_eq_mod)
    have e3: "posted k3 = []" "os_psq k3 = (os_psq k)\<lparr>psq_count := 0, psq_last := psq_first (os_psq k)\<rparr>"
      by (simp_all add: posted_def k3_def o2 lf ring_def)
    have p3: "psq_ok k3" unfolding psq_ok_def e3 using D(1,5) by (simp add: word_less_nat_alt)
    show ?thesis
    proof (rule dispatch_next_ok [OF postingD(1,3) [OF P3]])
      fix l' r' x xs
      let ?k4 = "k3\<lparr>p_lnk := l', p_rlnk := r', new_tsk := x, state := (state k3)(x := RUNNING)\<rparr>"
      assume x: "L2 os_rdy = x # xs" and d: "dispatch_next k3 = Some ?k4" and K: "kernel_ok (L2(os_rdy := xs)) D2 ?k4"
      have eq: "rt_pop_req k = Some ?k4" using rn put pl d by (simp add: rt_pop_req_def k3_def)
      have W3: "waiters_ok L2 k3" using P3 p3 by (simp add: waiters_ok_split posting_def)
      note L3 = postingD(4) [OF P3]
      have ro3: "\<not> obj k3 os_rdy" using rdy_not_obj [OF L3] by simp
      have tx: "tcb k3 x" using lists_okD(4) [OF L3, of x os_rdy] x by simp
      have "waiters_ok (L2(os_rdy := xs)) ?k4"
      proof (rule waiters_ok_cong [OF _ _ _ _ _ _ _ W3])
        fix c y assume c: "obj k3 c" "y \<in> set ((L2(os_rdy := xs)) c)"
        then have n: "c \<noteq> os_rdy" using ro3 by auto
        with c have y: "y \<in> set (L2 c)" by simp
        have "y \<notin> set (L2 os_rdy)" using lists_okD(5) [OF L3 y, of os_rdy] n by blast
        then have "y \<noteq> x" using x by auto
        then show "object_wait (state ?k4 y)" using W3 c(1) y by (simp add: waiters_ok_def)
      next
        fix c assume c: "obj k3 c"
        then show "(L2(os_rdy := xs)) c \<noteq> [] \<Longrightarrow> L2 c \<noteq> []" using ro3 by (auto split: if_splits)
        show "state ?k4 c = state k3 c" using tcb_not_obj [OF tx c] by simp
      qed (simp_all add: mails_def)
      then have "system_ok (L2(os_rdy := xs)) D2 (context_switch ?k4)" by (rule system_okI [OF K])
      moreover have "posted ?k4 = []" using e3(1) by (simp add: posted_def)
      ultimately show ?thesis using eq by blast
    qed
  qed
qed

section \<open>Posting\<close>

lemma post_sys:
  assumes S: "system_ok L D k" and n: "psq_count (os_psq k) \<noteq> psq_size (os_psq k)" and e: "entry \<noteq> NULL" "cb_type k entry \<in> {TCB, SCB, MCB}"
  shows "\<exists>k'. rt_psq_enq entry arg k = Some k' \<and> system_ok L D (context_switch (rt_psh_req k')) \<and> posted k' = posted k @ [(entry, arg)]"
proof -
  have P: "psq_ok k" using system_okD(4) [OF S] by (simp add: waiters_ok_split)
  show ?thesis
  proof (rule psq_enq_ok [OF P n e])
    fix s
    let ?k = "k\<lparr>os_psq := s\<rparr>"
    assume q: "rt_psq_enq entry arg k = Some ?k" and p: "psq_ok ?k" "posted ?k = posted k @ [(entry, arg)]"
    let ?k' = "rt_psh_req ?k"
    have s: "same_queues k ?k'" "new_tsk ?k' = new_tsk k" "os_active_TCB ?k' = os_active_TCB k" "cb_type ?k' = cb_type k" "state ?k' = state k"
      by (simp_all add: rt_psh_req_def same_queues_def)
    have "object_ok ?k' c (L c \<noteq> [])" if "obj k c" for c
      using objects_ok [OF S that] by (simp add: object_ok_def mailbox_ok_def rt_psh_req_def)
    then have "waiting_ok L ?k'" using system_okD(4) [OF S] unfolding waiters_ok_split waiting_ok_def tcb_cong [OF s(4)] s(3,5) by blast
    moreover have "psq_ok ?k'" using p(1) psq_ok_cong [of ?k' ?k] by (simp add: rt_psh_req_def)
    moreover have "kernel_ok L D ?k'" using system_okD(1,2) [OF S] queues_ok_cong [OF s(1)] runs_ok_cong [OF s(1,2)] by (simp add: kernel_ok_def)
    ultimately have "system_ok L D (context_switch ?k')" by (intro system_okI) (simp_all add: waiters_ok_split)
    then show ?thesis using q p(2) by blast
  qed
qed

section \<open>Mailboxes as queues\<close>

text \<open>
  The contents of a mailbox: the messages in its buffer, then those of the tasks that wait to send, in the order of their
  turn.
\<close>

definition contents :: "kernel \<Rightarrow> (ptr \<Rightarrow> ptr list) \<Rightarrow> ptr \<Rightarrow> u32 list" where
  "contents k L c = queued k c @ (if state k c = 2 then map (tcb_msg k) (L c) else [])"

lemma contents_queued: "L c = [] \<Longrightarrow> contents k L c = queued k c"
  by (simp add: contents_def)

lemma contents_Nil:
  assumes "mailbox_ok k c (L c \<noteq> [])"
  shows "contents k L c = [] \<longleftrightarrow> mb_count k c = 0"
proof -
  have "queued k c = [] \<longleftrightarrow> mb_count k c = 0" by (metis length_0_conv length_queued unat_eq_zero)
  moreover have "mb_count k c \<noteq> 0" if "L c \<noteq> []" "state k c = 2" using mailbox_okD(2,7) [OF assms] that by auto
  ultimately show ?thesis by (auto simp: contents_def)
qed

lemma mbx_wait_contents:
  assumes S: "system_ok L D k" and c: "c \<noteq> NULL" "cb_type k c = MCB" and m: "contents k L c = m # ms"
  shows "\<exists>k' L' D'. rt_mbx_wait c timeout k = Some (OS_R_OK, Some m, k') \<and> system_ok L' D' (context_switch k') \<and> contents k' L' c = ms"
proof -
  have M: "mailbox_ok k c (L c \<noteq> [])" by (rule mailboxD [OF S c])
  have n: "mb_count k c \<noteq> 0" using contents_Nil [of k c L, OF M] m by simp
  have cr: "c \<noteq> os_rdy" using rdy_not_obj [OF system_okD(5) [OF S]] mcb_obj [OF c] by auto
  have q: "queued k c \<noteq> []" using n by (metis length_0_conv length_queued unat_eq_zero)
  show ?thesis
  proof (cases "L c \<noteq> [] \<and> state k c = 2")
    case True
    then obtain t ts where x: "L c = t # ts" and s: "state k c = 2" by (cases "L c") auto
    show ?thesis
    proof (rule mbx_wait_refills [OF S c x s])
      fix k'
      assume w: "rt_mbx_wait c timeout k = Some (OS_R_OK, Some (hd (queued k c)), k')"
        and s': "system_ok (preempted k t (L(c := ts))) (without t D) (context_switch k')" and "queued k' c = tl (queued k c) @ [tcb_msg k t]"
        and "tcb_msg k' = tcb_msg k" "state k' c = 2"
      then have "contents k' (preempted k t (L(c := ts))) c = tl (contents k L c)" "hd (queued k c) = hd (contents k L c)"
        using q x s cr by (simp_all add: contents_def preempted_def)
      then show ?thesis using w s' m
        by (intro exI [of _ k'] exI [of _ "preempted k t (L(c := ts))"] exI [of _ "without t D"]) simp
    qed
  next
    case False
    then have r: "L c = [] \<or> state k c \<noteq> 2" by simp
    show ?thesis
    proof (rule mbx_wait_takes [OF S c r n])
      fix k'
      assume "rt_mbx_wait c timeout k = Some (OS_R_OK, Some (hd (queued k c)), k')" "system_ok L D (context_switch k')"
        "queued k' c = tl (queued k c)" "L c = []"
      then show ?thesis using m by (intro exI [of _ k'] exI [of _ L] exI [of _ D]) (simp add: contents_queued)
    qed
  qed
qed

section \<open>Messages of interrupts that go wrong\<close>

text \<open>
  A mailbox keeps the mark "a sender waits" after its last sender has been served.  The interrupt that then takes a
  message posts a request for the sender, and the request stores a message nobody has sent.
\<close>

lemma isr_receive_phantom:
  assumes S: "system_ok L D k" and c: "c \<noteq> NULL" "cb_type k c = MCB" and e: "L c = []" "state k c = 2" "mb_count k c \<noteq> 0"
    and n: "psq_count (os_psq k) \<noteq> psq_size (os_psq k)"
  shows "\<exists>k1 k2. isr_mbx_receive c k = Some (OS_R_MBX, Some (hd (queued k c)), k1) \<and> posted k1 = posted k @ [(c, 0)]
    \<and> rt_mbx_psh c 0 k1 = Some k2 \<and> queued k2 c = tl (queued k c) @ [0]"
proof -
  have P: "psq_ok k" using system_okD(4) [OF S] by (simp add: waiters_ok_split)
  have p: "p_lnk k c = NULL" using obj_first [OF system_okD(5) [OF S] mcb_obj [OF c]] e by simp
  have M: "mailbox_ok k c False" using mailboxD [OF S c] e by simp
  show ?thesis
  proof (rule psq_enq_ok [OF P n c(1), of 0])
    show "cb_type k c \<in> {TCB, SCB, MCB}" using c(2) by simp
    fix s
    assume q: "rt_psq_enq c 0 k = Some (k\<lparr>os_psq := s\<rparr>)" and po: "posted (k\<lparr>os_psq := s\<rparr>) = posted k @ [(c, 0)]"
    define k0 where "k0 = rt_psh_req (k\<lparr>os_psq := s\<rparr>)"
    have k0: "mb_msg k0 = mb_msg k" "mb_first k0 = mb_first k" "mb_last k0 = mb_last k" "mb_count k0 = mb_count k" "mb_size k0 = mb_size k"
      "state k0 = state k" "p_lnk k0 = p_lnk k" "os_psq k0 = s" by (simp_all add: k0_def rt_psh_req_def)
    have M0: "mailbox_ok k0 c False" "queued k0 = queued k" using M by (simp_all add: mailbox_ok_def queued_def k0 fun_eq_iff)
    show ?thesis
    proof (rule take_msg_ok [OF M0(1)])
      show "mb_count k0 c \<noteq> 0" using e(3) k0 by simp
      fix i
      let ?k1 = "dec_count c (k0\<lparr>mb_last := (mb_last k0)(c := i)\<rparr>)"
      assume tk: "take_msg c k0 = Some (hd (queued k0 c), k0\<lparr>mb_last := (mb_last k0)(c := i)\<rparr>)"
        and M1: "mailbox_ok ?k1 c False" and q1: "queued ?k1 c = tl (queued k0 c)"
      have rd0: "rd (mb_msg k c) (unat (mb_last k c)) = Some (hd (queued k c))"
        using tk unfolding take_msg_def k0 M0(2) by (auto split: bind_splits)
      have "i = wrap_index (mb_last k c) (mb_size k c)"
      proof -
        have "mb_last (snd (the (take_msg c k0))) c = i" using tk by simp
        then show ?thesis using rd0 by (simp add: take_msg_def k0)
      qed
      then have td: "take_msg c (dec_count c k0) = Some (hd (queued k c), ?k1)"
        using rd0 by (simp add: take_msg_def dec_count_def k0)
      have r: "isr_mbx_receive c k = Some (OS_R_MBX, Some (hd (queued k c)), ?k1)"
        using e q rd0 td by (simp add: isr_mbx_receive_def k0_def [symmetric])
      have lt: "mb_count ?k1 c < mb_size ?k1 c"
      proof -
        have "unat (mb_count k c - 1) < unat (mb_count k c)" using e(3) by (simp add: unat_minus_one unat_gt_0)
        then show ?thesis using mailbox_okD(3) [OF M] by (simp add: dec_count_def k0 word_less_nat_alt)
      qed
      show ?thesis
      proof (rule store_msg_ok [OF M1 lt, of 0])
        fix xs j
        assume st: "store_msg c 0 ?k1 = Some (?k1\<lparr>mb_msg := (mb_msg ?k1)(c := xs), mb_first := (mb_first ?k1)(c := j)\<rparr>)"
          and q2: "queued (inc_count c (?k1\<lparr>mb_msg := (mb_msg ?k1)(c := xs), mb_first := (mb_first ?k1)(c := j)\<rparr>)) c = queued ?k1 c @ [0]"
        have "p_lnk ?k1 c = NULL" using p by (simp add: dec_count_def k0)
        then have "rt_mbx_psh c 0 ?k1 = Some (inc_count c (?k1\<lparr>mb_msg := (mb_msg ?k1)(c := xs), mb_first := (mb_first ?k1)(c := j)\<rparr>))"
          using st lt by (simp add: rt_mbx_psh_def)
        moreover have "posted ?k1 = posted k @ [(c, 0)]" using po by (simp add: posted_def dec_count_def k0)
        ultimately have "isr_mbx_receive c k = Some (OS_R_MBX, Some (hd (queued k c)), ?k1) \<and> posted ?k1 = posted k @ [(c, 0)]
          \<and> rt_mbx_psh c 0 ?k1 = Some (inc_count c (?k1\<lparr>mb_msg := (mb_msg ?k1)(c := xs), mb_first := (mb_first ?k1)(c := j)\<rparr>))
          \<and> queued (inc_count c (?k1\<lparr>mb_msg := (mb_msg ?k1)(c := xs), mb_first := (mb_first ?k1)(c := j)\<rparr>)) c = tl (queued k c) @ [0]"
          using r q1 q2 M0(2) by simp
        then show ?thesis by (intro exI)
      qed
    qed
  qed
qed

text \<open>
  A message posted to a full mailbox with a waiting sender is lost; the message of the sender is written over the oldest
  one, and the count exceeds the size.
\<close>

lemma mbx_psh_overwrites:
  assumes Q: "queues_ok {} L D k" and c: "c \<noteq> NULL" "cb_type k c = MCB" and M: "mailbox_ok k c True" and x: "L c = t # ts" "state k c = 2"
  shows "\<exists>k'. rt_mbx_psh c m k = Some k' \<and> mb_count k' c = mb_size k c + 1
    \<and> mb_msg k' c = (mb_msg k c)[unat (mb_last k c) := tcb_msg k t] \<and> mb_last k' c = mb_last k c"
proof -
  note L = queues_okD(1) [OF Q] and D = mailbox_okD [OF M]
  have n: "mb_count k c = mb_size k c" using D(7) x by simp
  have f: "unat (mb_first k c) = unat (mb_last k c)" unfolding D(4) n using D(2) by simp
  have p: "p_lnk k c \<noteq> NULL" using obj_first [OF L mcb_obj [OF c]] x by simp
  show ?thesis
  proof (rule take_waiter_queues [OF Q mcb_obj [OF c] x(1)])
    fix l r d b dt
    assume get: "rt_get_first c k = Some (t, k\<lparr>p_lnk := l, p_rlnk := r\<rparr>)"
      and rm: "\<And>k'. p_dlnk k' = p_dlnk k \<Longrightarrow> p_blnk k' = p_blnk k \<Longrightarrow> delta_time k' = delta_time k \<Longrightarrow> rt_rmv_dly t k' = k'\<lparr>p_dlnk := d, p_blnk := b, delta_time := dt\<rparr>"
      and q: "queues_ok {} (L(c := ts)) (without t D) (k\<lparr>p_lnk := l, p_rlnk := r, p_dlnk := d, p_blnk := b, delta_time := dt\<rparr>)"
      and ft: "free_task (L(c := ts)) k t"
    define k1 where "k1 = rt_ret_val t 0 (k\<lparr>p_lnk := l, p_rlnk := r\<rparr>)"
    define xs where "xs = (mb_msg k c)[unat (mb_last k c) := tcb_msg k t]"
    define i where "i = wrap_index (mb_first k c) (mb_size k c)"
    define k2 where "k2 = k1\<lparr>mb_msg := (mb_msg k)(c := xs), mb_first := (mb_first k)(c := i)\<rparr>"
    have st: "store_msg c (tcb_msg k t) k1 = Some k2"
      using D(1,2) f by (simp add: store_msg_def k2_def k1_def rt_ret_val_def xs_def i_def wr_in)
    define k3 where "k3 = rt_rmv_dly t (set_state t READY (inc_count c k2))"
    have k3: "k3 = (set_state t READY (inc_count c k2))\<lparr>p_dlnk := d, p_blnk := b, delta_time := dt\<rparr>"
      unfolding k3_def by (rule rm) (simp_all add: setters inc_count_def k2_def k1_def rt_ret_val_def)
    have e: "cb_type k3 = cb_type k" "p_lnk k3 = l" "p_rlnk k3 = r" "mb_count k3 c = mb_size k c + 1" "mb_msg k3 c = xs" "mb_last k3 = mb_last k"
      by (simp_all add: k3 setters inc_count_def k2_def k1_def rt_ret_val_def n)
    have L3: "lists_ok (L(c := ts)) k3" using queues_okD(1) [OF q] e by (subst lists_ok_cong [of _ "k\<lparr>p_lnk := l, p_rlnk := r, p_dlnk := d, p_blnk := b, delta_time := dt\<rparr>"]) simp_all
    have h: "head k3 os_rdy" "free_task (L(c := ts)) k3 t" using ft tcb_cong(4) [OF e(1)] by (simp_all add: head_def)
    show ?thesis
    proof (rule lists_ok_put [OF L3 h])
      fix l' r'
      assume "rt_put_prio os_rdy t k3 = Some (k3\<lparr>p_lnk := l', p_rlnk := r'\<rparr>)"
      then have "rt_mbx_psh c m k = Some (k3\<lparr>p_lnk := l', p_rlnk := r'\<rparr>)"
        using p x(2) get st by (simp add: rt_mbx_psh_def mbx_ready_def k1_def [symmetric] k3_def)
      then show ?thesis using e unfolding xs_def by (intro exI [of _ "k3\<lparr>p_lnk := l', p_rlnk := r'\<rparr>"]) simp
    qed
  qed
qed

end
