(* ===== verification/RtxSystem.thy ===== *)
theory RtxSystem
  imports RtxQueue RtxPost
begin

text \<open>
  The calls as a step relation, and what holds in every state they reach.
\<close>

unbundle bit_operations_syntax

section \<open>Calls\<close>

datatype call = Pass | Delay u16 | SemSend ptr | SemWait ptr u16 | EvtWait u16 u16 bool | EvtSet u16 u32
  | MbxSend ptr u32 u16 | MbxWait ptr u16 | Tick | IsrSemSend ptr | IsrEvtSet u16 u32 | IsrMbxSend ptr u32 | PopReq

definition perform :: "(kernel \<Rightarrow> kernel) \<Rightarrow> call \<Rightarrow> kernel \<Rightarrow> kernel option" where
  "perform timers c k = map_option context_switch (case c of
       Pass \<Rightarrow> rt_tsk_pass k
     | Delay n \<Rightarrow> rt_dly_wait n k
     | SemSend s \<Rightarrow> map_option snd (rt_sem_send s k)
     | SemWait s n \<Rightarrow> map_option snd (rt_sem_wait s n k)
     | EvtWait f n a \<Rightarrow> map_option snd (rt_evt_wait f n a k)
     | EvtSet f i \<Rightarrow> rt_evt_set f i k
     | MbxSend b m n \<Rightarrow> map_option snd (rt_mbx_send b m n k)
     | MbxWait b n \<Rightarrow> map_option (\<lambda>(_, _, k). k) (rt_mbx_wait b n k)
     | Tick \<Rightarrow> rt_systick timers k
     | IsrSemSend s \<Rightarrow> isr_sem_send s k
     | IsrEvtSet f i \<Rightarrow> isr_evt_set f i k
     | IsrMbxSend b m \<Rightarrow> isr_mbx_send b m k
     | PopReq \<Rightarrow> rt_pop_req k)"

text \<open>
  What the callers guarantee: the idle task does not block, an object is initialised, an index is in the table; an
  interrupt does not overflow the post service queue, nor a mailbox when its message is stored.
\<close>

definition psq_full :: "kernel \<Rightarrow> bool" where
  "psq_full k \<longleftrightarrow> psq_count (os_psq k) = psq_size (os_psq k)"

definition allowed :: "call \<Rightarrow> kernel \<Rightarrow> bool" where
  "allowed c k \<longleftrightarrow> (case c of
       SemSend s \<Rightarrow> s \<noteq> NULL \<and> cb_type k s = SCB
     | SemWait s n \<Rightarrow> s \<noteq> NULL \<and> cb_type k s = SCB \<and> run k \<noteq> os_idle_TCB
     | EvtSet f i \<Rightarrow> unat (i - 1) < length (os_active_TCB k)
     | MbxSend b m n \<Rightarrow> b \<noteq> NULL \<and> cb_type k b = MCB \<and> run k \<noteq> os_idle_TCB
     | MbxWait b n \<Rightarrow> b \<noteq> NULL \<and> cb_type k b = MCB \<and> run k \<noteq> os_idle_TCB
     | Tick \<Rightarrow> True
     | IsrSemSend s \<Rightarrow> s \<noteq> NULL \<and> cb_type k s = SCB \<and> \<not> psq_full k
     | IsrEvtSet f i \<Rightarrow> unat (i - 1) < length (os_active_TCB k) \<and> \<not> psq_full k
     | IsrMbxSend b m \<Rightarrow> b \<noteq> NULL \<and> cb_type k b = MCB \<and> \<not> psq_full k
     | PopReq \<Rightarrow> room (posted k) k
     | _ \<Rightarrow> run k \<noteq> os_idle_TCB)"

lemma perform_ok:
  assumes S: "system_ok L D k" and a: "allowed c k" and q: "quiet timers"
  shows "\<exists>k' L' D'. perform timers c k = Some k' \<and> system_ok L' D' k'"
proof (cases c)
  case Pass
  then show ?thesis using tsk_pass_sys [OF S] a by (auto simp: perform_def allowed_def)
next
  case (Delay n)
  then show ?thesis using dly_wait_sys [OF S, of n] a by (auto simp: perform_def allowed_def)
next
  case (SemSend s)
  then have s: "s \<noteq> NULL" "cb_type k s = SCB" using a by (simp_all add: allowed_def)
  show ?thesis
  proof (cases "L s")
    case Nil
    then show ?thesis using sem_send_token [OF S s Nil] SemSend by (auto simp: perform_def)
  next
    case (Cons t ts)
    show ?thesis by (rule sem_send_wakes [OF S s Cons]) (auto simp: perform_def SemSend)
  qed
next
  case (SemWait s n)
  then have s: "s \<noteq> NULL" "cb_type k s = SCB" "run k \<noteq> os_idle_TCB" using a by (simp_all add: allowed_def)
  consider "tokens k s \<noteq> 0" | "tokens k s = 0" "n = 0" | "tokens k s = 0" "n \<noteq> 0" by blast
  then show ?thesis
  proof cases
    case 1
    then show ?thesis using sem_wait_token(1) [OF S 1, of n] sem_wait_token(2) [OF S 1] SemWait by (auto simp: perform_def)
  next
    case 2
    then have "rt_sem_wait s n k = Some (OS_R_TMO, k)" by (simp add: rt_sem_wait_def)
    then show ?thesis using system_ok_switch [OF S] SemWait by (auto simp: perform_def)
  next
    case 3
    show ?thesis by (rule sem_wait_blocks [OF S s(1,2) 3 s(3)]) (auto simp: perform_def SemWait)
  qed
next
  case (EvtWait f n b)
  then show ?thesis using evt_wait_sys [OF S, of f n b] a by (auto simp: perform_def allowed_def)
next
  case (EvtSet f i)
  then obtain t where t: "active i k = Some t" using a by (auto simp: active_def allowed_def rd_def)
  show ?thesis
  proof (cases "t = NULL \<or> \<not> evt_met k t f")
    case True
    from evt_set_idle [OF S t this] obtain k' where "rt_evt_set f i k = Some k'" "system_ok L D (context_switch k')" by blast
    then show ?thesis using EvtSet by (auto simp: perform_def)
  next
    case False
    then have "t \<noteq> NULL" "evt_met k t f" by auto
    then show ?thesis by - (rule evt_set_met [OF S t], auto simp: perform_def EvtSet)
  qed
next
  case (MbxSend b m n)
  then have b: "b \<noteq> NULL" "cb_type k b = MCB" "run k \<noteq> os_idle_TCB" using a by (simp_all add: allowed_def)
  consider "L b \<noteq> []" "state k b = 1" | "L b = [] \<or> state k b \<noteq> 1" "mb_count k b \<noteq> mb_size k b"
    | "L b = [] \<or> state k b \<noteq> 1" "mb_count k b = mb_size k b" "n = 0" | "mb_count k b = mb_size k b" "n \<noteq> 0" by blast
  then show ?thesis
  proof cases
    case 1
    then obtain t ts where x: "L b = t # ts" by (cases "L b") auto
    show ?thesis by (rule mbx_send_wakes [OF S b(1,2) x 1(2)]) (auto simp: perform_def MbxSend)
  next
    case 2
    show ?thesis by (rule mbx_send_stores [OF S b(1,2) 2]) (auto simp: perform_def MbxSend)
  next
    case 3
    have "p_lnk k b = NULL \<or> state k b \<noteq> 1" using 3(1) obj_first [OF system_okD(5) [OF S] mcb_obj [OF b(1,2)]] by auto
    then have "rt_mbx_send b m n k = Some (OS_R_TMO, k)" using 3 by (auto simp: rt_mbx_send_def)
    then show ?thesis using system_ok_switch [OF S] MbxSend by (auto simp: perform_def)
  next
    case 4
    show ?thesis by (rule mbx_send_blocks [OF S b(1,2) 4 b(3)]) (auto simp: perform_def MbxSend)
  qed
next
  case (MbxWait b n)
  then have b: "b \<noteq> NULL" "cb_type k b = MCB" "run k \<noteq> os_idle_TCB" using a by (simp_all add: allowed_def)
  consider m ms where "contents k L b = m # ms" | "mb_count k b = 0" "n = 0" | "mb_count k b = 0" "n \<noteq> 0"
    using contents_Nil [of k b L, OF mailboxD [OF S b(1,2)]] by (cases "contents k L b") auto
  then show ?thesis
  proof cases
    case 1
    then show ?thesis using mbx_wait_contents [OF S b(1,2) 1, of n] by (auto simp: perform_def MbxWait)
  next
    case 2
    then have "rt_mbx_wait b n k = Some (OS_R_TMO, None, k)" by (simp add: rt_mbx_wait_def)
    then show ?thesis using system_ok_switch [OF S] MbxWait by (auto simp: perform_def)
  next
    case 3
    show ?thesis by (rule mbx_wait_blocks [OF S b(1,2) 3 b(3)]) (auto simp: perform_def MbxWait)
  qed
next
  case Tick
  then show ?thesis using systick_sys [OF S q] by (auto simp: perform_def)
next
  case (IsrSemSend s)
  then have s: "psq_count (os_psq k) \<noteq> psq_size (os_psq k)" "s \<noteq> NULL" "cb_type k s \<in> {TCB, SCB, MCB}" using a by (auto simp: allowed_def psq_full_def)
  obtain k' where "rt_psq_enq s 0 k = Some k'" "system_ok L D (context_switch (rt_psh_req k'))" using post_sys [OF S s, of 0] by blast
  then show ?thesis by (intro exI [of _ "context_switch (rt_psh_req k')"] exI [of _ L] exI [of _ D]) (simp add: perform_def IsrSemSend isr_sem_send_def)
next
  case (IsrEvtSet f i)
  then obtain t where t: "active i k = Some t" and n: "psq_count (os_psq k) \<noteq> psq_size (os_psq k)"
    using a by (auto simp: active_def allowed_def rd_def psq_full_def)
  show ?thesis
  proof (cases "t = NULL")
    case True
    then show ?thesis using t system_ok_switch [OF S] by (auto simp: perform_def IsrEvtSet isr_evt_set_def)
  next
    case False
    have "t \<in> set (os_active_TCB k)" using t by (auto simp: active_def rd_Some_iff)
    then have "cb_type k t \<in> {TCB, SCB, MCB}" using system_okD(4) [OF S] False unfolding waiters_ok_def tcb_def by blast
    then obtain k' where "rt_psq_enq t (ucast f) k = Some k'" "system_ok L D (context_switch (rt_psh_req k'))"
      using post_sys [OF S n False, of "ucast f"] by blast
    then show ?thesis using t False
      by (intro exI [of _ "context_switch (rt_psh_req k')"] exI [of _ L] exI [of _ D]) (simp add: perform_def IsrEvtSet isr_evt_set_def)
  qed
next
  case (IsrMbxSend b m)
  then have s: "psq_count (os_psq k) \<noteq> psq_size (os_psq k)" "b \<noteq> NULL" "cb_type k b \<in> {TCB, SCB, MCB}" using a by (auto simp: allowed_def psq_full_def)
  obtain k' where "rt_psq_enq b m k = Some k'" "system_ok L D (context_switch (rt_psh_req k'))" using post_sys [OF S s, of m] by blast
  then show ?thesis by (intro exI [of _ "context_switch (rt_psh_req k')"] exI [of _ L] exI [of _ D]) (simp add: perform_def IsrMbxSend isr_mbx_send_def)
next
  case PopReq
  then show ?thesis using pop_req_sys [OF S] a by (auto simp: perform_def allowed_def)
qed

inductive reaches :: "(kernel \<Rightarrow> kernel) \<Rightarrow> kernel \<Rightarrow> kernel \<Rightarrow> bool" for timers :: "kernel \<Rightarrow> kernel" and k :: kernel where
  start: "reaches timers k k"
| step: "reaches timers k k1 \<Longrightarrow> allowed c k1 \<Longrightarrow> perform timers c k1 = Some k2 \<Longrightarrow> reaches timers k k2"

lemma reaches_ok: "reaches timers k k' \<Longrightarrow> quiet timers \<Longrightarrow> system_ok L D k \<Longrightarrow> \<exists>L' D'. system_ok L' D' k'"
proof (induction rule: reaches.induct)
  case (step k1 c k2)
  then obtain L' D' where "system_ok L' D' k1" by blast
  from perform_ok [OF this \<open>allowed c k1\<close> \<open>quiet timers\<close>] \<open>perform timers c k1 = Some k2\<close> show ?case by auto
qed blast

section \<open>An example system\<close>

text \<open>
  Task \<open>Obj 1\<close> runs with priority 3, \<open>Obj 2\<close> and the idle task are ready, \<open>Obj 3\<close>, of priority 4, waits at the
  semaphore \<open>Obj 10\<close> with five ticks to go, and \<open>Obj 4\<close> waits to send the message 5 to the full mailbox \<open>Obj 11\<close>.  The
  mailbox \<open>Obj 12\<close> holds one message.
\<close>

definition demo :: kernel where
  "demo = \<lparr>cb_type = (\<lambda>_. 255)(os_rdy := HCB, os_dly := HCB, os_idle_TCB := TCB, Obj 1 := TCB, Obj 2 := TCB, Obj 3 := TCB, Obj 4 := TCB,
      Obj 10 := SCB, Obj 11 := MCB, Obj 12 := MCB),
    state = (\<lambda>_. INACTIVE)(os_idle_TCB := READY, Obj 1 := RUNNING, Obj 2 := READY, Obj 3 := WAIT_SEM, Obj 4 := WAIT_MBX, Obj 11 := 2, Obj 12 := 2),
    prio = (\<lambda>_. 0)(Obj 1 := 3, Obj 2 := 2, Obj 3 := 4, Obj 4 := 1), task_id = (\<lambda>_. 0)(os_idle_TCB := 255, Obj 1 := 1, Obj 2 := 2, Obj 3 := 3, Obj 4 := 4),
    p_lnk = (\<lambda>_. NULL)(os_rdy := Obj 2, Obj 2 := os_idle_TCB, Obj 10 := Obj 3, Obj 11 := Obj 4), p_rlnk = (\<lambda>_. NULL)(Obj 3 := Obj 10, Obj 4 := Obj 11),
    p_dlnk = (\<lambda>_. NULL)(os_dly := Obj 3), p_blnk = (\<lambda>_. NULL)(Obj 3 := os_dly), delta_time = (\<lambda>_. 0)(os_dly := 5),
    interval_time = (\<lambda>_. 0), events = (\<lambda>_. 0), waits = (\<lambda>_. 0), tcb_msg = (\<lambda>_. 0)(Obj 4 := 5), p_mlnk = (\<lambda>_. NULL), prio_base = (\<lambda>_. 0),
    ret_regs = (\<lambda>_. (0, 0)), tokens = (\<lambda>_. 0), level = (\<lambda>_. 0), mut_owner = (\<lambda>_. NULL), isr_st = (\<lambda>_. 0),
    mb_first = (\<lambda>_. 0)(Obj 12 := 1), mb_last = (\<lambda>_. 0), mb_count = (\<lambda>_. 0)(Obj 11 := 2, Obj 12 := 1),
    mb_size = (\<lambda>_. 0)(Obj 11 := 2, Obj 12 := 2), mb_msg = (\<lambda>_. [])(Obj 11 := [7, 9], Obj 12 := [3, 0]),
    run = Obj 1, new_tsk = Obj 1, os_time = 0, robin_task = NULL, robin_time = 0, robin_tout = 5,
    os_psq = \<lparr>psq_first = 0, psq_last = 0, psq_count = 0, psq_size = 16, q = replicate 16 (NULL, 0)\<rparr>,
    os_active_TCB = [Obj 1, Obj 2, Obj 3, Obj 4], os_lock = False, os_psh_flag = False, pend_sv = False, ram = (\<lambda>_. 0)\<rparr>"

definition demo_lists :: "ptr \<Rightarrow> ptr list" where
  "demo_lists = (\<lambda>_. [])(os_rdy := [Obj 2, os_idle_TCB], Obj 10 := [Obj 3], Obj 11 := [Obj 4])"

lemma demo_tcb: "tcb demo x \<longleftrightarrow> x = os_idle_TCB \<or> x = Obj 1 \<or> x = Obj 2 \<or> x = Obj 3 \<or> x = Obj 4"
  and demo_obj: "obj demo c \<longleftrightarrow> c = Obj 10 \<or> c = Obj 11 \<or> c = Obj 12"
  by (auto simp: tcb_def obj_def sem_mbx_def demo_def cb_types)

lemma demo_system_ok: "system_ok demo_lists [(Obj 3, 5)] demo"
proof -
  have L: "lists_ok demo_lists demo"
    unfolding lists_ok_def demo_tcb demo_obj head_def by (auto simp: demo_def demo_lists_def)
  have D: "delays_ok [(Obj 3, 5)] demo"
    unfolding delays_ok_def demo_tcb by (auto simp: demo_def)
  have Q: "queues_ok {} demo_lists [(Obj 3, 5)] demo"
    unfolding queues_ok_def demo_tcb using L D by (auto simp: demo_def demo_lists_def task_states)
  have "runs_ok demo_lists [(Obj 3, 5)] demo"
    unfolding runs_ok_def free_task_def demo_tcb by (auto simp: demo_def demo_lists_def)
  moreover have "waiters_ok demo_lists demo"
    unfolding waiters_ok_def demo_tcb demo_obj
    by (auto simp: demo_def demo_lists_def object_wait_def object_ok_def mailbox_ok_def psq_ok_def posted_def ring_def cb_types)
  ultimately show ?thesis using Q by (simp add: system_ok_def kernel_ok_def demo_def)
qed

lemma quiet_id: "quiet (\<lambda>k. k)"
  by (simp add: quiet_def same_queues_def)

end
