(* ===== verification/RtxPool.thy ===== *)
theory RtxPool
  imports RtxBox
begin

text \<open>
  What the allocators of \<open>RtxBox\<close> guarantee.  A pool is abstracted to the list of its elements, header address and
  length, in address order (\<open>pool_ok\<close>); allocation is first fit on that list (\<open>place\<close>).  A memory box is abstracted to the
  list of its free blocks (\<open>box_ok\<close>).  The properties at the end follow from the lemmas about one search, one insertion
  and one release before them.
\<close>

unbundle bit_operations_syntax

section \<open>Words without wrap-around\<close>

lemma unat_add_small: "unat p + unat l < 2 ^ 32 \<Longrightarrow> unat (p + l) = unat p + unat (l :: u32)"
  by (simp add: unat_word_ariths)

lemma unat_less_32: "unat (w :: u32) < 2 ^ 32"
proof -
  have "unat w < 2 ^ LENGTH(32)" by (rule unsigned_less)
  then show ?thesis by simp
qed

lemma unat_diff_le: "unat p \<le> unat q \<Longrightarrow> unat (q - p) = unat q - unat (p :: u32)"
  by (simp add: unat_sub word_le_nat_alt)

lemma unat_round4: "unat ((w :: u32) AND NOT 3) = 4 * (unat w div 4)"
proof -
  have m: "(3 :: u32) = mask 2" by (simp add: mask_eq_exp_minus_1)
  have eq: "w AND NOT 3 = push_bit 2 (drop_bit 2 w)"
  proof (rule bit_word_eqI)
    fix n show "bit (w AND NOT 3) n = bit (push_bit 2 (drop_bit 2 w)) n" if "n < LENGTH(32)"
    proof (cases "n < 2")
      case False
      then have "Suc (Suc (n - 2)) = n" by simp
      then show ?thesis using False that unfolding m by (simp add: bit_simps not_less)
    qed (use that in \<open>simp add: m bit_simps\<close>)
  qed
  have "4 * (unat w div 4) < 2 ^ 32" using unat_less_32 [of w] by linarith
  then show ?thesis unfolding eq unsigned_push_bit_eq unsigned_drop_bit_eq
    by (simp add: drop_bit_eq_div push_bit_eq_mult take_bit_eq_mod mult.commute)
qed

section \<open>The elements of a pool\<close>

text \<open>
  An element is the address of a header and the length of the block, header included; the first one may have length 0.
  \<open>next_of es e\<close> is the address of the first element, or the end \<open>e\<close>.
\<close>

fun next_of :: "(u32 \<times> u32) list \<Rightarrow> u32 \<Rightarrow> u32" where
  "next_of [] e = e"
| "next_of (x # es) e = fst x"

fun seg :: "memory \<Rightarrow> (u32 \<times> u32) list \<Rightarrow> u32 \<Rightarrow> bool" where
  "seg m [] e = True"
| "seg m (x # es) e = (m (fst x) = next_of es e \<and> m (fst x + 4) = snd x \<and> seg m es e)"

fun laid_out :: "(u32 \<times> u32) list \<Rightarrow> u32 \<Rightarrow> bool" where
  "laid_out [] e = True"
| "laid_out (x # es) e = (unat (fst x) + max 8 (unat (snd x)) \<le> unat (next_of es e) \<and> laid_out es e)"

definition pool_ok :: "memory \<Rightarrow> u32 \<Rightarrow> (u32 \<times> u32) list \<Rightarrow> u32 \<Rightarrow> bool" where
  "pool_ok m pool es e \<longleftrightarrow> es \<noteq> [] \<and> fst (hd es) = pool \<and> pool \<noteq> 0 \<and> seg m es e \<and> m e = 0 \<and> laid_out es e
     \<and> (\<forall>x\<in>set es. 4 dvd unat (fst x) \<and> 4 dvd unat (snd x) \<and> (snd x = 0 \<or> 8 \<le> unat (snd x))) \<and> 4 dvd unat e \<and> (\<forall>x\<in>set (tl es). snd x \<noteq> 0)"

text \<open>First fit.\<close>

fun place :: "nat \<Rightarrow> (u32 \<times> u32) list \<Rightarrow> u32 \<Rightarrow> (u32 \<times> (u32 \<times> u32) list) option" where
  "place n [] e = None"
| "place n (x # es) e = (if n \<le> unat (next_of es e) - unat (fst x) - unat (snd x)
     then Some (if snd x = 0 then (fst x + 8, (fst x, of_nat n) # es) else (fst x + snd x + 8, x # (fst x + snd x, of_nat n) # es))
     else map_option (\<lambda>(r, es'). (r, x # es')) (place n es e))"

lemma next_of_append: "next_of (xs @ ys) e = next_of xs (next_of ys e)"
  by (cases xs) simp_all

lemma seg_append: "seg m (xs @ ys) e \<longleftrightarrow> seg m xs (next_of ys e) \<and> seg m ys e"
  by (induction xs) (auto simp: next_of_append)

lemma seg_upd: "(\<forall>x\<in>set es. a \<noteq> fst x \<and> a \<noteq> fst x + 4) \<Longrightarrow> seg (m(a := v)) es e = seg m es e"
  by (induction es) auto

lemma laid_out_append: "laid_out (xs @ ys) e \<longleftrightarrow> laid_out xs (next_of ys e) \<and> laid_out ys e"
  by (induction xs) (auto simp: next_of_append)

lemma laid_out_le: "laid_out es e \<Longrightarrow> unat (next_of es e) \<le> unat e"
proof (induction es)
  case (Cons x es)
  then show ?case by (cases es) auto
qed simp

lemma laid_out_bounds:
  "laid_out es e \<Longrightarrow> x \<in> set es \<Longrightarrow> unat (next_of es e) \<le> unat (fst x) \<and> unat (fst x) + max 8 (unat (snd x)) \<le> unat e"
proof (induction es)
  case (Cons y es)
  then have "unat (next_of es e) \<le> unat e" using laid_out_le by simp
  then show ?case using Cons by (cases "x = y") auto
qed simp

section \<open>Allocation\<close>

lemma hole_size:
  assumes "unat (fst x) + max 8 (unat (snd x)) \<le> unat (nx :: u32)"
  shows "unat (nx - fst x - snd x) = unat nx - unat (fst x) - unat (snd x)"
proof -
  have "unat (nx - fst x) = unat nx - unat (fst x)" using assms by (intro unat_diff_le) simp
  moreover from this have "unat (snd x) \<le> unat (nx - fst x)" using assms by simp
  ultimately show ?thesis using unat_diff_le [of "snd x" "nx - fst x"] by simp
qed

lemma hole_search_ok:
  assumes "seg m (x # es) e" "m e = 0" "laid_out (x # es) e"
  shows "place (unat sz) (x # es) e = None \<and> hole_search m sz (fst x) = Some 0
    \<or> (\<exists>pre y post. x # es = pre @ y # post \<and> hole_search m sz (fst x) = Some (fst y)
      \<and> unat sz \<le> unat (next_of post e) - unat (fst y) - unat (snd y)
      \<and> place (unat sz) (x # es) e = Some (if snd y = 0 then (fst y + 8, pre @ (fst y, sz) # post)
          else (fst y + snd y + 8, pre @ y # (fst y + snd y, sz) # post)))"
  using assms
proof (induction es arbitrary: x)
  case (Nil x)
  then have h: "unat (m (fst x) - fst x - m (fst x + 4)) = unat e - unat (fst x) - unat (snd x)" using hole_size [of x e] by simp
  show ?case
  proof (cases "unat sz \<le> unat e - unat (fst x) - unat (snd x)")
    case True
    then have "hole_search m sz (fst x) = Some (fst x)"
      using h by (subst hole_search.simps) (simp add: memp_next_def memp_len_def word_le_nat_alt)
    then show ?thesis using True by (intro disjI2 exI [of _ "[]"] exI [of _ x] exI [of _ "[]"]) simp
  next
    case False
    then have "hole_search m sz (fst x) = Some 0"
      using h Nil.prems by (subst hole_search.simps) (simp add: memp_next_def memp_len_def word_le_nat_alt)
    then show ?thesis using False by simp
  qed
next
  case (Cons z es x)
  have h: "unat (m (fst x) - fst x - m (fst x + 4)) = unat (fst z) - unat (fst x) - unat (snd x)"
    using hole_size [of x "fst z"] Cons.prems by simp
  show ?case
  proof (cases "unat sz \<le> unat (fst z) - unat (fst x) - unat (snd x)")
    case True
    then have "hole_search m sz (fst x) = Some (fst x)"
      using h by (subst hole_search.simps) (simp add: memp_next_def memp_len_def word_le_nat_alt)
    then show ?thesis using True by (intro disjI2 exI [of _ "[]"] exI [of _ x] exI [of _ "z # es"]) simp
  next
    case False
    have "unat (next_of es e) \<noteq> 0" using Cons.prems(3) by auto
    then have "m (fst z) \<noteq> 0" using Cons.prems(1) by auto
    then have s: "hole_search m sz (fst x) = hole_search m sz (fst z)"
      using h False Cons.prems(1) by (subst hole_search.simps) (simp add: memp_next_def memp_len_def word_le_nat_alt)
    have p: "place (unat sz) (x # z # es) e = map_option (\<lambda>(r, es'). (r, x # es')) (place (unat sz) (z # es) e)"
      using False by simp
    have "seg m (z # es) e" "laid_out (z # es) e" using Cons.prems by simp_all
    from Cons.IH [OF this(1) Cons.prems(2) this(2)] show ?thesis
    proof (elim disjE exE conjE)
      fix pre y post
      assume "z # es = pre @ y # post" "hole_search m sz (fst z) = Some (fst y)" "unat sz \<le> unat (next_of post e) - unat (fst y) - unat (snd y)"
        "place (unat sz) (z # es) e = Some (if snd y = 0 then (fst y + 8, pre @ (fst y, sz) # post) else (fst y + snd y + 8, pre @ y # (fst y + snd y, sz) # post))"
      then show ?thesis unfolding s p by (intro disjI2 exI [of _ "x # pre"] exI [of _ y] exI [of _ post]) simp
    next
      assume "place (unat sz) (z # es) e = None" "hole_search m sz (fst z) = Some 0"
      then show ?thesis unfolding s p by simp
    qed
  qed
qed

text \<open>The headers on both sides of an element.\<close>

lemma laid_out_split:
  assumes "laid_out (pre @ y # post) e"
  shows "\<And>x. x \<in> set pre \<Longrightarrow> unat (fst x) + 8 \<le> unat (fst y)" "\<And>x. x \<in> set post \<Longrightarrow> unat (next_of post e) \<le> unat (fst x)"
    "\<And>x. x \<in> set post \<Longrightarrow> unat (fst x) + 8 \<le> unat e" "unat (next_of post e) \<le> unat e" "unat (fst y) + max 8 (unat (snd y)) \<le> unat (next_of post e)"
proof -
  have a: "laid_out pre (fst y)" "laid_out post e" "unat (fst y) + max 8 (unat (snd y)) \<le> unat (next_of post e)"
    using assms by (simp_all add: laid_out_append)
  show "unat (fst x) + 8 \<le> unat (fst y)" if "x \<in> set pre" for x using laid_out_bounds [OF a(1) that] by (auto simp: max_def split: if_splits)
  show "unat (next_of post e) \<le> unat (fst x)" "unat (fst x) + 8 \<le> unat e" if "x \<in> set post" for x using laid_out_bounds [OF a(2) that] by (auto simp: max_def split: if_splits)
  show "unat (next_of post e) \<le> unat e" by (rule laid_out_le [OF a(2)])
  show "unat (fst y) + max 8 (unat (snd y)) \<le> unat (next_of post e)" by (rule a(3))
qed

lemma apart: "unat a \<noteq> unat b \<Longrightarrow> a \<noteq> (b :: u32)"
  by auto

lemma unat_plus4: "unat (p :: u32) + 8 \<le> unat (q :: u32) \<Longrightarrow> unat (p + 4) = unat p + 4"
  using unat_less_32 [of q] unat_add_small [of p 4] by simp

lemma pool_fill:
  assumes P: "pool_ok m pool (pre @ y # post) e" and n: "unat sz \<le> unat (next_of post e) - unat (fst y) - unat (snd y)"
    and l: "snd y = 0" and sz: "8 \<le> unat sz" "4 dvd unat sz"
  shows "pool_ok (m(fst y + 4 := sz)) pool (pre @ (fst y, sz) # post) e"
proof -
  have lo: "laid_out (pre @ y # post) e" and sg: "seg m (pre @ y # post) e" and m0: "m e = 0" using P by (simp_all add: pool_ok_def)
  note B = laid_out_split [OF lo]
  have y4: "unat (fst y + 4) = unat (fst y) + 4" using B(5) by (intro unat_plus4 [of _ "next_of post e"]) simp
  have pre: "fst y + 4 \<noteq> fst x \<and> fst y + 4 \<noteq> fst x + 4" if "x \<in> set pre" for x
    using B(1) [OF that] y4 unat_plus4 [OF B(1) [OF that]] by (intro conjI apart) simp_all
  have post: "fst y + 4 \<noteq> fst x \<and> fst y + 4 \<noteq> fst x + 4" if "x \<in> set post" for x
    using B(2,3) [OF that] B(5) y4 unat_plus4 [OF B(3) [OF that]] by (intro conjI apart) simp_all
  have e: "fst y + 4 \<noteq> e" "fst y + 4 \<noteq> fst y" using B(4,5) y4 by (intro apart; simp)+
  have "seg (m(fst y + 4 := sz)) (pre @ (fst y, sz) # post) e"
    using sg seg_upd [of pre "fst y + 4" m sz] seg_upd [of post "fst y + 4" m sz] pre post e by (simp add: seg_append)
  moreover have "laid_out (pre @ (fst y, sz) # post) e" using lo B(5) n l sz by (simp add: laid_out_append)
  ultimately show ?thesis using P e m0 l sz by (cases pre) (auto simp: pool_ok_def)
qed

lemma pool_insert:
  assumes P: "pool_ok m pool (pre @ y # post) e" and n: "unat sz \<le> unat (next_of post e) - unat (fst y) - unat (snd y)"
    and l: "8 \<le> unat (snd y)" and sz: "8 \<le> unat sz" "4 dvd unat sz"
  shows "pool_ok (m(fst y + snd y := next_of post e, fst y + snd y + 4 := sz, fst y := fst y + snd y)) pool
    (pre @ y # (fst y + snd y, sz) # post) e"
proof -
  let ?p = "fst y + snd y"
  let ?m = "m(?p := next_of post e, ?p + 4 := sz, fst y := ?p)"
  have lo: "laid_out (pre @ y # post) e" and sg: "seg m (pre @ y # post) e" and m0: "m e = 0" using P by (simp_all add: pool_ok_def)
  note B = laid_out_split [OF lo]
  have np: "unat (fst y) + unat (snd y) + unat sz \<le> unat (next_of post e)" using n B(5) sz by simp
  have p: "unat ?p = unat (fst y) + unat (snd y)" using np unat_less_32 [of "next_of post e"] by (intro unat_add_small) simp
  have p4: "unat (?p + 4) = unat ?p + 4" using np p sz by (intro unat_plus4 [of _ "next_of post e"]) simp
  have y4: "unat (fst y + 4) = unat (fst y) + 4" using B(5) by (intro unat_plus4 [of _ "next_of post e"]) simp
  have pre: "a \<noteq> fst x \<and> a \<noteq> fst x + 4" if "x \<in> set pre" "a \<in> {?p, ?p + 4, fst y}" for x a
    using B(1) [OF that(1)] p p4 unat_plus4 [OF B(1) [OF that(1)]] that(2) l by (intro conjI apart) auto
  have post: "a \<noteq> fst x \<and> a \<noteq> fst x + 4" if "x \<in> set post" "a \<in> {?p, ?p + 4, fst y}" for x a
    using B(2,3) [OF that(1)] np p p4 unat_plus4 [OF B(3) [OF that(1)]] that(2) sz l by (intro conjI apart) auto
  have e: "?p \<noteq> e" "?p + 4 \<noteq> e" "fst y \<noteq> e" "?p + 4 \<noteq> ?p" "fst y \<noteq> ?p" "fst y \<noteq> ?p + 4" "fst y + 4 \<noteq> ?p" "fst y + 4 \<noteq> ?p + 4" "fst y + 4 \<noteq> fst y"
    using B(4) np p p4 y4 sz l by (intro apart; simp)+
  have "seg ?m pre (fst y)" "seg ?m post e"
    using sg seg_upd [of pre _ _ _ "fst y"] seg_upd [of post] pre post by (simp_all add: seg_append)
  then have "seg ?m (pre @ y # (?p, sz) # post) e" using sg e by (simp add: seg_append)
  moreover have "laid_out (pre @ y # (?p, sz) # post) e" using lo B(5) np p l sz by (simp add: laid_out_append)
  moreover have "4 dvd unat ?p" using P unfolding p by (auto simp: pool_ok_def)
  moreover have "sz \<noteq> 0" using sz by auto
  moreover have "?m e = 0" using m0 e(1-3) by simp
  ultimately show ?thesis using P sz unfolding pool_ok_def by (cases pre) (simp_all only: append.simps list.sel list.set ball_simps ball_Un set_append fst_conv snd_conv list.distinct simp_thms, blast+)
qed

definition need :: "u32 \<Rightarrow> nat" where
  "need req = 4 * ((unat req + 11) div 4)"

lemma need_props: "unat req \<noteq> 0 \<Longrightarrow> unat req + 8 \<le> need req \<and> 12 \<le> need req \<and> 4 dvd need req"
  by (simp add: need_def) linarith

lemma rounded_need:
  assumes "unat req + 11 < 2 ^ 32"
  shows "unat ((req + sizeof_MEMP + 3) AND NOT 3) = need req"
proof -
  have "unat (req + sizeof_MEMP + 3) = unat req + 11"
    using assms unat_add_small [of req 8] unat_add_small [of "req + 8" 3] by (simp add: sizeof_MEMP_def)
  then show ?thesis by (simp only: unat_round4 need_def)
qed

definition header_words :: "(u32 \<times> u32) list \<Rightarrow> u32 set" where
  "header_words es = (\<Union>x\<in>set es. {fst x, fst x + 4})"

lemma alloc_mem_cases:
  assumes P: "pool_ok m pool es e" and q: "req \<noteq> 0" "unat req + 11 < 2 ^ 32"
  shows "place (need req) es e = None \<and> rt_alloc_mem pool req m = Some (0, m)
    \<or> (\<exists>pre y post sz m'. es = pre @ y # post \<and> rt_alloc_mem pool req m = Some (if snd y = 0 then fst y + 8 else fst y + snd y + 8, m')
      \<and> unat sz = need req \<and> need req \<le> unat (next_of post e) - unat (fst y) - unat (snd y) \<and> (snd y = 0 \<longrightarrow> pre = [])
      \<and> place (need req) es e = Some (if snd y = 0 then (fst y + 8, pre @ (fst y, sz) # post) else (fst y + snd y + 8, pre @ y # (fst y + snd y, sz) # post))
      \<and> pool_ok m' pool (if snd y = 0 then pre @ (fst y, sz) # post else pre @ y # (fst y + snd y, sz) # post) e
      \<and> (\<forall>a. m' a \<noteq> m a \<longrightarrow> a \<in> header_words (if snd y = 0 then pre @ (fst y, sz) # post else pre @ y # (fst y + snd y, sz) # post)))"
proof -
  define sz where "sz = (req + sizeof_MEMP + 3) AND NOT 3"
  have sz: "unat sz = need req" unfolding sz_def by (rule rounded_need [OF q(2)])
  have nr: "8 \<le> need req" "4 dvd need req" using need_props [of req] q(1) by (simp_all add: unat_eq_zero)
  obtain x xs where es: "es = x # xs" "fst x = pool" using P by (cases es) (auto simp: pool_ok_def)
  have pn: "pool \<noteq> 0" using P by (simp add: pool_ok_def)
  have al: "rt_alloc_mem pool req m = do { p_search \<leftarrow> hole_search m sz pool;
       Some (if p_search = 0 then (0, m)
         else if m (memp_len p_search) = 0 then (p_search + sizeof_MEMP, m(memp_len p_search := sz))
         else let p_new = p_search + m (memp_len p_search)
              in (p_new + sizeof_MEMP, m(memp_next p_new := m (memp_next p_search), memp_len p_new := sz, memp_next p_search := p_new))) }"
    by (simp only: rt_alloc_mem_def sz_def Let_def pn q(1) simp_thms if_False)
  have s: "seg m (x # xs) e" "m e = 0" "laid_out (x # xs) e" using P es by (simp_all add: pool_ok_def)
  from hole_search_ok [OF s, of sz] show ?thesis
  proof (elim disjE exE conjE)
    assume "place (unat sz) (x # xs) e = None" "hole_search m sz (fst x) = Some 0"
    then show ?thesis unfolding al using es sz by simp
  next
    fix pre y post
    assume d: "x # xs = pre @ y # post" and h: "hole_search m sz (fst x) = Some (fst y)"
      and n: "unat sz \<le> unat (next_of post e) - unat (fst y) - unat (snd y)"
      and pl: "place (unat sz) (x # xs) e = Some (if snd y = 0 then (fst y + 8, pre @ (fst y, sz) # post) else (fst y + snd y + 8, pre @ y # (fst y + snd y, sz) # post))"
    have P': "pool_ok m pool (pre @ y # post) e" using P es d by simp
    have sy: "m (fst y) = next_of post e" "m (fst y + 4) = snd y" using s(1) unfolding d by (simp_all add: seg_append)
    have "y \<in> set (x # xs)" unfolding d by simp
    then have "unat pool \<le> unat (fst y)" using laid_out_bounds [OF s(3)] es(2) by auto
    moreover have "unat pool \<noteq> 0" using pn by (simp add: unat_eq_zero)
    ultimately have yn: "fst y \<noteq> 0" by (auto simp: unat_eq_zero)
    show ?thesis
    proof (cases "snd y = 0")
      case True
      have "pre = []"
      proof (rule ccontr)
        assume "pre \<noteq> []"
        then have "y \<in> set (tl es)" using d es by (cases pre) auto
        then show False using P True by (simp add: pool_ok_def)
      qed
      moreover have "rt_alloc_mem pool req m = Some (fst y + 8, m(fst y + 4 := sz))"
        unfolding al using h es yn sy True by (simp add: memp_len_def sizeof_MEMP_def)
      moreover have "pool_ok (m(fst y + 4 := sz)) pool (pre @ (fst y, sz) # post) e"
        by (rule pool_fill [OF P' n True]) (use sz nr in simp_all)
      moreover have "\<forall>a. (m(fst y + 4 := sz)) a \<noteq> m a \<longrightarrow> a \<in> header_words (pre @ (fst y, sz) # post)" by (simp add: header_words_def)
      ultimately show ?thesis using True n sz pl es d
        by (intro disjI2 exI [of _ pre] exI [of _ y] exI [of _ post] exI [of _ sz] exI [of _ "m(fst y + 4 := sz)"]) simp
    next
      case False
      let ?m = "m(fst y + snd y := next_of post e, fst y + snd y + 4 := sz, fst y := fst y + snd y)"
      have l: "8 \<le> unat (snd y)" using P' False by (auto simp: pool_ok_def)
      have "rt_alloc_mem pool req m = Some (fst y + snd y + 8, ?m)"
        unfolding al using h es yn sy False by (simp add: memp_len_def memp_next_def sizeof_MEMP_def Let_def)
      moreover have "pool_ok ?m pool (pre @ y # (fst y + snd y, sz) # post) e"
        by (rule pool_insert [OF P' n l]) (use sz nr in simp_all)
      moreover have "\<forall>a. ?m a \<noteq> m a \<longrightarrow> a \<in> header_words (pre @ y # (fst y + snd y, sz) # post)" by (simp add: header_words_def)
      ultimately show ?thesis using False n sz pl es d
        by (intro disjI2 exI [of _ pre] exI [of _ y] exI [of _ post] exI [of _ sz] exI [of _ ?m]) simp
    qed
  qed
qed

section \<open>Release\<close>

lemma mem_search_ok:
  assumes "seg m (x # es) e" "m e = 0" "laid_out (x # es) e" "q \<noteq> e" "fst x \<noteq> 0"
  shows "(q \<notin> fst ` set (x # es) \<and> (\<exists>r. mem_search m q pv (fst x) = Some (r, 0)))
    \<or> (\<exists>pre y post. x # es = pre @ y # post \<and> fst y = q \<and> mem_search m q pv (fst x) = Some (if pre = [] then pv else fst (last pre), q))"
  using assms
proof (induction es arbitrary: x pv)
  case (Nil x)
  show ?case
  proof (cases "fst x = q")
    case True
    then have "mem_search m q pv (fst x) = Some (pv, q)" by (subst mem_search.simps) simp
    then show ?thesis using True by (intro disjI2 exI [of _ "[]"] exI [of _ x] exI [of _ "[]"]) simp
  next
    case False
    have "e \<noteq> 0" using Nil.prems(3) by auto
    have "mem_search m q (fst x) e = Some (e, 0)" using Nil.prems(2,4) by (subst mem_search.simps) (simp add: memp_next_def)
    then have "mem_search m q pv (fst x) = Some (e, 0)"
      using False Nil.prems(1) \<open>e \<noteq> 0\<close> by (subst mem_search.simps) (simp add: memp_next_def)
    then show ?thesis using False by simp
  qed
next
  case (Cons z es x)
  show ?case
  proof (cases "fst x = q")
    case True
    then have "mem_search m q pv (fst x) = Some (pv, q)" by (subst mem_search.simps) simp
    then show ?thesis using True by (intro disjI2 exI [of _ "[]"] exI [of _ x] exI [of _ "z # es"]) simp
  next
    case False
    have z: "fst z \<noteq> 0" using Cons.prems(3) by auto
    have s: "mem_search m q pv (fst x) = mem_search m q (fst x) (fst z)"
      using False Cons.prems(1) z by (subst mem_search.simps) (simp add: memp_next_def)
    have "seg m (z # es) e" "laid_out (z # es) e" using Cons.prems by simp_all
    from Cons.IH [OF this(1) Cons.prems(2) this(2) Cons.prems(4) z, of "fst x"] show ?thesis
    proof (elim disjE exE conjE)
      fix pre y post
      assume "z # es = pre @ y # post" "fst y = q" "mem_search m q (fst x) (fst z) = Some (if pre = [] then fst x else fst (last pre), q)"
      then show ?thesis unfolding s by (intro disjI2 exI [of _ "x # pre"] exI [of _ y] exI [of _ post]) simp
    next
      fix r assume "q \<notin> fst ` set (z # es)" "mem_search m q (fst x) (fst z) = Some (r, 0)"
      then show ?thesis unfolding s using False by auto
    qed
  qed
qed

lemma free_mem_ok:
  assumes P: "pool_ok m pool (pre @ y # post) e"
  shows "\<exists>m'. rt_free_mem pool (fst y + 8) m = Some (0, m') \<and> pool_ok m' pool (if pre = [] then (fst y, 0) # post else pre @ post) e
    \<and> (\<forall>a. m' a \<noteq> m a \<longrightarrow> a \<in> header_words (pre @ y # post))"
proof -
  have s: "seg m (pre @ y # post) e" "m e = 0" "laid_out (pre @ y # post) e" "pool \<noteq> 0" using P by (simp_all add: pool_ok_def)
  note B = laid_out_split [OF s(3)]
  obtain x xs where es: "pre @ y # post = x # xs" "fst x = pool" using P by (cases "pre @ y # post") (auto simp: pool_ok_def)
  have nx: "next_of (pre @ y # post) e = pool" using es by simp
  note low = laid_out_bounds [OF s(3), unfolded nx]
  have y8: "unat (fst y + 8) = unat (fst y) + 8"
    using B(5) unat_less_32 [of "next_of post e"] unat_add_small [of "fst y" 8] by simp
  then have yz: "fst y + 8 \<noteq> 0" by auto
  have ye: "fst y \<noteq> e" using B(4,5) by auto
  have sg: "seg m (x # xs) e" "laid_out (x # xs) e" "fst x \<noteq> 0" using s es by simp_all
  have fr: "rt_free_mem pool (fst y + 8) m = do { (p_prev, p_search) \<leftarrow> mem_search m (fst y) 0 pool;
       Some (if p_search = 0 then (1, m) else if p_prev = 0 then (0, m(memp_len p_search := 0)) else (0, m(memp_next p_prev := m (memp_next p_search)))) }"
    using s(4) yz by (simp add: rt_free_mem_def sizeof_MEMP_def)
  have y0: "fst y \<noteq> 0"
  proof -
    have "unat pool \<le> unat (fst y)" using low [of y] by simp
    moreover have "unat pool \<noteq> 0" using s(4) by (simp add: unat_eq_zero)
    ultimately show ?thesis by (auto simp: unat_eq_zero)
  qed
  have "fst y \<in> fst ` set (x # xs)" using es(1) [symmetric] by auto
  with mem_search_ok [OF sg(1) s(2) sg(2) ye sg(3), of 0] obtain pre' y' post' where d: "x # xs = pre' @ y' # post'" "fst y' = fst y"
    and ms: "mem_search m (fst y) 0 pool = Some (if pre' = [] then 0 else fst (last pre'), fst y)" using es(2) by blast
  have nin: "fst y \<notin> fst ` set pre"
  proof
    assume "fst y \<in> fst ` set pre"
    then obtain w where "w \<in> set pre" "fst w = fst y" by auto
    then show False using B(1) by fastforce
  qed
  have lo': "laid_out (pre' @ y' # post') e" using s(3) es(1) d(1) by simp
  have nin': "fst y \<notin> fst ` set pre'"
  proof
    assume "fst y \<in> fst ` set pre'"
    then obtain w where "w \<in> set pre'" "fst w = fst y" by auto
    then show False using laid_out_split(1) [OF lo'] d(2) by fastforce
  qed
  have "map fst pre @ fst y # map fst post = map fst pre' @ fst y # map fst post'" using es(1) d by (metis list.simps(9) map_append)
  then have "takeWhile (\<lambda>v. v \<noteq> fst y) (map fst pre @ fst y # map fst post) = takeWhile (\<lambda>v. v \<noteq> fst y) (map fst pre' @ fst y # map fst post')"
    by simp
  moreover have "\<forall>v\<in>set (map fst pre). v \<noteq> fst y" "\<forall>v\<in>set (map fst pre'). v \<noteq> fst y" using nin nin' by (auto simp: image_iff)
  ultimately have "map fst pre = map fst pre'" by (simp add: takeWhile_append)
  then have pre': "pre' = pre" using es(1) d(1) by (metis append_eq_append_conv length_map)
  show ?thesis
  proof (cases pre rule: rev_cases)
    case Nil
    have y4: "unat (fst y + 4) = unat (fst y) + 4" using B(5) by (intro unat_plus4 [of _ "next_of post e"]) simp
    have post: "fst y + 4 \<noteq> fst x \<and> fst y + 4 \<noteq> fst x + 4" if "x \<in> set post" for x
      using B(2,3) [OF that] B(5) y4 unat_plus4 [OF B(3) [OF that]] by (intro conjI apart) simp_all
    have e: "fst y + 4 \<noteq> e" "fst y + 4 \<noteq> fst y" using B(4,5) y4 by (intro apart; simp)+
    have "rt_free_mem pool (fst y + 8) m = Some (0, m(fst y + 4 := 0))" unfolding fr ms pre' using Nil y0 by (simp add: memp_len_def)
    moreover have "pool_ok (m(fst y + 4 := 0)) pool ((fst y, 0) # post) e"
      using P Nil seg_upd [of post "fst y + 4" m 0 e] post e B(5) by (auto simp: pool_ok_def)
    moreover have "\<forall>a. (m(fst y + 4 := 0)) a \<noteq> m a \<longrightarrow> a \<in> header_words (pre @ y # post)" by (simp add: header_words_def)
    ultimately show ?thesis using Nil by (intro exI [of _ "m(fst y + 4 := 0)"]) simp
  next
    case (snoc ps z)
    have zin: "z \<in> set pre" using snoc by simp
    have zb: "unat (fst z) + 8 \<le> unat (fst y)" by (rule B(1) [OF zin])
    have lz: "laid_out (ps @ z # y # post) e" using s(3) snoc by simp
    note Z = laid_out_split [OF lz]
    have z0: "fst z \<noteq> 0"
    proof -
      have "unat pool \<le> unat (fst z)" using low [of z] zin by simp
      moreover have "unat pool \<noteq> 0" using s(4) by (simp add: unat_eq_zero)
      ultimately show ?thesis by (auto simp: unat_eq_zero)
    qed
    let ?m = "m(fst z := next_of post e)"
    have my: "m (fst y) = next_of post e" using s(1) by (simp add: seg_append)
    have ze: "fst z \<noteq> e" "fst z \<noteq> fst z + 4" using zb B(4,5) unat_plus4 [OF zb] by (intro apart; simp)+
    have pz: "fst z \<noteq> fst x \<and> fst z \<noteq> fst x + 4" if "x \<in> set ps" for x
      using Z(1) [OF that] unat_plus4 [OF Z(1) [OF that]] by (intro conjI apart) simp_all
    have qz: "fst z \<noteq> fst x \<and> fst z \<noteq> fst x + 4" if "x \<in> set post" for x
      using B(2,3) [OF that] B(5) zb unat_plus4 [OF B(3) [OF that]] by (intro conjI apart) simp_all
    have "seg ?m (ps @ z # post) e"
      using s(1) snoc seg_upd [of ps "fst z" m] seg_upd [of post "fst z" m] pz qz ze by (simp add: seg_append next_of_append)
    moreover have "laid_out (ps @ z # post) e" using lz B(5) by (simp add: laid_out_append)
    ultimately have "pool_ok ?m pool (ps @ z # post) e" using P snoc ze by (cases ps) (auto simp: pool_ok_def)
    moreover have "rt_free_mem pool (fst y + 8) m = Some (0, ?m)" unfolding fr ms pre' using snoc z0 y0 my by (simp add: memp_next_def)
    moreover have "\<forall>a. ?m a \<noteq> m a \<longrightarrow> a \<in> header_words (pre @ y # post)" using snoc by (simp add: header_words_def)
    ultimately show ?thesis using snoc by (intro exI [of _ ?m]) simp
  qed
qed

section \<open>What an allocation hands out\<close>

text \<open>The block of an element reaches from behind its header to its end; an element of length 0 has none.\<close>

definition block_of :: "u32 \<times> u32 \<Rightarrow> nat set" where
  "block_of x = (if snd x = 0 then {} else {unat (fst x) ..< unat (fst x) + unat (snd x)})"

lemma laid_out_block_of: "laid_out es e \<Longrightarrow> x \<in> set es \<Longrightarrow> block_of x \<subseteq> {unat (next_of es e) ..< unat e}"
  using laid_out_bounds [of es e x] by (auto simp: block_of_def)

lemma place_fresh:
  assumes "laid_out es e" "place n es e = Some (r, es')" "8 \<le> n"
  shows "unat (next_of es e) + 8 \<le> unat r \<and> unat r + n \<le> unat e + 8 \<and> (\<forall>x\<in>set es. block_of x \<inter> {unat r - 8 ..< unat r - 8 + n} = {})"
  using assms
proof (induction es arbitrary: r es')
  case (Cons x es)
  have lo: "laid_out es e" and b: "unat (fst x) + max 8 (unat (snd x)) \<le> unat (next_of es e)" using Cons.prems(1) by simp_all
  have le: "unat (next_of es e) \<le> unat e" by (rule laid_out_le [OF lo])
  show ?case
  proof (cases "n \<le> unat (next_of es e) - unat (fst x) - unat (snd x)")
    case True
    let ?p = "fst x + snd x"
    have r: "r = ?p + 8" using Cons.prems(2) True by (simp split: if_splits)
    have "unat ?p = unat (fst x) + unat (snd x)" using True Cons.prems(3) unat_less_32 [of "next_of es e"] by (intro unat_add_small) simp
    moreover from this have "unat (?p + 8) = unat ?p + 8" using True Cons.prems(3) unat_less_32 [of "next_of es e"] unat_add_small [of ?p 8] by simp
    ultimately have ur: "unat r = unat (fst x) + unat (snd x) + 8" unfolding r by simp
    moreover have "block_of y \<inter> {unat r - 8 ..< unat r - 8 + n} = {}" if "y \<in> set es" for y
    proof -
      have "block_of y \<subseteq> {unat (next_of es e) ..< unat e}" by (rule laid_out_block_of [OF lo that])
      moreover have "unat r - 8 + n \<le> unat (next_of es e)" using True Cons.prems(3) ur by simp
      ultimately show ?thesis by (auto simp: set_eq_iff subset_iff)
    qed
    moreover have "block_of x \<inter> {unat r - 8 ..< unat r - 8 + n} = {}" using ur by (auto simp: block_of_def)
    ultimately show ?thesis using True Cons.prems(3) le by auto
  next
    case False
    then obtain es1 where pl: "place n es e = Some (r, es1)" using Cons.prems(2) by (auto split: option.splits)
    have ih: "unat (next_of es e) + 8 \<le> unat r \<and> unat r + n \<le> unat e + 8 \<and> (\<forall>x\<in>set es. block_of x \<inter> {unat r - 8 ..< unat r - 8 + n} = {})"
      by (rule Cons.IH [OF lo pl Cons.prems(3)])
    have "block_of x \<subseteq> {unat (fst x) ..< unat (next_of es e)}" using b by (auto simp: block_of_def)
    then have "block_of x \<inter> {unat r - 8 ..< unat r - 8 + n} = {}" using ih by (auto simp: set_eq_iff subset_iff)
    moreover have "unat (fst x) \<le> unat (next_of es e)" using b by simp
    then have "unat (next_of (x # es) e) + 8 \<le> unat r" using ih by simp
    ultimately show ?thesis using ih unfolding list.set ball_simps by blast
  qed
qed simp

lemma init_mem_ok:
  assumes "pool \<noteq> 0" "12 \<le> unat sz" "unat pool + unat sz < 2 ^ 32" "4 dvd unat pool" "4 dvd unat sz"
  shows "\<exists>m'. rt_init_mem pool sz m = (0, m') \<and> pool_ok m' pool [(pool, 0)] (pool + sz - 4)"
proof -
  let ?e = "pool + sz - 4"
  have ps: "unat (pool + sz) = unat pool + unat sz" using assms(3) by (rule unat_add_small)
  have e: "unat ?e = unat pool + unat sz - 4" using ps assms(2) unat_diff_le [of 4 "pool + sz"] by simp
  have p4: "unat (pool + 4) = unat pool + 4" using assms(2) ps by (intro unat_plus4 [of _ "pool + sz"]) simp
  have ne: "?e \<noteq> pool" "?e \<noteq> pool + 4" "pool \<noteq> pool + 4" using e p4 assms(2) by (intro apart; simp)+
  have "4 dvd unat pool + unat sz - 4" using assms(4,5) by (intro dvd_diff_nat dvd_add) simp_all
  moreover have "rt_init_mem pool sz m = (0, m(pool := ?e, ?e := 0, pool + 4 := 0))"
    using assms(1,2) by (simp add: rt_init_mem_def Let_def memp_next_def memp_len_def sizeof_MEMP_def word_less_nat_alt)
  ultimately show ?thesis using assms(1,2,4) ne e by (intro exI [of _ "m(pool := ?e, ?e := 0, pool + 4 := 0)"]) (auto simp: pool_ok_def)
qed

section \<open>Memory boxes\<close>

text \<open>The free blocks of a box, in the order in which they will be handed out.\<close>

fun free_list :: "memory \<Rightarrow> u32 \<Rightarrow> u32 list \<Rightarrow> bool" where
  "free_list m p [] = (p = 0)"
| "free_list m p (x # xs) = (p = x \<and> x \<noteq> 0 \<and> free_list m (m x) xs)"

definition box_ok :: "memory \<Rightarrow> u32 \<Rightarrow> u32 list \<Rightarrow> bool" where
  "box_ok m box xs \<longleftrightarrow> free_list m (m (bm_free box)) xs \<and> distinct xs \<and> (\<forall>x\<in>set xs. box < x \<and> x < m (bm_end box) \<and> x \<noteq> bm_end box)"

lemma free_list_upd: "a \<notin> set xs \<Longrightarrow> free_list (m(a := v)) p xs = free_list m p xs"
  by (induction xs arbitrary: p) auto

lemma alloc_box_ok:
  assumes "box_ok m box xs" "box \<noteq> bm_end box"
  shows "case xs of [] \<Rightarrow> rt_alloc_box box m = (0, m) | x # ys \<Rightarrow> \<exists>m'. rt_alloc_box box m = (x, m') \<and> box_ok m' box ys \<and> m' (bm_end box) = m (bm_end box)"
proof (cases xs)
  case Nil
  then show ?thesis using assms by (simp add: box_ok_def rt_alloc_box_def)
next
  case (Cons x ys)
  let ?m = "m(bm_free box := m x)"
  have "bm_free box \<notin> set ys" "box \<noteq> x" using assms(1) Cons by (auto simp: box_ok_def bm_free_def)
  then have "box_ok ?m box ys" using assms Cons by (auto simp: box_ok_def free_list_upd bm_free_def)
  moreover have "rt_alloc_box box m = (x, ?m)" using assms(1) Cons by (simp add: box_ok_def rt_alloc_box_def)
  ultimately show ?thesis using Cons assms(2) by (simp add: bm_free_def)
qed

lemma free_box_ok:
  assumes "box_ok m box xs" "box \<noteq> bm_end box" "x \<notin> set xs" "box < x" "x < m (bm_end box)" "x \<noteq> bm_end box"
  shows "\<exists>m'. rt_free_box box x m = (0, m') \<and> box_ok m' box (x # xs) \<and> m' (bm_end box) = m (bm_end box)"
proof -
  let ?m = "m(x := m (bm_free box), bm_free box := x)"
  have n: "bm_free box \<notin> set xs" "bm_free box \<noteq> x" "x \<noteq> 0" using assms by (auto simp: box_ok_def bm_free_def)
  then have "free_list ?m (m (bm_free box)) xs" using assms(1,3) by (simp add: box_ok_def free_list_upd)
  then have "box_ok ?m box (x # xs)" using assms n by (auto simp: box_ok_def bm_free_def)
  moreover have "rt_free_box box x m = (0, ?m)" using assms(4,5) by (simp add: rt_free_box_def not_le order.strict_implies_order)
  ultimately show ?thesis using assms(2,6) by (simp add: bm_free_def)
qed

text \<open>The blocks behind the header, one after the other.\<close>

lemma link_blocks_ok:
  assumes "unat blk + n * unat bs = unat last_blk" "0 < unat bs" "unat last_blk + unat bs < 2 ^ 32" "blk \<noteq> 0"
  shows "\<exists>m'. link_blocks m blk last_blk bs = Some m' \<and> free_list m' blk (map (\<lambda>i. of_nat (unat blk + i * unat bs)) [0..<Suc n])
    \<and> (\<forall>a. unat a < unat blk \<longrightarrow> m' a = m a)"
  using assms
proof (induction n arbitrary: blk m)
  case 0
  then have "unat (blk + bs) = unat blk + unat bs" by (intro unat_add_small) simp
  then have "last_blk < blk + bs" using 0 by (simp add: word_less_nat_alt)
  then have "link_blocks m blk last_blk bs = Some (m(blk := 0))" by (subst link_blocks.simps) (simp add: Let_def)
  then show ?case using 0(4) by auto
next
  case (Suc n)
  have nb: "unat (blk + bs) = unat blk + unat bs" using Suc.prems by (intro unat_add_small) simp
  then have nl: "\<not> last_blk < blk + bs" using Suc.prems(1) by (simp add: word_less_nat_alt)
  have "unat (blk + bs) + n * unat bs = unat last_blk" using Suc.prems(1) nb by simp
  moreover have "blk + bs \<noteq> 0" using nb Suc.prems(2) by auto
  ultimately obtain m' where m': "link_blocks (m(blk := blk + bs)) (blk + bs) last_blk bs = Some m'"
    "free_list m' (blk + bs) (map (\<lambda>i. of_nat (unat (blk + bs) + i * unat bs)) [0..<Suc n])"
    "\<forall>a. unat a < unat (blk + bs) \<longrightarrow> m' a = (m(blk := blk + bs)) a"
    using Suc.IH [of "blk + bs" "m(blk := blk + bs)"] Suc.prems(2,3) by blast
  have l: "link_blocks m blk last_blk bs = Some m'" using m'(1) nl by (subst link_blocks.simps) (simp add: Let_def)
  have mb: "m' blk = blk + bs" using m'(3) nb Suc.prems(2) by simp
  have mp: "map (\<lambda>i. of_nat (unat blk + i * unat bs)) [0..<Suc (Suc n)]
      = (blk :: u32) # map (\<lambda>i. of_nat (unat (blk + bs) + i * unat bs)) [0..<Suc n]"
    unfolding upt_conv_Cons [OF zero_less_Suc] map_Suc_upt [symmetric] nb by (simp add: algebra_simps)
  have "free_list m' blk (map (\<lambda>i. of_nat (unat blk + i * unat bs)) [0..<Suc (Suc n)])"
    unfolding mp free_list.simps mb using m'(2) Suc.prems(4) by simp
  moreover have "m' a = m a" if "unat a < unat blk" for a using m'(3) that nb by auto
  ultimately show ?case using l by blast
qed

lemma free_mem_unknown:
  assumes P: "pool_ok m pool es e" and q: "q \<notin> fst ` set es" "q \<noteq> e" "q + 8 \<noteq> 0"
  shows "rt_free_mem pool (q + 8) m = Some (1, m)"
proof -
  obtain x xs where es: "es = x # xs" "fst x = pool" using P by (cases es) (auto simp: pool_ok_def)
  have s: "seg m (x # xs) e" "m e = 0" "laid_out (x # xs) e" "fst x \<noteq> 0" using P es by (simp_all add: pool_ok_def)
  from mem_search_ok [OF s(1,2,3) q(2) s(4), of 0] obtain r where "mem_search m q 0 pool = Some (r, 0)"
    using q(1) es by fastforce
  then show ?thesis using q(3) s(4) es(2) by (simp add: rt_free_mem_def sizeof_MEMP_def)
qed

text \<open>The allocator only ever writes headers, and the elements before and after a call fit the abstract first fit.\<close>

lemma alloc_mem_place:
  assumes "pool_ok m pool es e" "req \<noteq> 0" "unat req + 11 < 2 ^ 32"
  shows "case place (need req) es e of None \<Rightarrow> rt_alloc_mem pool req m = Some (0, m)
    | Some (r, es') \<Rightarrow> (\<exists>m'. rt_alloc_mem pool req m = Some (r, m') \<and> pool_ok m' pool es' e \<and> (\<forall>a. m' a \<noteq> m a \<longrightarrow> a \<in> header_words es'))"
  using alloc_mem_cases [OF assms] by (elim disjE exE conjE) (auto split: if_splits)

lemma alloc_mem_free_mem:
  assumes P: "pool_ok m pool es e" and q: "req \<noteq> 0" "unat req + 11 < 2 ^ 32" and al: "rt_alloc_mem pool req m = Some (p, m1)" "p \<noteq> 0"
  shows "\<exists>m2. rt_free_mem pool p m1 = Some (0, m2) \<and> pool_ok m2 pool es e"
  using alloc_mem_cases [OF P q]
proof (elim disjE exE conjE)
  fix pre y post sz m'
  assume d: "es = pre @ y # post" "rt_alloc_mem pool req m = Some (if snd y = 0 then fst y + 8 else fst y + snd y + 8, m')"
    "snd y = 0 \<longrightarrow> pre = []" "pool_ok m' pool (if snd y = 0 then pre @ (fst y, sz) # post else pre @ y # (fst y + snd y, sz) # post) e"
  show ?thesis
  proof (cases "snd y = 0")
    case True
    then have "pool_ok m1 pool ([] @ (fst y, sz) # post) e" "p = fst y + 8" using al d by simp_all
    then show ?thesis using free_mem_ok [of m1 pool "[]" "(fst y, sz)" post e] d True by (cases y) auto
  next
    case False
    then have "pool_ok m1 pool ((pre @ [y]) @ (fst y + snd y, sz) # post) e" "p = fst y + snd y + 8" using al d by simp_all
    then show ?thesis using free_mem_ok [of m1 pool "pre @ [y]" "(fst y + snd y, sz)" post e] d by auto
  qed
qed (use al in simp)

lemma mod_nat_wrap: "2 ^ 32 \<le> n \<Longrightarrow> n < 2 ^ 33 \<Longrightarrow> n mod 2 ^ 32 = n - (2 ^ 32 :: nat)"
  using le_mod_geq [of "2 ^ 32" n] mod_less [of "n - 2 ^ 32" "2 ^ 32"] by simp

lemma alloc_mem_wraps:
  assumes P: "pool_ok m pool ((pool, 0) # es) e" and q: "0xFFFFFFF5 \<le> req" "req \<le> 0xFFFFFFF8"
  shows "rt_alloc_mem pool req m = Some (pool + 8, m)"
proof -
  have r: "4294967285 \<le> unat req" "unat req \<le> 4294967288" using q by (simp_all add: word_le_nat_alt)
  have "req + sizeof_MEMP + 3 = req + 11" by (simp add: sizeof_MEMP_def)
  moreover have "unat (req + 11) = (unat req + 11) mod 2 ^ 32" using unat_word_ariths(1) [of req 11] by simp
  ultimately have "unat (req + sizeof_MEMP + 3) = (unat req + 11) mod 2 ^ 32" by (simp only:)
  also have "\<dots> = unat req + 11 - 2 ^ 32" using r mod_nat_wrap [of "unat req + 11"] by simp
  finally have "unat ((req + sizeof_MEMP + 3) AND NOT 3) = 0" using r unfolding unat_round4 by simp
  then have z: "(req + sizeof_MEMP + 3) AND NOT 3 = 0" by (simp only: unat_eq_zero)
  have "hole_search m 0 pool = Some pool" by (subst hole_search.simps) simp
  moreover have "m (pool + 4) = 0" "pool \<noteq> 0" "req \<noteq> 0" using P q by (auto simp: pool_ok_def)
  ultimately show ?thesis unfolding rt_alloc_mem_def Let_def z by (simp add: memp_len_def sizeof_MEMP_def fun_upd_idem)
qed

lemma no_align_bit: "unat bs < 2 ^ 31 \<Longrightarrow> bs AND BOX_ALIGN_8 = 0"
proof (rule bit_word_eqI)
  fix n assume b: "unat bs < 2 ^ 31"
  have a: "BOX_ALIGN_8 = push_bit 31 1" by (simp add: BOX_ALIGN_8_def)
  have "\<not> bit bs 31" using b by (auto simp: bit_iff_odd_drop_bit drop_bit_eq_div word_arith_nat_div)
  then show "bit (bs AND BOX_ALIGN_8) n = bit 0 n" by (auto simp only: a bit_and_iff bit_push_bit_iff bit_1_iff bit_0_eq bot_fun_def bot_bool_def dest: le_antisym)
qed

lemma aligned_size: "4 dvd unat bs \<Longrightarrow> unat bs + 3 < 2 ^ 32 \<Longrightarrow> (bs + 3) AND NOT 3 = (bs :: u32)"
proof -
  assume a: "4 dvd unat bs" "unat bs + 3 < 2 ^ 32"
  have "unat (bs + 3) = unat bs + 3" using a(2) unat_add_small [of bs 3] by simp
  then have "unat ((bs + 3) AND NOT 3) = unat bs" using a(1) unfolding unat_round4 by auto
  then show ?thesis by (rule unsigned_word_eqI)
qed

lemma init_box_ok:
  assumes b: "box \<noteq> 0" "unat box + unat sz < 2 ^ 32" and bs: "4 dvd unat bs" "0 < unat bs" "unat bs < 2 ^ 31" and sz: "unat sz = 12 + Suc n * unat bs"
  shows "\<exists>m'. init_box box sz bs m = Some (0, m') \<and> box_ok m' box (map (\<lambda>i. of_nat (unat box + 12 + i * unat bs)) [0..<Suc n])
    \<and> m' (bm_end box) = box + sz \<and> m' (bm_blk_size box) = bs"
proof -
  let ?m = "m(bm_free box := box + 12, bm_end box := box + sz, bm_blk_size box := bs)"
  let ?xs = "map (\<lambda>i. of_nat (unat box + 12 + i * unat bs)) [0..<Suc n] :: u32 list"
  have bz: "unat (box + sz) = unat box + unat sz" using b(2) by (rule unat_add_small)
  have off: "unat (box + 12) = unat box + 12" "unat (box + 4) = unat box + 4" "unat (box + 8) = unat box + 8"
    using b(2) sz unat_add_small [of box 12] unat_add_small [of box 4] unat_add_small [of box 8] by simp_all
  have last: "unat (box + sz - bs) = unat box + 12 + n * unat bs" using bz sz unat_diff_le [of bs "box + sz"] by simp
  have big: "unat (box + 12) + n * unat bs = unat (box + sz - bs)" "unat (box + sz - bs) + unat bs < 2 ^ 32" "box + 12 \<noteq> 0"
    using off last b(2) sz by (auto simp flip: unat_eq_zero)
  from link_blocks_ok [OF big(1) bs(2) big(2,3), of ?m] obtain m' where m': "link_blocks ?m (box + 12) (box + sz - bs) bs = Some m'"
    "free_list m' (box + 12) ?xs" "\<forall>a. unat a < unat (box + 12) \<longrightarrow> m' a = ?m a" unfolding off by auto
  have ne: "box \<noteq> box + 4" "box \<noteq> box + 8" "box + 4 \<noteq> box + 8" using off by (intro apart; simp)+
  have hd: "m' (bm_free box) = box + 12" "m' (bm_end box) = box + sz" "m' (bm_blk_size box) = bs"
    using m'(3) off ne by (simp_all add: bm_free_def bm_end_def bm_blk_size_def)
  have un: "unat (of_nat (unat box + 12 + i * unat bs) :: u32) = unat box + 12 + i * unat bs" if "i < Suc n" for i
  proof -
    have "i * unat bs \<le> n * unat bs" using that by simp
    then have "unat box + 12 + i * unat bs < 2 ^ 32" using b(2) sz unfolding mult_Suc by linarith
    then show ?thesis by (intro unat_of_nat_len) simp
  qed
  have "distinct ?xs"
    unfolding distinct_map
  proof (intro conjI inj_onI)
    fix i j assume ij: "i \<in> set [0..<Suc n]" "j \<in> set [0..<Suc n]" "(of_nat (unat box + 12 + i * unat bs) :: u32) = of_nat (unat box + 12 + j * unat bs)"
    then have "unat box + 12 + i * unat bs = unat box + 12 + j * unat bs" using un [of i] un [of j] by (metis atLeastLessThan_iff set_upt)
    then show "i = j" using bs(2) by simp
  qed simp
  moreover have "box < x \<and> x < box + sz \<and> x \<noteq> bm_end box" if x: "x \<in> set ?xs" for x
  proof -
    obtain i where i: "i < Suc n" "x = of_nat (unat box + 12 + i * unat bs)" using x by (auto simp del: upt_Suc of_nat_add of_nat_mult)
    have "i * unat bs \<le> n * unat bs" using i(1) by simp
    then have "unat x < unat (box + sz) \<and> unat box + 12 \<le> unat x"
      unfolding i(2) un [OF i(1)] using bz sz bs(2) unfolding mult_Suc by linarith
    then show ?thesis using off by (auto simp: word_less_nat_alt bm_end_def)
  qed
  ultimately have "box_ok m' box ?xs" using m'(2) hd by (simp add: box_ok_def del: upt_Suc)
  moreover have "init_box box sz bs m = Some (0, m')"
  proof -
    have "\<not> sz < bs + 12"
      using sz unat_diff_le [of bs sz] unat_add_small [of bs 12] b(2) by (simp add: word_less_nat_alt)
    moreover have "bs \<noteq> 0" using bs(2) by auto
    moreover have "(bs + 3) AND NOT 3 = bs" using bs by (intro aligned_size) simp_all
    ultimately show ?thesis using m'(1) no_align_bit [OF bs(3)] by (simp only: init_box_def sizeof_OS_BM_def Let_def simp_thms if_False prod.case bind.simps if_True)
  qed
  ultimately show ?thesis using hd by blast
qed

section \<open>The blocks of a box, one after the other\<close>

text \<open>A number of allocations in a row.\<close>

fun alloc_boxes :: "nat \<Rightarrow> u32 \<Rightarrow> memory \<Rightarrow> u32 list \<times> memory" where
  "alloc_boxes 0 box m = ([], m)"
| "alloc_boxes (Suc n) box m = (let (x, m) = rt_alloc_box box m; (xs, m) = alloc_boxes n box m in (x # xs, m))"

lemma bm_end_apart [simp]: "box \<noteq> bm_end box" "bm_end box \<noteq> box"
proof -
  have "unat (box + 4) = (unat box + 4) mod 2 ^ 32" using unat_word_ariths(1) [of box 4] by simp
  then have "unat (bm_end box) \<noteq> unat box" using unat_less_32 [of box] using unat_diff_le [of box "box + 4"] by (auto simp: bm_end_def)
  then show "box \<noteq> bm_end box" "bm_end box \<noteq> box" by auto
qed

lemma alloc_boxes_ok:
  "box_ok m box xs \<Longrightarrow> \<exists>m'. alloc_boxes (length xs) box m = (xs, m') \<and> box_ok m' box [] \<and> m' (bm_end box) = m (bm_end box)"
proof (induction xs arbitrary: m)
  case (Cons x xs)
  obtain m1 where m1: "rt_alloc_box box m = (x, m1)" "box_ok m1 box xs" "m1 (bm_end box) = m (bm_end box)"
    using alloc_box_ok [OF Cons.prems] by auto
  from Cons.IH [OF m1(2)] show ?case using m1 by auto
qed simp

definition pool_demo :: memory where
  "pool_demo = (\<lambda>a. 0)(0x1000 := 0x1020, 0x1004 := 0x10, 0x1020 := 0x103C, 0x1024 := 0x14)"

text \<open>C22: Allocation from a memory pool is first fit. For a pool whose words in memory are the elements \<open>es\<close>, in address order
  up to the word \<open>e\<close>, and a request whose size with the header does not wrap around, \<open>rt_alloc_mem\<close> returns: with NULL and
  nothing written exactly when no hole is large enough, otherwise with the block in the first hole that is.  The block lies
  inside the pool, is at least as large as was asked for, meets no block in use, and only words of headers are written.\<close>

theorem rt_alloc_mem_first_fit:
  assumes "pool_ok m pool es e" "req \<noteq> 0" "unat req + 11 < 2 ^ 32"
  shows "unat req + 8 \<le> need req \<and> (case place (need req) es e of
      None \<Rightarrow> rt_alloc_mem pool req m = Some (0, m)
    | Some (p, es') \<Rightarrow> (\<exists>m'. rt_alloc_mem pool req m = Some (p, m') \<and> pool_ok m' pool es' e
        \<and> unat pool + 8 \<le> unat p \<and> unat p - 8 + need req \<le> unat e
        \<and> (\<forall>x\<in>set es. block_of x \<inter> {unat p - 8 ..< unat p - 8 + need req} = {})
        \<and> (\<forall>a. m' a \<noteq> m a \<longrightarrow> a \<in> header_words es')))"
proof -
  have n: "unat req + 8 \<le> need req" "8 \<le> need req" using need_props [of req] assms(2) by (simp_all add: unat_eq_zero)
  show ?thesis
  proof (cases "place (need req) es e")
    case None
    then show ?thesis using alloc_mem_place [OF assms] n by simp
  next
    case (Some pr)
    obtain p es' where pr: "pr = (p, es')" by fastforce
    have pl: "place (need req) es e = Some (p, es')" using Some pr by simp
    have "laid_out es e" "next_of es e = pool" using assms(1) by (cases es; simp add: pool_ok_def)+
    from place_fresh [OF this(1) pl n(2)] this(2) show ?thesis using alloc_mem_place [OF assms] n(1) unfolding pl by auto
  qed
qed

theorem rt_alloc_mem_first_fit_witness:
  "\<exists>m'. rt_alloc_mem 0x1000 8 pool_demo = Some (0x1018, m') \<and> pool_ok m' 0x1000 [(0x1000, 0x10), (0x1010, 16), (0x1020, 0x14)] 0x103C"
proof -
  have "pool_ok pool_demo 0x1000 [(0x1000, 0x10), (0x1020, 0x14)] 0x103C" by (simp add: pool_ok_def pool_demo_def)
  moreover have "need 8 = 16" by (simp add: need_def)
  ultimately show ?thesis using rt_alloc_mem_first_fit [of pool_demo "0x1000" "[(0x1000, 0x10), (0x1020, 0x14)]" "0x103C" 8] by auto
qed



text \<open>C39: The size with its header is computed modulo \<open>2 ^ 32\<close>.  For the requests from 0xFFFFFFF5 to 0xFFFFFFF8 it is 0: a pool
  whose first block is free does not refuse them but returns that block and changes nothing, so the next request that fits the
  hole gets the same block again.\<close>

theorem rt_alloc_mem_overflow:
  assumes "pool_ok m pool ((pool, 0) # es) e" "0xFFFFFFF5 \<le> big" "big \<le> 0xFFFFFFF8"
    "req \<noteq> 0" "unat req + 11 < 2 ^ 32" "need req \<le> unat (next_of es e) - unat pool"
  shows "rt_alloc_mem pool big m = Some (pool + 8, m) \<and> (\<exists>m'. rt_alloc_mem pool req m = Some (pool + 8, m') \<and> pool_ok m' pool ((pool, of_nat (need req)) # es) e)"
  using alloc_mem_wraps [OF assms(1-3)] alloc_mem_place [OF assms(1,4,5)] assms(6) by auto

theorem rt_alloc_mem_overflow_witness:
  "\<exists>m0 m'. rt_init_mem 0x1000 64 (\<lambda>a. 7) = (0, m0) \<and> rt_alloc_mem 0x1000 0xFFFFFFF7 m0 = Some (0x1008, m0) \<and> rt_alloc_mem 0x1000 8 m0 = Some (0x1008, m')"
proof -
  obtain m0 where m0: "rt_init_mem 0x1000 64 (\<lambda>a. 7) = (0, m0)" "pool_ok m0 0x1000 [(0x1000, 0)] 0x103C"
    using init_mem_ok [of "0x1000" 64 "\<lambda>a. 7"] by auto
  have n: "need 8 = 16" by (simp add: need_def)
  then show ?thesis using m0 rt_alloc_mem_overflow [OF m0(2), of "0xFFFFFFF7" 8] by auto
qed

text \<open>C40: A memory box of \<open>n + 1\<close> blocks: \<open>_init_box\<close> returns, and the next \<open>n + 1\<close> allocations hand out the blocks behind
  the header one after the other, all different and inside the box; one more gets NULL.  A block that is given back is the
  next to be handed out.\<close>

theorem memory_box_blocks:
  assumes "box \<noteq> 0" "unat box + unat sz < 2 ^ 32" "4 dvd unat bs" "0 < unat bs" "unat bs < 2 ^ 31" "unat sz = 12 + Suc n * unat bs"
  shows "\<exists>m0 m1. init_box box sz bs m = Some (0, m0)
    \<and> alloc_boxes (Suc n) box m0 = (map (\<lambda>i. of_nat (unat box + 12 + i * unat bs)) [0..<Suc n], m1) \<and> rt_alloc_box box m1 = (0, m1)
    \<and> distinct (map (\<lambda>i. of_nat (unat box + 12 + i * unat bs) :: u32) [0..<Suc n])
    \<and> (\<forall>x\<in>set (map (\<lambda>i. of_nat (unat box + 12 + i * unat bs)) [0..<Suc n]). box < x \<and> x < box + sz
        \<and> (\<exists>m2. rt_free_box box x m1 = (0, m2) \<and> fst (rt_alloc_box box m2) = x))"
proof -
  let ?xs = "map (\<lambda>i. of_nat (unat box + 12 + i * unat bs)) [0..<Suc n] :: u32 list"
  obtain m0 where m0: "init_box box sz bs m = Some (0, m0)" "box_ok m0 box ?xs" "m0 (bm_end box) = box + sz"
    using init_box_ok [OF assms] by blast
  have "length ?xs = Suc n" by simp
  with alloc_boxes_ok [OF m0(2)] obtain m1 where m1: "alloc_boxes (Suc n) box m0 = (?xs, m1)" "box_ok m1 box []" "m1 (bm_end box) = box + sz"
    using m0(3) by auto
  have "rt_alloc_box box m1 = (0, m1)" using alloc_box_ok [OF m1(2)] by simp
  moreover have in_box: "box < x \<and> x < box + sz \<and> x \<noteq> bm_end box" if "x \<in> set ?xs" for x
    using m0(2,3) that unfolding box_ok_def by metis
  moreover have "\<exists>m2. rt_free_box box x m1 = (0, m2) \<and> fst (rt_alloc_box box m2) = x" if x: "x \<in> set ?xs" for x
  proof -
    obtain m2 where m2: "rt_free_box box x m1 = (0, m2)" "box_ok m2 box [x]"
      using free_box_ok [OF m1(2), of x] in_box [OF x] m1(3) by auto
    then show ?thesis using alloc_box_ok [OF m2(2)] by auto
  qed
  moreover have "distinct ?xs" using m0(2) unfolding box_ok_def by blast
  ultimately show ?thesis using m0(1) m1(1) by blast
qed

theorem memory_box_blocks_witness:
  "\<exists>m0 m1. init_box 0x1000 36 8 (\<lambda>a. 7) = Some (0, m0) \<and> alloc_boxes 3 0x1000 m0 = ([0x100C, 0x1014, 0x101C], m1) \<and> rt_alloc_box 0x1000 m1 = (0, m1)"
  using memory_box_blocks [of "0x1000" 36 8 2 "\<lambda>a. 7"] by (auto simp: upt_rec numeral_3_eq_3)

end
