(* ===== verification/RtxProps.thy ===== *)
theory RtxProps
  imports RtxSystem RtxPool
begin

text \<open>
  The properties of the kernel, each with an instance on the example system.
\<close>

unbundle bit_operations_syntax

section \<open>The delay list as a map\<close>

lemma map_of_dly_ins: "t \<notin> fst ` set D \<Longrightarrow> map_of (dly_ins t n D) = (map_of D)(t \<mapsto> n)"
proof -
  assume t: "t \<notin> fst ` set D"
  let ?a = "takeWhile (\<lambda>d. snd d < n) D" and ?b = "dropWhile (\<lambda>d. snd d < n) D"
  have "set ?a \<subseteq> set D" by (auto dest: set_takeWhileD)
  then have "fst ` set ?a \<subseteq> fst ` set D" by (rule image_mono)
  then have "t \<notin> fst ` set ?a" using t by blast
  then have "map_of ?a t = None" by (simp add: map_of_eq_None_iff)
  moreover have "map_of D = map_of ?b ++ map_of ?a" by (metis map_of_append takeWhile_dropWhile_id)
  ultimately show ?thesis by (auto simp: dly_ins_def map_add_def fun_eq_iff split: option.splits)
qed

lemma map_of_without: "map_of (without t D) = (map_of D)(t := None)"
  by (induction D) (auto simp: without_def fun_eq_iff)

lemma map_of_passed: "map_of (passed D) x = map_option (\<lambda>n. n - 1) (map_of D x)"
  by (induction D) (auto simp: passed_def)

lemma map_of_wake:
  "distinct (map fst D) \<Longrightarrow> sorted (map snd D) \<Longrightarrow> map_of (snd (wake pr D L)) x = (if map_of D x = Some 0 then None else map_of D x)"
proof (induction D arbitrary: L)
  case (Cons d D)
  obtain y n where d: "d = (y, n)" by (cases d)
  have y: "map_of D y = None" using Cons.prems(1) d by (auto simp: map_of_eq_None_iff)
  show ?case
  proof (cases n)
    case 0
    have "map_of (snd (wake pr D ((drop_task y L)(os_rdy := insert_prio pr y (L os_rdy))))) x = (if map_of D x = Some 0 then None else map_of D x)"
      by (rule Cons.IH) (use Cons.prems in auto)
    then show ?thesis using y unfolding d 0 wake.simps by simp
  next
    case (Suc m)
    then have "\<forall>d\<in>set ((y, Suc m) # D). snd d \<noteq> 0" using Cons.prems(2) d by auto
    then have "map_of ((y, Suc m) # D) x \<noteq> Some 0" by (metis map_of_SomeD snd_conv)
    then show ?thesis unfolding d Suc by simp
  qed
qed simp

unbundle bit_operations_syntax

section \<open>Properties\<close>

text \<open>C12: The scheduler's invariant.  From a consistent system, whatever calls and ticks happen in whatever order: the
  ready list is properly linked and sorted, it holds exactly the tasks in the state READY, the running task is in the
  state RUNNING and in no list, and no ready task has a higher priority; and the next call returns again.\<close>

theorem scheduler_runs_highest:
  assumes "system_ok L D k" "quiet timers" "reaches timers k k'"
  shows "\<exists>R. links (p_lnk k') os_rdy R NULL \<and> distinct R \<and> by_prio (prio k') R
     \<and> (\<forall>x. tcb k' x \<longrightarrow> (state k' x = READY \<longleftrightarrow> x \<in> set R))
     \<and> run k' \<noteq> NULL \<and> state k' (run k') = RUNNING \<and> run k' \<notin> set R \<and> (\<forall>x\<in>set R. prio k' x \<le> prio k' (run k'))
     \<and> (\<forall>c. allowed c k' \<longrightarrow> (\<exists>k''. perform timers c k' = Some k''))"
proof -
  obtain L' D' where S: "system_ok L' D' k'" using reaches_ok [OF assms(3,2,1)] by blast
  have h: "head k' os_rdy" by (simp add: head_def)
  note Q = system_okD(1) [OF S] and l = system_okD(5) [OF S]
  have "\<forall>c. allowed c k' \<longrightarrow> (\<exists>k''. perform timers c k' = Some k'')" using perform_ok [OF S _ assms(2)] by blast
  moreover have "\<forall>x\<in>set (L' os_rdy). prio k' x \<le> prio k' (run k')" using system_okD(2,3) [OF S] by (simp add: runs_ok_def)
  moreover have "run k' \<noteq> NULL" "run k' \<notin> set (L' os_rdy)" using system_okD(8) [OF S] by (auto simp: free_task_def tcb_def)
  ultimately show ?thesis
    using lists_okD(1) [OF l h] lists_okD(3) [OF l] queues_okD(3,4) [OF Q] system_okD(10) [OF S]
    by (intro exI [of _ "L' os_rdy"]) simp
qed

theorem scheduler_runs_highest_witness:
  "\<exists>k'. perform (\<lambda>k. k) (SemSend (Obj 10)) demo = Some k' \<and> (\<exists>R. links (p_lnk k') os_rdy R NULL \<and> (\<forall>x\<in>set R. prio k' x \<le> prio k' (run k')))"
proof -
  have a: "allowed (SemSend (Obj 10)) demo" by (simp add: allowed_def demo_def)
  then obtain k' where k': "perform (\<lambda>k. k) (SemSend (Obj 10)) demo = Some k'"
    using perform_ok [OF demo_system_ok _ quiet_id] by blast
  then have "reaches (\<lambda>k. k) demo k'" using reaches.step [OF reaches.start a] by blast
  from scheduler_runs_highest [OF demo_system_ok quiet_id this] k' show ?thesis by blast
qed

text \<open>C35: A list of the kernel (the ready list, or the waiting list of a semaphore, a mailbox or a mutex) is fair among
  equals: tasks that \<open>rt_put_prio\<close> inserts one after the other come out of \<open>rt_get_first\<close> by descending priority, and in
  the order of their insertion where the priorities are equal.\<close>

theorem priority_list_order:
  assumes "lists_ok M k" "head k h" "M h = []" "distinct ts" "\<forall>t\<in>set ts. free_task M k t"
  shows "\<exists>k' k''. put_all (rt_put_prio h) ts k = Some k'
     \<and> get_all (rt_get_first h) (length ts) k' = Some (sort_key (\<lambda>t. 255 - unat (prio k t)) ts, k'')"
proof -
  have "M(h := []) = M" using assms(3) by auto
  then have "list_of M h k []" using assms(1,2) by (simp add: list_of_def)
  moreover have "\<forall>t\<in>set ts. outside M h k t" using assms(5) by (simp add: free_task_def outside_def)
  ultimately show ?thesis using rtx.first_come_first_served [of M h k ts] assms(4) by (simp add: by_rank_def)
qed

lemma demo_empty: "lists_ok (\<lambda>_. []) (demo\<lparr>p_lnk := (\<lambda>_. NULL), p_rlnk := (\<lambda>_. NULL)\<rparr>)"
proof -
  have "tcb (demo\<lparr>p_lnk := (\<lambda>_. NULL), p_rlnk := (\<lambda>_. NULL)\<rparr>) = tcb demo" "obj (demo\<lparr>p_lnk := (\<lambda>_. NULL), p_rlnk := (\<lambda>_. NULL)\<rparr>) = obj demo"
    by (rule tcb_cong; simp)+
  then show ?thesis unfolding lists_ok_def head_def by (auto simp: demo_def)
qed

theorem priority_list_order_witness:
  "\<exists>k' k''. put_all (rt_put_prio (Obj 10)) [Obj 2, Obj 1, Obj 3] (demo\<lparr>p_lnk := (\<lambda>_. NULL), p_rlnk := (\<lambda>_. NULL)\<rparr>) = Some k'
     \<and> get_all (rt_get_first (Obj 10)) 3 k' = Some ([Obj 3, Obj 1, Obj 2], k'')"
proof -
  let ?k = "demo\<lparr>p_lnk := (\<lambda>_. NULL), p_rlnk := (\<lambda>_. NULL)\<rparr>"
  have t: "tcb ?k = tcb demo" "obj ?k = obj demo" by (rule tcb_cong; simp)+
  have h: "head ?k (Obj 10)" "\<forall>t\<in>set [Obj 2, Obj 1, Obj 3]. free_task (\<lambda>_. []) ?k t"
    unfolding head_def free_task_def t demo_tcb demo_obj by auto
  have "sort_key (\<lambda>t. 255 - unat (prio ?k t)) [Obj 2, Obj 1, Obj 3] = [Obj 3, Obj 1, Obj 2]" by (simp add: demo_def)
  moreover have "length [Obj 2, Obj 1, Obj 3] = 3" "distinct [Obj 2, Obj 1, Obj 3]" by simp_all
  ultimately show ?thesis using priority_list_order [OF demo_empty h(1) refl _ h(2)] by metis
qed

text \<open>C20: Timeouts are exact.  The delay list stores differences, but as a map from tasks to the ticks left:
  \<open>rt_put_dly\<close> adds the task with its delay and changes no other time, \<open>rt_rmv_dly\<close> removes one task and changes no other
  time (and is harmless for a task that is not delayed).\<close>

theorem timeouts_exact:
  assumes "delays_ok D k" "tcb k t"
  shows "(\<forall>n. t \<notin> fst ` set D \<and> 0 < n \<and> n < 0xFFFF \<longrightarrow>
      (\<exists>k' D'. rt_put_dly t (of_nat n) k = Some k' \<and> delays_ok D' k' \<and> map_of D' = (map_of D)(t \<mapsto> n)))
    \<and> (\<exists>D'. delays_ok D' (rt_rmv_dly t k) \<and> map_of D' = (map_of D)(t := None))"
proof (intro conjI allI impI; (elim conjE)?)
  fix n :: nat assume t: "t \<notin> fst ` set D" and n: "0 < n" "n < 0xFFFF"
  show "\<exists>k' D'. rt_put_dly t (of_nat n) k = Some k' \<and> delays_ok D' k' \<and> map_of D' = (map_of D)(t \<mapsto> n)"
    by (rule delays_ok_put [OF assms t n]) (use map_of_dly_ins [OF t] in blast)
next
  show "\<exists>D'. delays_ok D' (rt_rmv_dly t k) \<and> map_of D' = (map_of D)(t := None)"
    by (rule delays_ok_without [OF assms]) (metis map_of_without)
qed

theorem timeouts_exact_witness:
  "\<exists>k' D'. rt_put_dly (Obj 2) (of_nat 3) demo = Some k' \<and> delays_ok D' k' \<and> map_of D' = [Obj 3 \<mapsto> 5, Obj 2 \<mapsto> 3]"
proof -
  have "tcb demo (Obj 2)" by (simp add: demo_tcb)
  from conjunct1 [OF timeouts_exact [OF system_okD(6) [OF demo_system_ok] this], rule_format, of 3] show ?thesis by simp
qed

text \<open>C19: The tick.  \<open>rt_dec_dly\<close> takes one tick off every timeout; the tasks whose time is over, and only they, leave the
  delay list and the list they wait in, and are ready; the queues stay consistent and nobody else changes state.\<close>

theorem tick_wakes_expired:
  assumes "queues_ok {} L D k"
  shows "\<exists>k' L' D'. rt_dec_dly k = Some k' \<and> queues_ok {} L' D' k'
     \<and> map_of D' = (\<lambda>x. case map_of D x of None \<Rightarrow> None | Some n \<Rightarrow> if n = 1 then None else Some (n - 1))
     \<and> (\<forall>x. map_of D x = Some 1 \<longrightarrow> state k' x = READY \<and> (\<forall>h. x \<in> set (L' h) \<longleftrightarrow> h = os_rdy))
     \<and> (\<forall>x. map_of D x \<noteq> Some 1 \<longrightarrow> state k' x = state k x)"
proof -
  note Dk = queues_okD(2) [OF assms]
  have dist: "distinct (map fst D)" and pos: "\<forall>d\<in>set D. 0 < snd d" using delays_okD(3) [OF Dk] queues_okD(5) [OF assms] by auto
  obtain L' D' where w: "wake (prio k) (passed D) L = (L', D')" by (cases "wake (prio k) (passed D) L")
  obtain k' where k': "rt_dec_dly k = Some k'" "queues_ok {} L' D' k'" "moved k k'" "state k' = (\<lambda>x. if (x, 1) \<in> set D then READY else state k x)"
    using dec_dly_ok [OF assms w] by blast
  have one: "(x, n) \<in> set D \<longleftrightarrow> map_of D x = Some n" for x n using map_of_eq_Some_iff [OF dist] by blast
  have srt: "sorted (map snd (passed D))"
    using deltas_sorted [OF delays_okD(6) [OF Dk]] by (auto simp: passed_def sorted_map comp_def case_prod_beta elim!: sorted_wrt_mono_rel [rotated])
  have "map_of D' x = (case map_of D x of None \<Rightarrow> None | Some n \<Rightarrow> if n = 1 then None else Some (n - 1))" for x
  proof -
    have "map_of D' x = (if map_of (passed D) x = Some 0 then None else map_of (passed D) x)"
      using map_of_wake [of "passed D" "prio k" L x] dist srt w by simp
    moreover have "map_of D x \<noteq> Some 0" using pos one [of x 0] by fastforce
    ultimately show ?thesis unfolding map_of_passed by (cases "map_of D x") auto
  qed
  moreover have "state k' x = READY \<and> (\<forall>h. x \<in> set (L' h) \<longleftrightarrow> h = os_rdy)" if "map_of D x = Some 1" for x
  proof -
    have x: "(x, 1) \<in> set D" using that one by simp
    then have r: "state k' x = READY" using k'(4) by simp
    have "tcb k x" using delays_okD(4) [OF Dk, of x] x by force
    then have "tcb k' x" using tcb_cong(1) [OF movedD(1) [OF k'(3)]] by simp
    with r have m: "x \<in> set (L' os_rdy)" using queues_okD(4) [OF k'(2)] by simp
    then show ?thesis using r lists_okD(5) [OF queues_okD(1) [OF k'(2)] m] by blast
  qed
  moreover have "state k' x = state k x" if "map_of D x \<noteq> Some 1" for x using that one k'(4) by simp
  ultimately show ?thesis using k'(1,2) by (intro exI [of _ k'] exI [of _ L'] exI [of _ D']) (simp add: fun_eq_iff)
qed

theorem tick_wakes_expired_witness:
  "\<exists>k' L' D'. rt_dec_dly demo = Some k' \<and> queues_ok {} L' D' k' \<and> map_of D' (Obj 3) = Some 4 \<and> state k' (Obj 3) = WAIT_SEM"
proof -
  obtain k' L' D' where a: "rt_dec_dly demo = Some k'" "queues_ok {} L' D' k'"
    "map_of D' = (\<lambda>x. case map_of [(Obj 3, 5 :: nat)] x of None \<Rightarrow> None | Some n \<Rightarrow> if n = 1 then None else Some (n - 1))"
    "\<forall>x. map_of [(Obj 3, 5 :: nat)] x \<noteq> Some 1 \<longrightarrow> state k' x = state demo x"
    using tick_wakes_expired [OF system_okD(1) [OF demo_system_ok]] by blast
  have "map_of D' (Obj 3) = Some 4" unfolding a(3) by simp
  moreover have "state k' (Obj 3) = WAIT_SEM" using a(4) by (simp add: demo_def)
  ultimately show ?thesis using a(1,2) by blast
qed

text \<open>C21: Semaphores.  A token is stored only when nobody waits; otherwise it goes to the first task of the waiting list,
  which leaves that list and the delay list, finds 1 as its result, and runs at once exactly when its priority is higher
  than that of the running task.\<close>

theorem rt_sem_send_hands_over:
  assumes "system_ok L D k" "c \<noteq> NULL" "cb_type k c = SCB"
  shows "case L c of [] \<Rightarrow> rt_sem_send c k = Some (OS_R_OK, k\<lparr>tokens := (tokens k)(c := tokens k c + 1)\<rparr>)
    | t # ts \<Rightarrow> \<exists>k' L' D'. rt_sem_send c k = Some (OS_R_OK, k') \<and> system_ok L' D' (context_switch k')
      \<and> L' c = ts \<and> t \<notin> fst ` set D' \<and> fst (ret_regs k' t) = 1 \<and> tokens k' = tokens k
      \<and> new_tsk k' = (if prio k (run k) < prio k t then t else run k)"
proof (cases "L c")
  case Nil
  then show ?thesis using sem_send_token(1) [OF assms] by simp
next
  case (Cons t ts)
  have n: "c \<noteq> os_rdy" using rdy_not_obj [OF system_okD(5) [OF assms(1)]] scb_obj [OF assms(2,3)] by auto
  show ?thesis
  proof (rule sem_send_wakes [OF assms Cons])
    fix k'
    assume k': "rt_sem_send c k = Some (OS_R_OK, k')" "system_ok (preempted k t (L(c := ts))) (without t D) (context_switch k')"
      "new_tsk k' = (if prio k (run k) < prio k t then t else run k)"
      "ret_regs k' = (ret_regs k)(t := (1, snd (ret_regs k t)))" "tokens k' = tokens k"
    have "preempted k t (L(c := ts)) c = ts" "t \<notin> fst ` set (without t D)" using n by (simp_all add: preempted_def fst_without)
    then have "rt_sem_send c k = Some (OS_R_OK, k') \<and> system_ok (preempted k t (L(c := ts))) (without t D) (context_switch k')
      \<and> preempted k t (L(c := ts)) c = ts \<and> t \<notin> fst ` set (without t D) \<and> fst (ret_regs k' t) = 1 \<and> tokens k' = tokens k
      \<and> new_tsk k' = (if prio k (run k) < prio k t then t else run k)" using k' by (intro conjI) simp_all
    then show ?thesis unfolding Cons list.case by (intro exI)
  qed
qed

theorem rt_sem_send_hands_over_witness:
  "\<exists>k'. rt_sem_send (Obj 10) demo = Some (OS_R_OK, k') \<and> new_tsk k' = Obj 3 \<and> fst (ret_regs k' (Obj 3)) = 1"
proof -
  have c: "cb_type demo (Obj 10) = SCB" "demo_lists (Obj 10) = [Obj 3]" by (simp_all add: demo_def demo_lists_def)
  have p: "prio demo (run demo) < prio demo (Obj 3)" by (simp add: demo_def)
  from rt_sem_send_hands_over [OF demo_system_ok _ c(1)] c(2) p show ?thesis by auto
qed

text \<open>Waiting at a semaphore takes a token if there is one, gives up at once with a timeout of 0, and otherwise blocks: the
  task joins the waiting list by priority, gets its timeout unless it is 0xffff, and the first ready task runs.\<close>

theorem rt_sem_wait_blocks:
  assumes "system_ok L D k" "c \<noteq> NULL" "cb_type k c = SCB"
  shows "if tokens k c \<noteq> 0 then rt_sem_wait c timeout k = Some (OS_R_OK, k\<lparr>tokens := (tokens k)(c := tokens k c - 1)\<rparr>)
    else if timeout = 0 then rt_sem_wait c timeout k = Some (OS_R_TMO, k)
    else run k \<noteq> os_idle_TCB \<longrightarrow> (\<exists>k' L' D'. rt_sem_wait c timeout k = Some (OS_R_TMO, k') \<and> system_ok L' D' (context_switch k')
        \<and> L' c = insert_prio (prio k) (run k) (L c) \<and> L os_rdy = new_tsk k' # L' os_rdy \<and> state k' (run k) = WAIT_SEM
        \<and> D' = (if timeout < 0xFFFF then dly_ins (run k) (unat timeout) D else D))"
proof -
  have n: "c \<noteq> os_rdy" using rdy_not_obj [OF system_okD(5) [OF assms(1)]] scb_obj [OF assms(2,3)] by auto
  have "\<exists>k' L' D'. rt_sem_wait c timeout k = Some (OS_R_TMO, k') \<and> system_ok L' D' (context_switch k')
        \<and> L' c = insert_prio (prio k) (run k) (L c) \<and> L os_rdy = new_tsk k' # L' os_rdy \<and> state k' (run k) = WAIT_SEM
        \<and> D' = (if timeout < 0xFFFF then dly_ins (run k) (unat timeout) D else D)"
    if a: "tokens k c = 0" "timeout \<noteq> 0" "run k \<noteq> os_idle_TCB"
  proof (rule sem_wait_blocks [OF assms a])
    fix k' x xs
    assume "rt_sem_wait c timeout k = Some (OS_R_TMO, k')" "L os_rdy = x # xs"
      "system_ok (L(c := insert_prio (prio k) (run k) (L c), os_rdy := xs)) (timed timeout (run k) D) (context_switch k')"
      "new_tsk k' = x" "state k' (run k) = WAIT_SEM" "tokens k' = tokens k"
    then show ?thesis using n
      by (intro exI [of _ k'] exI [of _ "L(c := insert_prio (prio k) (run k) (L c), os_rdy := xs)"] exI [of _ "timed timeout (run k) D"])
        (simp add: timed_def)
  qed
  then show ?thesis by (simp add: rt_sem_wait_def)
qed

theorem rt_sem_wait_blocks_witness:
  "\<exists>k'. rt_sem_wait (Obj 10) 7 demo = Some (OS_R_TMO, k') \<and> new_tsk k' = Obj 2 \<and> state k' (Obj 1) = WAIT_SEM"
proof -
  have c: "cb_type demo (Obj 10) = SCB" "tokens demo (Obj 10) = 0" "run demo = Obj 1" "demo_lists os_rdy = [Obj 2, os_idle_TCB]"
    by (simp_all add: demo_def demo_lists_def)
  from rt_sem_wait_blocks [OF demo_system_ok _ c(1), of 7] c show ?thesis by auto
qed

text \<open>C36: Event flags.  \<open>rt_evt_set\<close> wakes a task exactly when the flags now set meet what it waits for (all of them, or
  any of them): then the flags it waited for are cleared, and it finds 8 and the flags that woke it in its registers.
  Otherwise the flags are only added.\<close>

theorem rt_evt_set_wakes:
  assumes "system_ok L D k" "active tid k = Some t" "t \<noteq> NULL"
  shows "if evt_met k t flags
    then \<exists>k' D'. rt_evt_set flags tid k = Some k' \<and> system_ok (preempted k t L) D' (context_switch k')
      \<and> t \<notin> fst ` set D' \<and> events k' t = (events k t OR flags) AND NOT (waits k t)
      \<and> ret_regs k' t = (0x08, ucast (if state k t = WAIT_AND then waits k t else waits k t AND (events k t OR flags)))
    else rt_evt_set flags tid k = Some (k\<lparr>events := (events k)(t := events k t OR flags)\<rparr>)"
proof (cases "evt_met k t flags")
  case True
  show ?thesis unfolding if_P [OF True] by (rule evt_set_met [OF assms True]) (use fst_without in fastforce)
next
  case False
  then show ?thesis using assms(2,3) by (simp add: rt_evt_set_def evt_wake_idle set_events_def)
qed

theorem rt_evt_set_wakes_witness:
  "rt_evt_set 5 2 demo = Some (demo\<lparr>events := (events demo)(Obj 2 := 5)\<rparr>)"
proof -
  have a: "active 2 demo = Some (Obj 2)" "\<not> evt_met demo (Obj 2) 5" "events demo (Obj 2) = 0"
    by (simp_all add: active_def rd_def demo_def evt_met_def task_states)
  from rt_evt_set_wakes [OF demo_system_ok a(1), of 5] a(2,3) show ?thesis by simp
qed

text \<open>C18: A mailbox is a first-in first-out queue: as long as there is a message, in the buffer or with a task that waits to
  send, \<open>rt_mbx_wait\<close> returns the oldest one and leaves the others in their order; the message of the first waiting
  sender moves into the buffer.  Without a message the call gives up with a timeout of 0, and otherwise the task joins the
  waiting receivers by priority.\<close>

theorem rt_mbx_wait_fifo:
  assumes "system_ok L D k" "c \<noteq> NULL" "cb_type k c = MCB" "run k \<noteq> os_idle_TCB"
  shows "case contents k L c of
      m # ms \<Rightarrow> \<exists>k' L' D'. rt_mbx_wait c timeout k = Some (OS_R_OK, Some m, k') \<and> system_ok L' D' (context_switch k') \<and> contents k' L' c = ms
    | [] \<Rightarrow> if timeout = 0 then rt_mbx_wait c timeout k = Some (OS_R_TMO, None, k)
        else \<exists>k' L' D'. rt_mbx_wait c timeout k = Some (OS_R_TMO, None, k') \<and> system_ok L' D' (context_switch k')
          \<and> contents k' L' c = [] \<and> L' c = insert_prio (prio k) (run k) (L c) \<and> L os_rdy = new_tsk k' # L' os_rdy"
proof (cases "contents k L c")
  case (Cons m ms)
  then show ?thesis using mbx_wait_contents [OF assms(1-3) Cons] by simp
next
  case Nil
  then have n: "mb_count k c = 0" using contents_Nil [of k c L, OF mailboxD [OF assms(1-3)]] by simp
  have cr: "c \<noteq> os_rdy" using rdy_not_obj [OF system_okD(5) [OF assms(1)]] mcb_obj [OF assms(2,3)] by auto
  show ?thesis
  proof (cases "timeout = 0")
    case True
    then show ?thesis using n Nil by (simp add: rt_mbx_wait_def)
  next
    case False
    show ?thesis
    proof (rule mbx_wait_blocks [OF assms(1-3) n False assms(4)])
      fix k' x xs
      let ?L = "L(c := insert_prio (prio k) (run k) (L c), os_rdy := xs)"
      assume k': "rt_mbx_wait c timeout k = Some (OS_R_TMO, None, k')" "L os_rdy = x # xs" "system_ok ?L (timed timeout (run k) D) (context_switch k')"
        "new_tsk k' = x" "mails k' = mails k" "state k' c = 1"
      then have "contents k' ?L c = []" using n queued_cong [OF k'(5)] by (simp add: contents_def queued_def ring_def)
      moreover have "?L c = insert_prio (prio k) (run k) (L c)" "L os_rdy = new_tsk k' # ?L os_rdy" using k'(2,4) cr by simp_all
      ultimately have "\<exists>k' L' D'. rt_mbx_wait c timeout k = Some (OS_R_TMO, None, k') \<and> system_ok L' D' (context_switch k')
          \<and> contents k' L' c = [] \<and> L' c = insert_prio (prio k) (run k) (L c) \<and> L os_rdy = new_tsk k' # L' os_rdy"
        using k'(1,3) by blast
      then show ?thesis using Nil False by (simp only: list.case if_False)
    qed
  qed
qed

theorem rt_mbx_wait_fifo_witness:
  "\<exists>k' L'. rt_mbx_wait (Obj 11) 0 demo = Some (OS_R_OK, Some 7, k') \<and> contents k' L' (Obj 11) = [9, 5]"
proof -
  have c: "cb_type demo (Obj 11) = MCB" "run demo \<noteq> os_idle_TCB" "contents demo demo_lists (Obj 11) = [7, 9, 5]"
    by (simp_all add: demo_def demo_lists_def contents_def queued_def ring_def upt_rec)
  from rt_mbx_wait_fifo [OF demo_system_ok _ c(1,2), of 0] c(3) show ?thesis by auto
qed

text \<open>The two cases of a send in which a task changes its state.\<close>

lemma mbx_send_hands_over:
  assumes "system_ok L D k" "c \<noteq> NULL" "cb_type k c = MCB" "L c = t # ts" "state k c = 1" "c \<noteq> os_rdy"
  shows "\<exists>k' L' D'. rt_mbx_send c m timeout k = Some (OS_R_OK, k') \<and> system_ok L' D' (context_switch k')
      \<and> L' c = ts \<and> ret_regs k' t = (0x10, m) \<and> queued k' c = queued k c"
proof (rule mbx_send_wakes [OF assms(1-5)])
  fix k'
  let ?L = "preempted k t (L(c := ts))"
  assume k': "rt_mbx_send c m timeout k = Some (OS_R_OK, k')" "system_ok ?L (without t D) (context_switch k')"
    "ret_regs k' = (ret_regs k)(t := (0x10, m))" "mails k' = mails k"
  have "?L c = ts" using assms(6) by (simp add: preempted_def)
  moreover have "ret_regs k' t = (0x10, m)" "queued k' c = queued k c" using k'(3) queued_cong [OF k'(4)] by simp_all
  ultimately show ?thesis using k'(1,2) by blast
qed

lemma mbx_send_waits:
  assumes "system_ok L D k" "c \<noteq> NULL" "cb_type k c = MCB" "mb_count k c = mb_size k c" "timeout \<noteq> 0" "run k \<noteq> os_idle_TCB" "c \<noteq> os_rdy"
  shows "\<exists>k' L' D'. rt_mbx_send c m timeout k = Some (OS_R_TMO, k') \<and> system_ok L' D' (context_switch k')
      \<and> L' c = insert_prio (prio k) (run k) (L c)
      \<and> contents k' L' c = queued k c @ map ((tcb_msg k)(run k := m)) (insert_prio (prio k) (run k) (L c))"
proof (rule mbx_send_blocks [OF assms(1-6)])
  fix k' x xs
  let ?L = "L(c := insert_prio (prio k) (run k) (L c), os_rdy := xs)"
  assume k': "rt_mbx_send c m timeout k = Some (OS_R_TMO, k')" "system_ok ?L (timed timeout (run k) D) (context_switch k')"
    "mails k' = mails k" "tcb_msg k' = (tcb_msg k)(run k := m)" "state k' c = 2"
  have "contents k' ?L c = queued k c @ map ((tcb_msg k)(run k := m)) (insert_prio (prio k) (run k) (L c))"
    using k'(4,5) queued_cong [OF k'(3)] assms(7) by (simp add: contents_def)
  moreover have "?L c = insert_prio (prio k) (run k) (L c)" using assms(7) by simp
  ultimately show ?thesis using k'(1,2) by blast
qed

text \<open>C37: Sending to a mailbox: the message goes straight to the first waiting receiver, or to the end of the buffer; with a
  full buffer the call gives up with a timeout of 0, and otherwise the task joins the waiting senders by priority, with
  its message in its control block.\<close>

theorem rt_mbx_send_fifo:
  assumes "system_ok L D k" "c \<noteq> NULL" "cb_type k c = MCB" "run k \<noteq> os_idle_TCB"
  shows "if L c \<noteq> [] \<and> state k c = 1
    then \<exists>k' L' D'. rt_mbx_send c m timeout k = Some (OS_R_OK, k') \<and> system_ok L' D' (context_switch k')
      \<and> L' c = tl (L c) \<and> ret_regs k' (hd (L c)) = (0x10, m) \<and> queued k' c = queued k c
    else if mb_count k c \<noteq> mb_size k c
    then \<exists>k'. rt_mbx_send c m timeout k = Some (OS_R_OK, k') \<and> system_ok L D (context_switch k') \<and> contents k' L c = contents k L c @ [m]
    else if timeout = 0 then rt_mbx_send c m timeout k = Some (OS_R_TMO, k)
    else \<exists>k' L' D'. rt_mbx_send c m timeout k = Some (OS_R_TMO, k') \<and> system_ok L' D' (context_switch k')
      \<and> L' c = insert_prio (prio k) (run k) (L c)
      \<and> contents k' L' c = queued k c @ map ((tcb_msg k)(run k := m)) (insert_prio (prio k) (run k) (L c))"
proof -
  have cr: "c \<noteq> os_rdy" using rdy_not_obj [OF system_okD(5) [OF assms(1)]] mcb_obj [OF assms(2,3)] by auto
  consider t ts where "L c = t # ts" "state k c = 1" | "L c = [] \<or> state k c \<noteq> 1" "mb_count k c \<noteq> mb_size k c"
    | "L c = [] \<or> state k c \<noteq> 1" "mb_count k c = mb_size k c" "timeout = 0" | "L c = [] \<or> state k c \<noteq> 1" "mb_count k c = mb_size k c" "timeout \<noteq> 0"
    by (cases "L c") auto
  then show ?thesis
  proof cases
    case (1 t ts)
    then show ?thesis using mbx_send_hands_over [OF assms(1-3) 1 cr, of m timeout] by simp
  next
    case 2
    show ?thesis
    proof (rule mbx_send_stores [OF assms(1-3) 2, of m timeout])
      fix k' assume "rt_mbx_send c m timeout k = Some (OS_R_OK, k')" "system_ok L D (context_switch k')" "queued k' c = queued k c @ [m]" "L c = []"
      then show ?thesis using 2 by (auto simp: contents_queued)
    qed
  next
    case 3
    have "p_lnk k c = NULL \<or> state k c \<noteq> 1" using 3 obj_first [OF system_okD(5) [OF assms(1)] mcb_obj [OF assms(2,3)]] by auto
    then show ?thesis using 3 by (auto simp: rt_mbx_send_def)
  next
    case 4
    show ?thesis using 4 mbx_send_waits [OF assms(1-3) 4(2,3) assms(4) cr, of m]
      by (simp only: if_False if_True simp_thms de_Morgan_conj) auto
  qed
qed

theorem rt_mbx_send_fifo_witness:
  "\<exists>k'. rt_mbx_send (Obj 12) 8 0 demo = Some (OS_R_OK, k') \<and> contents k' demo_lists (Obj 12) = [3, 8]"
proof -
  have c: "cb_type demo (Obj 12) = MCB" "run demo \<noteq> os_idle_TCB" "contents demo demo_lists (Obj 12) = [3]" "demo_lists (Obj 12) = []"
    "mb_count demo (Obj 12) \<noteq> mb_size demo (Obj 12)"
    by (simp_all add: demo_def demo_lists_def contents_def queued_def ring_def upt_rec)
  from rt_mbx_send_fifo [OF demo_system_ok _ c(1,2), of 8 0] c(3-5) show ?thesis by auto
qed

text \<open>A message out of nothing.  A mailbox stays marked as "a sender waits" after its last sender was served.  When an
  interrupt then receives a message, it posts a request for a sender that does not exist, and serving the request puts the
  message 0 into the mailbox: the receiver gets a message that nobody has sent.\<close>

theorem isr_mbx_receive_phantom:
  assumes "system_ok L D k" "c \<noteq> NULL" "cb_type k c = MCB" "L c = []" "state k c = 2" "mb_count k c \<noteq> 0" "\<not> psq_full k"
  shows "\<exists>k1 k2. isr_mbx_receive c k = Some (OS_R_MBX, Some (hd (queued k c)), k1) \<and> posted k1 = posted k @ [(c, 0)]
    \<and> rt_mbx_psh c 0 k1 = Some k2 \<and> queued k2 c = tl (queued k c) @ [0]"
  using isr_receive_phantom [OF assms(1-6)] assms(7) by (simp add: psq_full_def)

theorem isr_mbx_receive_phantom_witness:
  "\<exists>k1 k2. isr_mbx_receive (Obj 12) demo = Some (OS_R_MBX, Some 3, k1) \<and> rt_mbx_psh (Obj 12) 0 k1 = Some k2 \<and> queued k2 (Obj 12) = [0]"
proof -
  have c: "cb_type demo (Obj 12) = MCB" "demo_lists (Obj 12) = []" "state demo (Obj 12) = 2" "mb_count demo (Obj 12) \<noteq> 0" "\<not> psq_full demo"
    "queued demo (Obj 12) = [3]"
    by (simp_all add: demo_def demo_lists_def psq_full_def queued_def ring_def)
  from isr_mbx_receive_phantom [OF demo_system_ok _ c(1-5)] show ?thesis unfolding c(6) by auto
qed

text \<open>A message lost.  When an interrupt has posted a message for a mailbox that is full and has a waiting sender, serving
  the request drops the message, writes the message of the waiting sender over the oldest one in the buffer, and leaves
  the count above the size.\<close>

theorem rt_mbx_psh_overwrites:
  assumes "system_ok L D k" "c \<noteq> NULL" "cb_type k c = MCB" "L c = t # ts" "state k c = 2"
  shows "\<exists>k'. rt_mbx_psh c m (rt_put_rdy_first (run k) (set_state (run k) READY k)) = Some k' \<and> mb_count k' c = mb_size k c + 1
    \<and> mb_msg k' c = (mb_msg k c)[unat (mb_last k c) := tcb_msg k t] \<and> mb_last k' c = mb_last k c"
proof (rule enter_posting [OF assms(1)])
  fix l r
  let ?k = "k\<lparr>p_lnk := l, p_rlnk := r, state := (state k)(run k := READY)\<rparr>" and ?L = "L(os_rdy := run k # L os_rdy)"
  assume p: "rt_put_rdy_first (run k) (set_state (run k) READY k) = ?k" and P: "posting ?L D ?k"
  have o: "obj k c" by (rule mcb_obj [OF assms(2,3)])
  have "c \<noteq> os_rdy" "run k \<noteq> c" using rdy_not_obj [OF system_okD(5) [OF assms(1)]] o tcb_not_obj [OF system_okD(7) [OF assms(1)] o] by auto
  then have x: "?L c = t # ts" "state ?k c = 2" using assms(4,5) by simp_all
  have c: "cb_type ?k c = MCB" using assms(3) by simp
  have "mailbox_ok k c True" using mailboxD [OF assms(1-3)] assms(4) by simp
  then have "mailbox_ok ?k c True" using \<open>run k \<noteq> c\<close> by (simp add: mailbox_ok_def)
  from mbx_psh_overwrites [OF postingD(1) [OF P] assms(2) c this x, of m] show ?thesis unfolding p by simp
qed

theorem rt_mbx_psh_overwrites_witness:
  "\<exists>k'. rt_mbx_psh (Obj 11) 8 (rt_put_rdy_first (Obj 1) (set_state (Obj 1) READY demo)) = Some k' \<and> mb_count k' (Obj 11) = 3 \<and> mb_msg k' (Obj 11) = [5, 9]"
proof -
  have c: "cb_type demo (Obj 11) = MCB" "demo_lists (Obj 11) = [Obj 4]" "state demo (Obj 11) = 2" "run demo = Obj 1" "mb_size demo (Obj 11) = 2"
    "mb_msg demo (Obj 11) = [7, 9]" "unat (mb_last demo (Obj 11)) = 0" "tcb_msg demo (Obj 4) = 5"
    by (simp_all add: demo_def demo_lists_def)
  from rt_mbx_psh_overwrites [OF demo_system_ok _ c(1-3), of 8] show ?thesis unfolding c(4-8) by auto
qed

end
