(* ===== verification/Spec2Isabelle.thy ===== *)
theory Spec2Isabelle
  imports Crc16 Config JsonRound JsonBuffer JsonMinify JsonBuild JsonList Iap RtxProps
begin

text \<open>
  A verification development for onlineProgram, the firmware of a stand-alone programmer on a K64F board: it programs
  NXP microcontrollers over their serial boot loader (ISP), from a binary file on an SD card or with identifiers that a
  server sends as JSON, and runs on mbed with the RTX kernel.

  Reading the models.  Each definition is the translation of a function, of a block or of a type of the code; it keeps
  the name of the code.  Machine integers are words of their C width.  A pointer into an object is the list of the bytes
  from there to the end of the object (\<open>Prelude\<close>); a read or write behind the end, an unterminated string and
  a NULL dereference are the result \<open>None\<close>, so a theorem that ends in \<open>Some\<close> says that none of them happens.  What is
  not in the repository, or is not computation, is a parameter: the target chip (a function from the bytes it receives
  to what it puts on the line), the file system, what sockets deliver, the contents of fresh memory, floating
  point arithmetic, the flash controller, the user timers of the kernel.

  The parts, from the bottom, and their theories.

  \<^item> \<open>UU\<close>: \<open>UUencode/UUencode.cpp\<close>.  \<open>UUencodeLine\<close>, \<open>UUdecodeLine\<close> and their loops; a line of 1 to 45 bytes
    round-trips (\<open>UU_line_roundtrip\<close>), the footprint of the encoder, and its overread.
  \<^item> \<open>Crc16\<close>: \<open>CRC16/lib_crc16.cpp\<close>.  The table-driven update equals the bitwise division.
  \<^item> \<open>Isp\<close>, \<open>IspBlock\<close>: \<open>Program/program.cpp\<close>.  Every ISP command over a serial line; \<open>command_value\<close> is the shape
    all of them share.  The locale \<open>line_codec\<close> is what the block transfers need of the line codec; it is interpreted
    with the functions of \<open>UU\<close>.
  \<^item> \<open>Programmer\<close>, \<open>ProgrammerWire\<close>, \<open>ProgrammerUid\<close>, \<open>ProgrammerFiles\<close>: the programming functions of
    \<open>OnlineProgram.cpp\<close> (\<open>programBinFileV1\<close>, \<open>programBinFileV2\<close>, \<open>programUID\<close>, \<open>detectFile\<close>, \<open>strFlit\<close>).  A successful
    run has sent exactly the patched image and read it back; against a target that answers as the protocol says the run
    succeeds.
  \<^item> \<open>Json\<close>, \<open>JsonParse\<close>, \<open>JsonPrint\<close>, \<open>JsonRound\<close>, \<open>JsonBuffer\<close>: \<open>cJSON/cJSON.cpp\<close>.  The reader with the number of
    heap blocks in use, the printer into blocks of its own and into a growing buffer; the reader returns on every
    terminated text, leaks nothing and builds well-formed trees; what the printer prints is read back as the same tree.
    \<open>JsonBuild\<close>: the constructors and \<open>cJSON_Duplicate\<close>, with the blocks each outcome leaves.  \<open>JsonMinify\<close>:
    \<open>cJSON_Minify\<close> in place, against a reference on texts; it turns formatted output into unformatted output.
    \<open>JsonList\<close>: \<open>cJSON_Delete\<close> and the editing of lists on the pointers themselves, as operations on lists of items.
  \<^item> \<open>Network\<close>: \<open>network.cpp\<close>.  The messages to and from the server.
  \<^item> \<open>Indicator\<close>, \<open>Device\<close>, \<open>Config\<close>: \<open>indicator.cpp\<close> and the threads of \<open>OnlineProgram.cpp\<close>.  \<open>world\<close> is the whole
    state; \<open>step\<close> interleaves buttons, timer thread and the phases of the main thread; it refines a small status automaton.
  \<^item> \<open>Iap\<close>: \<open>FreeScaleIAP/FreescaleIAP.cpp\<close>.  The flash driver over a controller that \<open>conforms\<close>.
  \<^item> The RTX kernel, \<open>mbed-rtos/rtx/TARGET_CORTEX_M\<close>, as compiled with \<open>__CMSIS_RTOS\<close>.  \<open>Rtx\<close>: control blocks and
    \<open>rt_List.c\<close>; \<open>RtxBox\<close>: \<open>rt_MemBox.c\<close>, \<open>rt_Memory.c\<close>; \<open>RtxCalls\<close>: \<open>rt_Task.c\<close>, \<open>rt_Time.c\<close>, \<open>rt_Robin.c\<close>,
    \<open>rt_Semaphore.c\<close>, \<open>rt_Event.c\<close>, \<open>rt_Mailbox.c\<close>, \<open>rt_Mutex.c\<close>, \<open>rt_System.c\<close>.  \<open>RtxRing\<close>, \<open>RtxLists\<close> and \<open>RtxDelay\<close>
    relate circular buffers to queues, linked lists to lists of tasks and the delay list to a map from tasks to ticks;
    \<open>RtxSched\<close> and \<open>RtxKernel\<close> prove of each call that it returns and keeps the kernel consistent (\<open>system_ok\<close>);
    \<open>RtxQueue\<close> has the interface of a list by priority as the locale \<open>prio_list\<close>, with the lists of the kernel as its
    instance; \<open>RtxMail\<close> is about mailboxes, \<open>RtxPost\<close> about the requests that interrupts post and \<open>rt_pop_req\<close> carries out;
    \<open>RtxSystem\<close> puts the calls together (\<open>reaches\<close>), and \<open>RtxProps\<close> states the properties.  \<open>RtxPool\<close> is about the two
    allocators: first fit on the elements of a pool, and the stack of free blocks of a box.

  Fuel and termination.  \<open>parse_value\<close> and the printers recurse with fuel; \<open>cJSON_Parse_returns\<close> shows that a fuel above
  the length of the text is enough, and the callers use such a fuel: 513 for a socket buffer of 512 bytes
  (\<open>Network\<close>), 1025 for the configuration file (\<open>Config\<close>).  The buffer theorem holds for texts below \<open>2 ^ 30\<close> bytes, the
  range in which \<open>pow2gt\<close> does not overflow.  Loops of the kernel over links are partial functions: \<open>None\<close> when they
  do not return; on consistent lists they do.  All other loops are structural or have a measure.

  Not modelled.  Output on the debug console, apart from the progress bar; \<open>main\<close> behind \<open>while(1){}\<close> is modelled as if
  the loop were not there.  The LCD driver (\<open>C12832\<close>) is disabled in this configuration.  The SD card driver with the FAT
  file system (ChaN), the lwIP stack, the Ethernet driver and the mbed hardware layer are third-party code that the
  program calls through a few functions, which are the parameters above.  Of the kernel, the creation and deletion of
  tasks, the suspend calls and \<open>rt_CMSIS.c\<close> are left out; mutexes, \<open>rt_tsk_prio\<close>, \<open>rt_sem_delete\<close> and \<open>isr_mbx_receive\<close> are
  modelled, but not part of the calls that \<open>reaches\<close> composes: a mutex and
  \<open>rt_tsk_prio\<close> change priorities, \<open>rt_sem_delete\<close> ends the life of its object, and \<open>isr_mbx_receive\<close> can leave a mailbox
  with a message that nobody has sent (\<open>RtxProps\<close>).
\<close>

end
